(* ===== verification/Prelude.thy ===== *)
theory Prelude
  imports Main "HOL-Library.Word" "HOL-Library.Monad_Syntax"
begin

text \<open>
  What every component of the development shares.

  \<^item> The widths of the machine: OS/161 runs on a 32-bit MIPS, so \<open>unsigned\<close>, \<open>size_t\<close>,
    \<open>uint32_t\<close> and pointers are \<open>32 word\<close>, a byte is an \<open>8 word\<close>.
  \<^item> The error numbers of \<open>kern/include/kern/errno.h\<close>. A function of the kernel that
    returns an \<open>int\<close> error code returns a sum: \<open>Inl e\<close> for the code \<open>e\<close>, \<open>Inr v\<close>
    for 0 together with what the C function stores through its result pointers.
  \<^item> The ways a kernel function does not come back: \<open>None\<close> is a failed \<open>KASSERT\<close>, a
    \<open>panic\<close>, the fault of reading through a null pointer or a loop that never ends. A
    function with such a path has an \<open>option\<close> type, and "it returns" is a statement of the
    form \<open>\<exists>y. f x = Some y\<close>.
  \<^item> The generic lemmas on options, lists and words that the components use.
\<close>

type_synonym u8 = "8 word"
type_synonym u32 = "32 word"
type_synonym u64 = "64 word"

named_theorems kdefs \<open>definitions a component unfolds to run its operations\<close>
named_theorems kinv \<open>invariant preservation facts\<close>

section \<open>Error codes\<close>

datatype (plugins only: code size) errno =
    ENOSYS | ENOMEM | EAGAIN | EINTR | EFAULT | ENAMETOOLONG | EINVAL | EPERM | EACCES
  | EMPROC | ENPROC | ENOEXEC | E2BIG | ESRCH | ECHILD | ENOTDIR | EISDIR | ENOENT | ELOOP
  | ENOTEMPTY | EEXIST | EMLINK | EXDEV | ENODEV | ENXIO | EBUSY | EMFILE | ENFILE | EBADF
  | EIOCTL | EIO | ESPIPE | EPIPE | EROFS | ENOSPC | EDQUOT | EFBIG | EFTYPE | EDOM | ERANGE
  | EILSEQ | ENOTSOCK | EISSOCK | EISCONN | ENOTCONN | ESHUTDOWN | EPFNOSUPPORT
  | ESOCKTNOSUPPORT | EPROTONOSUPPORT | EPROTOTYPE | EAFNOSUPPORT | ENOPROTOOPT | EADDRINUSE
  | EADDRNOTAVAIL | ENETDOWN | ENETUNREACH | EHOSTDOWN | EHOSTUNREACH | ECONNREFUSED
  | ETIMEDOUT | ECONNRESET | EMSGSIZE | ENOTSUP

primrec errno_code :: "errno \<Rightarrow> nat" where
  "errno_code ENOSYS = 1"
| "errno_code ENOMEM = 3"
| "errno_code EAGAIN = 4"
| "errno_code EINTR = 5"
| "errno_code EFAULT = 6"
| "errno_code ENAMETOOLONG = 7"
| "errno_code EINVAL = 8"
| "errno_code EPERM = 9"
| "errno_code EACCES = 10"
| "errno_code EMPROC = 11"
| "errno_code ENPROC = 12"
| "errno_code ENOEXEC = 13"
| "errno_code E2BIG = 14"
| "errno_code ESRCH = 15"
| "errno_code ECHILD = 16"
| "errno_code ENOTDIR = 17"
| "errno_code EISDIR = 18"
| "errno_code ENOENT = 19"
| "errno_code ELOOP = 20"
| "errno_code ENOTEMPTY = 21"
| "errno_code EEXIST = 22"
| "errno_code EMLINK = 23"
| "errno_code EXDEV = 24"
| "errno_code ENODEV = 25"
| "errno_code ENXIO = 26"
| "errno_code EBUSY = 27"
| "errno_code EMFILE = 28"
| "errno_code ENFILE = 29"
| "errno_code EBADF = 30"
| "errno_code EIOCTL = 31"
| "errno_code EIO = 32"
| "errno_code ESPIPE = 33"
| "errno_code EPIPE = 34"
| "errno_code EROFS = 35"
| "errno_code ENOSPC = 36"
| "errno_code EDQUOT = 37"
| "errno_code EFBIG = 38"
| "errno_code EFTYPE = 39"
| "errno_code EDOM = 40"
| "errno_code ERANGE = 41"
| "errno_code EILSEQ = 42"
| "errno_code ENOTSOCK = 43"
| "errno_code EISSOCK = 44"
| "errno_code EISCONN = 45"
| "errno_code ENOTCONN = 46"
| "errno_code ESHUTDOWN = 47"
| "errno_code EPFNOSUPPORT = 48"
| "errno_code ESOCKTNOSUPPORT = 49"
| "errno_code EPROTONOSUPPORT = 50"
| "errno_code EPROTOTYPE = 51"
| "errno_code EAFNOSUPPORT = 52"
| "errno_code ENOPROTOOPT = 53"
| "errno_code EADDRINUSE = 54"
| "errno_code EADDRNOTAVAIL = 55"
| "errno_code ENETDOWN = 56"
| "errno_code ENETUNREACH = 57"
| "errno_code EHOSTDOWN = 58"
| "errno_code EHOSTUNREACH = 59"
| "errno_code ECONNREFUSED = 60"
| "errno_code ETIMEDOUT = 61"
| "errno_code ECONNRESET = 62"
| "errno_code EMSGSIZE = 63"
| "errno_code ENOTSUP = 64"

lemma errno_code_bounds: "0 < errno_code e \<and> errno_code e \<le> 64"
  by (cases e) simp_all

section \<open>Assertions\<close>

text \<open>\<open>KASSERT\<close>: a failed assertion ends in \<open>badassert\<close>, which panics.\<close>

definition kassert :: "bool \<Rightarrow> unit option" where
  "kassert b = (if b then Some () else None)"

lemma kassert_simps [simp]: "kassert True = Some ()" "kassert False = None"
  by (simp_all add: kassert_def)

lemma kassert_eq_Some [simp]: "kassert b = Some u \<longleftrightarrow> b"
  by (simp add: kassert_def)

lemma kassert_bind [simp]: "(kassert b \<bind> f) = Some y \<longleftrightarrow> b \<and> f () = Some y"
  by (simp add: kassert_def)

text \<open>\<open>DIVROUNDUP\<close> of \<open>kern/include/lib.h\<close>, on machine words: the sum wraps.\<close>

definition DIVROUNDUP :: "u32 \<Rightarrow> u32 \<Rightarrow> u32" where
  "DIVROUNDUP a b = (a + b - 1) div b"

definition ROUNDUP :: "u32 \<Rightarrow> u32 \<Rightarrow> u32" where
  "ROUNDUP a b = DIVROUNDUP a b * b"

section \<open>Words\<close>

lemma unat_u32_lt [simp]: "unat (x :: u32) < 4294967296"
  using unsigned_less [of x] by simp

lemma unat_of_nat_u32: "n < 2 ^ 32 \<Longrightarrow> unat (of_nat n :: u32) = n"
  by (simp add: unat_of_nat)

lemma unat_plus_u32: "unat x + unat y < 2 ^ 32 \<Longrightarrow> unat (x + y :: u32) = unat x + unat y"
  by (simp add: unat_word_ariths)

lemma unat_inc_u32: "unat x < 2 ^ 32 - 1 \<Longrightarrow> unat (x + 1 :: u32) = Suc (unat x)"
  using unat_plus_u32 [of x 1] by simp

lemma unat_add1_u32: "x + 1 \<noteq> 0 \<Longrightarrow> unat (x + 1 :: u32) = unat x + 1"
  using unatSuc [of x] by (simp add: add.commute)

lemma unat_dec_u32: "x \<noteq> 0 \<Longrightarrow> unat (x - 1 :: u32) = unat x - 1"
  by (metis unat_minus_one)

lemma unat_DIVROUNDUP:
  assumes "unat a + unat b - 1 < 2 ^ 32" and "0 < unat b"
  shows "unat (DIVROUNDUP a b) = (unat a + unat b - 1) div unat b"
proof -
  have "unat (b - 1) = unat b - 1"
    using assms(2) by (intro unat_dec_u32) auto
  then have "unat (a + (b - 1)) = unat a + unat b - 1"
    using assms unat_plus_u32 [of a "b - 1"] by simp
  then show ?thesis
    by (simp add: DIVROUNDUP_def unat_div_distrib add_diff_eq)
qed

section \<open>Lists\<close>

lemma set_update_subset: "set (xs[i := x]) \<subseteq> insert x (set xs)"
  by (rule set_update_subset_insert)

lemma distinct_split_unique:
  assumes "distinct (as @ x # bs)" and "as @ x # bs = cs @ x # ds"
  shows "as = cs \<and> bs = ds"
proof -
  have "x \<notin> set as" "x \<notin> set bs" "x \<notin> set cs" "x \<notin> set ds"
    using assms by (auto dest: arg_cong [of _ _ distinct])
  then show ?thesis
    using assms(2) by (metis append_Cons_eq_iff)
qed

section \<open>Arrays\<close>

text \<open>An array access outside the array is a fault.\<close>

definition get_at :: "'a list \<Rightarrow> nat \<Rightarrow> 'a option" where
  "get_at xs i = (if i < length xs then Some (xs ! i) else None)"

definition put_at :: "nat \<Rightarrow> 'a \<Rightarrow> 'a list \<Rightarrow> 'a list option" where
  "put_at i x xs = (if i < length xs then Some (xs[i := x]) else None)"

lemma get_at_Some [simp]: "i < length xs \<Longrightarrow> get_at xs i = Some (xs ! i)"
  by (simp add: get_at_def)

lemma put_at_Some [simp]: "i < length xs \<Longrightarrow> put_at i x xs = Some (xs[i := x])"
  by (simp add: put_at_def)

lemma get_at_None [simp]: "get_at xs i = None \<longleftrightarrow> length xs \<le> i"
  by (simp add: get_at_def)

section \<open>Decimal numerals\<close>

text \<open>What \<open>%u\<close> prints.\<close>

fun dec_digits :: "nat \<Rightarrow> string" where
  "dec_digits n = (if n < 10 then [char_of (48 + n)] else dec_digits (n div 10) @ [char_of (48 + n mod 10)])"

declare dec_digits.simps [simp del]

end
