(* ===== verification/Threadlist.thy ===== *)
theory Threadlist
  imports Prelude
begin

text \<open>
  The doubly linked thread lists of \<open>kern/thread/threadlist.c\<close>, at the level of pointers.

  A list node is embedded either in a list (its two bookends \<open>tl_head\<close> and \<open>tl_tail\<close>) or
  in a thread (\<open>t_listnode\<close>), so a node's address is one of three constructors and the heap
  is a record of the fields \<open>tln_prev\<close>, \<open>tln_next\<close> and \<open>tln_self\<close> indexed by node and
  of the field \<open>tl_count\<close> indexed by list. Every assignment of the C code is one update of
  this record; following a null pointer is \<open>None\<close>. \<open>DEBUGASSERT\<close> evaluates its argument and
  does nothing (\<open>kern/include/lib.h\<close>), so it leaves no trace here; \<open>KASSERT\<close> is
  \<open>kassert\<close>.

  The abstraction \<open>tl_inv h f N\<close> says that the heap \<open>h\<close> holds, for every initialised
  list \<open>l\<close>, exactly the sequence of threads \<open>f l\<close>; the operations are shown to refine the
  list operations \<open>#\<close>, \<open>@\<close>, \<open>tl\<close> and \<open>butlast\<close>, leaving all other lists alone. The
  locale \<open>thread_lists\<close> is that contract; its clients are the run queues and wait channels.
\<close>

section \<open>The heap of list nodes\<close>

type_synonym tid = nat
type_synonym cpuid = nat

text \<open>
  Where a \<open>struct threadlist\<close> lives: in a \<open>struct cpu\<close> (its run queue and its zombies), in
  a \<open>struct wchan\<close>, or on the stack of a function.
\<close>

datatype tlid = Runqueue cpuid | Zombies cpuid | Wchan nat | Local nat

datatype tlnode = Head tlid | Tail tlid | TNode tid

record tlheap =
  tln_prev :: "tlnode \<Rightarrow> tlnode option"
  tln_next :: "tlnode \<Rightarrow> tlnode option"
  tln_self :: "tlnode \<Rightarrow> tid option"
  tl_count :: "tlid \<Rightarrow> u32"

abbreviation set_prev :: "tlnode \<Rightarrow> tlnode option \<Rightarrow> tlheap \<Rightarrow> tlheap" where
  "set_prev n p h \<equiv> h\<lparr>tln_prev := (tln_prev h)(n := p)\<rparr>"

abbreviation set_next :: "tlnode \<Rightarrow> tlnode option \<Rightarrow> tlheap \<Rightarrow> tlheap" where
  "set_next n p h \<equiv> h\<lparr>tln_next := (tln_next h)(n := p)\<rparr>"

abbreviation set_self :: "tlnode \<Rightarrow> tid option \<Rightarrow> tlheap \<Rightarrow> tlheap" where
  "set_self n t h \<equiv> h\<lparr>tln_self := (tln_self h)(n := t)\<rparr>"

abbreviation set_count :: "tlid \<Rightarrow> u32 \<Rightarrow> tlheap \<Rightarrow> tlheap" where
  "set_count l c h \<equiv> h\<lparr>tl_count := (tl_count h)(l := c)\<rparr>"

section \<open>The operations\<close>

definition threadlistnode_init :: "tlnode \<Rightarrow> tid option \<Rightarrow> tlheap \<Rightarrow> tlheap option" where
  "threadlistnode_init tln t h = do {
     kassert (t \<noteq> None);
     let h = set_next tln None h;
     let h = set_prev tln None h;
     let h = set_self tln t h;
     Some h }"

definition threadlistnode_cleanup :: "tlnode \<Rightarrow> tlheap \<Rightarrow> tlheap option" where
  "threadlistnode_cleanup tln h = do {
     kassert (tln_next h tln = None);
     kassert (tln_prev h tln = None);
     kassert (tln_self h tln \<noteq> None);
     Some h }"

definition threadlist_init :: "tlid \<Rightarrow> tlheap \<Rightarrow> tlheap" where
  "threadlist_init l h =
    (let h = set_next (Head l) (Some (Tail l)) h;
         h = set_prev (Head l) None h;
         h = set_next (Tail l) None h;
         h = set_prev (Tail l) (Some (Head l)) h;
         h = set_self (Head l) None h;
         h = set_self (Tail l) None h;
         h = set_count l 0 h
     in h)"

definition threadlist_isempty :: "tlid \<Rightarrow> tlheap \<Rightarrow> bool" where
  "threadlist_isempty l h = (tl_count h l = 0)"

definition threadlist_cleanup :: "tlid \<Rightarrow> tlheap \<Rightarrow> tlheap option" where
  "threadlist_cleanup l h = do {
     kassert (threadlist_isempty l h);
     kassert (tl_count h l = 0);
     Some h }"

definition threadlist_insertafternode :: "tlnode \<Rightarrow> tid \<Rightarrow> tlheap \<Rightarrow> tlheap option" where
  "threadlist_insertafternode onlist t h = do {
     let addee = TNode t;
     let h = set_prev addee (Some onlist) h;
     let h = set_next addee (tln_next h onlist) h;
     p \<leftarrow> tln_prev h addee;
     let h = set_next p (Some addee) h;
     n \<leftarrow> tln_next h addee;
     let h = set_prev n (Some addee) h;
     Some h }"

definition threadlist_insertbeforenode :: "tid \<Rightarrow> tlnode \<Rightarrow> tlheap \<Rightarrow> tlheap option" where
  "threadlist_insertbeforenode t onlist h = do {
     let addee = TNode t;
     let h = set_prev addee (tln_prev h onlist) h;
     let h = set_next addee (Some onlist) h;
     p \<leftarrow> tln_prev h addee;
     let h = set_next p (Some addee) h;
     n \<leftarrow> tln_next h addee;
     let h = set_prev n (Some addee) h;
     Some h }"

definition threadlist_removenode :: "tlnode \<Rightarrow> tlheap \<Rightarrow> tlheap option" where
  "threadlist_removenode tln h = do {
     p \<leftarrow> tln_prev h tln;
     let h = set_next p (tln_next h tln) h;
     n \<leftarrow> tln_next h tln;
     let h = set_prev n (tln_prev h tln) h;
     let h = set_prev tln None h;
     let h = set_next tln None h;
     Some h }"

definition threadlist_addhead :: "tlid \<Rightarrow> tid \<Rightarrow> tlheap \<Rightarrow> tlheap option" where
  "threadlist_addhead l t h = do {
     h \<leftarrow> threadlist_insertafternode (Head l) t h;
     Some (set_count l (tl_count h l + 1) h) }"

definition threadlist_addtail :: "tlid \<Rightarrow> tid \<Rightarrow> tlheap \<Rightarrow> tlheap option" where
  "threadlist_addtail l t h = do {
     h \<leftarrow> threadlist_insertbeforenode t (Tail l) h;
     Some (set_count l (tl_count h l + 1) h) }"

definition threadlist_remhead :: "tlid \<Rightarrow> tlheap \<Rightarrow> (tid option \<times> tlheap) option" where
  "threadlist_remhead l h = do {
     tln \<leftarrow> tln_next h (Head l);
     if tln_next h tln = None then Some (None, h)
     else do {
       h \<leftarrow> threadlist_removenode tln h;
       let h = set_count l (tl_count h l - 1) h;
       Some (tln_self h tln, h) } }"

definition threadlist_remtail :: "tlid \<Rightarrow> tlheap \<Rightarrow> (tid option \<times> tlheap) option" where
  "threadlist_remtail l h = do {
     tln \<leftarrow> tln_prev h (Tail l);
     if tln_prev h tln = None then Some (None, h)
     else do {
       h \<leftarrow> threadlist_removenode tln h;
       let h = set_count l (tl_count h l - 1) h;
       Some (tln_self h tln, h) } }"

definition threadlist_insertafter :: "tlid \<Rightarrow> tid \<Rightarrow> tid \<Rightarrow> tlheap \<Rightarrow> tlheap option" where
  "threadlist_insertafter l onlist addee h = do {
     h \<leftarrow> threadlist_insertafternode (TNode onlist) addee h;
     Some (set_count l (tl_count h l + 1) h) }"

definition threadlist_insertbefore :: "tlid \<Rightarrow> tid \<Rightarrow> tid \<Rightarrow> tlheap \<Rightarrow> tlheap option" where
  "threadlist_insertbefore l addee onlist h = do {
     h \<leftarrow> threadlist_insertbeforenode addee (TNode onlist) h;
     Some (set_count l (tl_count h l + 1) h) }"

definition threadlist_remove :: "tlid \<Rightarrow> tid \<Rightarrow> tlheap \<Rightarrow> tlheap option" where
  "threadlist_remove l t h = do {
     h \<leftarrow> threadlist_removenode (TNode t) h;
     Some (set_count l (tl_count h l - 1) h) }"

text \<open>
  The iteration macro \<open>THREADLIST_FORALL\<close>: the sequence of values its loop variable takes,
  \<open>None\<close> if the loop faults or runs forever. \<open>forall_from t\<close> is the loop with the variable
  at \<open>t\<close>.
\<close>

partial_function (option) forall_from :: "tlheap \<Rightarrow> tid option \<Rightarrow> tid list option" where
  "forall_from h t = (case t of None \<Rightarrow> Some []
     | Some i \<Rightarrow> do {
         n \<leftarrow> tln_next h (TNode i);
         is \<leftarrow> forall_from h (tln_self h n);
         Some (i # is) })"

definition threadlist_forall :: "tlid \<Rightarrow> tlheap \<Rightarrow> tid list option" where
  "threadlist_forall l h = do {
     n \<leftarrow> tln_next h (Head l);
     forall_from h (tln_self h n) }"

partial_function (option) forall_rev_from :: "tlheap \<Rightarrow> tid option \<Rightarrow> tid list option" where
  "forall_rev_from h t = (case t of None \<Rightarrow> Some []
     | Some i \<Rightarrow> do {
         n \<leftarrow> tln_prev h (TNode i);
         is \<leftarrow> forall_rev_from h (tln_self h n);
         Some (i # is) })"

definition threadlist_forall_rev :: "tlid \<Rightarrow> tlheap \<Rightarrow> tid list option" where
  "threadlist_forall_rev l h = do {
     n \<leftarrow> tln_prev h (Tail l);
     forall_rev_from h (tln_self h n) }"

section \<open>Splicing a node in and out\<close>

definition linked :: "tlheap \<Rightarrow> tlnode \<Rightarrow> tlnode \<Rightarrow> bool" where
  "linked h x y \<longleftrightarrow> tln_next h x = Some y \<and> tln_prev h y = Some x"

definition tl_splice :: "tlnode \<Rightarrow> tlnode \<Rightarrow> tlnode \<Rightarrow> tlheap \<Rightarrow> tlheap" where
  "tl_splice p m n h = h\<lparr>tln_next := (tln_next h)(m := Some n, p := Some m),
                      tln_prev := (tln_prev h)(m := Some p, n := Some m)\<rparr>"

definition tl_unsplice :: "tlnode \<Rightarrow> tlnode \<Rightarrow> tlnode \<Rightarrow> tlheap \<Rightarrow> tlheap" where
  "tl_unsplice p m n h = h\<lparr>tln_next := (tln_next h)(p := Some n, m := None),
                        tln_prev := (tln_prev h)(n := Some p, m := None)\<rparr>"

lemma insertafternode_splice:
  assumes "tln_next h p = Some n" and "p \<noteq> TNode t" and "n \<noteq> TNode t"
  shows "threadlist_insertafternode p t h = Some (tl_splice p (TNode t) n h)"
  using assms by (auto simp: threadlist_insertafternode_def tl_splice_def Let_def fun_eq_iff)

lemma insertbeforenode_splice:
  assumes "tln_prev h n = Some p" and "p \<noteq> TNode t" and "n \<noteq> TNode t"
  shows "threadlist_insertbeforenode t n h = Some (tl_splice p (TNode t) n h)"
  using assms by (auto simp: threadlist_insertbeforenode_def tl_splice_def Let_def fun_eq_iff)

lemma removenode_unsplice:
  assumes "linked h p m" and "linked h m n" and "p \<noteq> m" and "n \<noteq> m"
  shows "threadlist_removenode m h = Some (tl_unsplice p m n h)"
  using assms by (auto simp: threadlist_removenode_def tl_unsplice_def linked_def Let_def fun_eq_iff)

text \<open>A chain is a sequence of nodes in which each is linked to the next.\<close>

abbreviation chain :: "tlheap \<Rightarrow> tlnode list \<Rightarrow> bool" where
  "chain h ns \<equiv> successively (linked h) ns"

lemma chain_splice:
  assumes "chain h (ps @ p # n # ns)" and "distinct (ps @ p # n # ns)"
    and "m \<notin> set (ps @ p # n # ns)"
  shows "chain (tl_splice p m n h) (ps @ p # m # n # ns)"
proof -
  have "linked h p n"
    using assms(1) by (simp add: successively_append_iff)
  have "chain h (ps @ [p]) \<longleftrightarrow> chain (tl_splice p m n h) (ps @ [p])"
    using assms(2,3) \<open>linked h p n\<close>
    by (intro successively_cong) (auto simp: linked_def tl_splice_def)
  moreover have "chain h (n # ns) \<longleftrightarrow> chain (tl_splice p m n h) (n # ns)"
    using assms(2,3) \<open>linked h p n\<close>
    by (intro successively_cong) (auto simp: linked_def tl_splice_def)
  moreover have "linked (tl_splice p m n h) p m" "linked (tl_splice p m n h) m n"
    using assms(2,3) by (auto simp: linked_def tl_splice_def)
  ultimately show ?thesis
    using assms(1)
    by (simp add: successively_append_iff successively_Cons split: if_splits)
qed

lemma chain_unsplice:
  assumes "chain h (ps @ p # m # n # ns)" and "distinct (ps @ p # m # n # ns)"
  shows "chain (tl_unsplice p m n h) (ps @ p # n # ns)"
proof -
  have l: "linked h p m" "linked h m n"
    using assms(1) by (simp_all add: successively_append_iff)
  have "chain h (ps @ [p]) \<longleftrightarrow> chain (tl_unsplice p m n h) (ps @ [p])"
    using assms(2) l by (intro successively_cong) (auto simp: linked_def tl_unsplice_def)
  moreover have "chain h (n # ns) \<longleftrightarrow> chain (tl_unsplice p m n h) (n # ns)"
    using assms(2) l by (intro successively_cong) (auto simp: linked_def tl_unsplice_def)
  moreover have "linked (tl_unsplice p m n h) p n"
    using assms(2) by (auto simp: linked_def tl_unsplice_def)
  ultimately show ?thesis
    using assms(1)
    by (simp add: successively_append_iff successively_Cons split: if_splits)
qed

section \<open>The abstraction\<close>

definition tl_nodes :: "tlid \<Rightarrow> tid list \<Rightarrow> tlnode list" where
  "tl_nodes l xs = Head l # map TNode xs @ [Tail l]"

definition tl_rep :: "tlheap \<Rightarrow> tlid \<Rightarrow> tid list \<Rightarrow> bool" where
  "tl_rep h l xs \<longleftrightarrow>
     chain h (tl_nodes l xs) \<and> distinct xs \<and>
     tln_prev h (Head l) = None \<and> tln_next h (Tail l) = None \<and>
     tln_self h (Head l) = None \<and> tln_self h (Tail l) = None \<and>
     (\<forall>x \<in> set xs. tln_self h (TNode x) = Some x) \<and>
     length xs < 2 ^ 32 \<and> tl_count h l = of_nat (length xs)"

definition off_list :: "tlheap \<Rightarrow> tid \<Rightarrow> bool" where
  "off_list h t \<longleftrightarrow> tln_prev h (TNode t) = None \<and> tln_next h (TNode t) = None \<and>
     tln_self h (TNode t) = Some t"

text \<open>
  \<open>f\<close> gives the contents of every initialised list, \<open>N\<close> the threads whose node has been
  initialised: a thread is on at most one list, and one on no list has a clean node. There are
  fewer than \<open>2 ^ 32\<close> threads, since each occupies a distinct kernel address.
\<close>

definition on_some :: "(tlid \<rightharpoonup> tid list) \<Rightarrow> tid \<Rightarrow> bool" where
  "on_some f t \<longleftrightarrow> (\<exists>l xs. f l = Some xs \<and> t \<in> set xs)"

definition tl_inv :: "tlheap \<Rightarrow> (tlid \<rightharpoonup> tid list) \<Rightarrow> tid set \<Rightarrow> bool" where
  "tl_inv h f N \<longleftrightarrow>
     (\<forall>l xs. f l = Some xs \<longrightarrow> tl_rep h l xs \<and> set xs \<subseteq> N) \<and>
     (\<forall>l l' xs ys t. f l = Some xs \<and> f l' = Some ys \<and> t \<in> set xs \<and> t \<in> set ys \<longrightarrow> l = l') \<and>
     (\<forall>t \<in> N. \<not> on_some f t \<longrightarrow> off_list h t) \<and>
     finite N \<and> card N < 2 ^ 32"

lemma distinct_tl_nodes: "distinct xs \<Longrightarrow> distinct (tl_nodes l xs)"
  by (auto simp: tl_nodes_def distinct_map inj_on_def)

lemma set_tl_nodes: "set (tl_nodes l xs) = {Head l, Tail l} \<union> TNode ` set xs"
  by (auto simp: tl_nodes_def)

text \<open>The parts of the heap that a list depends on.\<close>

lemma tl_rep_frame:
  assumes "tl_rep h l xs"
    and "\<And>n. n \<in> set (tl_nodes l xs) \<Longrightarrow> tln_next h' n = tln_next h n"
    and "\<And>n. n \<in> set (tl_nodes l xs) \<Longrightarrow> tln_prev h' n = tln_prev h n"
    and "tln_self h' = tln_self h" and "tl_count h' l = tl_count h l"
  shows "tl_rep h' l xs"
proof -
  have "chain h (tl_nodes l xs) \<longleftrightarrow> chain h' (tl_nodes l xs)"
    using assms(2,3) by (intro successively_cong) (simp_all add: linked_def)
  then show ?thesis
    using assms(1,4,5) assms(2) [of "Tail l"] assms(3) [of "Head l"]
    by (simp add: tl_rep_def tl_nodes_def)
qed

text \<open>
  The two heap transformers on a represented list: \<open>bs\<close> is what stands before the point of
  the splice and \<open>as\<close> what stands after it.
\<close>

definition before_node :: "tlid \<Rightarrow> tid list \<Rightarrow> tlnode" where
  "before_node l bs = last (Head l # map TNode bs)"

definition after_node :: "tlid \<Rightarrow> tid list \<Rightarrow> tlnode" where
  "after_node l as = hd (map TNode as @ [Tail l])"

lemma before_node_simps [simp]:
  "before_node l [] = Head l" "before_node l (bs @ [b]) = TNode b"
  by (simp_all add: before_node_def)

lemma after_node_simps [simp]:
  "after_node l [] = Tail l" "after_node l (a # as) = TNode a"
  by (simp_all add: after_node_def)

lemma tl_nodes_split:
  "tl_nodes l (bs @ as) =
     butlast (Head l # map TNode bs) @ before_node l bs # after_node l as #
     tl (map TNode as @ [Tail l])"
proof -
  have "Head l # map TNode bs = butlast (Head l # map TNode bs) @ [before_node l bs]"
    by (simp add: before_node_def)
  moreover have "map TNode as @ [Tail l] = after_node l as # tl (map TNode as @ [Tail l])"
    by (simp add: after_node_def)
  ultimately show ?thesis
    unfolding tl_nodes_def by (metis append.assoc append_Cons append_Nil map_append)
qed

lemma tl_nodes_split_mid:
  "tl_nodes l (bs @ t # as) =
     butlast (Head l # map TNode bs) @ before_node l bs # TNode t # after_node l as #
     tl (map TNode as @ [Tail l])"
  using tl_nodes_split [of l bs "t # as"] by (simp add: after_node_def)

lemma linked_ends:
  assumes "tl_rep h l (bs @ as)"
  shows "linked h (before_node l bs) (after_node l as)"
  using assms by (simp add: tl_rep_def tl_nodes_split successively_append_iff)

lemma linked_mid:
  assumes "tl_rep h l (bs @ t # as)"
  shows "linked h (before_node l bs) (TNode t)" and "linked h (TNode t) (after_node l as)"
  using assms by (simp_all add: tl_rep_def tl_nodes_split_mid successively_append_iff)

lemma before_node_neq: "t \<notin> set bs \<Longrightarrow> before_node l bs \<noteq> TNode t"
  by (cases bs rule: rev_cases) auto

lemma after_node_neq: "t \<notin> set as \<Longrightarrow> after_node l as \<noteq> TNode t"
  by (cases as) auto

lemma before_node_in: "before_node l bs \<in> set (tl_nodes l (bs @ as))"
  by (simp add: tl_nodes_split)

lemma after_node_in: "after_node l as \<in> set (tl_nodes l (bs @ as))"
  by (simp add: tl_nodes_split)

lemma tl_rep_splice:
  assumes rep: "tl_rep h l (bs @ as)" and new: "t \<notin> set (bs @ as)"
    and self: "tln_self h (TNode t) = Some t" and len: "length (bs @ as) + 1 < 2 ^ 32"
  shows "tl_rep (set_count l (tl_count h l + 1)
           (tl_splice (before_node l bs) (TNode t) (after_node l as) h)) l (bs @ t # as)"
proof -
  let ?h = "tl_splice (before_node l bs) (TNode t) (after_node l as) h"
  have d: "distinct (tl_nodes l (bs @ as))"
    using rep by (simp add: tl_rep_def distinct_tl_nodes)
  have m: "TNode t \<notin> set (tl_nodes l (bs @ as))"
    using new by (auto simp: set_tl_nodes)
  have c: "chain h (tl_nodes l (bs @ as))"
    using rep by (simp add: tl_rep_def)
  have "chain ?h (tl_nodes l (bs @ t # as))"
    using chain_splice [OF c [unfolded tl_nodes_split] d [unfolded tl_nodes_split]
        m [unfolded tl_nodes_split]]
    by (simp only: tl_nodes_split_mid)
  then have "chain (set_count l (tl_count h l + 1) ?h) (tl_nodes l (bs @ t # as))"
    by (rule successively_mono) (simp add: linked_def)
  moreover have "Head l \<noteq> after_node l as" "Tail l \<noteq> before_node l bs"
    by (cases as; simp) (cases bs rule: rev_cases; simp)
  ultimately show ?thesis
    using rep new self len by (auto simp: tl_rep_def tl_splice_def)
qed

lemma tl_rep_unsplice:
  assumes rep: "tl_rep h l (bs @ t # as)"
  shows "tl_rep (set_count l (tl_count h l - 1)
           (tl_unsplice (before_node l bs) (TNode t) (after_node l as) h)) l (bs @ as)"
proof -
  let ?h = "tl_unsplice (before_node l bs) (TNode t) (after_node l as) h"
  have d: "distinct (tl_nodes l (bs @ t # as))"
    using rep by (simp add: tl_rep_def distinct_tl_nodes)
  have c: "chain h (tl_nodes l (bs @ t # as))"
    using rep by (simp add: tl_rep_def)
  have "chain ?h (tl_nodes l (bs @ as))"
    using chain_unsplice [OF c [unfolded tl_nodes_split_mid] d [unfolded tl_nodes_split_mid]]
    by (simp only: tl_nodes_split)
  then have "chain (set_count l (tl_count h l - 1) ?h) (tl_nodes l (bs @ as))"
    by (rule successively_mono) (simp add: linked_def)
  moreover have "Head l \<noteq> after_node l as" "Tail l \<noteq> before_node l bs"
    by (cases as; simp) (cases bs rule: rev_cases; simp)
  ultimately show ?thesis
    using rep by (auto simp: tl_rep_def tl_unsplice_def)
qed

lemma tl_inv_rep: "tl_inv h f N \<Longrightarrow> f l = Some xs \<Longrightarrow> tl_rep h l xs"
  by (simp add: tl_inv_def)

lemma tl_inv_sub: "tl_inv h f N \<Longrightarrow> f l = Some xs \<Longrightarrow> set xs \<subseteq> N"
  by (simp add: tl_inv_def)

lemma tl_inv_distinct: "tl_inv h f N \<Longrightarrow> f l = Some xs \<Longrightarrow> distinct xs"
  by (auto dest: tl_inv_rep simp: tl_rep_def)

lemma tl_inv_disjoint:
  "tl_inv h f N \<Longrightarrow> f l = Some xs \<Longrightarrow> f l' = Some ys \<Longrightarrow> t \<in> set xs \<Longrightarrow> t \<in> set ys \<Longrightarrow> l = l'"
  unfolding tl_inv_def by blast

lemma tl_inv_length:
  assumes "tl_inv h f N" and "f l = Some xs" and "t \<in> N" and "t \<notin> set xs"
  shows "length xs + 1 < 2 ^ 32"
proof -
  have "card (insert t (set xs)) \<le> card N"
    using assms tl_inv_sub [OF assms(1,2)] by (intro card_mono) (auto simp: tl_inv_def)
  moreover have "card (insert t (set xs)) = length xs + 1"
    using assms(4) tl_inv_distinct [OF assms(1,2)] by (simp add: distinct_card)
  ultimately show ?thesis
    using assms(1) by (simp add: tl_inv_def)
qed

lemma tl_inv_nodes_disjoint:
  assumes "tl_inv h f N" and "f l = Some xs" and "f l' = Some ys" and "l \<noteq> l'"
  shows "set (tl_nodes l xs) \<inter> set (tl_nodes l' ys) = {}"
  using assms(4) tl_inv_disjoint [OF assms(1-3)] by (auto simp: set_tl_nodes)

definition elsewhere :: "(tlid \<rightharpoonup> tid list) \<Rightarrow> tlid \<Rightarrow> tid \<Rightarrow> bool" where
  "elsewhere f l t \<longleftrightarrow> (\<exists>l' zs. l' \<noteq> l \<and> f l' = Some zs \<and> t \<in> set zs)"

lemma on_some_upd: "on_some (f(l \<mapsto> ys)) t \<longleftrightarrow> t \<in> set ys \<or> elsewhere f l t"
  by (auto simp: on_some_def elsewhere_def)

lemma on_some_iff: "f l = Some ys \<Longrightarrow> on_some f t \<longleftrightarrow> t \<in> set ys \<or> elsewhere f l t"
  using on_some_upd [of f l ys t] by (simp add: fun_upd_idem)

lemma on_some_single [simp]: "on_some [l \<mapsto> xs] t \<longleftrightarrow> t \<in> set xs"
  by (auto simp: on_some_def split: if_splits)

lemma tl_inv_off: "tl_inv h f N \<Longrightarrow> t \<in> N \<Longrightarrow> \<not> on_some f t \<Longrightarrow> off_list h t"
  by (simp add: tl_inv_def)

lemma tl_inv_splice:
  assumes inv: "tl_inv h f N" and l: "f l = Some (bs @ as)"
    and t: "t \<in> N" and new: "\<not> on_some f t"
  shows "tl_inv (set_count l (tl_count h l + 1)
           (tl_splice (before_node l bs) (TNode t) (after_node l as) h))
           (f(l \<mapsto> bs @ t # as)) N" (is "tl_inv ?h _ _")
proof -
  have tn: "t \<notin> set (bs @ as)" using new by (simp add: on_some_iff [of f l, OF l])
  have self: "tln_self h (TNode t) = Some t"
    using tl_inv_off [OF inv t new] by (simp add: off_list_def)
  have this_list: "tl_rep ?h l (bs @ t # as)"
    using tl_rep_splice [OF tl_inv_rep [OF inv l] tn self tl_inv_length [OF inv l t tn]] .
  have others: "tl_rep ?h l' ys" if "f l' = Some ys" "l' \<noteq> l" for l' ys
  proof (rule tl_rep_frame [OF tl_inv_rep [OF inv that(1)]])
    have dis: "set (tl_nodes l (bs @ as)) \<inter> set (tl_nodes l' ys) = {}"
      using tl_inv_nodes_disjoint [OF inv l that(1)] that(2) by auto
    moreover have "TNode t \<notin> set (tl_nodes l' ys)"
      using new that(1) by (auto simp: set_tl_nodes on_some_def)
    ultimately have "n \<noteq> before_node l bs" "n \<noteq> after_node l as" "n \<noteq> TNode t"
      if "n \<in> set (tl_nodes l' ys)" for n
      using that before_node_in [of l bs as] after_node_in [of l as bs] by auto
    then show "n \<in> set (tl_nodes l' ys) \<Longrightarrow> tln_next ?h n = tln_next h n"
      and "n \<in> set (tl_nodes l' ys) \<Longrightarrow> tln_prev ?h n = tln_prev h n" for n
      by (simp_all add: tl_splice_def)
  qed (use that(2) in \<open>simp_all add: tl_splice_def\<close>)
  have clean: "off_list ?h x" if "x \<in> N" "\<not> on_some (f(l \<mapsto> bs @ t # as)) x" for x
  proof -
    have x: "x \<noteq> t" "x \<notin> set bs" "x \<notin> set as" "off_list h x"
      using that tl_inv_off [OF inv that(1)] by (auto simp: on_some_upd on_some_iff [of f l, OF l])
    then show ?thesis
      using before_node_neq [of x bs l] after_node_neq [of x as l]
      by (auto simp: off_list_def tl_splice_def)
  qed
  show ?thesis
    unfolding tl_inv_def
  proof (intro conjI allI impI ballI)
    show "tl_rep ?h l' ys" if "(f(l \<mapsto> bs @ t # as)) l' = Some ys" for l' ys
      using that this_list others by (auto split: if_splits)
    show "set ys \<subseteq> N" if "(f(l \<mapsto> bs @ t # as)) l' = Some ys" for l' ys
      using that t tl_inv_sub [OF inv l] tl_inv_sub [OF inv, of l' ys]
      by (auto split: if_splits)
    show "a = b" if "(f(l \<mapsto> bs @ t # as)) a = Some xs \<and> (f(l \<mapsto> bs @ t # as)) b = Some ys \<and>
        x \<in> set xs \<and> x \<in> set ys" for a b xs ys x
      using that l new tl_inv_disjoint [OF inv] by (fastforce simp: on_some_def split: if_splits)
    show "finite N" "card N < 2 ^ 32" using inv by (simp_all add: tl_inv_def)
  qed (rule clean)
qed

lemma tl_inv_unsplice:
  assumes inv: "tl_inv h f N" and l: "f l = Some (bs @ t # as)"
  shows "tl_inv (set_count l (tl_count h l - 1)
           (tl_unsplice (before_node l bs) (TNode t) (after_node l as) h))
           (f(l \<mapsto> bs @ as)) N" (is "tl_inv ?h _ _")
proof -
  have d: "t \<notin> set bs" "t \<notin> set as"
    using tl_inv_distinct [OF inv l] by auto
  have this_list: "tl_rep ?h l (bs @ as)"
    using tl_rep_unsplice [OF tl_inv_rep [OF inv l]] .
  have others: "tl_rep ?h l' ys" if "f l' = Some ys" "l' \<noteq> l" for l' ys
  proof (rule tl_rep_frame [OF tl_inv_rep [OF inv that(1)]])
    have "set (tl_nodes l (bs @ t # as)) \<inter> set (tl_nodes l' ys) = {}"
      using tl_inv_nodes_disjoint [OF inv l that(1)] that(2) by auto
    then have "n \<noteq> before_node l bs" "n \<noteq> after_node l as" "n \<noteq> TNode t"
      if "n \<in> set (tl_nodes l' ys)" for n
      using that by (auto simp: tl_nodes_split_mid)
    then show "n \<in> set (tl_nodes l' ys) \<Longrightarrow> tln_next ?h n = tln_next h n"
      and "n \<in> set (tl_nodes l' ys) \<Longrightarrow> tln_prev ?h n = tln_prev h n" for n
      by (simp_all add: tl_unsplice_def)
  qed (use that(2) in \<open>simp_all add: tl_unsplice_def\<close>)
  have clean: "off_list ?h x" if "x \<in> N" "\<not> on_some (f(l \<mapsto> bs @ as)) x" for x
  proof (cases "x = t")
    case True
    then show ?thesis
      using tl_inv_rep [OF inv l] by (simp add: off_list_def tl_unsplice_def tl_rep_def)
  next
    case False
    then have "x \<notin> set bs" "x \<notin> set as" "off_list h x"
      using that tl_inv_off [OF inv that(1)] by (auto simp: on_some_upd on_some_iff [of f l, OF l])
    then show ?thesis
      using False before_node_neq [of x bs l] after_node_neq [of x as l]
      by (auto simp: off_list_def tl_unsplice_def)
  qed
  show ?thesis
    unfolding tl_inv_def
  proof (intro conjI allI impI ballI)
    show "tl_rep ?h l' ys" if "(f(l \<mapsto> bs @ as)) l' = Some ys" for l' ys
      using that this_list others by (auto split: if_splits)
    show "set ys \<subseteq> N" if "(f(l \<mapsto> bs @ as)) l' = Some ys" for l' ys
      using that tl_inv_sub [OF inv l] tl_inv_sub [OF inv, of l' ys]
      by (auto split: if_splits)
    show "a = b" if "(f(l \<mapsto> bs @ as)) a = Some xs \<and> (f(l \<mapsto> bs @ as)) b = Some ys \<and>
        x \<in> set xs \<and> x \<in> set ys" for a b xs ys x
      using that l tl_inv_disjoint [OF inv] by (fastforce split: if_splits)
    show "finite N" "card N < 2 ^ 32" using inv by (simp_all add: tl_inv_def)
  qed (rule clean)
qed

section \<open>Every operation refines the operation on sequences\<close>

lemma threadlist_addhead_inv:
  assumes "tl_inv h f N" and "f l = Some xs" and "t \<in> N" and "\<not> on_some f t"
  shows "\<exists>h'. threadlist_addhead l t h = Some h' \<and> tl_inv h' (f(l \<mapsto> t # xs)) N"
proof -
  have "t \<notin> set xs" using assms(4) by (simp add: on_some_iff [of f l, OF assms(2)])
  moreover have "linked h (Head l) (after_node l xs)"
    using linked_ends [of h l "[]" xs] tl_inv_rep [OF assms(1,2)] by simp
  ultimately have "threadlist_insertafternode (Head l) t h =
      Some (tl_splice (Head l) (TNode t) (after_node l xs) h)"
    by (intro insertafternode_splice) (simp_all add: linked_def after_node_neq)
  then show ?thesis
    using tl_inv_splice [of h f N l "[]" xs t] assms
    by (simp add: threadlist_addhead_def tl_splice_def)
qed

lemma threadlist_addtail_inv:
  assumes "tl_inv h f N" and "f l = Some xs" and "t \<in> N" and "\<not> on_some f t"
  shows "\<exists>h'. threadlist_addtail l t h = Some h' \<and> tl_inv h' (f(l \<mapsto> xs @ [t])) N"
proof -
  have "t \<notin> set xs" using assms(4) by (simp add: on_some_iff [of f l, OF assms(2)])
  moreover have "linked h (before_node l xs) (Tail l)"
    using linked_ends [of h l xs "[]"] tl_inv_rep [OF assms(1,2)] by simp
  ultimately have "threadlist_insertbeforenode t (Tail l) h =
      Some (tl_splice (before_node l xs) (TNode t) (Tail l) h)"
    by (intro insertbeforenode_splice) (simp_all add: linked_def before_node_neq)
  then show ?thesis
    using tl_inv_splice [of h f N l xs "[]" t] assms
    by (simp add: threadlist_addtail_def tl_splice_def)
qed

lemma threadlist_insertafter_inv:
  assumes "tl_inv h f N" and "f l = Some (bs @ b # as)" and "t \<in> N" and "\<not> on_some f t"
  shows "\<exists>h'. threadlist_insertafter l b t h = Some h' \<and> tl_inv h' (f(l \<mapsto> bs @ b # t # as)) N"
proof -
  have "t \<notin> set (bs @ b # as)" using assms(4) by (simp add: on_some_iff [of f l, OF assms(2)])
  moreover have "linked h (TNode b) (after_node l as)"
    using linked_ends [of h l "bs @ [b]" as] tl_inv_rep [OF assms(1,2)] by simp
  ultimately have "threadlist_insertafternode (TNode b) t h =
      Some (tl_splice (TNode b) (TNode t) (after_node l as) h)"
    by (intro insertafternode_splice) (auto simp: linked_def after_node_neq)
  then show ?thesis
    using tl_inv_splice [of h f N l "bs @ [b]" as t] assms
    by (simp add: threadlist_insertafter_def tl_splice_def)
qed

lemma threadlist_insertbefore_inv:
  assumes "tl_inv h f N" and "f l = Some (bs @ a # as)" and "t \<in> N" and "\<not> on_some f t"
  shows "\<exists>h'. threadlist_insertbefore l t a h = Some h' \<and> tl_inv h' (f(l \<mapsto> bs @ t # a # as)) N"
proof -
  have "t \<notin> set (bs @ a # as)" using assms(4) by (simp add: on_some_iff [of f l, OF assms(2)])
  moreover have "linked h (before_node l bs) (TNode a)"
    using linked_ends [of h l bs "a # as"] tl_inv_rep [OF assms(1,2)] by simp
  ultimately have "threadlist_insertbeforenode t (TNode a) h =
      Some (tl_splice (before_node l bs) (TNode t) (TNode a) h)"
    by (intro insertbeforenode_splice) (auto simp: linked_def before_node_neq)
  then show ?thesis
    using tl_inv_splice [of h f N l bs "a # as" t] assms
    by (simp add: threadlist_insertbefore_def tl_splice_def)
qed

lemma removenode_inv:
  assumes "tl_inv h f N" and "f l = Some (bs @ t # as)"
  shows "threadlist_removenode (TNode t) h =
           Some (tl_unsplice (before_node l bs) (TNode t) (after_node l as) h)"
    and "tln_self (tl_unsplice (before_node l bs) (TNode t) (after_node l as) h) (TNode t) = Some t"
proof -
  have rep: "tl_rep h l (bs @ t # as)" by (rule tl_inv_rep [OF assms])
  have "t \<notin> set bs" "t \<notin> set as" using rep by (auto simp: tl_rep_def)
  then show "threadlist_removenode (TNode t) h =
           Some (tl_unsplice (before_node l bs) (TNode t) (after_node l as) h)"
    using linked_mid [OF rep] before_node_neq [of t bs l] after_node_neq [of t as l]
    by (intro removenode_unsplice) auto
  show "tln_self (tl_unsplice (before_node l bs) (TNode t) (after_node l as) h) (TNode t) = Some t"
    using rep by (simp add: tl_rep_def tl_unsplice_def)
qed

lemma threadlist_remove_inv:
  assumes "tl_inv h f N" and "f l = Some (bs @ t # as)"
  shows "\<exists>h'. threadlist_remove l t h = Some h' \<and> tl_inv h' (f(l \<mapsto> bs @ as)) N"
  using tl_inv_unsplice [of h f N l bs t as] removenode_inv [of h f N l bs t as] assms
  by (simp add: threadlist_remove_def tl_unsplice_def)

lemma threadlist_remhead_Nil:
  assumes "tl_inv h f N" and "f l = Some []"
  shows "threadlist_remhead l h = Some (None, h)"
  using tl_inv_rep [OF assms] linked_ends [of h l "[]" "[]"]
  by (simp add: threadlist_remhead_def linked_def tl_rep_def)

lemma threadlist_remtail_Nil:
  assumes "tl_inv h f N" and "f l = Some []"
  shows "threadlist_remtail l h = Some (None, h)"
  using tl_inv_rep [OF assms] linked_ends [of h l "[]" "[]"]
  by (simp add: threadlist_remtail_def linked_def tl_rep_def)

lemma threadlist_remhead_Cons:
  assumes "tl_inv h f N" and "f l = Some (t # xs)"
  shows "\<exists>h'. threadlist_remhead l h = Some (Some t, h') \<and> tl_inv h' (f(l \<mapsto> xs)) N"
proof -
  have "linked h (Head l) (TNode t)" "linked h (TNode t) (after_node l xs)"
    using linked_mid [of h l "[]" t xs] tl_inv_rep [OF assms] by simp_all
  then show ?thesis
    using tl_inv_unsplice [of h f N l "[]" t xs] removenode_inv [of h f N l "[]" t xs] assms
    by (simp add: threadlist_remhead_def linked_def tl_unsplice_def)
qed

lemma threadlist_remtail_snoc:
  assumes "tl_inv h f N" and "f l = Some (xs @ [t])"
  shows "\<exists>h'. threadlist_remtail l h = Some (Some t, h') \<and> tl_inv h' (f(l \<mapsto> xs)) N"
proof -
  have "linked h (before_node l xs) (TNode t)" "linked h (TNode t) (Tail l)"
    using linked_mid [of h l xs t "[]"] tl_inv_rep [OF assms] by simp_all
  then show ?thesis
    using tl_inv_unsplice [of h f N l xs t "[]"] removenode_inv [of h f N l xs t "[]"] assms
    by (simp add: threadlist_remtail_def linked_def tl_unsplice_def)
qed

lemma threadlist_isempty_iff:
  assumes "tl_inv h f N" and "f l = Some xs"
  shows "threadlist_isempty l h \<longleftrightarrow> xs = []"
  using tl_inv_rep [OF assms]
  by (auto simp: threadlist_isempty_def tl_rep_def word_of_nat_eq_0_iff dest: dvd_imp_le)

lemma threadlist_count:
  assumes "tl_inv h f N" and "f l = Some xs"
  shows "unat (tl_count h l) = length xs"
  using tl_inv_rep [OF assms] by (simp add: tl_rep_def unat_of_nat_u32)

lemma threadlist_init_inv:
  assumes "tl_inv h f N" and "f l = None \<or> f l = Some []"
  shows "tl_inv (threadlist_init l h) (f(l \<mapsto> [])) N"
proof -
  let ?h = "threadlist_init l h"
  have this_list: "tl_rep ?h l []"
    by (simp add: threadlist_init_def tl_rep_def tl_nodes_def linked_def)
  have others: "tl_rep ?h l' ys" if "f l' = Some ys" "l' \<noteq> l" for l' ys
  proof -
    have "chain h (tl_nodes l' ys) \<longleftrightarrow> chain ?h (tl_nodes l' ys)"
      using that by (intro successively_cong) (auto simp: linked_def set_tl_nodes threadlist_init_def)
    then show ?thesis
      using tl_inv_rep [OF assms(1) that(1)] that(2) by (simp add: tl_rep_def threadlist_init_def)
  qed
  have same: "on_some (f(l \<mapsto> [])) t \<longleftrightarrow> on_some f t" for t
    using assms(2) unfolding on_some_upd unfolding elsewhere_def on_some_def
    by (metis empty_iff list.set(1) option.distinct(1) option.inject)
  show ?thesis
    unfolding tl_inv_def
  proof (intro conjI allI impI ballI)
    show "tl_rep ?h l' ys" if "(f(l \<mapsto> [])) l' = Some ys" for l' ys
      using that this_list others by (auto split: if_splits)
    show "set ys \<subseteq> N" if "(f(l \<mapsto> [])) l' = Some ys" for l' ys
      using that tl_inv_sub [OF assms(1), of l' ys] by (auto split: if_splits)
    show "a = b" if "(f(l \<mapsto> [])) a = Some xs \<and> (f(l \<mapsto> [])) b = Some ys \<and>
        x \<in> set xs \<and> x \<in> set ys" for a b xs ys x
      using that tl_inv_disjoint [OF assms(1), of a xs b ys x] by (auto split: if_splits)
    show "off_list ?h t" if "t \<in> N" "\<not> on_some (f(l \<mapsto> [])) t" for t
      using tl_inv_off [OF assms(1) that(1)] that(2) same
      by (simp add: off_list_def threadlist_init_def)
    show "finite N" "card N < 2 ^ 32" using assms(1) by (simp_all add: tl_inv_def)
  qed
qed

section \<open>Iteration\<close>

lemma linked_nth:
  assumes "tl_rep h l (bs @ t # as)"
  shows "tln_next h (TNode t) = Some (after_node l as)"
    and "tln_prev h (TNode t) = Some (before_node l bs)"
  using linked_mid [OF assms] by (simp_all add: linked_def)

lemma self_after_node:
  "tl_rep h l (bs @ as) \<Longrightarrow>
   tln_self h (after_node l as) = (case as of [] \<Rightarrow> None | a # _ \<Rightarrow> Some a)"
  by (auto simp: tl_rep_def split: list.split)

lemma self_before_node:
  "tl_rep h l (bs @ as) \<Longrightarrow>
   tln_self h (before_node l bs) = (if bs = [] then None else Some (last bs))"
  by (cases bs rule: rev_cases) (auto simp: tl_rep_def)

lemma forall_from_rep:
  "tl_rep h l (bs @ as) \<Longrightarrow> forall_from h (case as of [] \<Rightarrow> None | a # _ \<Rightarrow> Some a) = Some as"
proof (induction as arbitrary: bs)
  case Nil
  show ?case by (simp add: forall_from.simps)
next
  case (Cons a as)
  then show ?case
    using linked_nth(1) [of h l bs a as] self_after_node [of h l "bs @ [a]" as]
      Cons.IH [of "bs @ [a]"]
    by (simp add: forall_from.simps [of h "Some a"])
qed

lemma forall_rev_from_rep:
  "tl_rep h l (bs @ as) \<Longrightarrow>
   forall_rev_from h (if bs = [] then None else Some (last bs)) = Some (rev bs)"
proof (induction bs arbitrary: as rule: rev_induct)
  case Nil
  show ?case by (simp add: forall_rev_from.simps)
next
  case (snoc b bs)
  then show ?case
    using linked_nth(2) [of h l bs b as] self_before_node [of h l bs "b # as"]
      snoc.IH [of "b # as"]
    by (simp add: forall_rev_from.simps [of h "Some b"])
qed

lemma threadlist_forall_rep:
  assumes "tl_rep h l xs"
  shows "threadlist_forall l h = Some xs"
  using linked_ends [of h l "[]" xs] self_after_node [of h l "[]" xs]
    forall_from_rep [of h l "[]" xs] assms
  by (simp add: threadlist_forall_def linked_def)

lemma threadlist_forall_rev_rep:
  assumes "tl_rep h l xs"
  shows "threadlist_forall_rev l h = Some (rev xs)"
  using linked_ends [of h l xs "[]"] self_before_node [of h l xs "[]"]
    forall_rev_from_rep [of h l xs "[]"] assms
  by (simp add: threadlist_forall_rev_def linked_def)

section \<open>The contract its clients rely on\<close>

text \<open>
  The loop \<open>while ((t = rem(...)) != NULL) { body(t) }\<close>, which the thread system uses to
  empty a list.
\<close>

partial_function (option) drain ::
  "('h \<Rightarrow> (tid option \<times> 'h) option) \<Rightarrow> (tid \<Rightarrow> 'h \<Rightarrow> 'h option) \<Rightarrow> 'h \<Rightarrow> 'h option" where
  "drain rem body h = do {
     (t, h) \<leftarrow> rem h;
     case t of None \<Rightarrow> Some h
     | Some i \<Rightarrow> do {
         h \<leftarrow> body i h;
         drain rem body h } }"

locale thread_lists =
  fixes inv :: "'h \<Rightarrow> (tlid \<rightharpoonup> tid list) \<Rightarrow> tid set \<Rightarrow> bool"
    and addhead addtail :: "tlid \<Rightarrow> tid \<Rightarrow> 'h \<Rightarrow> 'h option"
    and remhead remtail :: "tlid \<Rightarrow> 'h \<Rightarrow> (tid option \<times> 'h) option"
    and isempty :: "tlid \<Rightarrow> 'h \<Rightarrow> bool"
    and count :: "'h \<Rightarrow> tlid \<Rightarrow> u32"
    and init :: "tlid \<Rightarrow> 'h \<Rightarrow> 'h"
  assumes addhead: "\<lbrakk>inv h f N; f l = Some xs; t \<in> N; \<not> on_some f t\<rbrakk> \<Longrightarrow>
      \<exists>h'. addhead l t h = Some h' \<and> inv h' (f(l \<mapsto> t # xs)) N"
    and addtail: "\<lbrakk>inv h f N; f l = Some xs; t \<in> N; \<not> on_some f t\<rbrakk> \<Longrightarrow>
      \<exists>h'. addtail l t h = Some h' \<and> inv h' (f(l \<mapsto> xs @ [t])) N"
    and remhead_Nil: "\<lbrakk>inv h f N; f l = Some []\<rbrakk> \<Longrightarrow> remhead l h = Some (None, h)"
    and remhead_Cons: "\<lbrakk>inv h f N; f l = Some (t # xs)\<rbrakk> \<Longrightarrow>
      \<exists>h'. remhead l h = Some (Some t, h') \<and> inv h' (f(l \<mapsto> xs)) N"
    and remtail_Nil: "\<lbrakk>inv h f N; f l = Some []\<rbrakk> \<Longrightarrow> remtail l h = Some (None, h)"
    and remtail_snoc: "\<lbrakk>inv h f N; f l = Some (xs @ [t])\<rbrakk> \<Longrightarrow>
      \<exists>h'. remtail l h = Some (Some t, h') \<and> inv h' (f(l \<mapsto> xs)) N"
    and isempty: "\<lbrakk>inv h f N; f l = Some xs\<rbrakk> \<Longrightarrow> isempty l h \<longleftrightarrow> xs = []"
    and count: "\<lbrakk>inv h f N; f l = Some xs\<rbrakk> \<Longrightarrow> unat (count h l) = length xs"
    and init: "\<lbrakk>inv h f N; f l = None \<or> f l = Some []\<rbrakk> \<Longrightarrow> inv (init l h) (f(l \<mapsto> [])) N"
    and inv_sub: "\<lbrakk>inv h f N; f l = Some xs\<rbrakk> \<Longrightarrow> set xs \<subseteq> N"
    and inv_disjoint: "\<lbrakk>inv h f N; f l = Some xs; f l' = Some ys; t \<in> set xs; t \<in> set ys\<rbrakk> \<Longrightarrow> l = l'"
    and inv_distinct: "\<lbrakk>inv h f N; f l = Some xs\<rbrakk> \<Longrightarrow> distinct xs"
begin

lemma removed_off:
  assumes "inv h f N" and "f l = Some (as @ t # bs)"
  shows "\<not> on_some (f(l \<mapsto> as @ bs)) t"
proof -
  have "distinct (as @ t # bs)" using inv_distinct [OF assms] .
  moreover have "\<not> elsewhere f l t"
    using inv_disjoint [OF assms(1) assms(2)] by (auto simp: elsewhere_def)
  ultimately show ?thesis by (simp add: on_some_upd)
qed

lemma drain_moves:
  assumes "inv h f N" and "f a = Some xs" and "f b = Some ys" and "a \<noteq> b"
  shows "\<exists>h'. drain (remhead a) (addtail b) h = Some h' \<and> inv h' (f(a \<mapsto> [], b \<mapsto> ys @ xs)) N"
  using assms
proof (induction xs arbitrary: h f ys)
  case Nil
  then have eq: "f(a \<mapsto> [], b \<mapsto> ys) = f" by (auto simp: fun_eq_iff)
  have "drain (remhead a) (addtail b) h = Some h"
    using remhead_Nil [OF Nil(1,2)] by (simp add: drain.simps [of _ _ h])
  then show ?case unfolding append_Nil2 eq using Nil(1) by blast
next
  case (Cons x xs)
  obtain h1 where h1: "remhead a h = Some (Some x, h1)" "inv h1 (f(a \<mapsto> xs)) N"
    using remhead_Cons [OF Cons.prems(1,2)] by blast
  have "\<not> on_some (f(a \<mapsto> xs)) x"
    using removed_off [of h f N a "[]" x xs] Cons.prems(1,2) by simp
  moreover have "x \<in> N" using inv_sub [OF Cons.prems(1,2)] by simp
  ultimately obtain h2 where
    h2: "addtail b x h1 = Some h2" "inv h2 ((f(a \<mapsto> xs))(b \<mapsto> ys @ [x])) N"
    using addtail [OF h1(2), of b ys x] Cons.prems(3,4) by auto
  have eq: "((f(a \<mapsto> xs))(b \<mapsto> ys @ [x]))(a \<mapsto> [], b \<mapsto> (ys @ [x]) @ xs) =
      f(a \<mapsto> [], b \<mapsto> ys @ x # xs)"
    using Cons.prems(4) by (auto simp: fun_eq_iff)
  have "((f(a \<mapsto> xs))(b \<mapsto> ys @ [x])) a = Some xs" "((f(a \<mapsto> xs))(b \<mapsto> ys @ [x])) b = Some (ys @ [x])"
    using Cons.prems(4) by simp_all
  note IH = Cons.IH [OF h2(2) this Cons.prems(4)]
  have step: "drain (remhead a) (addtail b) h = drain (remhead a) (addtail b) h2"
    using h1(1) h2(1) by (simp add: drain.simps [of _ _ h])
  show ?case unfolding step using IH unfolding eq .
qed

end

interpretation tlq: thread_lists tl_inv threadlist_addhead threadlist_addtail
  threadlist_remhead threadlist_remtail threadlist_isempty tl_count threadlist_init
proof (unfold_locales, goal_cases)
  case 1 then show ?case by (rule threadlist_addhead_inv)
next
  case 2 then show ?case by (rule threadlist_addtail_inv)
next
  case 3 then show ?case by (rule threadlist_remhead_Nil)
next
  case 4 then show ?case by (rule threadlist_remhead_Cons)
next
  case 5 then show ?case by (rule threadlist_remtail_Nil)
next
  case 6 then show ?case by (rule threadlist_remtail_snoc)
next
  case 7 then show ?case by (rule threadlist_isempty_iff)
next
  case 8 then show ?case by (rule threadlist_count)
next
  case 9 then show ?case by (rule threadlist_init_inv)
next
  case 10 then show ?case by (rule tl_inv_sub)
next
  case 11 then show ?case by (rule tl_inv_disjoint)
next
  case 12 then show ?case by (rule tl_inv_distinct)
qed

section \<open>Any sequence of calls\<close>

text \<open>
  The calls of the interface as data, what the code does on one (with the thread returned, if
  any), and what its contract says a call does to the sequences of threads. \<open>tl_spec\<close> has a
  rule exactly where a caller may make the call: a thread that is added is on no list, a thread
  that is named as a neighbour or removed is on the list named.
\<close>

datatype tlop = AddHead tlid tid | AddTail tlid tid | InsertAfter tlid tid tid
  | InsertBefore tlid tid tid | Remove tlid tid | RemHead tlid | RemTail tlid

fun tl_do :: "tlop \<Rightarrow> tlheap \<Rightarrow> (tid option \<times> tlheap) option" where
  "tl_do (AddHead l t) h = map_option (Pair None) (threadlist_addhead l t h)"
| "tl_do (AddTail l t) h = map_option (Pair None) (threadlist_addtail l t h)"
| "tl_do (InsertAfter l b t) h = map_option (Pair None) (threadlist_insertafter l b t h)"
| "tl_do (InsertBefore l t a) h = map_option (Pair None) (threadlist_insertbefore l t a h)"
| "tl_do (Remove l t) h = map_option (Pair None) (threadlist_remove l t h)"
| "tl_do (RemHead l) h = threadlist_remhead l h"
| "tl_do (RemTail l) h = threadlist_remtail l h"

fun tl_run :: "tlop list \<Rightarrow> tlheap \<Rightarrow> (tid option list \<times> tlheap) option" where
  "tl_run [] h = Some ([], h)"
| "tl_run (c # cs) h = do {
     (r, h) \<leftarrow> tl_do c h;
     (rs, h) \<leftarrow> tl_run cs h;
     Some (r # rs, h) }"

inductive tl_spec :: "tid set \<Rightarrow> (tlid \<rightharpoonup> tid list) \<Rightarrow> tlop \<Rightarrow> tid option \<Rightarrow> (tlid \<rightharpoonup> tid list) \<Rightarrow> bool"
  for N where
  AddHead: "f l = Some xs \<Longrightarrow> t \<in> N \<Longrightarrow> \<not> on_some f t \<Longrightarrow> tl_spec N f (AddHead l t) None (f(l \<mapsto> t # xs))"
| AddTail: "f l = Some xs \<Longrightarrow> t \<in> N \<Longrightarrow> \<not> on_some f t \<Longrightarrow> tl_spec N f (AddTail l t) None (f(l \<mapsto> xs @ [t]))"
| InsertAfter: "f l = Some (bs @ b # as) \<Longrightarrow> t \<in> N \<Longrightarrow> \<not> on_some f t \<Longrightarrow>
    tl_spec N f (InsertAfter l b t) None (f(l \<mapsto> bs @ b # t # as))"
| InsertBefore: "f l = Some (bs @ a # as) \<Longrightarrow> t \<in> N \<Longrightarrow> \<not> on_some f t \<Longrightarrow>
    tl_spec N f (InsertBefore l t a) None (f(l \<mapsto> bs @ t # a # as))"
| Remove: "f l = Some (bs @ t # as) \<Longrightarrow> tl_spec N f (Remove l t) None (f(l \<mapsto> bs @ as))"
| RemHead_empty: "f l = Some [] \<Longrightarrow> tl_spec N f (RemHead l) None f"
| RemHead: "f l = Some (t # xs) \<Longrightarrow> tl_spec N f (RemHead l) (Some t) (f(l \<mapsto> xs))"
| RemTail_empty: "f l = Some [] \<Longrightarrow> tl_spec N f (RemTail l) None f"
| RemTail: "f l = Some (xs @ [t]) \<Longrightarrow> tl_spec N f (RemTail l) (Some t) (f(l \<mapsto> xs))"

inductive tl_specs :: "tid set \<Rightarrow> (tlid \<rightharpoonup> tid list) \<Rightarrow> tlop list \<Rightarrow> tid option list \<Rightarrow> (tlid \<rightharpoonup> tid list) \<Rightarrow> bool"
  for N where
  Nil: "tl_specs N f [] [] f"
| Cons: "tl_spec N f c r f' \<Longrightarrow> tl_specs N f' cs rs f'' \<Longrightarrow> tl_specs N f (c # cs) (r # rs) f''"

lemma tl_do_refines:
  assumes "tl_spec N f c r f'" and "tl_inv h f N"
  shows "\<exists>h'. tl_do c h = Some (r, h') \<and> tl_inv h' f' N"
  using assms
proof (induction rule: tl_spec.induct)
  case (AddHead f l xs t)
  then show ?case using threadlist_addhead_inv by fastforce
next
  case (AddTail f l xs t)
  then show ?case using threadlist_addtail_inv by fastforce
next
  case (InsertAfter f l bs b as t)
  then show ?case using threadlist_insertafter_inv by fastforce
next
  case (InsertBefore f l bs a as t)
  then show ?case using threadlist_insertbefore_inv by fastforce
next
  case (Remove f l bs t as)
  then show ?case using threadlist_remove_inv by fastforce
next
  case (RemHead_empty f l)
  then show ?case using threadlist_remhead_Nil by simp
next
  case (RemHead f l t xs)
  then show ?case unfolding tl_do.simps by (intro threadlist_remhead_Cons)
next
  case (RemTail_empty f l)
  then show ?case using threadlist_remtail_Nil by simp
next
  case (RemTail f l xs t)
  then show ?case unfolding tl_do.simps by (intro threadlist_remtail_snoc)
qed

text \<open>The nodes of freshly created threads, before any list exists.\<close>

definition tl_fresh :: tlheap where
  "tl_fresh = \<lparr>tln_prev = (\<lambda>_. None), tln_next = (\<lambda>_. None),
     tln_self = (\<lambda>n. case n of TNode t \<Rightarrow> Some t | _ \<Rightarrow> None), tl_count = (\<lambda>_. 0)\<rparr>"

lemma tl_fresh_inv: "finite N \<Longrightarrow> card N < 2 ^ 32 \<Longrightarrow> tl_inv tl_fresh Map.empty N"
  by (simp add: tl_inv_def tl_fresh_def off_list_def)

lemma tl_fresh_init: "finite N \<Longrightarrow> card N < 2 ^ 32 \<Longrightarrow> tl_inv (threadlist_init l tl_fresh) [l \<mapsto> []] N"
  using threadlist_init_inv [OF tl_fresh_inv] by simp

section \<open>Properties\<close>

text \<open>
  C1. The list code refines its contract over any sequence of legal calls: started on a heap
  whose lists hold the sequences \<open>f\<close>, the calls \<open>cs\<close> neither fault nor fail an assertion, each
  removal returns the thread that the sequence operation says, and the heap ends up holding the
  sequences \<open>f'\<close>, with every other list untouched.
\<close>

theorem threadlist_refines:
  assumes "tl_inv h f N" and "tl_specs N f cs rs f'"
  shows "\<exists>h'. tl_run cs h = Some (rs, h') \<and> tl_inv h' f' N"
  using assms(2,1)
proof (induction arbitrary: h rule: tl_specs.induct)
  case (Nil f)
  then show ?case by simp
next
  case (Cons f c r f' cs rs f'')
  then obtain h1 where "tl_do c h = Some (r, h1)" "tl_inv h1 f' N"
    using tl_do_refines by blast
  then show ?case using Cons.IH [of h1] by auto
qed

theorem threadlist_refines_witness:
  "\<exists>h'. tl_run [AddTail (Wchan 0) 7, AddHead (Wchan 0) 8, RemTail (Wchan 0)]
          (threadlist_init (Wchan 0) tl_fresh) = Some ([None, None, Some 7], h')
        \<and> tl_inv h' [Wchan 0 \<mapsto> [8]] {7, 8}"
proof -
  let ?w = "Wchan 0"
  have "tl_spec {7, 8} [?w \<mapsto> []] (AddTail ?w 7) None ([?w \<mapsto> []](?w \<mapsto> [] @ [7]))"
    by (rule tl_spec.AddTail) simp_all
  moreover have "tl_spec {7, 8} [?w \<mapsto> [7]] (AddHead ?w 8) None ([?w \<mapsto> [7]](?w \<mapsto> [8, 7]))"
    by (rule tl_spec.AddHead) simp_all
  moreover have "tl_spec {7, 8} [?w \<mapsto> [8, 7]] (RemTail ?w) (Some 7) ([?w \<mapsto> [8, 7]](?w \<mapsto> [8]))"
    by (rule tl_spec.RemTail) simp
  ultimately have "tl_specs {7, 8} [?w \<mapsto> []] [AddTail ?w 7, AddHead ?w 8, RemTail ?w]
      [None, None, Some 7] [?w \<mapsto> [8]]"
    by (auto intro!: tl_specs.intros)
  from threadlist_refines [OF tl_fresh_init this] show ?thesis by simp
qed

text \<open>
  C2. Iterating over a list with \<open>THREADLIST_FORALL\<close> ends, and visits the threads of the list
  in order, each once; \<open>THREADLIST_FORALL_REV\<close> visits them in the opposite order; the stored
  count is the number visited and \<open>threadlist_isempty\<close> says whether it is zero.
\<close>

theorem threadlist_iteration:
  assumes "tl_inv h f N" and "f l = Some xs"
  shows "threadlist_forall l h = Some xs \<and> threadlist_forall_rev l h = Some (rev xs) \<and>
    distinct xs \<and> unat (tl_count h l) = length xs \<and> (threadlist_isempty l h \<longleftrightarrow> xs = [])"
  using threadlist_forall_rep threadlist_forall_rev_rep tl_inv_rep [OF assms]
    tl_inv_distinct [OF assms] threadlist_count [OF assms] threadlist_isempty_iff [OF assms]
  by blast

theorem threadlist_iteration_witness:
  "\<exists>h. tl_run [AddTail (Runqueue 0) 3, AddTail (Runqueue 0) 4]
         (threadlist_init (Runqueue 0) tl_fresh) = Some ([None, None], h) \<and>
       threadlist_forall (Runqueue 0) h = Some [3, 4] \<and> threadlist_forall_rev (Runqueue 0) h = Some [4, 3]"
proof -
  let ?r = "Runqueue 0"
  obtain h1 where h1: "threadlist_addtail ?r 3 (threadlist_init ?r tl_fresh) = Some h1"
      "tl_inv h1 ([?r \<mapsto> []](?r \<mapsto> [] @ [3])) {3, 4}"
    using threadlist_addtail_inv [OF tl_fresh_init [of "{3, 4}" ?r], of ?r "[]" 3] by auto
  obtain h2 where h2: "threadlist_addtail ?r 4 h1 = Some h2"
      "tl_inv h2 ([?r \<mapsto> []](?r \<mapsto> [] @ [3], ?r \<mapsto> [3] @ [4])) {3, 4}"
    using threadlist_addtail_inv [OF h1(2), of ?r "[3]" 4] by auto
  show ?thesis using h1(1) h2(1) threadlist_iteration [OF h2(2), of ?r "[3, 4]"] by simp
qed

end
