(* ===== verification/Spinlock.thy ===== *)
theory Spinlock
  imports Threadlist
begin

text \<open>
  The machine state of the thread system, and its two lowest layers: the interrupt priority
  level (\<open>kern/thread/spl.c\<close>, \<open>kern/include/spl.h\<close>) and spinlocks
  (\<open>kern/thread/spinlock.c\<close>, \<open>kern/arch/mips/include/spinlock.h\<close>).

  \<open>machine\<close> collects the structures of \<open>thread.h\<close> and \<open>cpu.h\<close>: the live threads, the
  cpus, the spinlocks, the nodes of the thread lists, and per cpu the interrupt-enable bit of
  the hardware and the interprocessor-interrupt line. The functions of the C code take the number \<open>me\<close> of the cpu they run on; the
  code's \<open>curcpu\<close> is that cpu's structure and \<open>curthread\<close> its \<open>c_curthread\<close>.

  Two views of a spinlock are given. The functions \<open>spinlock_acquire\<close> and
  \<open>spinlock_release\<close> are the C functions run by one cpu while no other cpu moves: spinning on
  a lock that another cpu holds is then a loop that never ends. The relation \<open>spin_step\<close>
  interleaves any number of cpus at every access to the lock's two words, and mutual exclusion
  is proved for it.
\<close>

section \<open>Machine state\<close>

datatype threadstate = S_RUN | S_READY | S_SLEEP | S_ZOMBIE

type_synonym procid = nat

text \<open>
  What a suspended thread's saved registers resume: the rest of its own call of
  \<open>thread_switch\<close>, whose local variable \<open>spl\<close> is the argument, or, for a thread that has
  not run yet, \<open>thread_startup\<close> with its three arguments.
\<close>

datatype switchframe = Resume int | Startup u32 u32 u32

record thread =
  t_name :: string
  t_wchan_name :: "string option"
  t_state :: threadstate
  tm_badfaultfunc :: "u32 option"
  t_stack :: "u32 list option"
  t_context :: "switchframe option"
  t_cpu :: "cpuid option"
  t_proc :: "procid option"
  t_in_interrupt :: bool
  t_curspl :: int
  t_iplhigh_count :: int

text \<open>The spinlocks the thread system takes, and all others.\<close>

datatype lkid = Runqueue_lock cpuid | Ipi_lock cpuid | Proc_lock procid | Sem_lock nat | Other_lock nat

record spinlock =
  splk_lock :: u32
  splk_holder :: "cpuid option"

record tlbshootdown = ts_placeholder :: int

record cpu =
  c_number :: u32
  c_hardware_number :: u32
  c_curthread :: "tid option"
  c_hardclocks :: u32
  c_spinlocks :: u32
  c_isidle :: bool
  c_ipi_pending :: u32
  c_shootdown :: "tlbshootdown list"
  c_numshootdown :: u32

text \<open>\<open>struct proc\<close>; vnodes, address spaces and open files are named by their addresses.\<close>

record proc =
  p_name :: string
  p_numthreads :: u32
  p_addrspace :: "nat option"
  p_cwd :: "nat option"
  file_table :: "nat option list"

record machine =
  threads :: "tid \<rightharpoonup> thread"
  cpus :: "cpuid \<rightharpoonup> cpu"
  allcpus :: "cpuid list"
  curcpu_exists :: bool
  procs :: "procid \<rightharpoonup> proc"
  wc_name :: "nat \<rightharpoonup> string"
  tlh :: tlheap
  locks :: "lkid \<Rightarrow> spinlock"
  irq :: "cpuid \<Rightarrow> bool"
  ls_uniprocessor :: bool
  ctlcpu_cipi :: "u32 \<Rightarrow> bool"
  cputhreads :: "nat \<Rightarrow> tid option"

definition curthread :: "cpuid \<Rightarrow> machine \<Rightarrow> tid option" where
  "curthread me m = do { c \<leftarrow> cpus m me; c_curthread c }"

definition upd_thread :: "tid \<Rightarrow> (thread \<Rightarrow> thread) \<Rightarrow> machine \<Rightarrow> machine option" where
  "upd_thread t g m = do { r \<leftarrow> threads m t; Some (m\<lparr>threads := (threads m)(t \<mapsto> g r)\<rparr>) }"

definition upd_cpu :: "cpuid \<Rightarrow> (cpu \<Rightarrow> cpu) \<Rightarrow> machine \<Rightarrow> machine option" where
  "upd_cpu c g m = do { r \<leftarrow> cpus m c; Some (m\<lparr>cpus := (cpus m)(c \<mapsto> g r)\<rparr>) }"

definition upd_lock :: "lkid \<Rightarrow> (spinlock \<Rightarrow> spinlock) \<Rightarrow> machine \<Rightarrow> machine" where
  "upd_lock k g m = m\<lparr>locks := (locks m)(k := g (locks m k))\<rparr>"

section \<open>Interrupt priority levels\<close>

definition IPL_NONE :: int where "IPL_NONE = 0"
definition IPL_HIGH :: int where "IPL_HIGH = 1"

definition cpu_irqoff :: "cpuid \<Rightarrow> machine \<Rightarrow> machine" where
  "cpu_irqoff me m = m\<lparr>irq := (irq m)(me := False)\<rparr>"

definition cpu_irqon :: "cpuid \<Rightarrow> machine \<Rightarrow> machine" where
  "cpu_irqon me m = m\<lparr>irq := (irq m)(me := True)\<rparr>"

definition splraise :: "cpuid \<Rightarrow> int \<Rightarrow> int \<Rightarrow> machine \<Rightarrow> machine option" where
  "splraise me oldspl newspl m = do {
     kassert (oldspl = IPL_NONE);
     kassert (newspl = IPL_HIGH);
     if \<not> curcpu_exists m then Some m
     else do {
       cur \<leftarrow> curthread me m;
       r \<leftarrow> threads m cur;
       let m = (if t_iplhigh_count r = 0 then cpu_irqoff me m else m);
       upd_thread cur (\<lambda>r. r\<lparr>t_iplhigh_count := t_iplhigh_count r + 1\<rparr>) m } }"

definition spllower :: "cpuid \<Rightarrow> int \<Rightarrow> int \<Rightarrow> machine \<Rightarrow> machine option" where
  "spllower me oldspl newspl m = do {
     kassert (oldspl = IPL_HIGH);
     kassert (newspl = IPL_NONE);
     if \<not> curcpu_exists m then Some m
     else do {
       cur \<leftarrow> curthread me m;
       m \<leftarrow> upd_thread cur (\<lambda>r. r\<lparr>t_iplhigh_count := t_iplhigh_count r - 1\<rparr>) m;
       r \<leftarrow> threads m cur;
       Some (if t_iplhigh_count r = 0 then cpu_irqon me m else m) } }"

definition splx :: "cpuid \<Rightarrow> int \<Rightarrow> machine \<Rightarrow> (int \<times> machine) option" where
  "splx me spl m =
    (if \<not> curcpu_exists m then Some (spl, m)
     else do {
       cur \<leftarrow> curthread me m;
       r \<leftarrow> threads m cur;
       if t_curspl r < spl then do {
         m \<leftarrow> splraise me (t_curspl r) spl m;
         let ret = t_curspl r;
         m \<leftarrow> upd_thread cur (\<lambda>r. r\<lparr>t_curspl := spl\<rparr>) m;
         Some (ret, m) }
       else if t_curspl r > spl then do {
         let ret = t_curspl r;
         m \<leftarrow> upd_thread cur (\<lambda>r. r\<lparr>t_curspl := spl\<rparr>) m;
         m \<leftarrow> spllower me ret spl m;
         Some (ret, m) }
       else Some (spl, m) })"

definition spl0 :: "cpuid \<Rightarrow> machine \<Rightarrow> (int \<times> machine) option" where
  "spl0 me m = splx me IPL_NONE m"

definition splhigh :: "cpuid \<Rightarrow> machine \<Rightarrow> (int \<times> machine) option" where
  "splhigh me m = splx me IPL_HIGH m"

section \<open>Spinlocks, run by one cpu\<close>

definition spinlock_data_set :: "u32 \<Rightarrow> u32 \<Rightarrow> u32" where
  "spinlock_data_set sd val = val"

definition spinlock_data_get :: "u32 \<Rightarrow> u32" where
  "spinlock_data_get sd = sd"

text \<open>
  The LL/SC pair: \<open>sc\<close> says whether the store-conditional succeeds, which the hardware
  decides. The result is the value returned and the new contents of the word.
\<close>

definition spinlock_data_testandset :: "bool \<Rightarrow> u32 \<Rightarrow> u32 \<times> u32" where
  "spinlock_data_testandset sc sd =
    (let x = sd; (y, sd) = (if sc then (1, 1) else (0 :: u32, sd))
     in if y = 0 then (1, sd) else (x, sd))"

definition spinlock_init :: "lkid \<Rightarrow> machine \<Rightarrow> machine" where
  "spinlock_init k m =
     upd_lock k (\<lambda>l. l\<lparr>splk_lock := spinlock_data_set (splk_lock l) 0, splk_holder := None\<rparr>) m"

definition spinlock_cleanup :: "lkid \<Rightarrow> machine \<Rightarrow> machine option" where
  "spinlock_cleanup k m = do {
     kassert (splk_holder (locks m k) = None);
     kassert (spinlock_data_get (splk_lock (locks m k)) = 0);
     Some m }"

text \<open>The loop \<open>while (1)\<close> of \<open>spinlock_acquire\<close>, with nobody else writing the word.\<close>

partial_function (option) spin :: "u32 \<Rightarrow> u32 option" where
  "spin w =
    (if spinlock_data_get w \<noteq> 0 then spin w
     else if fst (spinlock_data_testandset True w) \<noteq> 0
       then spin (snd (spinlock_data_testandset True w))
     else Some (snd (spinlock_data_testandset True w)))"

definition spinlock_acquire :: "cpuid \<Rightarrow> lkid \<Rightarrow> machine \<Rightarrow> machine option" where
  "spinlock_acquire me k m = do {
     m \<leftarrow> splraise me IPL_NONE IPL_HIGH m;
     (mycpu, m) \<leftarrow> (if curcpu_exists m then do {
         kassert (splk_holder (locks m k) \<noteq> Some me);
         m \<leftarrow> upd_cpu me (\<lambda>c. c\<lparr>c_spinlocks := c_spinlocks c + 1\<rparr>) m;
         Some (Some me, m) }
       else Some (None, m));
     w \<leftarrow> spin (splk_lock (locks m k));
     let m = upd_lock k (\<lambda>l. l\<lparr>splk_lock := w\<rparr>) m;
     Some (upd_lock k (\<lambda>l. l\<lparr>splk_holder := mycpu\<rparr>) m) }"

definition spinlock_release :: "cpuid \<Rightarrow> lkid \<Rightarrow> machine \<Rightarrow> machine option" where
  "spinlock_release me k m = do {
     m \<leftarrow> (if curcpu_exists m then do {
         kassert (splk_holder (locks m k) = Some me);
         c \<leftarrow> cpus m me;
         kassert (c_spinlocks c > 0);
         upd_cpu me (\<lambda>c. c\<lparr>c_spinlocks := c_spinlocks c - 1\<rparr>) m }
       else Some m);
     let m = upd_lock k (\<lambda>l. l\<lparr>splk_holder := None\<rparr>) m;
     let m = upd_lock k (\<lambda>l. l\<lparr>splk_lock := spinlock_data_set (splk_lock l) 0\<rparr>) m;
     spllower me IPL_HIGH IPL_NONE m }"

definition spinlock_do_i_hold :: "cpuid \<Rightarrow> lkid \<Rightarrow> machine \<Rightarrow> bool" where
  "spinlock_do_i_hold me k m =
    (if \<not> curcpu_exists m then True else splk_holder (locks m k) = Some me)"

section \<open>What each call does\<close>

lemma spinlock_eta: "l\<lparr>splk_lock := w, splk_holder := o'\<rparr> = \<lparr>splk_lock = w, splk_holder = o'\<rparr>"
  by (cases l) simp

lemma spinlock_eta': "l\<lparr>splk_holder := o', splk_lock := w\<rparr> = \<lparr>splk_lock = w, splk_holder = o'\<rparr>"
  by (cases l) simp

lemma spin_0: "spin 0 = Some 1"
  by (simp add: spin.simps [of 0] spinlock_data_get_def spinlock_data_testandset_def)

lemma spin_Some: "spin w = Some v \<Longrightarrow> w = 0"
proof (rule ccontr)
  assume "spin w = Some v"
  have "w = 0 \<or> False"
    by (rule spin.raw_induct [where P = "\<lambda>w v. w = 0 \<or> False", OF _ \<open>spin w = Some v\<close>])
      (auto simp: spinlock_data_get_def split: if_splits)
  moreover assume "w \<noteq> 0"
  ultimately show False by simp
qed

lemma spin_held: "w \<noteq> 0 \<Longrightarrow> spin w = None"
  using spin_Some by fastforce

text \<open>The cpu \<open>me\<close> is up, with structure \<open>c\<close>, and runs the thread \<open>cur\<close> with structure \<open>r\<close>.\<close>

definition running :: "cpuid \<Rightarrow> machine \<Rightarrow> cpu \<Rightarrow> tid \<Rightarrow> thread \<Rightarrow> bool" where
  "running me m c cur r \<longleftrightarrow>
     curcpu_exists m \<and> cpus m me = Some c \<and> c_curthread c = Some cur \<and> threads m cur = Some r"

lemma running_curthread: "running me m c cur r \<Longrightarrow> curthread me m = Some cur"
  by (simp add: running_def curthread_def)

lemma runningD:
  assumes "running me m c cur r"
  shows "curcpu_exists m" and "cpus m me = Some c" and "threads m cur = Some r"
    and "c_curthread c = Some cur"
  using assms by (simp_all add: running_def)

lemma splraise_run:
  assumes "running me m c cur r"
  shows "splraise me IPL_NONE IPL_HIGH m =
    Some (m\<lparr>threads := (threads m)(cur \<mapsto> r\<lparr>t_iplhigh_count := t_iplhigh_count r + 1\<rparr>),
            irq := (irq m)(me := (irq m me \<and> t_iplhigh_count r \<noteq> 0))\<rparr>)"
  using assms runningD [OF assms] running_curthread [OF assms] by (simp add: splraise_def upd_thread_def cpu_irqoff_def fun_upd_idem_iff)

lemma spllower_run:
  assumes "running me m c cur r"
  shows "spllower me IPL_HIGH IPL_NONE m =
    Some (m\<lparr>threads := (threads m)(cur \<mapsto> r\<lparr>t_iplhigh_count := t_iplhigh_count r - 1\<rparr>),
            irq := (irq m)(me := (irq m me \<or> t_iplhigh_count r = 1))\<rparr>)"
  using assms runningD [OF assms] running_curthread [OF assms] by (simp add: spllower_def upd_thread_def cpu_irqon_def fun_upd_idem_iff)

lemma splx_up:
  assumes "running me m c cur r" and "t_curspl r = IPL_NONE"
  shows "splx me IPL_HIGH m = Some (IPL_NONE,
    m\<lparr>threads := (threads m)(cur \<mapsto> r\<lparr>t_iplhigh_count := t_iplhigh_count r + 1, t_curspl := IPL_HIGH\<rparr>),
      irq := (irq m)(me := (irq m me \<and> t_iplhigh_count r \<noteq> 0))\<rparr>)"
  using assms runningD [OF assms(1)] running_curthread [OF assms(1)] splraise_run [OF assms(1)]
  by (simp add: splx_def IPL_NONE_def IPL_HIGH_def upd_thread_def)

lemma splx_down:
  assumes "running me m c cur r" and "t_curspl r = IPL_HIGH"
  shows "splx me IPL_NONE m = Some (IPL_HIGH,
    m\<lparr>threads := (threads m)(cur \<mapsto> r\<lparr>t_curspl := IPL_NONE, t_iplhigh_count := t_iplhigh_count r - 1\<rparr>),
      irq := (irq m)(me := (irq m me \<or> t_iplhigh_count r = 1))\<rparr>)"
proof -
  let ?m = "m\<lparr>threads := (threads m)(cur \<mapsto> r\<lparr>t_curspl := IPL_NONE\<rparr>)\<rparr>"
  have "running me ?m c cur (r\<lparr>t_curspl := IPL_NONE\<rparr>)"
    using assms(1) by (simp add: running_def)
  from spllower_run [OF this] show ?thesis
    using assms runningD [OF assms(1)] running_curthread [OF assms(1)] by (simp add: splx_def IPL_NONE_def IPL_HIGH_def upd_thread_def)
qed

lemma splx_same:
  assumes "running me m c cur r"
  shows "splx me (t_curspl r) m = Some (t_curspl r, m)"
  using assms runningD [OF assms] running_curthread [OF assms] by (simp add: splx_def)

lemma spinlock_acquire_run:
  assumes "running me m c cur r" and "splk_lock (locks m k) = 0" and "splk_holder (locks m k) \<noteq> Some me"
  shows "spinlock_acquire me k m = Some (m\<lparr>
      threads := (threads m)(cur \<mapsto> r\<lparr>t_iplhigh_count := t_iplhigh_count r + 1\<rparr>),
      irq := (irq m)(me := (irq m me \<and> t_iplhigh_count r \<noteq> 0)),
      cpus := (cpus m)(me \<mapsto> c\<lparr>c_spinlocks := c_spinlocks c + 1\<rparr>),
      locks := (locks m)(k := \<lparr>splk_lock = 1, splk_holder = Some me\<rparr>)\<rparr>)"
  using assms runningD [OF assms(1)]
  by (simp add: spinlock_acquire_def splraise_run [OF assms(1)] upd_cpu_def upd_lock_def spin_0 spinlock_eta)

lemma spinlock_release_run:
  assumes "running me m c cur r" and "splk_holder (locks m k) = Some me" and "c_spinlocks c > 0"
  shows "spinlock_release me k m = Some (m\<lparr>
      cpus := (cpus m)(me \<mapsto> c\<lparr>c_spinlocks := c_spinlocks c - 1\<rparr>),
      locks := (locks m)(k := \<lparr>splk_lock = 0, splk_holder = None\<rparr>),
      threads := (threads m)(cur \<mapsto> r\<lparr>t_iplhigh_count := t_iplhigh_count r - 1\<rparr>),
      irq := (irq m)(me := (irq m me \<or> t_iplhigh_count r = 1))\<rparr>)"
proof -
  let ?m = "m\<lparr>cpus := (cpus m)(me \<mapsto> c\<lparr>c_spinlocks := c_spinlocks c - 1\<rparr>),
      locks := (locks m)(k := \<lparr>splk_lock = 0, splk_holder = None\<rparr>)\<rparr>"
  have "running me ?m (c\<lparr>c_spinlocks := c_spinlocks c - 1\<rparr>) cur r"
    using assms(1) by (simp add: running_def)
  from spllower_run [OF this] show ?thesis
    using assms runningD [OF assms(1)]
    by (simp add: spinlock_release_def upd_cpu_def upd_lock_def spinlock_data_set_def
        spinlock_eta')
qed

section \<open>Interrupts are off exactly while something needs them off\<close>

text \<open>
  \<open>spl_ok me m\<close>: the thread running on \<open>me\<close> has raised the priority level once for its
  \<open>t_curspl\<close> and once for every spinlock its cpu holds, and interrupts are enabled exactly
  when that count is zero.
\<close>

definition spl_ok :: "cpuid \<Rightarrow> machine \<Rightarrow> bool" where
  "spl_ok me m \<longleftrightarrow> (\<exists>c cur r. running me m c cur r \<and>
     (t_curspl r = IPL_NONE \<or> t_curspl r = IPL_HIGH) \<and>
     t_iplhigh_count r = t_curspl r + int (unat (c_spinlocks c)) \<and>
     (irq m me \<longleftrightarrow> t_iplhigh_count r = 0))"

lemma uint_nn: "0 \<le> uint (x :: u32)"
  by simp

lemma spl_okI:
  assumes "running me m c cur r" and "t_curspl r = IPL_NONE \<or> t_curspl r = IPL_HIGH"
    and "t_iplhigh_count r = t_curspl r + int (unat (c_spinlocks c))"
    and "irq m me \<longleftrightarrow> t_iplhigh_count r = 0"
  shows "spl_ok me m"
  using assms unfolding spl_ok_def by blast

lemma splx_spl_ok:
  assumes "spl_ok me m" and "spl = IPL_NONE \<or> spl = IPL_HIGH"
  shows "\<exists>old m'. splx me spl m = Some (old, m') \<and> spl_ok me m' \<and>
     locks m' = locks m \<and> tlh m' = tlh m \<and> cpus m' = cpus m \<and> (old = IPL_NONE \<or> old = IPL_HIGH)"
proof -
  obtain c cur r where run: "running me m c cur r"
    and cs: "t_curspl r = IPL_NONE \<or> t_curspl r = IPL_HIGH"
    and n: "t_iplhigh_count r = t_curspl r + int (unat (c_spinlocks c))"
    and i: "irq m me \<longleftrightarrow> t_iplhigh_count r = 0"
    using assms(1) unfolding spl_ok_def by blast
  consider (same) "spl = t_curspl r" | (up) "t_curspl r = IPL_NONE" "spl = IPL_HIGH"
    | (down) "t_curspl r = IPL_HIGH" "spl = IPL_NONE"
    using cs assms(2) by auto
  then show ?thesis
  proof cases
    case same
    then show ?thesis using splx_same [OF run] assms(1) cs by auto
  next
    case up
    let ?r = "r\<lparr>t_iplhigh_count := t_iplhigh_count r + 1, t_curspl := IPL_HIGH\<rparr>"
    let ?m = "m\<lparr>threads := (threads m)(cur \<mapsto> ?r),
      irq := (irq m)(me := (irq m me \<and> t_iplhigh_count r \<noteq> 0))\<rparr>"
    have "running me ?m c cur ?r" using run by (simp add: running_def)
    from spl_okI [OF this] have "spl_ok me ?m"
      using up n i uint_nn [of "c_spinlocks c"] by (auto simp: IPL_NONE_def IPL_HIGH_def)
    then show ?thesis using splx_up [OF run up(1)] up(2) by simp
  next
    case down
    let ?r = "r\<lparr>t_curspl := IPL_NONE, t_iplhigh_count := t_iplhigh_count r - 1\<rparr>"
    let ?m = "m\<lparr>threads := (threads m)(cur \<mapsto> ?r),
      irq := (irq m)(me := (irq m me \<or> t_iplhigh_count r = 1))\<rparr>"
    have "running me ?m c cur ?r" using run by (simp add: running_def)
    from spl_okI [OF this] have "spl_ok me ?m"
      using down n i uint_nn [of "c_spinlocks c"] by (auto simp: IPL_NONE_def IPL_HIGH_def)
    then show ?thesis using splx_down [OF run down(1)] down(2) by simp
  qed
qed

lemma spinlock_acquire_spl_ok:
  assumes "spl_ok me m" and "splk_lock (locks m k) = 0" and "splk_holder (locks m k) \<noteq> Some me"
    and "\<And>c. cpus m me = Some c \<Longrightarrow> c_spinlocks c + 1 \<noteq> 0"
  shows "\<exists>m'. spinlock_acquire me k m = Some m' \<and> spl_ok me m' \<and> \<not> irq m' me \<and>
     spinlock_do_i_hold me k m' \<and> tlh m' = tlh m"
proof -
  obtain c cur r where run: "running me m c cur r"
    and cs: "t_curspl r = IPL_NONE \<or> t_curspl r = IPL_HIGH"
    and n: "t_iplhigh_count r = t_curspl r + int (unat (c_spinlocks c))"
    and i: "irq m me \<longleftrightarrow> t_iplhigh_count r = 0"
    using assms(1) unfolding spl_ok_def by blast
  let ?r = "r\<lparr>t_iplhigh_count := t_iplhigh_count r + 1\<rparr>"
  let ?c = "c\<lparr>c_spinlocks := c_spinlocks c + 1\<rparr>"
  let ?m = "m\<lparr>threads := (threads m)(cur \<mapsto> ?r),
      irq := (irq m)(me := (irq m me \<and> t_iplhigh_count r \<noteq> 0)), cpus := (cpus m)(me \<mapsto> ?c),
      locks := (locks m)(k := \<lparr>splk_lock = 1, splk_holder = Some me\<rparr>)\<rparr>"
  have c1: "int (unat (c_spinlocks c + 1)) = int (unat (c_spinlocks c)) + 1"
    using assms(4) runningD [OF run] unat_add1_u32 [of "c_spinlocks c"] by simp
  have nz: "t_iplhigh_count r + 1 \<noteq> 0"
    using n cs unfolding IPL_NONE_def IPL_HIGH_def by linarith
  have "running me ?m ?c cur ?r" using run by (simp add: running_def)
  then have "spl_ok me ?m"
    by (rule spl_okI) (use n i cs c1 nz in simp_all)
  moreover have "\<not> irq ?m me" using i by simp
  moreover have "spinlock_do_i_hold me k ?m" using runningD [OF run] by (simp add: spinlock_do_i_hold_def)
  ultimately show ?thesis
    using spinlock_acquire_run [OF run assms(2,3)] by simp
qed

lemma spinlock_release_spl_ok:
  assumes "spl_ok me m" and "splk_holder (locks m k) = Some me"
    and "\<And>c. cpus m me = Some c \<Longrightarrow> c_spinlocks c > 0"
  shows "\<exists>m'. spinlock_release me k m = Some m' \<and> spl_ok me m' \<and>
     splk_lock (locks m' k) = 0 \<and> splk_holder (locks m' k) = None \<and> tlh m' = tlh m"
proof -
  obtain c cur r where run: "running me m c cur r"
    and cs: "t_curspl r = IPL_NONE \<or> t_curspl r = IPL_HIGH"
    and n: "t_iplhigh_count r = t_curspl r + int (unat (c_spinlocks c))"
    and i: "irq m me \<longleftrightarrow> t_iplhigh_count r = 0"
    using assms(1) unfolding spl_ok_def by blast
  let ?r = "r\<lparr>t_iplhigh_count := t_iplhigh_count r - 1\<rparr>"
  let ?c = "c\<lparr>c_spinlocks := c_spinlocks c - 1\<rparr>"
  let ?m = "m\<lparr>cpus := (cpus m)(me \<mapsto> ?c),
      locks := (locks m)(k := \<lparr>splk_lock = 0, splk_holder = None\<rparr>),
      threads := (threads m)(cur \<mapsto> ?r), irq := (irq m)(me := (irq m me \<or> t_iplhigh_count r = 1))\<rparr>"
  have pos: "c_spinlocks c > 0" using assms(3) runningD [OF run] by simp
  have "c_spinlocks c \<noteq> 0" using pos by (simp add: word_neq_0_conv)
  moreover have "unat (c_spinlocks c) > 0" using pos by (simp add: word_less_nat_alt)
  ultimately have c1: "int (unat (c_spinlocks c - 1)) = int (unat (c_spinlocks c)) - 1"
    using unat_dec_u32 [of "c_spinlocks c"] by linarith
  have "running me ?m ?c cur ?r" using run by (simp add: running_def)
  from spl_okI [OF this] have "spl_ok me ?m"
    using n i cs c1 uint_nn [of "c_spinlocks c - 1"] by (auto simp: IPL_NONE_def IPL_HIGH_def)
  then show ?thesis
    using spinlock_release_run [OF run assms(2) pos] by simp
qed

section \<open>Spinlocks, contended by any number of cpus\<close>

text \<open>
  Each rule is one access of one cpu to the two words of the lock. \<open>Outside\<close>: not in the
  code of this lock; \<open>Testing\<close>: at the plain read of the loop in \<open>spinlock_acquire\<close>;
  \<open>Setting\<close>: at the test-and-set; \<open>Owning\<close>: past the loop, at the assignment of
  \<open>splk_holder\<close>; \<open>Holding\<close>: returned from \<open>spinlock_acquire\<close>; \<open>Clearing\<close>: in
  \<open>spinlock_release\<close>, at the final store.
\<close>

datatype spin_pc = Outside | Testing | Setting | Owning | Holding | Clearing

record spin_sys =
  lock_word :: u32
  lock_holder :: "cpuid option"
  spin_pcs :: "cpuid \<Rightarrow> spin_pc"

definition at_pc :: "cpuid \<Rightarrow> spin_pc \<Rightarrow> spin_sys \<Rightarrow> spin_sys" where
  "at_pc c p s = s\<lparr>spin_pcs := (spin_pcs s)(c := p)\<rparr>"

inductive spin_step :: "spin_sys \<Rightarrow> spin_sys \<Rightarrow> bool" where
  enter: "spin_pcs s c = Outside \<Longrightarrow> lock_holder s \<noteq> Some c \<Longrightarrow> spin_step s (at_pc c Testing s)"
| test_busy: "spin_pcs s c = Testing \<Longrightarrow> spinlock_data_get (lock_word s) \<noteq> 0 \<Longrightarrow> spin_step s s"
| test_free: "spin_pcs s c = Testing \<Longrightarrow> spinlock_data_get (lock_word s) = 0 \<Longrightarrow>
    spin_step s (at_pc c Setting s)"
| tas_lose: "spin_pcs s c = Setting \<Longrightarrow> spinlock_data_testandset sc (lock_word s) = (x, w) \<Longrightarrow>
    x \<noteq> 0 \<Longrightarrow> spin_step s (at_pc c Testing (s\<lparr>lock_word := w\<rparr>))"
| tas_win: "spin_pcs s c = Setting \<Longrightarrow> spinlock_data_testandset sc (lock_word s) = (x, w) \<Longrightarrow>
    x = 0 \<Longrightarrow> spin_step s (at_pc c Owning (s\<lparr>lock_word := w\<rparr>))"
| own: "spin_pcs s c = Owning \<Longrightarrow> spin_step s (at_pc c Holding (s\<lparr>lock_holder := Some c\<rparr>))"
| release: "spin_pcs s c = Holding \<Longrightarrow> lock_holder s = Some c \<Longrightarrow>
    spin_step s (at_pc c Clearing (s\<lparr>lock_holder := None\<rparr>))"
| clear: "spin_pcs s c = Clearing \<Longrightarrow>
    spin_step s (at_pc c Outside (s\<lparr>lock_word := spinlock_data_set (lock_word s) 0\<rparr>))"

inductive spin_reachable :: "spin_sys \<Rightarrow> bool" where
  start: "spin_reachable \<lparr>lock_word = 0, lock_holder = None, spin_pcs = (\<lambda>_. Outside)\<rparr>"
| step: "spin_reachable s \<Longrightarrow> spin_step s t \<Longrightarrow> spin_reachable t"

definition owner_pcs :: "spin_pc set" where
  "owner_pcs = {Owning, Holding, Clearing}"

text \<open>
  The lock word is nonzero exactly while some cpu owns the lock, no two cpus own it, and
  \<open>splk_holder\<close> names a cpu exactly from the assignment in \<open>spinlock_acquire\<close> to the one in
  \<open>spinlock_release\<close>.
\<close>

definition spin_inv :: "spin_sys \<Rightarrow> bool" where
  "spin_inv s \<longleftrightarrow>
     (lock_word s \<noteq> 0 \<longleftrightarrow> (\<exists>c. spin_pcs s c \<in> owner_pcs)) \<and>
     (\<forall>c d. spin_pcs s c \<in> owner_pcs \<and> spin_pcs s d \<in> owner_pcs \<longrightarrow> c = d) \<and>
     (\<forall>c. lock_holder s = Some c \<longleftrightarrow> spin_pcs s c = Holding)"

lemma testandset_cases:
  "spinlock_data_testandset sc w = (x, w') \<Longrightarrow> (x = 0 \<and> w = 0 \<and> w' = 1) \<or> (x \<noteq> 0 \<and> (w' = w \<or> w' = 1 \<and> w \<noteq> 0))"
  by (auto simp: spinlock_data_testandset_def split: if_splits)

lemma owner_pcs_simps [simp]:
  "Outside \<notin> owner_pcs" "Testing \<notin> owner_pcs" "Setting \<notin> owner_pcs"
  "Owning \<in> owner_pcs" "Holding \<in> owner_pcs" "Clearing \<in> owner_pcs"
  by (simp_all add: owner_pcs_def)

lemma spin_step_inv: "spin_step s t \<Longrightarrow> spin_inv s \<Longrightarrow> spin_inv t"
proof (induction rule: spin_step.induct)
  case (enter s c)
  then show ?case unfolding spin_inv_def at_pc_def by (auto; metis owner_pcs_simps spin_pc.distinct)
next
  case (test_busy s c)
  then show ?case by simp
next
  case (test_free s c)
  then show ?case unfolding spin_inv_def at_pc_def by (auto; metis owner_pcs_simps spin_pc.distinct)
next
  case (tas_lose s c sc x w)
  then have "w \<noteq> 0 \<longleftrightarrow> lock_word s \<noteq> 0"
    using testandset_cases [of sc "lock_word s" x w] by auto
  with tas_lose show ?case
    unfolding spin_inv_def at_pc_def by (auto; metis owner_pcs_simps spin_pc.distinct)
next
  case (tas_win s c sc x w)
  then have "lock_word s = 0" "w = 1"
    using testandset_cases [of sc "lock_word s" x w] by auto
  with tas_win show ?case
    unfolding spin_inv_def at_pc_def by (auto; metis owner_pcs_simps spin_pc.distinct)
next
  case (own s c)
  then show ?case unfolding spin_inv_def at_pc_def by (auto; metis owner_pcs_simps spin_pc.distinct)
next
  case (release s c)
  then show ?case unfolding spin_inv_def at_pc_def by (auto; metis owner_pcs_simps spin_pc.distinct)
next
  case (clear s c)
  then show ?case
    unfolding spin_inv_def at_pc_def spinlock_data_set_def
    by (auto; metis owner_pcs_simps spin_pc.distinct)
qed

lemma spin_reachable_inv: "spin_reachable s \<Longrightarrow> spin_inv s"
proof (induction rule: spin_reachable.induct)
  case start
  show ?case by (simp add: spin_inv_def)
next
  case (step s t)
  then show ?case by (blast intro: spin_step_inv)
qed

section \<open>The contract of spinlocks on a cpu that runs alone\<close>

text \<open>
  \<open>quiet me L s m\<close>: the spinlocks held are exactly those of \<open>L\<close>, all by \<open>me\<close>, the
  current thread's level is \<open>s\<close>, and the interrupt bookkeeping of \<open>me\<close> agrees with both.
  \<open>core me m\<close> forgets that bookkeeping: what is left is the state that spinlocks exist to
  protect. Taking and releasing locks moves \<open>L\<close> and leaves \<open>core\<close> alone.
\<close>

definition held_by :: "cpuid \<Rightarrow> lkid set \<Rightarrow> lkid \<Rightarrow> spinlock" where
  "held_by me L = (\<lambda>k. if k \<in> L then \<lparr>splk_lock = 1, splk_holder = Some me\<rparr>
                       else \<lparr>splk_lock = 0, splk_holder = None\<rparr>)"

definition quiet :: "cpuid \<Rightarrow> lkid set \<Rightarrow> int \<Rightarrow> machine \<Rightarrow> bool" where
  "quiet me L s m \<longleftrightarrow> finite L \<and> card L < 2 ^ 32 \<and>
     locks m = held_by me L \<and>
     (\<exists>c cur r. running me m c cur r \<and> t_curspl r = s \<and> (s = IPL_NONE \<or> s = IPL_HIGH) \<and>
        t_iplhigh_count r = s + int (card L) \<and> irq m me = (s + int (card L) = 0) \<and>
        c_spinlocks c = of_nat (card L))"

definition core_thread :: "thread \<Rightarrow> thread" where
  "core_thread r = r\<lparr>t_curspl := 0, t_iplhigh_count := 0\<rparr>"

definition core_cpu :: "cpu \<Rightarrow> cpu" where
  "core_cpu c = c\<lparr>c_spinlocks := 0\<rparr>"

definition core :: "cpuid \<Rightarrow> machine \<Rightarrow> machine" where
  "core me m = m\<lparr>
      threads := (\<lambda>t. if curthread me m = Some t then map_option core_thread (threads m t) else threads m t),
      cpus := (\<lambda>c. if c = me then map_option core_cpu (cpus m c) else cpus m c),
      locks := (\<lambda>_. \<lparr>splk_lock = 0, splk_holder = None\<rparr>), irq := (\<lambda>_. False)\<rparr>"

lemma quietE:
  assumes "quiet me L s m"
  obtains c cur r where "running me m c cur r" "t_curspl r = s" "s = IPL_NONE \<or> s = IPL_HIGH"
    "t_iplhigh_count r = s + int (card L)" "irq m me = (s + int (card L) = 0)"
    "c_spinlocks c = of_nat (card L)" "finite L" "card L < 2 ^ 32"
    "locks m = held_by me L"
  using assms unfolding quiet_def by metis

lemma quietI:
  assumes "running me m c cur r" "t_curspl r = s" "s = IPL_NONE \<or> s = IPL_HIGH"
    "t_iplhigh_count r = s + int (card L)" "irq m me = (s + int (card L) = 0)"
    "c_spinlocks c = of_nat (card L)" "finite L" "card L < 2 ^ 32"
    "locks m = held_by me L"
  shows "quiet me L s m"
  using assms unfolding quiet_def by blast

lemma core_bookkeeping:
  assumes "running me m c cur r" and "core_thread r' = core_thread r" and "core_cpu c' = core_cpu c"
  shows "core me (m\<lparr>threads := (threads m)(cur \<mapsto> r'), irq := i, cpus := (cpus m)(me \<mapsto> c'), locks := l\<rparr>) = core me m"
    and "core me (m\<lparr>cpus := (cpus m)(me \<mapsto> c'), locks := l, threads := (threads m)(cur \<mapsto> r'), irq := i\<rparr>) = core me m"
    and "core me (m\<lparr>threads := (threads m)(cur \<mapsto> r'), irq := i\<rparr>) = core me m"
proof -
  have "c_curthread c' = Some cur"
    using runningD(4) [OF assms(1)] arg_cong [OF assms(3), of c_curthread] by (simp add: core_cpu_def)
  then show "core me (m\<lparr>threads := (threads m)(cur \<mapsto> r'), irq := i, cpus := (cpus m)(me \<mapsto> c'), locks := l\<rparr>) = core me m"
    and "core me (m\<lparr>cpus := (cpus m)(me \<mapsto> c'), locks := l, threads := (threads m)(cur \<mapsto> r'), irq := i\<rparr>) = core me m"
    and "core me (m\<lparr>threads := (threads m)(cur \<mapsto> r'), irq := i\<rparr>) = core me m"
    using assms(2,3) runningD [OF assms(1)]
    by (auto simp: core_def curthread_def fun_eq_iff intro!: machine.equality)
qed

lemma quiet_acquire:
  assumes q: "quiet me L s m" and k: "k \<notin> L" and n: "card L < 2 ^ 32 - 1"
  shows "\<exists>m'. spinlock_acquire me k m = Some m' \<and> quiet me (insert k L) s m' \<and> core me m' = core me m"
proof -
  obtain c cur r where run: "running me m c cur r" and r: "t_curspl r = s"
    and s: "s = IPL_NONE \<or> s = IPL_HIGH" and cnt: "t_iplhigh_count r = s + int (card L)"
    and i: "irq m me = (s + int (card L) = 0)" and sl: "c_spinlocks c = of_nat (card L)"
    and fin: "finite L" and lk: "locks m = held_by me L"
    using q by (blast elim: quietE)
  let ?r = "r\<lparr>t_iplhigh_count := t_iplhigh_count r + 1\<rparr>"
  let ?c = "c\<lparr>c_spinlocks := c_spinlocks c + 1\<rparr>"
  let ?m = "m\<lparr>threads := (threads m)(cur \<mapsto> ?r),
      irq := (irq m)(me := (irq m me \<and> t_iplhigh_count r \<noteq> 0)), cpus := (cpus m)(me \<mapsto> ?c),
      locks := (locks m)(k := \<lparr>splk_lock = 1, splk_holder = Some me\<rparr>)\<rparr>"
  have acq: "spinlock_acquire me k m = Some ?m"
    by (rule spinlock_acquire_run [OF run]) (simp_all add: lk held_by_def k)
  have crd: "card (insert k L) = card L + 1" using fin k by simp
  have nn: "s \<ge> 0" using s by (auto simp: IPL_NONE_def IPL_HIGH_def)
  have "running me ?m ?c cur ?r" using run by (simp add: running_def)
  then have "quiet me (insert k L) s ?m"
    by (rule quietI) (use r s cnt i sl fin lk crd nn n in \<open>auto simp: add.commute held_by_def fun_eq_iff\<close>)
  moreover have "core me ?m = core me m"
    by (rule core_bookkeeping [OF run]) (simp_all add: core_thread_def core_cpu_def)
  ultimately show ?thesis using acq by blast
qed

lemma quiet_release:
  assumes q: "quiet me L s m" and k: "k \<in> L"
  shows "\<exists>m'. spinlock_release me k m = Some m' \<and> quiet me (L - {k}) s m' \<and> core me m' = core me m"
proof -
  obtain c cur r where run: "running me m c cur r" and r: "t_curspl r = s"
    and s: "s = IPL_NONE \<or> s = IPL_HIGH" and cnt: "t_iplhigh_count r = s + int (card L)"
    and i: "irq m me = (s + int (card L) = 0)" and sl: "c_spinlocks c = of_nat (card L)"
    and fin: "finite L" and n: "card L < 2 ^ 32"
    and lk: "locks m = held_by me L"
    using q by (rule quietE)
  let ?r = "r\<lparr>t_iplhigh_count := t_iplhigh_count r - 1\<rparr>"
  let ?c = "c\<lparr>c_spinlocks := c_spinlocks c - 1\<rparr>"
  let ?m = "m\<lparr>cpus := (cpus m)(me \<mapsto> ?c),
      locks := (locks m)(k := \<lparr>splk_lock = 0, splk_holder = None\<rparr>),
      threads := (threads m)(cur \<mapsto> ?r),
      irq := (irq m)(me := (irq m me \<or> t_iplhigh_count r = 1))\<rparr>"
  have pos: "card L > 0" using fin k by (auto simp: card_gt_0_iff)
  have crd: "card (L - {k}) = card L - 1" "int (card L - 1) = int (card L) - 1"
    "(of_nat (card L - 1) :: u32) = of_nat (card L) - 1"
    using fin k pos by (simp_all add: of_nat_diff)
  have "unat (c_spinlocks c) = card L" using sl n by (simp add: unat_of_nat_u32)
  then have "c_spinlocks c > 0" using pos by (simp add: word_less_nat_alt)
  then have rel: "spinlock_release me k m = Some ?m"
    by (intro spinlock_release_run [OF run]) (simp_all add: lk held_by_def k)
  have "running me ?m ?c cur ?r" using run by (simp add: running_def)
  then have "quiet me (L - {k}) s ?m"
    by (rule quietI) (use r s cnt i sl fin lk crd pos n in \<open>auto simp: held_by_def fun_eq_iff IPL_NONE_def IPL_HIGH_def\<close>)
  moreover have "core me ?m = core me m"
    by (rule core_bookkeeping [OF run]) (simp_all add: core_thread_def core_cpu_def)
  ultimately show ?thesis using rel by blast
qed

lemma quiet_splx:
  assumes q: "quiet me L s m" and s': "s' = IPL_NONE \<or> s' = IPL_HIGH"
  shows "\<exists>m'. splx me s' m = Some (s, m') \<and> quiet me L s' m' \<and> core me m' = core me m"
proof -
  obtain c cur r where run: "running me m c cur r" and r: "t_curspl r = s"
    and s: "s = IPL_NONE \<or> s = IPL_HIGH" and cnt: "t_iplhigh_count r = s + int (card L)"
    and i: "irq m me = (s + int (card L) = 0)" and sl: "c_spinlocks c = of_nat (card L)"
    and fin: "finite L" and n: "card L < 2 ^ 32"
    and lk: "locks m = held_by me L"
    using q by (rule quietE)
  consider (same) "s' = s" | (up) "s = IPL_NONE" "s' = IPL_HIGH" | (down) "s = IPL_HIGH" "s' = IPL_NONE"
    using s s' by auto
  then show ?thesis
  proof cases
    case same
    then show ?thesis using splx_same [OF run] q r by auto
  next
    case up
    let ?r = "r\<lparr>t_iplhigh_count := t_iplhigh_count r + 1, t_curspl := IPL_HIGH\<rparr>"
    let ?m = "m\<lparr>threads := (threads m)(cur \<mapsto> ?r),
      irq := (irq m)(me := (irq m me \<and> t_iplhigh_count r \<noteq> 0))\<rparr>"
    have "running me ?m c cur ?r" using run by (simp add: running_def)
    then have "quiet me L s' ?m"
      by (rule quietI) (use up cnt i sl fin lk n in \<open>auto simp: IPL_NONE_def IPL_HIGH_def\<close>)
    moreover have "core me ?m = core me m"
      by (rule core_bookkeeping(3) [OF run]) (simp_all add: core_thread_def)
    ultimately show ?thesis using splx_up [OF run] r up by auto
  next
    case down
    let ?r = "r\<lparr>t_curspl := IPL_NONE, t_iplhigh_count := t_iplhigh_count r - 1\<rparr>"
    let ?m = "m\<lparr>threads := (threads m)(cur \<mapsto> ?r),
      irq := (irq m)(me := (irq m me \<or> t_iplhigh_count r = 1))\<rparr>"
    have "running me ?m c cur ?r" using run by (simp add: running_def)
    then have "quiet me L s' ?m"
      by (rule quietI) (use down cnt i sl fin lk n in \<open>auto simp: IPL_NONE_def IPL_HIGH_def\<close>)
    moreover have "core me ?m = core me m"
      by (rule core_bookkeeping(3) [OF run]) (simp_all add: core_thread_def)
    ultimately show ?thesis using splx_down [OF run] r down by auto
  qed
qed

text \<open>
  A client of spinlocks sees them through this contract: acquire and release toggle
  membership in the set of held locks, and a critical section has the effect of its body.
\<close>

locale spin_locks =
  fixes quiet :: "cpuid \<Rightarrow> lkid set \<Rightarrow> int \<Rightarrow> 'm \<Rightarrow> bool"
    and core :: "cpuid \<Rightarrow> 'm \<Rightarrow> 'c"
    and acquire release :: "cpuid \<Rightarrow> lkid \<Rightarrow> 'm \<Rightarrow> 'm option"
    and splx :: "cpuid \<Rightarrow> int \<Rightarrow> 'm \<Rightarrow> (int \<times> 'm) option"
  assumes acquire: "\<lbrakk>quiet me L s m; k \<notin> L; card L < 2 ^ 32 - 1\<rbrakk> \<Longrightarrow>
      \<exists>m'. acquire me k m = Some m' \<and> quiet me (insert k L) s m' \<and> core me m' = core me m"
    and release: "\<lbrakk>quiet me L s m; k \<in> L\<rbrakk> \<Longrightarrow>
      \<exists>m'. release me k m = Some m' \<and> quiet me (L - {k}) s m' \<and> core me m' = core me m"
    and splx: "\<lbrakk>quiet me L s m; s' = IPL_NONE \<or> s' = IPL_HIGH\<rbrakk> \<Longrightarrow>
      \<exists>m'. splx me s' m = Some (s, m') \<and> quiet me L s' m' \<and> core me m' = core me m"
begin

lemma critical_section:
  assumes "quiet me L s m" and "k \<notin> L" and "card L < 2 ^ 32 - 1"
    and body: "\<And>m1. quiet me (insert k L) s m1 \<Longrightarrow> core me m1 = core me m \<Longrightarrow>
      \<exists>m2. body m1 = Some m2 \<and> quiet me (insert k L) s m2 \<and> Q (core me m2)"
  shows "\<exists>m'. (acquire me k m \<bind> (\<lambda>m. body m \<bind> (\<lambda>m. release me k m))) = Some m' \<and>
      quiet me L s m' \<and> Q (core me m')"
proof -
  obtain m1 where m1: "acquire me k m = Some m1" "quiet me (insert k L) s m1" "core me m1 = core me m"
    using acquire [OF assms(1-3)] by blast
  obtain m2 where m2: "body m1 = Some m2" "quiet me (insert k L) s m2" "Q (core me m2)"
    using body [OF m1(2,3)] by blast
  obtain m3 where m3: "release me k m2 = Some m3" "quiet me (insert k L - {k}) s m3" "core me m3 = core me m2"
    using release [OF m2(2)] by blast
  then show ?thesis using m1(1) m2 assms(2) by simp
qed

lemma high_section:
  assumes "quiet me L s m" and "s = IPL_NONE \<or> s = IPL_HIGH"
    and body: "\<And>m1. quiet me L IPL_HIGH m1 \<Longrightarrow> core me m1 = core me m \<Longrightarrow>
      \<exists>m2. body m1 = Some m2 \<and> quiet me L IPL_HIGH m2 \<and> Q (core me m2)"
  shows "\<exists>m'. (splx me IPL_HIGH m \<bind> (\<lambda>(s, m). body m \<bind> (\<lambda>m. splx me s m))) = Some (IPL_HIGH, m') \<and>
      quiet me L s m' \<and> Q (core me m')"
proof -
  obtain m1 where m1: "splx me IPL_HIGH m = Some (s, m1)" "quiet me L IPL_HIGH m1" "core me m1 = core me m"
    using splx [OF assms(1), of IPL_HIGH] by blast
  obtain m2 where m2: "body m1 = Some m2" "quiet me L IPL_HIGH m2" "Q (core me m2)"
    using body [OF m1(2,3)] by blast
  obtain m3 where "splx me s m2 = Some (IPL_HIGH, m3)" "quiet me L s m3" "core me m3 = core me m2"
    using splx [OF m2(2) assms(2)] by blast
  then show ?thesis using m1(1) m2 by simp
qed

end

interpretation sl: spin_locks quiet core spinlock_acquire spinlock_release splx
proof (unfold_locales, goal_cases)
  case 1 then show ?case by (rule quiet_acquire)
next
  case 2 then show ?case by (rule quiet_release)
next
  case 3 then show ?case by (rule quiet_splx)
qed

section \<open>Any sequence of calls on one cpu\<close>

text \<open>
  The calls as data. \<open>spl_spec\<close> is their contract: the state is the set of spinlocks held and
  the level, a lock that is acquired is not yet held and one that is released is.
\<close>

datatype splop = Splx int | Acquire lkid | Release lkid

fun spl_do :: "cpuid \<Rightarrow> splop \<Rightarrow> machine \<Rightarrow> machine option" where
  "spl_do me (Splx s) m = map_option snd (splx me s m)"
| "spl_do me (Acquire k) m = spinlock_acquire me k m"
| "spl_do me (Release k) m = spinlock_release me k m"

fun spl_run :: "cpuid \<Rightarrow> splop list \<Rightarrow> machine \<Rightarrow> machine option" where
  "spl_run me [] m = Some m"
| "spl_run me (c # cs) m = spl_do me c m \<bind> spl_run me cs"

fun spl_spec :: "splop list \<Rightarrow> lkid set \<times> int \<Rightarrow> (lkid set \<times> int) option" where
  "spl_spec [] (L, s) = Some (L, s)"
| "spl_spec (Splx s' # cs) (L, s) = (if s' = IPL_NONE \<or> s' = IPL_HIGH then spl_spec cs (L, s') else None)"
| "spl_spec (Acquire k # cs) (L, s) =
    (if k \<notin> L \<and> card L < 2 ^ 32 - 1 then spl_spec cs (insert k L, s) else None)"
| "spl_spec (Release k # cs) (L, s) = (if k \<in> L then spl_spec cs (L - {k}, s) else None)"

lemma quiet_irq: "quiet me L s m \<Longrightarrow> irq m me \<longleftrightarrow> L = {} \<and> s = IPL_NONE"
  by (auto simp: quiet_def IPL_NONE_def IPL_HIGH_def)

lemma quiet_held: "quiet me L s m \<Longrightarrow> spinlock_do_i_hold me k m \<longleftrightarrow> k \<in> L"
  by (auto simp: quiet_def spinlock_do_i_hold_def running_def held_by_def)

lemma spl_run_spec:
  "quiet me L s m \<Longrightarrow> spl_spec cs (L, s) = Some (L', s') \<Longrightarrow>
   \<exists>m'. spl_run me cs m = Some m' \<and> quiet me L' s' m' \<and> core me m' = core me m"
proof (induction cs arbitrary: L s m)
  case Nil
  then show ?case by simp
next
  case (Cons c cs)
  show ?case
  proof (cases c)
    case (Splx s1)
    then have ok: "s1 = IPL_NONE \<or> s1 = IPL_HIGH" "spl_spec cs (L, s1) = Some (L', s')"
      using Cons.prems(2) by (auto split: if_splits)
    obtain m1 where "splx me s1 m = Some (s, m1)" "quiet me L s1 m1" "core me m1 = core me m"
      using sl.splx [OF Cons.prems(1) ok(1)] by blast
    then show ?thesis using Cons.IH [OF _ ok(2)] Splx by fastforce
  next
    case (Acquire k)
    then have ok: "k \<notin> L" "card L < 2 ^ 32 - 1" "spl_spec cs (insert k L, s) = Some (L', s')"
      using Cons.prems(2) by (auto split: if_splits)
    obtain m1 where "spinlock_acquire me k m = Some m1" "quiet me (insert k L) s m1" "core me m1 = core me m"
      using sl.acquire [OF Cons.prems(1) ok(1,2)] by blast
    then show ?thesis using Cons.IH [OF _ ok(3)] Acquire by fastforce
  next
    case (Release k)
    then have ok: "k \<in> L" "spl_spec cs (L - {k}, s) = Some (L', s')"
      using Cons.prems(2) by (auto split: if_splits)
    obtain m1 where "spinlock_release me k m = Some m1" "quiet me (L - {k}) s m1" "core me m1 = core me m"
      using sl.release [OF Cons.prems(1) ok(1)] by blast
    then show ?thesis using Cons.IH [OF _ ok(2)] Release by fastforce
  qed
qed

text \<open>A machine of one cpu running one thread, with interrupts on, as after booting.\<close>

definition uniprocessor :: machine where
  "uniprocessor = \<lparr>threads = [0 \<mapsto> \<lparr>t_name = ''boot'', t_wchan_name = None, t_state = S_RUN,
       tm_badfaultfunc = None, t_stack = None, t_context = None,
       t_cpu = Some 0, t_proc = None, t_in_interrupt = False, t_curspl = 0, t_iplhigh_count = 0\<rparr>],
     cpus = [0 \<mapsto> \<lparr>c_number = 0, c_hardware_number = 0, c_curthread = Some 0, c_hardclocks = 0,
       c_spinlocks = 0, c_isidle = False, c_ipi_pending = 0,
       c_shootdown = replicate 16 \<lparr>ts_placeholder = 0\<rparr>, c_numshootdown = 0\<rparr>],
     allcpus = [0], curcpu_exists = True, procs = Map.empty, wc_name = Map.empty,
     tlh = threadlist_init (Zombies 0) (threadlist_init (Runqueue 0) tl_fresh),
     locks = (\<lambda>_. \<lparr>splk_lock = 0, splk_holder = None\<rparr>), irq = (\<lambda>_. True),
     ls_uniprocessor = True, ctlcpu_cipi = (\<lambda>_. False), cputhreads = (\<lambda>_. None)\<rparr>"

lemma uniprocessor_quiet: "quiet 0 {} IPL_NONE uniprocessor"
  by (simp add: quiet_def uniprocessor_def running_def held_by_def IPL_NONE_def)

lemma uniprocessor_spl_ok: "spl_ok 0 uniprocessor"
  by (simp add: spl_ok_def uniprocessor_def running_def IPL_NONE_def)

section \<open>Progress of contended spinlocks\<close>

lemma spin_free_progress:
  assumes "spin_pcs s c = Testing \<or> spin_pcs s c = Setting" and "lock_word s = 0"
  shows "\<exists>t. spin_step\<^sup>*\<^sup>* s t \<and> spin_pcs t c = Holding"
proof -
  obtain s1 where s1: "spin_step\<^sup>*\<^sup>* s s1" "spin_pcs s1 c = Setting" "lock_word s1 = 0"
  proof (cases "spin_pcs s c = Setting")
    case True
    then show ?thesis using that [of s] assms(2) by simp
  next
    case False
    then have "spin_step s (at_pc c Setting s)"
      using assms by (intro spin_step.test_free) (auto simp: spinlock_data_get_def)
    then show ?thesis using that [of "at_pc c Setting s"] assms(2) by (auto simp: at_pc_def)
  qed
  let ?s2 = "at_pc c Owning (s1\<lparr>lock_word := 1\<rparr>)"
  have "spin_step s1 ?s2"
    using s1 by (intro spin_step.tas_win [of _ _ True]) (simp_all add: spinlock_data_testandset_def)
  moreover have "spin_step ?s2 (at_pc c Holding (?s2\<lparr>lock_holder := Some c\<rparr>))"
    by (intro spin_step.own) (simp add: at_pc_def)
  ultimately have "spin_step\<^sup>*\<^sup>* s (at_pc c Holding (?s2\<lparr>lock_holder := Some c\<rparr>))"
    using s1(1) by (meson rtranclp.rtrancl_into_rtrancl)
  then show ?thesis by (auto simp: at_pc_def)
qed

definition freed_by :: "cpuid \<Rightarrow> spin_sys \<Rightarrow> bool" where
  "freed_by d s \<longleftrightarrow>
     (\<exists>t. spin_step\<^sup>*\<^sup>* s t \<and> lock_word t = 0 \<and> (\<forall>c. c \<noteq> d \<longrightarrow> spin_pcs t c = spin_pcs s c))"

lemma freed_by_step:
  assumes "spin_step s t" and "\<And>c. c \<noteq> d \<Longrightarrow> spin_pcs t c = spin_pcs s c" and "freed_by d t"
  shows "freed_by d s"
  using assms unfolding freed_by_def by (metis converse_rtranclp_into_rtranclp)

lemma freed_by_free: "lock_word s = 0 \<Longrightarrow> freed_by d s"
  unfolding freed_by_def by blast

lemma spin_owner_leaves:
  assumes "spin_inv s" and "spin_pcs s d \<in> owner_pcs"
  shows "freed_by d s"
proof -
  have clear: "freed_by d u" if "spin_pcs u d = Clearing" for u
    by (rule freed_by_step [OF spin_step.clear [OF that]])
      (simp_all add: at_pc_def spinlock_data_set_def freed_by_free)
  have hold: "freed_by d u" if "spin_pcs u d = Holding" "lock_holder u = Some d" for u
    by (rule freed_by_step [OF spin_step.release [OF that]]) (simp_all add: at_pc_def clear)
  have own: "freed_by d u" if "spin_pcs u d = Owning" for u
    by (rule freed_by_step [OF spin_step.own [OF that]]) (simp_all add: at_pc_def hold)
  show ?thesis
    using assms clear [of s] hold [of s] own [of s] by (auto simp: spin_inv_def owner_pcs_def)
qed

section \<open>Properties\<close>

text \<open>
  C3. Mutual exclusion of spinlocks, for any number of cpus and any interleaving of their
  accesses to the lock: at most one cpu is past \<open>spinlock_acquire\<close>, the lock's word is then
  nonzero and its holder field names that cpu, so the assertion in \<open>spinlock_release\<close> holds and
  \<open>spinlock_acquire\<close> never reports a deadlock against itself.
\<close>

theorem spinlock_mutual_exclusion:
  assumes "spin_reachable s" and "spin_pcs s c = Holding"
  shows "lock_word s \<noteq> 0 \<and> lock_holder s = Some c \<and> (\<forall>d. spin_pcs s d \<in> owner_pcs \<longrightarrow> d = c)"
  using spin_reachable_inv [OF assms(1)] assms(2) unfolding spin_inv_def
  by (metis owner_pcs_simps(5))

theorem spinlock_mutual_exclusion_witness:
  "\<exists>s. spin_reachable s \<and> spin_pcs s 4 = Holding \<and> lock_holder s = Some 4"
proof -
  let ?s0 = "\<lparr>lock_word = 0, lock_holder = None, spin_pcs = (\<lambda>_. Outside)\<rparr>"
  have enter: "spin_reachable (at_pc 4 Testing ?s0)"
    by (rule spin_reachable.step [OF spin_reachable.start spin_step.enter]) simp_all
  obtain t where t: "spin_step\<^sup>*\<^sup>* (at_pc 4 Testing ?s0) t" "spin_pcs t 4 = Holding"
    using spin_free_progress [of "at_pc 4 Testing ?s0" 4] by (auto simp: at_pc_def)
  from t(1) have "spin_reachable t"
    by (induction rule: rtranclp_induct) (auto intro: enter spin_reachable.step)
  then show ?thesis using t(2) spinlock_mutual_exclusion [of t 4] by blast
qed

text \<open>
  C4. No spinlock gets stuck: from every reachable state a cpu that is spinning in
  \<open>spinlock_acquire\<close> can still come to hold the lock, once the cpu that owns it, if there is
  one, releases it.
\<close>

theorem spinlock_progress:
  assumes "spin_reachable s" and "spin_pcs s c = Testing \<or> spin_pcs s c = Setting"
  shows "\<exists>t. spin_step\<^sup>*\<^sup>* s t \<and> spin_pcs t c = Holding"
proof (cases "lock_word s = 0")
  case True
  then show ?thesis using spin_free_progress assms(2) by blast
next
  case False
  then obtain d where d: "spin_pcs s d \<in> owner_pcs"
    using spin_reachable_inv [OF assms(1)] by (auto simp: spin_inv_def)
  obtain t where t: "spin_step\<^sup>*\<^sup>* s t" "lock_word t = 0" "\<forall>c. c \<noteq> d \<longrightarrow> spin_pcs t c = spin_pcs s c"
    using spin_owner_leaves [OF spin_reachable_inv [OF assms(1)] d] unfolding freed_by_def by blast
  moreover have "c \<noteq> d" using assms(2) d by auto
  ultimately obtain u where "spin_step\<^sup>*\<^sup>* t u" "spin_pcs u c = Holding"
    using spin_free_progress [of t c] assms(2) by auto
  then show ?thesis using t(1) by (meson rtranclp_trans)
qed

theorem spinlock_progress_witness:
  "\<exists>t. spin_step\<^sup>*\<^sup>* (at_pc 1 Testing \<lparr>lock_word = 0, lock_holder = None, spin_pcs = (\<lambda>_. Outside)\<rparr>) t \<and>
     spin_pcs t 1 = Holding"
proof -
  have "spin_reachable (at_pc 1 Testing \<lparr>lock_word = 0, lock_holder = None, spin_pcs = (\<lambda>_. Outside)\<rparr>)"
    by (rule spin_reachable.step [OF spin_reachable.start spin_step.enter]) simp_all
  then show ?thesis by (rule spinlock_progress) (simp add: at_pc_def)
qed

text \<open>
  C5. Interrupts are disabled exactly while something needs them disabled. Over any legal
  sequence of \<open>splx\<close>, \<open>spinlock_acquire\<close> and \<open>spinlock_release\<close> calls, made in any nesting
  order, no assertion fails, the state other than the bookkeeping is unchanged, and at the end
  the cpu takes interrupts exactly if it holds no spinlock and its level is \<open>IPL_NONE\<close>.
\<close>

theorem spl_discipline:
  assumes "quiet me L s m" and "spl_spec cs (L, s) = Some (L', s')"
  shows "\<exists>m'. spl_run me cs m = Some m' \<and> core me m' = core me m \<and>
    (irq m' me \<longleftrightarrow> L' = {} \<and> s' = IPL_NONE) \<and> (\<forall>k. spinlock_do_i_hold me k m' \<longleftrightarrow> k \<in> L')"
  using spl_run_spec [OF assms] quiet_irq quiet_held by blast

theorem spl_discipline_witness:
  "\<exists>m'. spl_run 0 [Acquire (Sem_lock 1), Splx IPL_HIGH, Release (Sem_lock 1)] uniprocessor = Some m'
     \<and> \<not> irq m' 0 \<and> \<not> spinlock_do_i_hold 0 (Sem_lock 1) m'"
  using spl_discipline [OF uniprocessor_quiet,
      of "[Acquire (Sem_lock 1), Splx IPL_HIGH, Release (Sem_lock 1)]" "{}" IPL_HIGH]
  by (auto simp: IPL_NONE_def IPL_HIGH_def)

end
