(* ===== verification/Thread.thy ===== *)
theory Thread
  imports Spinlock
begin

text \<open>
  The thread system of \<open>kern/thread/thread.c\<close>: creating and destroying threads and cpus, the
  context switch, migration between cpus, wait channels and interprocessor interrupts; the
  part of \<open>kern/proc/proc.c\<close> that attaches threads to processes, and \<open>kern/thread/clock.c\<close>.

  Each function takes the number \<open>me\<close> of the cpu it runs on and the machine. \<open>thread_switch\<close>
  leaves the machine running another thread, in the state in which that thread returns from
  its own earlier call of \<open>thread_switch\<close> or enters its entry point: \<open>t_context\<close> records which.
  The function \<open>cpu_idle\<close>, during which other cpus and interrupt handlers run, is an argument.
  Results of \<open>kmalloc\<close> and \<open>kstrdup\<close> are arguments as well. Threads and cpus are named by
  their addresses.
\<close>

section \<open>Processes: attaching threads\<close>

definition upd_proc :: "procid \<Rightarrow> (proc \<Rightarrow> proc) \<Rightarrow> machine \<Rightarrow> machine option" where
  "upd_proc p g m = do { r \<leftarrow> procs m p; Some (m\<lparr>procs := (procs m)(p \<mapsto> g r)\<rparr>) }"

definition curproc :: "cpuid \<Rightarrow> machine \<Rightarrow> procid option option" where
  "curproc me m = do { cur \<leftarrow> curthread me m; r \<leftarrow> threads m cur; Some (t_proc r) }"

definition proc_addthread :: "cpuid \<Rightarrow> procid \<Rightarrow> tid \<Rightarrow> machine \<Rightarrow> ((errno + unit) \<times> machine) option" where
  "proc_addthread me p t m = do {
     r \<leftarrow> threads m t;
     kassert (t_proc r = None);
     m \<leftarrow> spinlock_acquire me (Proc_lock p) m;
     m \<leftarrow> upd_proc p (\<lambda>p. p\<lparr>p_numthreads := p_numthreads p + 1\<rparr>) m;
     m \<leftarrow> spinlock_release me (Proc_lock p) m;
     (spl, m) \<leftarrow> splhigh me m;
     m \<leftarrow> upd_thread t (\<lambda>r. r\<lparr>t_proc := Some p\<rparr>) m;
     (_, m) \<leftarrow> splx me spl m;
     Some (Inr (), m) }"

definition proc_remthread :: "cpuid \<Rightarrow> tid \<Rightarrow> machine \<Rightarrow> machine option" where
  "proc_remthread me t m = do {
     r \<leftarrow> threads m t;
     p \<leftarrow> t_proc r;
     m \<leftarrow> spinlock_acquire me (Proc_lock p) m;
     pr \<leftarrow> procs m p;
     kassert (p_numthreads pr > 0);
     m \<leftarrow> upd_proc p (\<lambda>p. p\<lparr>p_numthreads := p_numthreads p - 1\<rparr>) m;
     m \<leftarrow> spinlock_release me (Proc_lock p) m;
     (spl, m) \<leftarrow> splhigh me m;
     m \<leftarrow> upd_thread t (\<lambda>r. r\<lparr>t_proc := None\<rparr>) m;
     (_, m) \<leftarrow> splx me spl m;
     Some m }"

definition proc_getas :: "cpuid \<Rightarrow> machine \<Rightarrow> (nat option \<times> machine) option" where
  "proc_getas me m = do {
     p \<leftarrow> curproc me m;
     case p of None \<Rightarrow> Some (None, m)
     | Some p \<Rightarrow> do {
         m \<leftarrow> spinlock_acquire me (Proc_lock p) m;
         pr \<leftarrow> procs m p;
         let as = p_addrspace pr;
         m \<leftarrow> spinlock_release me (Proc_lock p) m;
         Some (as, m) } }"

definition proc_setas :: "cpuid \<Rightarrow> nat option \<Rightarrow> machine \<Rightarrow> (nat option \<times> machine) option" where
  "proc_setas me newas m = do {
     p \<leftarrow> curproc me m;
     p \<leftarrow> p;
     m \<leftarrow> spinlock_acquire me (Proc_lock p) m;
     pr \<leftarrow> procs m p;
     let oldas = p_addrspace pr;
     m \<leftarrow> upd_proc p (\<lambda>p. p\<lparr>p_addrspace := newas\<rparr>) m;
     m \<leftarrow> spinlock_release me (Proc_lock p) m;
     Some (oldas, m) }"

text \<open>
  \<open>as_activate\<close> of \<open>dumbvm.c\<close> invalidates the TLB of the cpu between the two calls that change
  the interrupt level; the TLB is not part of the machine.
\<close>

definition as_activate :: "cpuid \<Rightarrow> machine \<Rightarrow> machine option" where
  "as_activate me m = do {
     (as, m) \<leftarrow> proc_getas me m;
     case as of None \<Rightarrow> Some m
     | Some _ \<Rightarrow> do {
         (spl, m) \<leftarrow> splhigh me m;
         (_, m) \<leftarrow> splx me spl m;
         Some m } }"

section \<open>Lists of threads in the machine\<close>

definition on_tlh :: "(tlheap \<Rightarrow> tlheap option) \<Rightarrow> machine \<Rightarrow> machine option" where
  "on_tlh g m = do { h \<leftarrow> g (tlh m); Some (m\<lparr>tlh := h\<rparr>) }"

definition take_tlh ::
  "(tlheap \<Rightarrow> (tid option \<times> tlheap) option) \<Rightarrow> machine \<Rightarrow> (tid option \<times> machine) option" where
  "take_tlh g m = do { (t, h) \<leftarrow> g (tlh m); Some (t, m\<lparr>tlh := h\<rparr>) }"

section \<open>The guard band of a stack\<close>

definition THREAD_STACK_MAGIC :: u32 where "THREAD_STACK_MAGIC = 0xbaadf00d"

definition STACK_SIZE :: nat where "STACK_SIZE = 4096"

definition thread_checkstack_init :: "tid \<Rightarrow> machine \<Rightarrow> machine option" where
  "thread_checkstack_init t m = do {
     r \<leftarrow> threads m t;
     s \<leftarrow> t_stack r;
     s \<leftarrow> put_at 0 THREAD_STACK_MAGIC s;
     s \<leftarrow> put_at 1 THREAD_STACK_MAGIC s;
     s \<leftarrow> put_at 2 THREAD_STACK_MAGIC s;
     s \<leftarrow> put_at 3 THREAD_STACK_MAGIC s;
     upd_thread t (\<lambda>r. r\<lparr>t_stack := Some s\<rparr>) m }"

definition thread_checkstack :: "tid \<Rightarrow> machine \<Rightarrow> unit option" where
  "thread_checkstack t m = do {
     r \<leftarrow> threads m t;
     case t_stack r of None \<Rightarrow> Some ()
     | Some s \<Rightarrow> do {
         x \<leftarrow> get_at s 0; kassert (x = THREAD_STACK_MAGIC);
         x \<leftarrow> get_at s 1; kassert (x = THREAD_STACK_MAGIC);
         x \<leftarrow> get_at s 2; kassert (x = THREAD_STACK_MAGIC);
         x \<leftarrow> get_at s 3; kassert (x = THREAD_STACK_MAGIC) } }"

section \<open>Creating and destroying threads\<close>

text \<open>\<open>al\<close> is the block \<open>kmalloc\<close> returns, \<open>dup\<close> says whether \<open>kstrdup\<close> succeeds.\<close>

definition thread_create :: "tid option \<Rightarrow> bool \<Rightarrow> string \<Rightarrow> machine \<Rightarrow> (tid option \<times> machine) option" where
  "thread_create al dup name m =
    (case al of None \<Rightarrow> Some (None, m)
     | Some t \<Rightarrow> if \<not> dup then Some (None, m) else do {
         let m = m\<lparr>threads := (threads m)(t \<mapsto> \<lparr>t_name = name, t_wchan_name = Some ''NEW'', t_state = S_READY,
           tm_badfaultfunc = None, t_stack = None, t_context = None, t_cpu = None, t_proc = None,
           t_in_interrupt = False, t_curspl = IPL_HIGH, t_iplhigh_count = 1\<rparr>)\<rparr>;
         m \<leftarrow> on_tlh (threadlistnode_init (TNode t) (Some t)) m;
         Some (Some t, m) })"

definition thread_machdep_cleanup :: "thread \<Rightarrow> unit option" where
  "thread_machdep_cleanup r = kassert (tm_badfaultfunc r = None)"

definition thread_destroy :: "cpuid \<Rightarrow> tid \<Rightarrow> machine \<Rightarrow> machine option" where
  "thread_destroy me t m = do {
     kassert (curthread me m \<noteq> Some t);
     r \<leftarrow> threads m t;
     kassert (t_state r \<noteq> S_RUN);
     kassert (t_proc r = None);
     m \<leftarrow> on_tlh (threadlistnode_cleanup (TNode t)) m;
     thread_machdep_cleanup r;
     m \<leftarrow> upd_thread t (\<lambda>r. r\<lparr>t_wchan_name := Some ''DESTROYED''\<rparr>) m;
     Some (m\<lparr>threads := (threads m)(t := None)\<rparr>) }"

definition exorcise :: "cpuid \<Rightarrow> machine \<Rightarrow> machine option" where
  "exorcise me = drain (take_tlh (threadlist_remhead (Zombies me)))
     (\<lambda>z m. do {
        kassert (curthread me m \<noteq> Some z);
        r \<leftarrow> threads m z;
        kassert (t_state r = S_ZOMBIE);
        thread_destroy me z m })"

section \<open>Interprocessor interrupts\<close>

definition IPI_PANIC :: nat where "IPI_PANIC = 0"
definition IPI_OFFLINE :: nat where "IPI_OFFLINE = 1"
definition IPI_UNIDLE :: nat where "IPI_UNIDLE = 2"
definition IPI_TLBSHOOTDOWN :: nat where "IPI_TLBSHOOTDOWN = 3"
definition TLBSHOOTDOWN_MAX :: u32 where "TLBSHOOTDOWN_MAX = 16"

definition lamebus_assert_ipi :: "cpuid \<Rightarrow> machine \<Rightarrow> machine option" where
  "lamebus_assert_ipi target m =
    (if ls_uniprocessor m then Some m
     else do {
       c \<leftarrow> cpus m target;
       Some (m\<lparr>ctlcpu_cipi := (ctlcpu_cipi m)(c_hardware_number c := True)\<rparr>) })"

definition mainbus_send_ipi :: "cpuid \<Rightarrow> machine \<Rightarrow> machine option" where
  "mainbus_send_ipi target m = lamebus_assert_ipi target m"

definition ipi_send :: "cpuid \<Rightarrow> cpuid \<Rightarrow> nat \<Rightarrow> machine \<Rightarrow> machine option" where
  "ipi_send me target code m = do {
     kassert (code < 32);
     m \<leftarrow> spinlock_acquire me (Ipi_lock target) m;
     m \<leftarrow> upd_cpu target (\<lambda>c. c\<lparr>c_ipi_pending := or (c_ipi_pending c) (push_bit code 1)\<rparr>) m;
     m \<leftarrow> mainbus_send_ipi target m;
     spinlock_release me (Ipi_lock target) m }"

fun ipi_broadcast_loop :: "cpuid \<Rightarrow> nat \<Rightarrow> cpuid list \<Rightarrow> machine \<Rightarrow> machine option" where
  "ipi_broadcast_loop me code [] m = Some m"
| "ipi_broadcast_loop me code (c # cs) m = do {
     m \<leftarrow> (if c \<noteq> me then ipi_send me c code m else Some m);
     ipi_broadcast_loop me code cs m }"

definition ipi_broadcast :: "cpuid \<Rightarrow> nat \<Rightarrow> machine \<Rightarrow> machine option" where
  "ipi_broadcast me code m = ipi_broadcast_loop me code (allcpus m) m"

definition ipi_tlbshootdown :: "cpuid \<Rightarrow> cpuid \<Rightarrow> tlbshootdown \<Rightarrow> machine \<Rightarrow> machine option" where
  "ipi_tlbshootdown me target mapping m = do {
     m \<leftarrow> spinlock_acquire me (Ipi_lock target) m;
     c \<leftarrow> cpus m target;
     let n = c_numshootdown c;
     kassert (n \<noteq> TLBSHOOTDOWN_MAX);
     sd \<leftarrow> put_at (unat n) mapping (c_shootdown c);
     m \<leftarrow> upd_cpu target (\<lambda>c. c\<lparr>c_shootdown := sd\<rparr>) m;
     m \<leftarrow> upd_cpu target (\<lambda>c. c\<lparr>c_numshootdown := n + 1\<rparr>) m;
     m \<leftarrow> upd_cpu target (\<lambda>c. c\<lparr>c_ipi_pending := or (c_ipi_pending c) (push_bit IPI_TLBSHOOTDOWN 1)\<rparr>) m;
     m \<leftarrow> mainbus_send_ipi target m;
     spinlock_release me (Ipi_lock target) m }"

text \<open>\<open>vm_tlbshootdown\<close> of \<open>dumbvm.c\<close> panics.\<close>

definition vm_tlbshootdown :: "tlbshootdown \<Rightarrow> machine \<Rightarrow> machine option" where
  "vm_tlbshootdown ts m = None"

fun shootdown_loop :: "tlbshootdown list \<Rightarrow> machine \<Rightarrow> machine option" where
  "shootdown_loop [] m = Some m"
| "shootdown_loop (ts # tss) m = vm_tlbshootdown ts m \<bind> shootdown_loop tss"

text \<open>\<open>Inl\<close>: the cpu halts for good (\<open>cpu_halt\<close>), in that state.\<close>

definition interprocessor_interrupt :: "cpuid \<Rightarrow> machine \<Rightarrow> (machine + machine) option" where
  "interprocessor_interrupt me m = do {
     m \<leftarrow> spinlock_acquire me (Ipi_lock me) m;
     c \<leftarrow> cpus m me;
     let bits = c_ipi_pending c;
     if bit bits IPI_PANIC then do {
       m \<leftarrow> spinlock_release me (Ipi_lock me) m;
       Some (Inl (cpu_irqoff me m)) }
     else if bit bits IPI_OFFLINE then do {
       m \<leftarrow> spinlock_release me (Ipi_lock me) m;
       m \<leftarrow> spinlock_acquire me (Runqueue_lock me) m;
       m \<leftarrow> spinlock_release me (Runqueue_lock me) m;
       Some (Inl (cpu_irqoff me m)) }
     else do {
       m \<leftarrow> (if bit bits IPI_TLBSHOOTDOWN then do {
           m \<leftarrow> shootdown_loop (take (unat (c_numshootdown c)) (c_shootdown c)) m;
           upd_cpu me (\<lambda>c. c\<lparr>c_numshootdown := 0\<rparr>) m }
         else Some m);
       m \<leftarrow> upd_cpu me (\<lambda>c. c\<lparr>c_ipi_pending := 0\<rparr>) m;
       m \<leftarrow> spinlock_release me (Ipi_lock me) m;
       Some (Inr m) } }"

definition thread_panic :: "cpuid \<Rightarrow> machine \<Rightarrow> machine option" where
  "thread_panic me m = do {
     m \<leftarrow> ipi_broadcast me IPI_PANIC m;
     let m = m\<lparr>tlh := set_count (Runqueue me) 0 (tlh m)\<rparr>;
     let m = m\<lparr>tlh := set_next (Head (Runqueue me)) (Some (Tail (Runqueue me))) (tlh m)\<rparr>;
     let m = m\<lparr>tlh := set_prev (Tail (Runqueue me)) (Some (Head (Runqueue me))) (tlh m)\<rparr>;
     Some m }"

definition thread_shutdown :: "cpuid \<Rightarrow> machine \<Rightarrow> machine option" where
  "thread_shutdown me m = ipi_broadcast me IPI_OFFLINE m"

section \<open>Run queues and the context switch\<close>

definition thread_make_runnable :: "cpuid \<Rightarrow> tid \<Rightarrow> bool \<Rightarrow> machine \<Rightarrow> machine option" where
  "thread_make_runnable me target already_have_lock m = do {
     r \<leftarrow> threads m target;
     targetcpu \<leftarrow> t_cpu r;
     m \<leftarrow> (if already_have_lock then do {
         kassert (spinlock_do_i_hold me (Runqueue_lock targetcpu) m);
         Some m }
       else spinlock_acquire me (Runqueue_lock targetcpu) m);
     m \<leftarrow> upd_thread target (\<lambda>r. r\<lparr>t_state := S_READY\<rparr>) m;
     m \<leftarrow> on_tlh (threadlist_addtail (Runqueue targetcpu) target) m;
     c \<leftarrow> cpus m targetcpu;
     m \<leftarrow> (if c_isidle c \<and> targetcpu \<noteq> me then ipi_send me targetcpu IPI_UNIDLE m else Some m);
     if \<not> already_have_lock then spinlock_release me (Runqueue_lock targetcpu) m else Some m }"

definition switchframe_init :: "tid \<Rightarrow> u32 \<Rightarrow> u32 \<Rightarrow> u32 \<Rightarrow> machine \<Rightarrow> machine option" where
  "switchframe_init t entrypoint data1 data2 =
     upd_thread t (\<lambda>r. r\<lparr>t_context := Some (Startup entrypoint data1 data2)\<rparr>)"

text \<open>
  \<open>thread_fork\<close>, with the outcomes of its three allocations: the thread structure, its name,
  and the words of the stack.
\<close>

definition thread_fork :: "cpuid \<Rightarrow> tid option \<Rightarrow> bool \<Rightarrow> u32 list option \<Rightarrow> string \<Rightarrow> procid option \<Rightarrow>
    u32 \<Rightarrow> u32 \<Rightarrow> u32 \<Rightarrow> machine \<Rightarrow> ((errno + unit) \<times> machine) option" where
  "thread_fork me al dup stk name proc entrypoint data1 data2 m = do {
     (newthread, m) \<leftarrow> thread_create al dup name m;
     case newthread of None \<Rightarrow> Some (Inl ENOMEM, m)
     | Some t \<Rightarrow> do {
         m \<leftarrow> upd_thread t (\<lambda>r. r\<lparr>t_stack := stk\<rparr>) m;
         if stk = None then do {
           m \<leftarrow> thread_destroy me t m;
           Some (Inl ENOMEM, m) }
         else do {
           m \<leftarrow> thread_checkstack_init t m;
           cur \<leftarrow> curthread me m;
           cr \<leftarrow> threads m cur;
           m \<leftarrow> upd_thread t (\<lambda>r. r\<lparr>t_cpu := t_cpu cr\<rparr>) m;
           p \<leftarrow> (case proc of Some p \<Rightarrow> Some p | None \<Rightarrow> t_proc cr);
           (result, m) \<leftarrow> proc_addthread me p t m;
           case result of Inl e \<Rightarrow> do {
             m \<leftarrow> thread_destroy me t m;
             Some (Inl e, m) }
           | Inr _ \<Rightarrow> do {
               m \<leftarrow> upd_thread t (\<lambda>r. r\<lparr>t_iplhigh_count := t_iplhigh_count r + 1\<rparr>) m;
               m \<leftarrow> switchframe_init t entrypoint data1 data2 m;
               m \<leftarrow> thread_make_runnable me t False m;
               Some (Inr (), m) } } } }"

text \<open>The loop \<open>do { ... } while (next == NULL)\<close> of \<open>thread_switch\<close>.\<close>

partial_function (option) pick_next ::
  "cpuid \<Rightarrow> (machine \<Rightarrow> machine option) \<Rightarrow> machine \<Rightarrow> (tid \<times> machine) option" where
  "pick_next me cpu_idle m = do {
     (next, m) \<leftarrow> take_tlh (threadlist_remhead (Runqueue me)) m;
     case next of Some t \<Rightarrow> Some (t, m)
     | None \<Rightarrow> do {
         m \<leftarrow> spinlock_release me (Runqueue_lock me) m;
         m \<leftarrow> cpu_idle m;
         m \<leftarrow> spinlock_acquire me (Runqueue_lock me) m;
         pick_next me cpu_idle m } }"

text \<open>The \<open>switch\<close> statement of \<open>thread_switch\<close>: queueing the current thread.\<close>

definition queue_cur :: "cpuid \<Rightarrow> threadstate \<Rightarrow> (nat \<times> lkid) option \<Rightarrow> tid \<Rightarrow> machine \<Rightarrow> machine option" where
  "queue_cur me newstate wc cur m = (case newstate of
         S_RUN \<Rightarrow> None
       | S_READY \<Rightarrow> thread_make_runnable me cur True m
       | S_SLEEP \<Rightarrow> do {
           (w, lk) \<leftarrow> wc;
           m \<leftarrow> upd_thread cur (\<lambda>r. r\<lparr>t_wchan_name := wc_name m w\<rparr>) m;
           m \<leftarrow> on_tlh (threadlist_addtail (Wchan w) cur) m;
           spinlock_release me lk m }
       | S_ZOMBIE \<Rightarrow> do {
           m \<leftarrow> upd_thread cur (\<lambda>r. r\<lparr>t_wchan_name := Some ''ZOMBIE''\<rparr>) m;
           on_tlh (threadlist_addtail (Zombies me) cur) m })"

text \<open>
  The part of \<open>thread_switch\<close> from there to \<open>switchframe_switch\<close>: setting the state, choosing
  the next thread.
\<close>

definition switch_away :: "cpuid \<Rightarrow> (machine \<Rightarrow> machine option) \<Rightarrow> threadstate \<Rightarrow> (nat \<times> lkid) option \<Rightarrow>
    tid \<Rightarrow> machine \<Rightarrow> (tid \<times> machine) option" where
  "switch_away me cpu_idle newstate wc cur m = do {
     m \<leftarrow> queue_cur me newstate wc cur m;
     m \<leftarrow> upd_thread cur (\<lambda>r. r\<lparr>t_state := newstate\<rparr>) m;
     m \<leftarrow> upd_cpu me (\<lambda>c. c\<lparr>c_isidle := True\<rparr>) m;
     (next, m) \<leftarrow> pick_next me cpu_idle m;
     m \<leftarrow> upd_cpu me (\<lambda>c. c\<lparr>c_isidle := False\<rparr>) m;
     m \<leftarrow> upd_cpu me (\<lambda>c. c\<lparr>c_curthread := Some next\<rparr>) m;
     Some (next, m) }"

text \<open>
  What runs after \<open>switchframe_switch\<close>, in the thread switched to: the tail of
  \<open>thread_switch\<close> and the head of \<open>thread_startup\<close> agree up to the final level.
\<close>

definition switch_return :: "cpuid \<Rightarrow> tid \<Rightarrow> machine \<Rightarrow> machine option" where
  "switch_return me cur m = do {
     m \<leftarrow> upd_thread cur (\<lambda>r. r\<lparr>t_wchan_name := None\<rparr>) m;
     m \<leftarrow> upd_thread cur (\<lambda>r. r\<lparr>t_state := S_RUN\<rparr>) m;
     m \<leftarrow> spinlock_release me (Runqueue_lock me) m;
     m \<leftarrow> as_activate me m;
     exorcise me m }"

definition thread_startup_head :: "cpuid \<Rightarrow> machine \<Rightarrow> machine option" where
  "thread_startup_head me m = do {
     cur \<leftarrow> curthread me m;
     m \<leftarrow> switch_return me cur m;
     (_, m) \<leftarrow> spl0 me m;
     Some m }"

text \<open>\<open>switchframe_switch\<close>: save the registers of \<open>cur\<close>, load those of \<open>next\<close>.\<close>

definition switchframe_switch :: "cpuid \<Rightarrow> tid \<Rightarrow> int \<Rightarrow> tid \<Rightarrow> machine \<Rightarrow> machine option" where
  "switchframe_switch me cur spl next m = do {
     m \<leftarrow> upd_thread cur (\<lambda>r. r\<lparr>t_context := Some (Resume spl)\<rparr>) m;
     r \<leftarrow> threads m next;
     ctx \<leftarrow> t_context r;
     case ctx of
       Resume spl' \<Rightarrow> do {
         m \<leftarrow> switch_return me next m;
         (_, m) \<leftarrow> splx me spl' m;
         Some m }
     | Startup entrypoint data1 data2 \<Rightarrow> thread_startup_head me m }"

definition thread_switch :: "cpuid \<Rightarrow> (machine \<Rightarrow> machine option) \<Rightarrow> threadstate \<Rightarrow> (nat \<times> lkid) option \<Rightarrow>
    machine \<Rightarrow> machine option" where
  "thread_switch me cpu_idle newstate wc m = do {
     (spl, m) \<leftarrow> splhigh me m;
     cur \<leftarrow> curthread me m;
     c \<leftarrow> cpus m me;
     if c_isidle c then do { (_, m) \<leftarrow> splx me spl m; Some m }
     else do {
       thread_checkstack cur m;
       m \<leftarrow> spinlock_acquire me (Runqueue_lock me) m;
       if newstate = S_READY \<and> threadlist_isempty (Runqueue me) (tlh m) then do {
         m \<leftarrow> spinlock_release me (Runqueue_lock me) m;
         (_, m) \<leftarrow> splx me spl m;
         Some m }
       else do {
         (next, m) \<leftarrow> switch_away me cpu_idle newstate wc cur m;
         switchframe_switch me cur spl next m } } }"

definition thread_exit :: "cpuid \<Rightarrow> (machine \<Rightarrow> machine option) \<Rightarrow> machine \<Rightarrow> machine option" where
  "thread_exit me cpu_idle m = do {
     cur \<leftarrow> curthread me m;
     m \<leftarrow> proc_remthread me cur m;
     r \<leftarrow> threads m cur;
     kassert (t_proc r = None);
     thread_checkstack cur m;
     (_, m) \<leftarrow> splhigh me m;
     thread_switch me cpu_idle S_ZOMBIE None m }"

definition thread_yield :: "cpuid \<Rightarrow> (machine \<Rightarrow> machine option) \<Rightarrow> machine \<Rightarrow> machine option" where
  "thread_yield me cpu_idle m = thread_switch me cpu_idle S_READY None m"

definition schedule :: "cpuid \<Rightarrow> machine \<Rightarrow> machine" where
  "schedule me m = m"

section \<open>Migration\<close>

text \<open>
  The loops of \<open>thread_consider_migration\<close>. \<open>Local 0\<close> is its list \<open>victims\<close>;
  \<open>to_send\<close>, which only counts down, is a natural number.
\<close>

fun count_loop :: "cpuid \<Rightarrow> cpuid list \<Rightarrow> u32 \<Rightarrow> u32 \<Rightarrow> machine \<Rightarrow> (u32 \<times> u32 \<times> machine) option" where
  "count_loop me [] my_count total_count m = Some (my_count, total_count, m)"
| "count_loop me (c # cs) my_count total_count m = do {
     m \<leftarrow> spinlock_acquire me (Runqueue_lock c) m;
     let total_count = total_count + tl_count (tlh m) (Runqueue c);
     let my_count = (if c = me then tl_count (tlh m) (Runqueue c) else my_count);
     m \<leftarrow> spinlock_release me (Runqueue_lock c) m;
     count_loop me cs my_count total_count m }"

fun take_victims :: "cpuid \<Rightarrow> nat \<Rightarrow> machine \<Rightarrow> machine option" where
  "take_victims me 0 m = Some m"
| "take_victims me (Suc n) m = do {
     (t, m) \<leftarrow> take_tlh (threadlist_remtail (Runqueue me)) m;
     t \<leftarrow> t;
     m \<leftarrow> on_tlh (threadlist_addhead (Local 0) t) m;
     take_victims me n m }"

fun send_to :: "cpuid \<Rightarrow> cpuid \<Rightarrow> u32 \<Rightarrow> nat \<Rightarrow> machine \<Rightarrow> (nat \<times> machine) option" where
  "send_to me c one_share 0 m = Some (0, m)"
| "send_to me c one_share (Suc n) m =
    (if tl_count (tlh m) (Runqueue c) < one_share then do {
       (t, m) \<leftarrow> take_tlh (threadlist_remhead (Local 0)) m;
       t \<leftarrow> t;
       if curthread me m = Some t then do {
         m \<leftarrow> on_tlh (threadlist_addtail (Local 0) t) m;
         send_to me c one_share n m }
       else do {
         m \<leftarrow> upd_thread t (\<lambda>r. r\<lparr>t_cpu := Some c\<rparr>) m;
         m \<leftarrow> on_tlh (threadlist_addtail (Runqueue c) t) m;
         k \<leftarrow> cpus m c;
         m \<leftarrow> (if c_isidle k then ipi_send me c IPI_UNIDLE m else Some m);
         send_to me c one_share n m } }
     else Some (Suc n, m))"

fun send_loop :: "cpuid \<Rightarrow> u32 \<Rightarrow> cpuid list \<Rightarrow> nat \<Rightarrow> machine \<Rightarrow> (nat \<times> machine) option" where
  "send_loop me one_share [] to_send m = Some (to_send, m)"
| "send_loop me one_share (c # cs) to_send m =
    (if to_send = 0 then Some (to_send, m)
     else if c = me then send_loop me one_share cs to_send m
     else do {
       m \<leftarrow> spinlock_acquire me (Runqueue_lock c) m;
       (to_send, m) \<leftarrow> send_to me c one_share to_send m;
       m \<leftarrow> spinlock_release me (Runqueue_lock c) m;
       send_loop me one_share cs to_send m })"

definition thread_consider_migration :: "cpuid \<Rightarrow> machine \<Rightarrow> machine option" where
  "thread_consider_migration me m = do {
     let numcpus = of_nat (length (allcpus m));
     (my_count, total_count, m) \<leftarrow> count_loop me (allcpus m) 0 0 m;
     let one_share = DIVROUNDUP total_count numcpus;
     if my_count < one_share then Some m
     else do {
       let to_send = unat (my_count - one_share);
       let m = m\<lparr>tlh := threadlist_init (Local 0) (tlh m)\<rparr>;
       m \<leftarrow> spinlock_acquire me (Runqueue_lock me) m;
       m \<leftarrow> take_victims me to_send m;
       m \<leftarrow> spinlock_release me (Runqueue_lock me) m;
       (to_send, m) \<leftarrow> send_loop me one_share (allcpus m) to_send m;
       m \<leftarrow> (if \<not> threadlist_isempty (Local 0) (tlh m) then do {
           m \<leftarrow> spinlock_acquire me (Runqueue_lock me) m;
           m \<leftarrow> drain (take_tlh (threadlist_remhead (Local 0)))
                 (\<lambda>t. on_tlh (threadlist_addtail (Runqueue me) t)) m;
           spinlock_release me (Runqueue_lock me) m }
         else Some m);
       kassert (threadlist_isempty (Local 0) (tlh m));
       on_tlh (threadlist_cleanup (Local 0)) m } }"

section \<open>Wait channels\<close>

text \<open>\<open>Local 1\<close> is the list of \<open>wchan_wakeall\<close>.\<close>

definition wchan_create :: "nat option \<Rightarrow> string \<Rightarrow> machine \<Rightarrow> nat option \<times> machine" where
  "wchan_create al name m =
    (case al of None \<Rightarrow> (None, m)
     | Some w \<Rightarrow> (Some w, m\<lparr>tlh := threadlist_init (Wchan w) (tlh m), wc_name := (wc_name m)(w \<mapsto> name)\<rparr>))"

definition wchan_destroy :: "nat \<Rightarrow> machine \<Rightarrow> machine option" where
  "wchan_destroy w m = do {
     m \<leftarrow> on_tlh (threadlist_cleanup (Wchan w)) m;
     Some (m\<lparr>wc_name := (wc_name m)(w := None)\<rparr>) }"

text \<open>
  \<open>wchan_sleep\<close> up to the point where the thread is switched away; when it is switched back
  to, \<open>wchan_sleep_return\<close> runs.
\<close>

definition wchan_sleep :: "cpuid \<Rightarrow> (machine \<Rightarrow> machine option) \<Rightarrow> nat \<Rightarrow> lkid \<Rightarrow> machine \<Rightarrow> machine option" where
  "wchan_sleep me cpu_idle w lk m = do {
     cur \<leftarrow> curthread me m;
     r \<leftarrow> threads m cur;
     kassert (\<not> t_in_interrupt r);
     kassert (spinlock_do_i_hold me lk m);
     c \<leftarrow> cpus m me;
     kassert (c_spinlocks c = 1);
     thread_switch me cpu_idle S_SLEEP (Some (w, lk)) m }"

definition wchan_sleep_return :: "cpuid \<Rightarrow> lkid \<Rightarrow> machine \<Rightarrow> machine option" where
  "wchan_sleep_return me lk m = spinlock_acquire me lk m"

definition wchan_wakeone :: "cpuid \<Rightarrow> nat \<Rightarrow> lkid \<Rightarrow> machine \<Rightarrow> machine option" where
  "wchan_wakeone me w lk m = do {
     kassert (spinlock_do_i_hold me lk m);
     (target, m) \<leftarrow> take_tlh (threadlist_remhead (Wchan w)) m;
     case target of None \<Rightarrow> Some m
     | Some t \<Rightarrow> thread_make_runnable me t False m }"

definition wchan_wakeall :: "cpuid \<Rightarrow> nat \<Rightarrow> lkid \<Rightarrow> machine \<Rightarrow> machine option" where
  "wchan_wakeall me w lk m = do {
     kassert (spinlock_do_i_hold me lk m);
     let m = m\<lparr>tlh := threadlist_init (Local 1) (tlh m)\<rparr>;
     m \<leftarrow> drain (take_tlh (threadlist_remhead (Wchan w)))
           (\<lambda>t. on_tlh (threadlist_addtail (Local 1) t)) m;
     m \<leftarrow> drain (take_tlh (threadlist_remhead (Local 1)))
           (\<lambda>t. thread_make_runnable me t False) m;
     on_tlh (threadlist_cleanup (Local 1)) m }"

definition wchan_isempty :: "cpuid \<Rightarrow> nat \<Rightarrow> lkid \<Rightarrow> machine \<Rightarrow> bool option" where
  "wchan_isempty me w lk m = do {
     kassert (spinlock_do_i_hold me lk m);
     Some (threadlist_isempty (Wchan w) (tlh m)) }"

section \<open>Cpus\<close>

definition MAXCPUS :: u32 where "MAXCPUS = 32"

definition cpu_machdep_init :: "cpuid \<Rightarrow> machine \<Rightarrow> machine option" where
  "cpu_machdep_init c m = do {
     k \<leftarrow> cpus m c;
     kassert (c_number k < MAXCPUS);
     t \<leftarrow> c_curthread k;
     r \<leftarrow> threads m t;
     case t_stack r of None \<Rightarrow> Some m
     | Some _ \<Rightarrow> Some (m\<lparr>cputhreads := (cputhreads m)(unat (c_number k) := Some t)\<rparr>) }"

text \<open>
  \<open>al\<close>: the block for the cpu structure; \<open>grow\<close>: whether \<open>cpuarray_add\<close> finds room; \<open>tal\<close>,
  \<open>dup\<close>, \<open>stk\<close>: the allocations of its first thread; \<open>sd\<close>: what the block holds in the array
  \<open>c_shootdown\<close>, which is not initialised; \<open>me\<close>: the cpu that runs the code, which is the
  new one if there is none yet.
\<close>

definition cpu_create :: "cpuid option \<Rightarrow> bool \<Rightarrow> tid option \<Rightarrow> bool \<Rightarrow> u32 list option \<Rightarrow> tlbshootdown list \<Rightarrow>
    procid \<Rightarrow> cpuid \<Rightarrow> u32 \<Rightarrow> machine \<Rightarrow> (cpuid \<times> machine) option" where
  "cpu_create al grow tal dup stk sd kproc me hardware_number m = do {
     c \<leftarrow> al;
     let m = m\<lparr>cpus := (cpus m)(c \<mapsto> \<lparr>c_number = of_nat (length (allcpus m)), c_hardware_number = hardware_number,
       c_curthread = None, c_hardclocks = 0, c_spinlocks = 0, c_isidle = False, c_ipi_pending = 0,
       c_shootdown = sd, c_numshootdown = 0\<rparr>)\<rparr>;
     let m = m\<lparr>tlh := threadlist_init (Zombies c) (tlh m)\<rparr>;
     let m = m\<lparr>tlh := threadlist_init (Runqueue c) (tlh m)\<rparr>;
     let m = spinlock_init (Runqueue_lock c) m;
     let m = spinlock_init (Ipi_lock c) m;
     kassert grow;
     let number = length (allcpus m);
     let m = m\<lparr>allcpus := allcpus m @ [c]\<rparr>;
     (t, m) \<leftarrow> thread_create tal dup (take 15 (''<boot #'' @ dec_digits number @ ''>'')) m;
     t \<leftarrow> t;
     m \<leftarrow> upd_cpu c (\<lambda>k. k\<lparr>c_curthread := Some t\<rparr>) m;
     m \<leftarrow> upd_thread t (\<lambda>r. r\<lparr>t_cpu := Some c\<rparr>) m;
     m \<leftarrow> (if number = 0 then Some m
       else do {
         kassert (stk \<noteq> None);
         m \<leftarrow> upd_thread t (\<lambda>r. r\<lparr>t_stack := stk\<rparr>) m;
         thread_checkstack_init t m });
     let me = (if curcpu_exists m then me else c);
     let m = m\<lparr>curcpu_exists := True\<rparr>;
     (result, m) \<leftarrow> proc_addthread me kproc t m;
     kassert (result = Inr ());
     m \<leftarrow> cpu_machdep_init c m;
     Some (c, m) }"

definition thread_bootstrap :: "cpuid option \<Rightarrow> bool \<Rightarrow> tid option \<Rightarrow> bool \<Rightarrow> tlbshootdown list \<Rightarrow>
    procid \<Rightarrow> machine \<Rightarrow> machine option" where
  "thread_bootstrap al grow tal dup sd kproc m = do {
     let m = m\<lparr>allcpus := []\<rparr>;
     kassert (curcpu_exists m = False);
     (c, m) \<leftarrow> cpu_create al grow tal dup None sd kproc 0 0 m;
     kassert (curcpu_exists m = True);
     cur \<leftarrow> curthread c m;
     r \<leftarrow> threads m cur;
     kassert (t_proc r \<noteq> None);
     kassert (t_proc r = Some kproc);
     Some m }"

section \<open>The clock\<close>

definition SCHEDULE_HARDCLOCKS :: u32 where "SCHEDULE_HARDCLOCKS = 4"
definition MIGRATE_HARDCLOCKS :: u32 where "MIGRATE_HARDCLOCKS = 16"

definition lbolt_lock :: lkid where "lbolt_lock = Other_lock 0"

text \<open>\<open>lbolt\<close> is the address that \<open>hardclock_bootstrap\<close> stores in the variable of that name.\<close>

definition hardclock_bootstrap :: "nat option \<Rightarrow> machine \<Rightarrow> (nat \<times> machine) option" where
  "hardclock_bootstrap al m = do {
     let m = spinlock_init lbolt_lock m;
     let (lbolt, m) = wchan_create al ''lbolt'' m;
     lbolt \<leftarrow> lbolt;
     Some (lbolt, m) }"

definition timerclock :: "cpuid \<Rightarrow> nat \<Rightarrow> machine \<Rightarrow> machine option" where
  "timerclock me lbolt m = do {
     m \<leftarrow> spinlock_acquire me lbolt_lock m;
     m \<leftarrow> wchan_wakeall me lbolt lbolt_lock m;
     spinlock_release me lbolt_lock m }"

definition hardclock :: "cpuid \<Rightarrow> (machine \<Rightarrow> machine option) \<Rightarrow> machine \<Rightarrow> machine option" where
  "hardclock me cpu_idle m = do {
     m \<leftarrow> upd_cpu me (\<lambda>c. c\<lparr>c_hardclocks := c_hardclocks c + 1\<rparr>) m;
     c \<leftarrow> cpus m me;
     m \<leftarrow> (if c_hardclocks c mod MIGRATE_HARDCLOCKS = 0 then thread_consider_migration me m else Some m);
     let m = (if c_hardclocks c mod SCHEDULE_HARDCLOCKS = 0 then schedule me m else m);
     thread_yield me cpu_idle m }"

end
