(* ===== verification/Scheduler.thy ===== *)
theory Scheduler
  imports Thread
begin

text \<open>
  The invariant of the thread system and what its operations do to it.

  \<open>sys m f X\<close> says that in the machine \<open>m\<close> every list of threads \<open>l\<close> holds the sequence
  \<open>f l\<close>, and that every thread outside \<open>X\<close>, the threads an operation has in its hands, is where
  its state says: a ready thread on the run queue of its cpu, a sleeping one on a wait channel,
  an exited one on the zombie list of its cpu, a running one on no list and current on its cpu.
  No thread is lost: one that is current nowhere is on some list, with a saved context, its
  interrupt level raised, and its guard band intact.

  Operations are stated for a machine in which the cpu holds a known set of spinlocks and no
  other cpu holds one (\<open>quiet\<close>): the granularity at which run-queue and wait-channel locks make
  the operations atomic.
\<close>

section \<open>What the interrupt bookkeeping does not touch\<close>

lemma core_sel:
  "tlh (core me m) = tlh m" "allcpus (core me m) = allcpus m" "curcpu_exists (core me m) = curcpu_exists m"
  "procs (core me m) = procs m" "wc_name (core me m) = wc_name m"
  "ls_uniprocessor (core me m) = ls_uniprocessor m" "ctlcpu_cipi (core me m) = ctlcpu_cipi m"
  "cputhreads (core me m) = cputhreads m"
  "threads (core me m) t = (if curthread me m = Some t then map_option core_thread (threads m t) else threads m t)"
  "cpus (core me m) c = (if c = me then map_option core_cpu (cpus m c) else cpus m c)"
  by (simp_all add: core_def)

lemma core_fields:
  assumes "core me m' = core me m"
  shows "tlh m' = tlh m" "allcpus m' = allcpus m" "curcpu_exists m' = curcpu_exists m" "procs m' = procs m"
    "wc_name m' = wc_name m" "ls_uniprocessor m' = ls_uniprocessor m" "ctlcpu_cipi m' = ctlcpu_cipi m"
    "cputhreads m' = cputhreads m"
  by (metis assms core_sel(1), metis assms core_sel(2), metis assms core_sel(3), metis assms core_sel(4),
      metis assms core_sel(5), metis assms core_sel(6), metis assms core_sel(7), metis assms core_sel(8))

lemma core_cpus:
  assumes "core me m' = core me m"
  shows "c \<noteq> me \<Longrightarrow> cpus m' c = cpus m c"
    and "map_option core_cpu (cpus m' c) = map_option core_cpu (cpus m c)"
proof -
  have "cpus (core me m') c = cpus (core me m) c" by (simp only: assms)
  then show "c \<noteq> me \<Longrightarrow> cpus m' c = cpus m c"
    and "map_option core_cpu (cpus m' c) = map_option core_cpu (cpus m c)"
    by (auto simp: core_sel split: if_splits)
qed

lemma core_cpu_sel: "c_curthread (core_cpu k) = c_curthread k" "c_isidle (core_cpu k) = c_isidle k"
  by (simp_all add: core_cpu_def)

lemma core_cpu_curthread: "core_cpu k' = core_cpu k \<Longrightarrow> c_curthread k' = c_curthread k \<and> c_isidle k' = c_isidle k"
  by (metis core_cpu_sel)

lemma core_threads:
  assumes "core me m' = core me m" and "curthread me m' = curthread me m"
  shows "curthread me m \<noteq> Some t \<Longrightarrow> threads m' t = threads m t"
    and "map_option core_thread (threads m' t) = map_option core_thread (threads m t)"
proof -
  have "threads (core me m') t = threads (core me m) t" by (simp only: assms)
  then show "curthread me m \<noteq> Some t \<Longrightarrow> threads m' t = threads m t"
    and "map_option core_thread (threads m' t) = map_option core_thread (threads m t)"
    using assms(2) by (auto simp: core_sel split: if_splits)
qed

lemma core_thread_sel:
  "t_state (core_thread r) = t_state r" "t_cpu (core_thread r) = t_cpu r" "t_proc (core_thread r) = t_proc r"
  "t_stack (core_thread r) = t_stack r" "t_context (core_thread r) = t_context r"
  "tm_badfaultfunc (core_thread r) = tm_badfaultfunc r" "t_in_interrupt (core_thread r) = t_in_interrupt r"
  by (simp_all add: core_thread_def)

lemma core_thread_fields:
  assumes "core_thread r' = core_thread r"
  shows "t_state r' = t_state r" "t_cpu r' = t_cpu r" "t_proc r' = t_proc r" "t_stack r' = t_stack r"
    "t_context r' = t_context r" "tm_badfaultfunc r' = tm_badfaultfunc r" "t_in_interrupt r' = t_in_interrupt r"
  by (metis assms core_thread_sel(1), metis assms core_thread_sel(2), metis assms core_thread_sel(3),
      metis assms core_thread_sel(4), metis assms core_thread_sel(5), metis assms core_thread_sel(6),
      metis assms core_thread_sel(7))

text \<open>
  Two machines that differ at most in the bookkeeping of \<open>me\<close> and in pending interprocessor
  interrupts: the invariant of the thread system does not tell them apart.
\<close>

definition agree :: "cpuid \<Rightarrow> machine \<Rightarrow> machine \<Rightarrow> bool" where
  "agree me m' m \<longleftrightarrow> tlh m' = tlh m \<and> allcpus m' = allcpus m \<and> curcpu_exists m' = curcpu_exists m \<and>
     procs m' = procs m \<and> wc_name m' = wc_name m \<and>
     (\<forall>c. map_option (\<lambda>k. (c_curthread k, c_isidle k)) (cpus m' c) =
          map_option (\<lambda>k. (c_curthread k, c_isidle k)) (cpus m c)) \<and>
     (\<forall>t. map_option core_thread (threads m' t) = map_option core_thread (threads m t)) \<and>
     (\<forall>t. curthread me m \<noteq> Some t \<longrightarrow> threads m' t = threads m t)"

lemma agree_fields:
  assumes "agree me m' m"
  shows "tlh m' = tlh m" "allcpus m' = allcpus m" "curcpu_exists m' = curcpu_exists m" "procs m' = procs m"
    "wc_name m' = wc_name m"
  using assms by (simp_all add: agree_def)

lemma agree_cpu:
  assumes "agree me m' m" and "cpus m c = Some k"
  obtains k' where "cpus m' c = Some k'" "c_curthread k' = c_curthread k" "c_isidle k' = c_isidle k"
proof -
  have "map_option (\<lambda>k. (c_curthread k, c_isidle k)) (cpus m' c) = map_option (\<lambda>k. (c_curthread k, c_isidle k)) (cpus m c)"
    using assms(1) by (simp add: agree_def)
  then show ?thesis using assms(2) that by auto
qed

lemma agree_curthread:
  assumes "agree me m' m"
  shows "curthread c m' = curthread c m"
proof -
  have "map_option (\<lambda>k. (c_curthread k, c_isidle k)) (cpus m' c) = map_option (\<lambda>k. (c_curthread k, c_isidle k)) (cpus m c)"
    using assms by (simp add: agree_def)
  then show ?thesis by (cases "cpus m' c"; cases "cpus m c") (simp_all add: curthread_def)
qed

lemma agree_threads:
  assumes "agree me m' m"
  shows "map_option core_thread (threads m' t) = map_option core_thread (threads m t)"
    and "curthread me m \<noteq> Some t \<Longrightarrow> threads m' t = threads m t"
  using assms unfolding agree_def by blast+

lemma agree_thread:
  assumes "agree me m' m" and "threads m t = Some r"
  obtains r' where "threads m' t = Some r'" "core_thread r' = core_thread r"
  using agree_threads(1) [OF assms(1), of t] assms(2) by auto

lemma agree_thread':
  assumes "agree me m' m" and "threads m' t = Some r'"
  obtains r where "threads m t = Some r" "core_thread r' = core_thread r"
  using agree_threads(1) [OF assms(1), of t] assms(2) by (cases "threads m t") auto

lemma map_option_dom: "(\<And>x. map_option g (f' x) = map_option h (f x)) \<Longrightarrow> dom f' = dom f"
  by (metis (no_types, lifting) domIff map_option_is_None subsetI subset_antisym)

lemma agree_dom:
  assumes "agree me m' m"
  shows "dom (threads m') = dom (threads m)" "dom (cpus m') = dom (cpus m)"
proof -
  show "dom (threads m') = dom (threads m)"
    by (rule map_option_dom) (rule agree_threads(1) [OF assms])
  show "dom (cpus m') = dom (cpus m)"
    by (rule map_option_dom [where g = "\<lambda>k. (c_curthread k, c_isidle k)" and h = "\<lambda>k. (c_curthread k, c_isidle k)"])
      (use assms in \<open>simp add: agree_def\<close>)
qed

lemma agree_refl: "agree me m m"
  by (simp add: agree_def)

lemma agree_trans: "agree me m'' m' \<Longrightarrow> agree me m' m \<Longrightarrow> agree me m'' m"
  using agree_curthread [of me m' m me] unfolding agree_def by simp

lemma core_agree:
  assumes "core me m' = core me m"
  shows "agree me m' m"
proof -
  have c: "map_option (\<lambda>k. (c_curthread k, c_isidle k)) (cpus m' c) =
      map_option (\<lambda>k. (c_curthread k, c_isidle k)) (cpus m c)" for c
    using core_cpus(2) [OF assms, of c]
    by (cases "cpus m' c"; cases "cpus m c") (auto dest: core_cpu_curthread)
  have "curthread me m' = curthread me m"
    using c [of me] by (cases "cpus m' me"; cases "cpus m me") (simp_all add: curthread_def)
  then show ?thesis
    using core_fields [OF assms] core_threads [OF assms] c unfolding agree_def by simp
qed

section \<open>The invariant\<close>

definition stack_ok :: "thread \<Rightarrow> bool" where
  "stack_ok r \<longleftrightarrow> (case t_stack r of None \<Rightarrow> True
     | Some s \<Rightarrow> 4 \<le> length s \<and> (\<forall>i < 4. s ! i = THREAD_STACK_MAGIC))"

definition suspended :: "thread \<Rightarrow> bool" where
  "suspended r \<longleftrightarrow> t_curspl r = IPL_HIGH \<and> t_iplhigh_count r = 2 \<and>
     (\<exists>x. t_context r = Some x \<and> (\<forall>s. x = Resume s \<longrightarrow> s = IPL_NONE \<or> s = IPL_HIGH))"

definition placed :: "(tlid \<rightharpoonup> tid list) \<Rightarrow> tid \<Rightarrow> tlid \<Rightarrow> bool" where
  "placed f t l \<longleftrightarrow> (\<exists>xs. f l = Some xs \<and> t \<in> set xs)"

definition place_ok :: "thread \<Rightarrow> tlid \<Rightarrow> bool" where
  "place_ok r l = (case l of
       Runqueue c \<Rightarrow> t_state r = S_READY \<and> t_cpu r = Some c
     | Zombies c \<Rightarrow> t_state r = S_ZOMBIE \<and> t_cpu r = Some c \<and> t_proc r = None \<and> tm_badfaultfunc r = None
     | Wchan w \<Rightarrow> t_state r = S_SLEEP
     | Local n \<Rightarrow> t_state r = (if n = 0 then S_READY else S_SLEEP))"

definition is_current :: "machine \<Rightarrow> tid \<Rightarrow> bool" where
  "is_current m t \<longleftrightarrow> (\<exists>c. curthread c m = Some t)"

definition thr_ok :: "machine \<Rightarrow> (tlid \<rightharpoonup> tid list) \<Rightarrow> tid \<Rightarrow> thread \<Rightarrow> bool" where
  "thr_ok m f t r \<longleftrightarrow>
     (\<exists>c. t_cpu r = Some c \<and> c \<in> dom (cpus m)) \<and> stack_ok r \<and>
     (\<forall>p. t_proc r = Some p \<longrightarrow> p \<in> dom (procs m)) \<and>
     (\<forall>l. placed f t l \<longrightarrow> place_ok r l) \<and>
     (\<not> on_some f t \<longrightarrow> t_state r = S_RUN \<and> is_current m t) \<and>
     (\<not> is_current m t \<longrightarrow> suspended r)"

definition cpu_ok :: "machine \<Rightarrow> (tlid \<rightharpoonup> tid list) \<Rightarrow> cpuid \<Rightarrow> bool" where
  "cpu_ok m f c \<longleftrightarrow> f (Runqueue c) \<noteq> None \<and> f (Zombies c) \<noteq> None \<and>
     (\<exists>t r. curthread c m = Some t \<and> threads m t = Some r \<and> t_cpu r = Some c)"

definition members :: "machine \<Rightarrow> procid \<Rightarrow> tid set" where
  "members m p = {t. \<exists>r. threads m t = Some r \<and> t_proc r = Some p}"

definition procs_ok :: "machine \<Rightarrow> bool" where
  "procs_ok m \<longleftrightarrow> (\<forall>p pr. procs m p = Some pr \<longrightarrow> unat (p_numthreads pr) = card (members m p))"

definition sys :: "machine \<Rightarrow> (tlid \<rightharpoonup> tid list) \<Rightarrow> tid set \<Rightarrow> bool" where
  "sys m f X \<longleftrightarrow> tl_inv (tlh m) f (dom (threads m)) \<and>
     set (allcpus m) = dom (cpus m) \<and> distinct (allcpus m) \<and> procs_ok m \<and>
     (\<forall>c \<in> dom (cpus m). cpu_ok m f c) \<and>
     (\<forall>t r. threads m t = Some r \<and> t \<notin> X \<longrightarrow> thr_ok m f t r)"

lemma sysD:
  assumes "sys m f X"
  shows "tl_inv (tlh m) f (dom (threads m))" "set (allcpus m) = dom (cpus m)" "distinct (allcpus m)" "procs_ok m"
    "c \<in> dom (cpus m) \<Longrightarrow> cpu_ok m f c"
    "threads m t = Some r \<Longrightarrow> t \<notin> X \<Longrightarrow> thr_ok m f t r"
  using assms by (simp_all add: sys_def)

lemma sysI:
  assumes "tl_inv (tlh m) f (dom (threads m))" "set (allcpus m) = dom (cpus m)" "distinct (allcpus m)" "procs_ok m"
    "\<And>c. c \<in> dom (cpus m) \<Longrightarrow> cpu_ok m f c"
    "\<And>t r. threads m t = Some r \<Longrightarrow> t \<notin> X \<Longrightarrow> thr_ok m f t r"
  shows "sys m f X"
  using assms by (simp add: sys_def)

lemma sys_mono: "sys m f X \<Longrightarrow> X \<subseteq> Y \<Longrightarrow> sys m f Y"
  unfolding sys_def by blast

lemma placed_on_some: "on_some f t \<longleftrightarrow> (\<exists>l. placed f t l)"
  by (auto simp: on_some_def placed_def)

lemma placed_upd: "placed (f(l \<mapsto> xs)) t l' \<longleftrightarrow> (if l' = l then t \<in> set xs else placed f t l')"
  by (simp add: placed_def)

lemma placed_unique: "sys m f X \<Longrightarrow> placed f t l \<Longrightarrow> placed f t l' \<Longrightarrow> l = l'"
  unfolding placed_def by (meson sysD(1) tl_inv_disjoint)

text \<open>Fields the invariant reads.\<close>

lemma thr_ok_agree:
  assumes "agree me m' m" and "core_thread r' = core_thread r"
    and "curthread me m = Some t \<or> r' = r"
  shows "thr_ok m' f t r' \<longleftrightarrow> thr_ok m f t r"
proof -
  have c: "is_current m' t \<longleftrightarrow> is_current m t"
    using agree_curthread [OF assms(1)] by (simp add: is_current_def)
  have "\<not> is_current m t \<Longrightarrow> r' = r" using assms(3) by (auto simp: is_current_def)
  then show ?thesis
    using core_thread_fields [OF assms(2)] c agree_dom [OF assms(1)] agree_fields [OF assms(1)]
    by (auto simp: thr_ok_def stack_ok_def place_ok_def split: tlid.splits option.splits)
qed

lemma members_agree:
  assumes "agree me m' m"
  shows "members m' p = members m p"
proof -
  have "(\<exists>r. threads m' t = Some r \<and> t_proc r = Some p) \<longleftrightarrow> (\<exists>r. threads m t = Some r \<and> t_proc r = Some p)" for t
    using agree_threads(1) [OF assms, of t]
    by (cases "threads m' t"; cases "threads m t") (auto dest: core_thread_fields(3))
  then show ?thesis by (simp add: members_def)
qed

lemma sys_agree:
  assumes c: "agree me m' m" and s: "sys m f X"
  shows "sys m' f X"
proof (rule sysI)
  show "tl_inv (tlh m') f (dom (threads m'))" "set (allcpus m') = dom (cpus m')" "distinct (allcpus m')"
    using sysD(1-3) [OF s] agree_fields [OF c] agree_dom [OF c] by simp_all
  show "procs_ok m'"
    using sysD(4) [OF s] members_agree [OF c] agree_fields(4) [OF c] by (simp add: procs_ok_def)
  show "cpu_ok m' f d" if d': "d \<in> dom (cpus m')" for d
  proof -
    have "d \<in> dom (cpus m)" using d' agree_dom [OF c] by simp
    then have ok: "cpu_ok m f d" by (rule sysD(5) [OF s])
    obtain t r where "curthread d m = Some t" "threads m t = Some r" "t_cpu r = Some d"
      "f (Runqueue d) \<noteq> None" "f (Zombies d) \<noteq> None"
      using ok unfolding cpu_ok_def by blast
    moreover from this(2) obtain r' where "threads m' t = Some r'" "core_thread r' = core_thread r"
      using agree_thread [OF c] by blast
    moreover from this(2) have "t_cpu r' = t_cpu r" by (rule core_thread_fields(2))
    ultimately show ?thesis
      using agree_curthread [OF c, of d] by (simp add: cpu_ok_def)
  qed
  show "thr_ok m' f t r'" if t: "threads m' t = Some r'" "t \<notin> X" for t r'
  proof -
    obtain r where r: "threads m t = Some r" "core_thread r' = core_thread r"
      using agree_thread' [OF c t(1)] by blast
    then have "curthread me m = Some t \<or> r' = r"
      using agree_threads(2) [OF c, of t] t(1) by auto
    then show ?thesis
      using thr_ok_agree [OF c r(2)] sysD(6) [OF s r(1) t(2)] by blast
  qed
qed

section \<open>Locks and lists, for a machine that satisfies the invariant\<close>

lemma quiet_fields [simp]:
  "quiet me L s (m\<lparr>tlh := h\<rparr>) = quiet me L s m" "quiet me L s (m\<lparr>procs := ps\<rparr>) = quiet me L s m"
  "quiet me L s (m\<lparr>wc_name := ws\<rparr>) = quiet me L s m" "quiet me L s (m\<lparr>ctlcpu_cipi := l\<rparr>) = quiet me L s m"
  by (simp_all add: quiet_def running_def)

lemma quiet_running: "quiet me L s m \<Longrightarrow> \<exists>c cur r. running me m c cur r"
  unfolding quiet_def by blast

lemma quiet_upd_thread:
  assumes "quiet me L s m" and "threads m t = Some r"
    and "curthread me m \<noteq> Some t \<or> t_curspl r' = t_curspl r \<and> t_iplhigh_count r' = t_iplhigh_count r"
  shows "quiet me L s (m\<lparr>threads := (threads m)(t \<mapsto> r')\<rparr>)"
proof -
  obtain c cur rc where q: "running me m c cur rc" "t_curspl rc = s" "s = IPL_NONE \<or> s = IPL_HIGH"
    "t_iplhigh_count rc = s + int (card L)" "irq m me = (s + int (card L) = 0)"
    "c_spinlocks c = of_nat (card L)" "finite L" "card L < 2 ^ 32" "locks m = held_by me L"
    using assms(1) by (rule quietE)
  let ?rc = "if cur = t then r' else rc"
  have "running me (m\<lparr>threads := (threads m)(t \<mapsto> r')\<rparr>) c cur ?rc"
    using q(1) by (simp add: running_def)
  then show ?thesis
    by (rule quietI) (use q assms(2,3) running_curthread [OF q(1)] runningD [OF q(1)] in auto)
qed

lemma quiet_upd_cpu:
  assumes "quiet me L s m" and "cpus m c = Some k"
    and "c \<noteq> me \<or> c_curthread k' = c_curthread k \<and> c_spinlocks k' = c_spinlocks k"
  shows "quiet me L s (m\<lparr>cpus := (cpus m)(c \<mapsto> k')\<rparr>)"
proof -
  obtain k0 cur rc where q: "running me m k0 cur rc" "t_curspl rc = s" "s = IPL_NONE \<or> s = IPL_HIGH"
    "t_iplhigh_count rc = s + int (card L)" "irq m me = (s + int (card L) = 0)"
    "c_spinlocks k0 = of_nat (card L)" "finite L" "card L < 2 ^ 32" "locks m = held_by me L"
    using assms(1) by (rule quietE)
  let ?k = "if c = me then k' else k0"
  have "running me (m\<lparr>cpus := (cpus m)(c \<mapsto> k')\<rparr>) ?k cur rc"
    using q(1) assms(2,3) by (auto simp: running_def)
  then show ?thesis
    by (rule quietI) (use q assms(2,3) runningD [OF q(1)] in auto)
qed

lemma curthread_fields [simp]:
  "curthread c (m\<lparr>tlh := h\<rparr>) = curthread c m" "curthread c (m\<lparr>threads := T\<rparr>) = curthread c m"
  "curthread c (m\<lparr>procs := ps\<rparr>) = curthread c m" "curthread c (m\<lparr>wc_name := ws\<rparr>) = curthread c m"
  "curthread c (m\<lparr>ctlcpu_cipi := l\<rparr>) = curthread c m"
  by (simp_all add: curthread_def)

lemma is_current_fields [simp]:
  "is_current (m\<lparr>tlh := h\<rparr>) = is_current m" "is_current (m\<lparr>threads := T\<rparr>) = is_current m"
  by (simp_all add: is_current_def fun_eq_iff)

lemma thr_ok_fields [simp]:
  "thr_ok (m\<lparr>tlh := h\<rparr>) = thr_ok m" "thr_ok (m\<lparr>threads := T\<rparr>) = thr_ok m"
  by (simp_all add: thr_ok_def fun_eq_iff)

lemma curthread_cpus:
  "curthread d (m\<lparr>cpus := (cpus m)(c \<mapsto> k)\<rparr>) = (if d = c then c_curthread k else curthread d m)"
  by (simp add: curthread_def)

lemma agree_pending:
  "cpus m c = Some k \<Longrightarrow> agree me (m\<lparr>cpus := (cpus m)(c \<mapsto> k\<lparr>c_ipi_pending := b\<rparr>)\<rparr>) m"
  by (simp add: agree_def curthread_def)

lemma agree_line: "agree me (m\<lparr>ctlcpu_cipi := l\<rparr>) m"
  by (simp add: agree_def)

lemma bit_set: "n < 32 \<Longrightarrow> bit (or x (push_bit n 1) :: u32) n"
  by (simp add: bit_or_iff bit_exp_iff)

lemma ipi_send_ok:
  assumes q: "quiet me L s m" and L: "Ipi_lock c \<notin> L" "card L < 2 ^ 32 - 1"
    and c: "c \<in> dom (cpus m)" and code: "code < 32"
  shows "\<exists>m' k. ipi_send me c code m = Some m' \<and> quiet me L s m' \<and> agree me m' m \<and>
    cpus m' c = Some k \<and> bit (c_ipi_pending k) code"
proof -
  obtain m1 where m1: "spinlock_acquire me (Ipi_lock c) m = Some m1" "quiet me (insert (Ipi_lock c) L) s m1"
    "core me m1 = core me m"
    using sl.acquire [OF q L] by blast
  obtain k where k: "cpus m1 c = Some k"
    using c agree_dom(2) [OF core_agree [OF m1(3)]] by blast
  define k' where "k' = k\<lparr>c_ipi_pending := or (c_ipi_pending k) (push_bit code 1)\<rparr>"
  define m2 where "m2 = m1\<lparr>cpus := (cpus m1)(c \<mapsto> k')\<rparr>"
  obtain m3 where m3: "mainbus_send_ipi c m2 = Some m3" "agree me m3 m2" "cpus m3 = cpus m2"
    "quiet me (insert (Ipi_lock c) L) s m3 = quiet me (insert (Ipi_lock c) L) s m2"
    by (cases "ls_uniprocessor m2")
      (simp_all add: mainbus_send_ipi_def lamebus_assert_ipi_def m2_def agree_refl agree_line)
  have "quiet me (insert (Ipi_lock c) L) s m2"
    unfolding m2_def by (rule quiet_upd_cpu [OF m1(2) k]) (simp add: k'_def)
  then obtain m4 where m4: "spinlock_release me (Ipi_lock c) m3 = Some m4"
    "quiet me (insert (Ipi_lock c) L - {Ipi_lock c}) s m4" "core me m4 = core me m3"
    using sl.release [of me "insert (Ipi_lock c) L" s m3 "Ipi_lock c"] m3(4) by blast
  have "upd_cpu c (\<lambda>k. k\<lparr>c_ipi_pending := or (c_ipi_pending k) (push_bit code 1)\<rparr>) m1 = Some m2"
    unfolding upd_cpu_def m2_def k'_def k by (rule Option.bind.bind_lunit)
  then have run: "ipi_send me c code m = Some m4"
    unfolding ipi_send_def m1(1) using m3(1) m4(1) code by simp
  have "agree me m2 m1" unfolding m2_def k'_def by (rule agree_pending [OF k])
  then have ag: "agree me m4 m"
    using core_agree [OF m4(3)] core_agree [OF m1(3)] m3(2) agree_trans by blast
  have "cpus m3 c = Some k'" by (simp add: m3(3) m2_def)
  then obtain k4 where k4: "cpus m4 c = Some k4" "core_cpu k4 = core_cpu k'"
    using core_cpus(2) [OF m4(3), of c] by auto
  have "c_ipi_pending (core_cpu k4) = c_ipi_pending (core_cpu k')" by (simp only: k4(2))
  then have "c_ipi_pending k4 = or (c_ipi_pending k) (push_bit code 1)" by (simp add: core_cpu_def k'_def)
  then have "bit (c_ipi_pending k4) code" using bit_set [OF code] by simp
  then show ?thesis using run m4(2) ag k4(1) L(1) by simp
qed

section \<open>Moving one thread\<close>

definition thr_base :: "machine \<Rightarrow> tid \<Rightarrow> thread \<Rightarrow> bool" where
  "thr_base m t r \<longleftrightarrow> (\<exists>c. t_cpu r = Some c \<and> c \<in> dom (cpus m)) \<and> stack_ok r \<and>
     (\<forall>p. t_proc r = Some p \<longrightarrow> p \<in> dom (procs m)) \<and> (\<not> is_current m t \<longrightarrow> suspended r)"

lemma thr_ok_iff: "thr_ok m f t r \<longleftrightarrow> thr_base m t r \<and> (\<forall>l. placed f t l \<longrightarrow> place_ok r l) \<and>
     (\<not> on_some f t \<longrightarrow> t_state r = S_RUN \<and> is_current m t)"
  by (auto simp: thr_ok_def thr_base_def)

lemma thr_ok_placed_cong:
  assumes "\<And>l. placed f' t l \<longleftrightarrow> placed f t l"
  shows "thr_ok m f' t r \<longleftrightarrow> thr_ok m f t r"
  using assms by (simp add: thr_ok_iff placed_on_some)

lemma members_upd:
  assumes "threads m t = Some r" and "t_proc r' = t_proc r"
  shows "members (m\<lparr>threads := (threads m)(t \<mapsto> r'), tlh := h\<rparr>) p = members m p"
  using assms by (auto simp: members_def)

lemma sys_move:
  assumes s: "sys m f X" and tl: "tl_inv h f' (dom (threads m))"
    and pl: "\<And>u l. u \<noteq> t \<Longrightarrow> placed f' u l \<longleftrightarrow> placed f u l" and dm: "\<And>l. f l \<noteq> None \<Longrightarrow> f' l \<noteq> None"
    and r: "threads m t = Some r" and cpu: "t_cpu r' = t_cpu r \<or> \<not> is_current m t" and pr: "t_proc r' = t_proc r"
    and X: "X \<subseteq> insert t X'" and ok: "t \<notin> X' \<Longrightarrow> thr_ok m f' t r'"
  shows "sys (m\<lparr>threads := (threads m)(t \<mapsto> r'), tlh := h\<rparr>) f' X'"
proof (rule sysI)
  let ?m = "m\<lparr>threads := (threads m)(t \<mapsto> r'), tlh := h\<rparr>"
  show "tl_inv (tlh ?m) f' (dom (threads ?m))" "set (allcpus ?m) = dom (cpus ?m)" "distinct (allcpus ?m)"
    using tl r sysD(2,3) [OF s] by (simp_all add: insert_absorb domI)
  show "procs_ok ?m"
    using sysD(4) [OF s] members_upd [OF r pr] by (simp add: procs_ok_def)
  show "cpu_ok ?m f' c" if "c \<in> dom (cpus ?m)" for c
  proof -
    have "cpu_ok m f c" using sysD(5) [OF s] that by simp
    then obtain u ru where u: "curthread c m = Some u" "threads m u = Some ru" "t_cpu ru = Some c"
      and q: "f (Runqueue c) \<noteq> None" "f (Zombies c) \<noteq> None"
      unfolding cpu_ok_def by blast
    have "u = t \<Longrightarrow> t_cpu r' = Some c" using u r cpu by (auto simp: is_current_def)
    then show ?thesis using u dm [OF q(1)] dm [OF q(2)] by (auto simp: cpu_ok_def)
  qed
  show "thr_ok ?m f' u ru" if u: "threads ?m u = Some ru" "u \<notin> X'" for u ru
  proof (cases "u = t")
    case True
    then show ?thesis using u ok by simp
  next
    case False
    then have "thr_ok m f u ru" using sysD(6) [OF s, of u ru] u X by auto
    then show ?thesis using thr_ok_placed_cong [of f' u f] pl [OF False] by simp
  qed
qed

lemma sys_tlh:
  assumes s: "sys m f X" and tl: "tl_inv h f' (dom (threads m))"
    and pl: "\<And>u l. u \<noteq> t \<Longrightarrow> placed f' u l \<longleftrightarrow> placed f u l" and dm: "\<And>l. f l \<noteq> None \<Longrightarrow> f' l \<noteq> None"
    and r: "threads m t = Some r"
    and X: "X \<subseteq> insert t X'" and ok: "t \<notin> X' \<Longrightarrow> thr_ok m f' t r"
  shows "sys (m\<lparr>tlh := h\<rparr>) f' X'"
proof -
  have "m\<lparr>threads := (threads m)(t \<mapsto> r), tlh := h\<rparr> = m\<lparr>tlh := h\<rparr>"
    using r by (simp add: map_upd_triv)
  then show ?thesis using sys_move [OF s tl pl dm r _ _ X ok] by simp
qed

lemma sys_upd_cpu:
  assumes s: "sys m f X" and k: "cpus m c = Some k" and k': "c_curthread k' = c_curthread k"
  shows "sys (m\<lparr>cpus := (cpus m)(c \<mapsto> k')\<rparr>) f X"
proof -
  let ?m = "m\<lparr>cpus := (cpus m)(c \<mapsto> k')\<rparr>"
  have cur: "curthread d ?m = curthread d m" for d
    using k k' by (simp add: curthread_def)
  then have ic: "is_current ?m = is_current m" by (simp add: is_current_def fun_eq_iff)
  have dm: "dom (cpus ?m) = dom (cpus m)" using k by auto
  have ok: "thr_ok ?m = thr_ok m" using ic dm by (simp add: thr_ok_def fun_eq_iff)
  have "procs_ok ?m = procs_ok m" by (simp add: procs_ok_def members_def)
  moreover have "cpu_ok ?m f = cpu_ok m f" using cur by (simp add: cpu_ok_def fun_eq_iff)
  ultimately show ?thesis using s dm ok by (simp add: sys_def)
qed

lemma thr_base_agree:
  assumes "agree me m' m" and "threads m t = Some r" and "threads m' t = Some r'" and "thr_base m t r"
  shows "thr_base m' t r'"
proof -
  have core: "core_thread r' = core_thread r"
    using agree_threads(1) [OF assms(1), of t] assms(2,3) by simp
  have cur: "is_current m' t \<longleftrightarrow> is_current m t"
    using agree_curthread [OF assms(1)] by (simp add: is_current_def)
  have "\<not> is_current m t \<Longrightarrow> r' = r"
    using agree_threads(2) [OF assms(1), of t] assms(2,3) by (auto simp: is_current_def)
  then show ?thesis
    using assms(4) cur core_thread_fields [OF core] agree_dom [OF assms(1)] agree_fields [OF assms(1)]
    by (auto simp: thr_base_def stack_ok_def)
qed

lemma thr_base_fields [simp]:
  "thr_base m t (r\<lparr>t_state := x\<rparr>) = thr_base m t r" "thr_base m t (r\<lparr>t_wchan_name := y\<rparr>) = thr_base m t r"
  "thr_base (m\<lparr>threads := T\<rparr>) = thr_base m" "thr_base (m\<lparr>tlh := h\<rparr>) = thr_base m"
  by (simp_all add: thr_base_def stack_ok_def suspended_def fun_eq_iff)

lemma placed_snoc:
  assumes "f l = Some xs" and "\<not> on_some f t"
  shows "u \<noteq> t \<Longrightarrow> placed (f(l \<mapsto> xs @ [t])) u l' \<longleftrightarrow> placed f u l'"
    and "placed (f(l \<mapsto> xs @ [t])) t l' \<longleftrightarrow> l' = l"
    and "on_some (f(l \<mapsto> xs @ [t])) t"
  using assms by (auto simp: placed_def on_some_def)

text \<open>Appending a thread in hand to a list, with its state set to match.\<close>

lemma sys_enqueue:
  assumes s: "sys m f X" and t: "threads m t = Some r" and off: "\<not> on_some f t"
    and base: "thr_base m t r" and l: "f l = Some xs" and r': "core_thread r' = core_thread (r\<lparr>t_state := x\<rparr>)"
    "t_curspl r' = t_curspl r" "t_iplhigh_count r' = t_iplhigh_count r" and ok: "place_ok r' l"
  shows "\<exists>h. threadlist_addtail l t (tlh m) = Some h \<and> tl_inv h (f(l \<mapsto> xs @ [t])) (dom (threads m)) \<and>
    sys (m\<lparr>threads := (threads m)(t \<mapsto> r'), tlh := h\<rparr>) (f(l \<mapsto> xs @ [t])) (X - {t})"
proof -
  obtain h where h: "threadlist_addtail l t (tlh m) = Some h" "tl_inv h (f(l \<mapsto> xs @ [t])) (dom (threads m))"
    using threadlist_addtail_inv [OF sysD(1) [OF s] l _ off] t by blast
  have f: "t_cpu r' = t_cpu r" "t_proc r' = t_proc r" "t_stack r' = t_stack r" "t_context r' = t_context r"
    using core_thread_fields [OF r'(1)] by simp_all
  then have "thr_base m t r'"
    using base r'(2,3) by (simp add: thr_base_def stack_ok_def suspended_def)
  then have "thr_ok m (f(l \<mapsto> xs @ [t])) t r'"
    using ok placed_snoc(2,3) [OF l off] by (simp add: thr_ok_iff)
  then have "sys (m\<lparr>threads := (threads m)(t \<mapsto> r'), tlh := h\<rparr>) (f(l \<mapsto> xs @ [t])) (X - {t})"
    by (intro sys_move [OF s h(2) _ _ t]) (use placed_snoc(1) [OF l off] f in auto)
  then show ?thesis using h by blast
qed

lemma quiet_lock_both:
  assumes q: "quiet me L s m" and L: "if have then k \<in> L else k \<notin> L" "card L < 2 ^ 32 - 1"
  shows "\<exists>m1. (if have then do { kassert (spinlock_do_i_hold me k m); Some m } else spinlock_acquire me k m) = Some m1 \<and>
    quiet me (insert k L) s m1 \<and> agree me m1 m"
proof (cases "have")
  case True
  then have "insert k L = L" using L by auto
  then show ?thesis using True q quiet_held [OF q, of k] L by (simp add: agree_refl)
next
  case False
  then show ?thesis using sl.acquire [OF q _ L(2)] L(1) core_agree by fastforce
qed

lemma quiet_unlock_both:
  assumes q: "quiet me (insert k L) s m" and L: "if have then k \<in> L else k \<notin> L"
  shows "\<exists>m1. (if \<not> have then spinlock_release me k m else Some m) = Some m1 \<and> quiet me L s m1 \<and>
    core me m1 = core me m"
proof (cases "have")
  case True
  then have "insert k L = L" using L by auto
  then show ?thesis using True q by simp
next
  case False
  then show ?thesis using sl.release [OF q, of k] L by simp
qed

definition cpu_of :: "machine \<Rightarrow> tid \<Rightarrow> cpuid option" where
  "cpu_of m t = do { r \<leftarrow> threads m t; t_cpu r }"

lemma cpu_of_agree:
  assumes "agree me m' m"
  shows "cpu_of m' = cpu_of m"
proof
  show "cpu_of m' t = cpu_of m t" for t
    using agree_threads(1) [OF assms, of t]
    by (cases "threads m' t"; cases "threads m t") (auto simp: cpu_of_def dest: core_thread_fields(2))
qed

definition unidled :: "cpuid \<Rightarrow> cpuid \<Rightarrow> machine \<Rightarrow> bool" where
  "unidled me c m \<longleftrightarrow> (\<forall>k. cpus m c = Some k \<and> c_isidle k \<and> c \<noteq> me \<longrightarrow> bit (c_ipi_pending k) IPI_UNIDLE)"

lemma unidled_core:
  assumes "core me m' = core me m" and "unidled me c m"
  shows "unidled me c m'"
  using assms core_cpus(1) [OF assms(1), of c] by (auto simp: unidled_def)

lemma ipi_unidle_ok:
  assumes q: "quiet me L s m" and L: "Ipi_lock c \<notin> L" "card L < 2 ^ 32 - 1" and k: "cpus m c = Some k"
  shows "\<exists>m'. (if c_isidle k \<and> c \<noteq> me then ipi_send me c IPI_UNIDLE m else Some m) = Some m' \<and>
    quiet me L s m' \<and> agree me m' m \<and> unidled me c m'"
proof (cases "c_isidle k \<and> c \<noteq> me")
  case True
  obtain m' k' where "ipi_send me c IPI_UNIDLE m = Some m'" "quiet me L s m'" "agree me m' m"
    "cpus m' c = Some k'" "bit (c_ipi_pending k') IPI_UNIDLE"
    using ipi_send_ok [OF q L, of IPI_UNIDLE] k by (auto simp: IPI_UNIDLE_def)
  then show ?thesis using True by (auto simp: unidled_def)
next
  case False
  then show ?thesis using q k by (auto simp: agree_refl unidled_def)
qed

lemma thread_make_runnable_ok:
  assumes q: "quiet me L s m" and sy: "sys m f X" and t: "threads m t = Some r" and off: "\<not> on_some f t"
    and base: "thr_base m t r" and c: "t_cpu r = Some c" and rq: "f (Runqueue c) = Some xs"
    and L: "if have then Runqueue_lock c \<in> L else Runqueue_lock c \<notin> L" "Ipi_lock c \<notin> L" "card L < 2 ^ 32 - 2"
  shows "\<exists>m'. thread_make_runnable me t have m = Some m' \<and> quiet me L s m' \<and>
    sys m' (f(Runqueue c \<mapsto> xs @ [t])) (X - {t}) \<and> (\<forall>d. curthread d m' = curthread d m) \<and> cpu_of m' = cpu_of m \<and>
    dom (threads m') = dom (threads m) \<and> unidled me c m'"
proof -
  let ?f = "f(Runqueue c \<mapsto> xs @ [t])" and ?L = "insert (Runqueue_lock c) L"
  obtain m1 where m1: "(if have then do { kassert (spinlock_do_i_hold me (Runqueue_lock c) m); Some m }
      else spinlock_acquire me (Runqueue_lock c) m) = Some m1" "quiet me ?L s m1" "agree me m1 m"
    using quiet_lock_both [OF q L(1)] L(3) by auto
  obtain r1 where r1: "threads m1 t = Some r1" "core_thread r1 = core_thread r"
    using agree_thread [OF m1(3) t] by blast
  let ?r = "r1\<lparr>t_state := S_READY\<rparr>"
  have "thr_base m1 t r1" by (rule thr_base_agree [OF m1(3) t r1(1) base])
  moreover have "place_ok ?r (Runqueue c)"
    using core_thread_fields(2) [OF r1(2)] c by (simp add: place_ok_def)
  ultimately obtain h where h: "threadlist_addtail (Runqueue c) t (tlh m1) = Some h"
    and s3: "sys (m1\<lparr>threads := (threads m1)(t \<mapsto> ?r), tlh := h\<rparr>) ?f (X - {t})"
    using sys_enqueue [OF sys_agree [OF m1(3) sy] r1(1) off _ rq, of ?r S_READY] by auto
  let ?m3 = "m1\<lparr>threads := (threads m1)(t \<mapsto> ?r), tlh := h\<rparr>"
  have q3: "quiet me ?L s ?m3" using quiet_upd_thread [OF m1(2) r1(1), of ?r] by simp
  obtain k where k: "cpus ?m3 c = Some k"
    using base c agree_dom(2) [OF m1(3)] by (auto simp: thr_base_def)
  have "card ?L \<le> Suc (card L)" by (rule card_insert_le_m1) auto
  then have room: "card ?L < 2 ^ 32 - 1" using L(3) by linarith
  obtain m4 where m4: "(if c_isidle k \<and> c \<noteq> me then ipi_send me c IPI_UNIDLE ?m3 else Some ?m3) = Some m4"
    "quiet me ?L s m4" "agree me m4 ?m3" "unidled me c m4"
    using ipi_unidle_ok [OF q3 _ room k] L(2) by auto
  obtain m5 where m5: "(if \<not> have then spinlock_release me (Runqueue_lock c) m4 else Some m4) = Some m5"
    "quiet me L s m5" "core me m5 = core me m4"
    using quiet_unlock_both [OF m4(2) L(1)] by blast
  have "agree me m5 ?m3" using agree_trans [OF core_agree [OF m5(3)] m4(3)] .
  then have s5: "sys m5 ?f (X - {t})" by (rule sys_agree [OF _ s3])
  have cur: "curthread d m5 = curthread d m" for d
    using agree_curthread [OF \<open>agree me m5 ?m3\<close>] agree_curthread [OF m1(3)] by simp
  have "cpu_of ?m3 = cpu_of m1" using r1(1) by (auto simp: cpu_of_def fun_eq_iff)
  then have cpu: "cpu_of m5 = cpu_of m"
    using cpu_of_agree [OF \<open>agree me m5 ?m3\<close>] cpu_of_agree [OF m1(3)] by simp
  have dom: "dom (threads m5) = dom (threads m)"
    using agree_dom(1) [OF \<open>agree me m5 ?m3\<close>] agree_dom(1) [OF m1(3)] t by auto
  have "thread_make_runnable me t have m = Some m5"
    unfolding thread_make_runnable_def using t c m1(1) r1(1) h k m4(1) m5(1)
    by (simp add: upd_thread_def on_tlh_def del: bind_assoc)
  then show ?thesis using m5(2) s5 cur cpu dom unidled_core [OF m5(3) m4(4)] by blast
qed

section \<open>Taking threads off lists\<close>

lemma placed_remove:
  assumes "f l = Some (as @ t # bs)" and "u \<noteq> t"
  shows "placed (f(l \<mapsto> as @ bs)) u l' \<longleftrightarrow> placed f u l'"
  using assms by (auto simp: placed_def)

lemma sys_remove:
  assumes s: "sys m f X" and l: "f l = Some (as @ t # bs)" and tl: "tl_inv h (f(l \<mapsto> as @ bs)) (dom (threads m))"
  shows "sys (m\<lparr>tlh := h\<rparr>) (f(l \<mapsto> as @ bs)) (insert t X)" and "\<not> on_some (f(l \<mapsto> as @ bs)) t"
    and "\<exists>r. threads m t = Some r \<and> (t \<notin> X \<longrightarrow> thr_ok m f t r \<and> place_ok r l)"
proof -
  obtain r where r: "threads m t = Some r"
    using tl_inv_sub [OF sysD(1) [OF s] l] by auto
  show "sys (m\<lparr>tlh := h\<rparr>) (f(l \<mapsto> as @ bs)) (insert t X)"
    by (rule sys_tlh [OF s tl _ _ r]) (use placed_remove [of f l as t bs, OF l] in auto)
  show "\<not> on_some (f(l \<mapsto> as @ bs)) t"
    by (rule tlq.removed_off [OF sysD(1) [OF s] l])
  have "placed f t l" using l by (simp add: placed_def)
  then show "\<exists>r. threads m t = Some r \<and> (t \<notin> X \<longrightarrow> thr_ok m f t r \<and> place_ok r l)"
    using r sysD(6) [OF s r] by (auto simp: thr_ok_iff)
qed

lemma sys_remhead:
  assumes s: "sys m f {}" and l: "f l = Some (t # xs)"
  shows "\<exists>h r. take_tlh (threadlist_remhead l) m = Some (Some t, m\<lparr>tlh := h\<rparr>) \<and>
    sys (m\<lparr>tlh := h\<rparr>) (f(l \<mapsto> xs)) {t} \<and> \<not> on_some (f(l \<mapsto> xs)) t \<and> threads m t = Some r \<and>
    thr_base m t r \<and> place_ok r l"
proof -
  obtain h where h: "threadlist_remhead l (tlh m) = Some (Some t, h)" "tl_inv h (f(l \<mapsto> xs)) (dom (threads m))"
    using threadlist_remhead_Cons [OF sysD(1) [OF s] l] by blast
  then show ?thesis
    using sys_remove [OF s, of l "[]" t xs h] l by (auto simp: take_tlh_def thr_ok_iff)
qed

lemma sys_remhead_Nil:
  assumes "sys m f X" and "f l = Some []"
  shows "take_tlh (threadlist_remhead l) m = Some (None, m)"
  using threadlist_remhead_Nil [OF sysD(1) [OF assms(1)] assms(2)] by (simp add: take_tlh_def)

lemma sys_remtail:
  assumes s: "sys m f {}" and l: "f l = Some (xs @ [t])"
  shows "\<exists>h r. take_tlh (threadlist_remtail l) m = Some (Some t, m\<lparr>tlh := h\<rparr>) \<and>
    sys (m\<lparr>tlh := h\<rparr>) (f(l \<mapsto> xs)) {t} \<and> \<not> on_some (f(l \<mapsto> xs)) t \<and> threads m t = Some r \<and>
    thr_base m t r \<and> place_ok r l"
proof -
  obtain h where h: "threadlist_remtail l (tlh m) = Some (Some t, h)" "tl_inv h (f(l \<mapsto> xs)) (dom (threads m))"
    using threadlist_remtail_snoc [OF sysD(1) [OF s] l] by blast
  then show ?thesis
    using sys_remove [OF s, of l xs t "[]" h] l by (auto simp: take_tlh_def thr_ok_iff)
qed

lemma sys_relist:
  assumes s: "sys m f X" and tl: "tl_inv h f' (dom (threads m))" and dm: "\<And>l. f l \<noteq> None \<Longrightarrow> f' l \<noteq> None"
    and pl: "\<And>t r. threads m t = Some r \<Longrightarrow> t \<notin> X \<Longrightarrow> thr_ok m f t r \<Longrightarrow> thr_ok m f' t r"
  shows "sys (m\<lparr>tlh := h\<rparr>) f' X"
proof (rule sysI)
  let ?m = "m\<lparr>tlh := h\<rparr>"
  show "tl_inv (tlh ?m) f' (dom (threads ?m))" "set (allcpus ?m) = dom (cpus ?m)" "distinct (allcpus ?m)"
    using tl sysD(2,3) [OF s] by simp_all
  show "procs_ok ?m" using sysD(4) [OF s] by (simp add: procs_ok_def members_def)
  show "cpu_ok ?m f' c" if "c \<in> dom (cpus ?m)" for c
    using sysD(5) [OF s, of c] that dm [of "Runqueue c"] dm [of "Zombies c"] by (simp add: cpu_ok_def)
  show "thr_ok ?m f' t r" if "threads ?m t = Some r" "t \<notin> X" for t r
    using sysD(6) [OF s, of t r] that pl [of t r] by simp
qed

lemma sys_init_list:
  assumes "sys m f X" and "f l = None \<or> f l = Some []"
  shows "sys (m\<lparr>tlh := threadlist_init l (tlh m)\<rparr>) (f(l \<mapsto> [])) X"
proof (rule sys_relist [OF assms(1)])
  show "tl_inv (threadlist_init l (tlh m)) (f(l \<mapsto> [])) (dom (threads m))"
    using threadlist_init_inv [OF sysD(1) [OF assms(1)] assms(2)] .
  have "placed (f(l \<mapsto> [])) t l' \<longleftrightarrow> placed f t l'" for t l'
    using assms(2) by (auto simp: placed_def)
  then show "thr_ok m (f(l \<mapsto> [])) t r" if "thr_ok m f t r" for t r
    using that thr_ok_placed_cong [of "f(l \<mapsto> [])" t f] by simp
qed auto

section \<open>Wait channels\<close>

text \<open>The locks one may hold when waking threads: neither run-queue nor interrupt locks.\<close>

definition outer :: "lkid set \<Rightarrow> bool" where
  "outer L \<longleftrightarrow> (\<forall>c. Runqueue_lock c \<notin> L \<and> Ipi_lock c \<notin> L) \<and> card L < 2 ^ 32 - 2"

lemma wake_ok:
  assumes q: "quiet me L s m" and o: "outer L" and sy: "sys m f {}" and l: "f l = Some (t # ts)"
    and nrq: "\<And>c. l \<noteq> Runqueue c"
  shows "\<exists>m1 m' c q. take_tlh (threadlist_remhead l) m = Some (Some t, m1) \<and>
    thread_make_runnable me t False m1 = Some m' \<and> cpu_of m t = Some c \<and> f (Runqueue c) = Some q \<and>
    quiet me L s m' \<and> sys m' (f(l \<mapsto> ts, Runqueue c \<mapsto> q @ [t])) {} \<and>
    (\<forall>d. curthread d m' = curthread d m) \<and> cpu_of m' = cpu_of m \<and> unidled me c m'"
proof -
  obtain h r where h: "take_tlh (threadlist_remhead l) m = Some (Some t, m\<lparr>tlh := h\<rparr>)"
    "sys (m\<lparr>tlh := h\<rparr>) (f(l \<mapsto> ts)) {t}" "\<not> on_some (f(l \<mapsto> ts)) t" "threads m t = Some r" "thr_base m t r"
    using sys_remhead [OF sy l] by blast
  obtain c where c: "t_cpu r = Some c" "c \<in> dom (cpus m)" using h(5) by (auto simp: thr_base_def)
  obtain xs where xs: "f (Runqueue c) = Some xs" using sysD(5) [OF sy c(2)] by (auto simp: cpu_ok_def)
  then have "(f(l \<mapsto> ts)) (Runqueue c) = Some xs" using nrq [of c] by auto
  then obtain m' where
    "thread_make_runnable me t False (m\<lparr>tlh := h\<rparr>) = Some m'" "quiet me L s m'"
    "sys m' (f(l \<mapsto> ts, Runqueue c \<mapsto> xs @ [t])) {}" "\<forall>d. curthread d m' = curthread d m"
    "cpu_of m' = cpu_of (m\<lparr>tlh := h\<rparr>)" "unidled me c m'"
    using thread_make_runnable_ok [of me L s "m\<lparr>tlh := h\<rparr>" "f(l \<mapsto> ts)" "{t}" t r c xs False] h(2-5) q o c(1)
    by (auto simp: outer_def)
  then show ?thesis
    using h(1,4) c(1) xs by (auto simp: cpu_of_def fun_eq_iff)
qed

lemma wchan_wakeone_ok:
  assumes q: "quiet me L s m" and o: "outer L" and sy: "sys m f {}" and lk: "lk \<in> L"
    and w: "f (Wchan w) = Some (t # ts)"
  shows "\<exists>m' c q. wchan_wakeone me w lk m = Some m' \<and> cpu_of m t = Some c \<and> f (Runqueue c) = Some q \<and>
    quiet me L s m' \<and> sys m' (f(Wchan w \<mapsto> ts, Runqueue c \<mapsto> q @ [t])) {} \<and>
    (\<forall>d. curthread d m' = curthread d m) \<and> cpu_of m' = cpu_of m \<and> unidled me c m'"
proof -
  obtain m1 m' c xs where "take_tlh (threadlist_remhead (Wchan w)) m = Some (Some t, m1)"
    "thread_make_runnable me t False m1 = Some m'" "cpu_of m t = Some c" "f (Runqueue c) = Some xs"
    "quiet me L s m'" "sys m' (f(Wchan w \<mapsto> ts, Runqueue c \<mapsto> xs @ [t])) {}"
    "\<forall>d. curthread d m' = curthread d m" "cpu_of m' = cpu_of m" "unidled me c m'"
    using wake_ok [OF q o sy w] by blast
  moreover from this(1,2) have "wchan_wakeone me w lk m = Some m'"
    using quiet_held [OF q, of lk] lk by (simp add: wchan_wakeone_def)
  ultimately show ?thesis by blast
qed

lemma wchan_wakeone_Nil:
  assumes q: "quiet me L s m" and sy: "sys m f {}" and lk: "lk \<in> L" and w: "f (Wchan w) = Some []"
  shows "wchan_wakeone me w lk m = Some m"
  using sys_remhead_Nil [OF sy w] quiet_held [OF q, of lk] lk by (simp add: wchan_wakeone_def)

text \<open>Appending each of some threads to the run queue of its cpu, in order.\<close>

fun enq_all :: "(tid \<Rightarrow> cpuid option) \<Rightarrow> tid list \<Rightarrow> (tlid \<rightharpoonup> tid list) \<Rightarrow> tlid \<rightharpoonup> tid list" where
  "enq_all cpu [] f = f"
| "enq_all cpu (t # ts) f =
    enq_all cpu ts (f(Runqueue (the (cpu t)) \<mapsto> the (f (Runqueue (the (cpu t)))) @ [t]))"

lemma enq_all_Runqueue:
  "f (Runqueue c) = Some q \<Longrightarrow> (\<And>t. t \<in> set ts \<Longrightarrow> f (Runqueue (the (cpu t))) \<noteq> None) \<Longrightarrow>
   enq_all cpu ts f (Runqueue c) = Some (q @ filter (\<lambda>t. the (cpu t) = c) ts)"
proof (induction ts arbitrary: f q)
  case Nil
  then show ?case by simp
next
  case (Cons t ts)
  let ?f = "f(Runqueue (the (cpu t)) \<mapsto> the (f (Runqueue (the (cpu t)))) @ [t])"
  have "?f (Runqueue c) = Some (if the (cpu t) = c then q @ [t] else q)"
    using Cons.prems(1) by auto
  moreover have "\<And>u. u \<in> set ts \<Longrightarrow> ?f (Runqueue (the (cpu u))) \<noteq> None"
    using Cons.prems(2) by simp
  ultimately have "enq_all cpu ts ?f (Runqueue c) =
      Some ((if the (cpu t) = c then q @ [t] else q) @ filter (\<lambda>t. the (cpu t) = c) ts)"
    by (rule Cons.IH)
  then show ?case by simp
qed

lemma enq_all_other: "(\<And>c. l \<noteq> Runqueue c) \<Longrightarrow> enq_all cpu ts f l = f l"
  by (induction ts arbitrary: f) simp_all

lemma wake_loop:
  assumes "quiet me L s m" and o: "outer L" and "sys m f {}" and "f (Local n) = Some ts"
  shows "\<exists>m'. drain (take_tlh (threadlist_remhead (Local n))) (\<lambda>t. thread_make_runnable me t False) m = Some m' \<and>
    quiet me L s m' \<and> sys m' (enq_all (cpu_of m) ts (f(Local n \<mapsto> []))) {} \<and>
    (\<forall>d. curthread d m' = curthread d m) \<and> cpu_of m' = cpu_of m"
  using assms(1,3,4)
proof (induction ts arbitrary: m f)
  case Nil
  then have "f(Local n \<mapsto> []) = f" by (auto simp: fun_eq_iff)
  then show ?case
    using Nil sys_remhead_Nil [OF Nil(2,3)] by (simp add: drain.simps [of _ _ m])
next
  case (Cons t ts)
  obtain m1 m2 c q where w: "take_tlh (threadlist_remhead (Local n)) m = Some (Some t, m1)"
    "thread_make_runnable me t False m1 = Some m2" "cpu_of m t = Some c" "f (Runqueue c) = Some q"
    "quiet me L s m2" "sys m2 (f(Local n \<mapsto> ts, Runqueue c \<mapsto> q @ [t])) {}"
    "\<forall>d. curthread d m2 = curthread d m" "cpu_of m2 = cpu_of m"
    using wake_ok [OF Cons.prems(1) o Cons.prems(2,3)] by blast
  have step: "drain (take_tlh (threadlist_remhead (Local n))) (\<lambda>t. thread_make_runnable me t False) m =
      drain (take_tlh (threadlist_remhead (Local n))) (\<lambda>t. thread_make_runnable me t False) m2"
    using w(1,2) by (simp add: drain.simps [of _ _ m])
  have loc: "(f(Local n \<mapsto> ts, Runqueue c \<mapsto> q @ [t])) (Local n) = Some ts" by simp
  have eq: "(f(Local n \<mapsto> ts, Runqueue c \<mapsto> q @ [t]))(Local n \<mapsto> []) =
      (f(Local n \<mapsto> []))(Runqueue c \<mapsto> q @ [t])"
    by (auto simp: fun_eq_iff)
  have IH: "\<exists>m'. drain (take_tlh (threadlist_remhead (Local n))) (\<lambda>t. thread_make_runnable me t False) m2 = Some m' \<and>
      quiet me L s m' \<and> sys m' (enq_all (cpu_of m2) ts ((f(Local n \<mapsto> []))(Runqueue c \<mapsto> q @ [t]))) {} \<and>
      (\<forall>d. curthread d m' = curthread d m2) \<and> cpu_of m' = cpu_of m2"
    using Cons.IH [OF w(5,6) loc] unfolding eq .
  have e: "enq_all (cpu_of m) (t # ts) (f(Local n \<mapsto> [])) =
      enq_all (cpu_of m) ts ((f(Local n \<mapsto> []))(Runqueue c \<mapsto> q @ [t]))"
    using w(3,4) by simp
  show ?case unfolding step e using IH w(7,8) by simp
qed

lemma drain_lift:
  assumes "drain rem body h = Some h'" and "tlh m = h"
  shows "drain (take_tlh rem) (\<lambda>t. on_tlh (body t)) m = Some (m\<lparr>tlh := h'\<rparr>)"
proof -
  have "\<forall>m. tlh m = h \<longrightarrow> drain (take_tlh rem) (\<lambda>t. on_tlh (body t)) m = Some (m\<lparr>tlh := h'\<rparr>)"
  proof (rule drain.raw_induct [OF _ assms(1), where P = "\<lambda>rem body h h'. \<forall>m. tlh m = h \<longrightarrow>
        drain (take_tlh rem) (\<lambda>t. on_tlh (body t)) m = Some (m\<lparr>tlh := h'\<rparr>)"], intro allI impI)
    fix d rem body h h' and m :: machine
    assume IH: "\<And>rem body h h'. d rem body h = Some h' \<Longrightarrow>
        \<forall>m. tlh m = h \<longrightarrow> drain (take_tlh rem) (\<lambda>t. on_tlh (body t)) m = Some (m\<lparr>tlh := h'\<rparr>)"
      and r: "do { (t, h) \<leftarrow> rem h; case t of None \<Rightarrow> Some h | Some i \<Rightarrow> do { h \<leftarrow> body i h; d rem body h } } = Some h'"
      and m: "tlh m = h"
    then obtain t h1 where t: "rem h = Some (t, h1)" by (auto simp: bind_eq_Some_conv)
    show "drain (take_tlh rem) (\<lambda>t. on_tlh (body t)) m = Some (m\<lparr>tlh := h'\<rparr>)"
    proof (cases t)
      case None
      then show ?thesis using r t m by (simp add: drain.simps [of _ _ m] take_tlh_def)
    next
      case (Some i)
      then obtain h2 where h2: "body i h1 = Some h2" "d rem body h2 = Some h'"
        using r t by (auto simp: bind_eq_Some_conv)
      have "drain (take_tlh rem) (\<lambda>t. on_tlh (body t)) (m\<lparr>tlh := h2\<rparr>) = Some (m\<lparr>tlh := h'\<rparr>)"
        using IH [OF h2(2)] by simp
      then show ?thesis
        using Some t m h2(1) by (simp add: drain.simps [of _ _ m] take_tlh_def on_tlh_def)
    qed
  qed
  then show ?thesis using assms(2) by blast
qed

lemma sys_drain:
  assumes s: "sys m f {}" and a: "f a = Some xs" and b: "f b = Some ys" and ab: "a \<noteq> b"
    and ok: "\<And>r. place_ok r a \<Longrightarrow> place_ok r b"
  shows "\<exists>h. drain (take_tlh (threadlist_remhead a)) (\<lambda>t. on_tlh (threadlist_addtail b t)) m = Some (m\<lparr>tlh := h\<rparr>) \<and>
    sys (m\<lparr>tlh := h\<rparr>) (f(a \<mapsto> [], b \<mapsto> ys @ xs)) {}"
proof -
  let ?f = "f(a \<mapsto> [], b \<mapsto> ys @ xs)"
  obtain h where h: "drain (threadlist_remhead a) (threadlist_addtail b) (tlh m) = Some h"
    "tl_inv h ?f (dom (threads m))"
    using tlq.drain_moves [OF sysD(1) [OF s] a b ab] by blast
  have pl: "placed ?f t l \<longleftrightarrow> (if l = a then False else if l = b then placed f t a \<or> placed f t b else placed f t l)" for t l
    using a b ab by (auto simp: placed_def)
  have "on_some ?f t \<longleftrightarrow> on_some f t" for t
    unfolding placed_on_some pl using ab by metis
  then have "thr_ok m f t r \<Longrightarrow> thr_ok m ?f t r" for t r
    using pl ok by (auto simp: thr_ok_iff split: if_splits)
  then have "sys (m\<lparr>tlh := h\<rparr>) ?f {}"
    by (intro sys_relist [OF s h(2)]) auto
  then show ?thesis using drain_lift [OF h(1) refl] by blast
qed

lemma wchan_wakeall_ok:
  assumes q: "quiet me L s m" and o: "outer L" and sy: "sys m f {}" and lk: "lk \<in> L"
    and w: "f (Wchan w) = Some ts" and loc: "f (Local 1) = None \<or> f (Local 1) = Some []"
  shows "\<exists>m'. wchan_wakeall me w lk m = Some m' \<and> quiet me L s m' \<and>
    sys m' (enq_all (cpu_of m) ts (f(Wchan w \<mapsto> [], Local 1 \<mapsto> []))) {} \<and>
    (\<forall>d. curthread d m' = curthread d m) \<and> cpu_of m' = cpu_of m"
proof -
  let ?m1 = "m\<lparr>tlh := threadlist_init (Local 1) (tlh m)\<rparr>" and ?f1 = "f(Local 1 \<mapsto> [])"
  have s1: "sys ?m1 ?f1 {}" by (rule sys_init_list [OF sy loc])
  have "place_ok r (Wchan w) \<Longrightarrow> place_ok r (Local 1)" for r by (simp add: place_ok_def)
  then obtain h where h: "drain (take_tlh (threadlist_remhead (Wchan w))) (\<lambda>t. on_tlh (threadlist_addtail (Local 1) t)) ?m1 =
      Some (?m1\<lparr>tlh := h\<rparr>)" "sys (?m1\<lparr>tlh := h\<rparr>) (?f1(Wchan w \<mapsto> [], Local 1 \<mapsto> [] @ ts)) {}"
    using sys_drain [OF s1, of "Wchan w" ts "Local 1" "[]"] w by auto
  let ?m2 = "?m1\<lparr>tlh := h\<rparr>" and ?f2 = "?f1(Wchan w \<mapsto> [], Local 1 \<mapsto> [] @ ts)"
  have q2: "quiet me L s ?m2" using q by simp
  obtain m3 where m3: "drain (take_tlh (threadlist_remhead (Local 1))) (\<lambda>t. thread_make_runnable me t False) ?m2 = Some m3"
    "quiet me L s m3" "sys m3 (enq_all (cpu_of ?m2) ts (?f2(Local 1 \<mapsto> []))) {}"
    "\<forall>d. curthread d m3 = curthread d ?m2" "cpu_of m3 = cpu_of ?m2"
    using wake_loop [OF q2 o h(2), of 1 ts] by auto
  have f2: "?f2(Local 1 \<mapsto> []) = f(Wchan w \<mapsto> [], Local 1 \<mapsto> [])" by (auto simp: fun_eq_iff)
  have cpu: "cpu_of ?m2 = cpu_of m" by (simp add: cpu_of_def fun_eq_iff)
  have "enq_all (cpu_of ?m2) ts (?f2(Local 1 \<mapsto> [])) (Local 1) = Some []"
    by (subst enq_all_other) simp_all
  then have "threadlist_isempty (Local 1) (tlh m3)"
    using threadlist_isempty_iff [OF sysD(1) [OF m3(3)]] by blast
  then have "threadlist_cleanup (Local 1) (tlh m3) = Some (tlh m3)"
    by (simp add: threadlist_cleanup_def threadlist_isempty_def)
  then have "wchan_wakeall me w lk m = Some m3"
    using quiet_held [OF q, of lk] lk h(1) m3(1) by (simp add: wchan_wakeall_def on_tlh_def)
  then show ?thesis using m3(2-5) unfolding f2 cpu by simp
qed

section \<open>Reaping exited threads\<close>

lemma tl_inv_forget:
  assumes "tl_inv h f N" and "\<not> on_some f t"
  shows "tl_inv h f (N - {t})"
proof -
  have "card (N - {t}) \<le> card N" using assms(1) by (intro card_mono) (auto simp: tl_inv_def)
  moreover have "set xs \<subseteq> N - {t}" if "f l = Some xs" for l xs
    using tl_inv_sub [OF assms(1) that] assms(2) that by (auto simp: on_some_def)
  ultimately show ?thesis using assms(1) unfolding tl_inv_def by (auto simp del: card_Diff_insert)
qed

lemma sys_forget:
  assumes s: "sys m f (insert t X)" and off: "\<not> on_some f t" and r: "threads m t = Some r" "t_proc r = None"
    and cur: "\<not> is_current m t"
  shows "sys (m\<lparr>threads := (threads m)(t := None)\<rparr>) f X"
proof (rule sysI)
  let ?m = "m\<lparr>threads := (threads m)(t := None)\<rparr>"
  show "tl_inv (tlh ?m) f (dom (threads ?m))" "set (allcpus ?m) = dom (cpus ?m)" "distinct (allcpus ?m)"
    using tl_inv_forget [OF sysD(1) [OF s] off] sysD(2,3) [OF s] by simp_all
  have "members ?m p = members m p" for p using r by (auto simp: members_def)
  then show "procs_ok ?m" using sysD(4) [OF s] by (simp add: procs_ok_def)
  show "cpu_ok ?m f c" if "c \<in> dom (cpus ?m)" for c
    using sysD(5) [OF s, of c] that cur by (auto simp: cpu_ok_def is_current_def)
  show "thr_ok ?m f u ru" if "threads ?m u = Some ru" "u \<notin> X" for u ru
    using sysD(6) [OF s, of u ru] that by (auto split: if_splits)
qed

lemma quiet_forget:
  assumes "quiet me L s m" and "curthread me m \<noteq> Some t"
  shows "quiet me L s (m\<lparr>threads := (threads m)(t := None)\<rparr>)"
proof -
  obtain c cur r where q: "running me m c cur r" "t_curspl r = s" "s = IPL_NONE \<or> s = IPL_HIGH"
    "t_iplhigh_count r = s + int (card L)" "irq m me = (s + int (card L) = 0)"
    "c_spinlocks c = of_nat (card L)" "finite L" "card L < 2 ^ 32" "locks m = held_by me L"
    using assms(1) by (rule quietE)
  have "running me (m\<lparr>threads := (threads m)(t := None)\<rparr>) c cur r"
    using q(1) running_curthread [OF q(1)] assms(2) by (auto simp: running_def)
  then show ?thesis by (rule quietI) (use q in simp_all)
qed

lemma node_cleanup_ok: "off_list h t \<Longrightarrow> threadlistnode_cleanup (TNode t) h = Some h"
  by (simp add: threadlistnode_cleanup_def off_list_def)

lemma thread_destroy_ok:
  assumes q: "quiet me L s m" and sy: "sys m f (insert t X)" and off: "\<not> on_some f t"
    and r: "threads m t = Some r" "t_proc r = None" "t_state r \<noteq> S_RUN" "tm_badfaultfunc r = None"
    and cur: "\<not> is_current m t"
  shows "\<exists>m'. thread_destroy me t m = Some m' \<and> quiet me L s m' \<and> sys m' f X \<and>
    m' = m\<lparr>threads := (threads m)(t := None)\<rparr>"
proof -
  have nc: "curthread me m \<noteq> Some t" using cur by (auto simp: is_current_def)
  have "off_list (tlh m) t" using tl_inv_off [OF sysD(1) [OF sy] _ off] r(1) by blast
  then have "thread_destroy me t m = Some (m\<lparr>threads := (threads m)(t := None)\<rparr>)"
    using r nc by (simp add: thread_destroy_def on_tlh_def node_cleanup_ok thread_machdep_cleanup_def upd_thread_def)
  then show ?thesis using quiet_forget [OF q nc] sys_forget [OF sy off r(1,2) cur] by blast
qed

lemma current_cpu:
  assumes "sys m f X" and "curthread d m = Some t"
  shows "\<exists>r. threads m t = Some r \<and> t_cpu r = Some d" and "d \<in> dom (cpus m)"
proof -
  show d: "d \<in> dom (cpus m)" using assms(2) by (auto simp: curthread_def bind_eq_Some_conv)
  show "\<exists>r. threads m t = Some r \<and> t_cpu r = Some d"
    using sysD(5) [OF assms(1) d] assms(2) unfolding cpu_ok_def by auto
qed

lemma zombie_not_current:
  assumes sy: "sys m f {}" and me: "me \<in> dom (cpus m)" and cur: "curthread me m = Some cur" "\<not> on_some f cur"
    and z: "f (Zombies me) = Some zs" "z \<in> set zs"
  shows "\<not> is_current m z"
proof
  assume "is_current m z"
  then obtain d where d: "curthread d m = Some z" by (auto simp: is_current_def)
  then obtain r where r: "threads m z = Some r" "t_cpu r = Some d"
    using current_cpu(1) [OF sy] by blast
  have "placed f z (Zombies me)" using z by (simp add: placed_def)
  then have "t_cpu r = Some me" using sysD(6) [OF sy r(1)] by (auto simp: thr_ok_iff place_ok_def)
  then have "z = cur" using r d cur by simp
  then show False using cur(2) z by (auto simp: on_some_def)
qed

lemma exorcise_ok:
  assumes "quiet me L s m" and "sys m f {}" and "me \<in> dom (cpus m)" and "curthread me m = Some cur"
    and "\<not> on_some f cur" and "f (Zombies me) = Some zs"
  shows "\<exists>m'. exorcise me m = Some m' \<and> quiet me L s m' \<and> sys m' (f(Zombies me \<mapsto> [])) {} \<and>
    (\<forall>d. curthread d m' = curthread d m) \<and> dom (threads m') = dom (threads m) - set zs \<and>
    (\<forall>t. t \<notin> set zs \<longrightarrow> threads m' t = threads m t) \<and> cpus m' = cpus m"
  using assms
proof (induction zs arbitrary: m f)
  case Nil
  then have "f(Zombies me \<mapsto> []) = f" by (auto simp: fun_eq_iff)
  then show ?case
    using Nil sys_remhead_Nil [OF Nil(2,6)] by (simp add: exorcise_def drain.simps [of _ _ m])
next
  case (Cons z zs)
  let ?f = "f(Zombies me \<mapsto> zs)"
  obtain h r where h: "take_tlh (threadlist_remhead (Zombies me)) m = Some (Some z, m\<lparr>tlh := h\<rparr>)"
    "sys (m\<lparr>tlh := h\<rparr>) ?f {z}" "\<not> on_some ?f z" "threads m z = Some r" "place_ok r (Zombies me)"
    using sys_remhead [OF Cons.prems(2,6)] by blast
  have nc: "\<not> is_current m z"
    by (rule zombie_not_current [OF Cons.prems(2-6)]) simp
  have r: "t_proc r = None" "t_state r = S_ZOMBIE" "tm_badfaultfunc r = None"
    using h(5) by (simp_all add: place_ok_def)
  define m1 where "m1 = m\<lparr>tlh := h, threads := (threads m)(z := None)\<rparr>"
  have d: "thread_destroy me z (m\<lparr>tlh := h\<rparr>) = Some m1" "quiet me L s m1" "sys m1 ?f {}"
    using thread_destroy_ok [of me L s "m\<lparr>tlh := h\<rparr>" ?f z "{}" r] Cons.prems(1) h(2-4) r nc
    by (auto simp: m1_def)
  have m1: "me \<in> dom (cpus m1)" "curthread me m1 = Some cur" "\<not> on_some ?f cur" "?f (Zombies me) = Some zs"
    using Cons.prems(3-6) by (simp_all add: m1_def on_some_upd on_some_iff [of f "Zombies me"])
  have "curthread me m \<noteq> Some z" using nc by (auto simp: is_current_def)
  then have step: "exorcise me m = exorcise me m1"
    using h(1,4) d(1) r(2) by (simp add: exorcise_def drain.simps [of _ _ m])
  have eq: "?f(Zombies me \<mapsto> []) = f(Zombies me \<mapsto> [])" by simp
  have cur: "curthread d m1 = curthread d m" for d by (simp add: m1_def)
  have "dom (threads m1) = dom (threads m) - {z}" "cpus m1 = cpus m"
    "\<forall>t. t \<noteq> z \<longrightarrow> threads m1 t = threads m t" by (auto simp: m1_def)
  then show ?case
    unfolding step using Cons.IH [OF d(2,3) m1] cur unfolding eq by auto
qed

section \<open>The context switch\<close>

lemma quiet_level: "quiet me L s m \<Longrightarrow> s = IPL_NONE \<or> s = IPL_HIGH"
  unfolding quiet_def by blast

lemma splhigh_ok:
  assumes "quiet me L s m"
  shows "\<exists>m'. splhigh me m = Some (s, m') \<and> quiet me L IPL_HIGH m' \<and> agree me m' m"
  using sl.splx [OF assms, of IPL_HIGH] core_agree unfolding splhigh_def by blast

lemma splx_ok:
  assumes "quiet me L s m" and "s' = IPL_NONE \<or> s' = IPL_HIGH"
  shows "\<exists>m'. splx me s' m = Some (s, m') \<and> quiet me L s' m' \<and> agree me m' m"
  using sl.splx [OF assms] core_agree by blast

lemma as_activate_ok:
  assumes q: "quiet me L s m" and L: "\<And>p. Proc_lock p \<notin> L" "card L < 2 ^ 32 - 1"
    and cur: "curthread me m = Some cur" "threads m cur = Some r" "thr_base m cur r"
  shows "\<exists>m'. as_activate me m = Some m' \<and> quiet me L s m' \<and> agree me m' m"
proof -
  have "\<exists>as m'. proc_getas me m = Some (as, m') \<and> quiet me L s m' \<and> agree me m' m"
  proof (cases "t_proc r")
    case None
    then show ?thesis using q cur by (simp add: proc_getas_def curproc_def agree_refl)
  next
    case (Some p)
    obtain m1 where m1: "spinlock_acquire me (Proc_lock p) m = Some m1" "quiet me (insert (Proc_lock p) L) s m1"
      "core me m1 = core me m"
      using sl.acquire [OF q L(1) L(2)] by blast
    obtain m2 where m2: "spinlock_release me (Proc_lock p) m1 = Some m2"
      "quiet me (insert (Proc_lock p) L - {Proc_lock p}) s m2" "core me m2 = core me m1"
      using sl.release [OF m1(2)] by blast
    obtain pr where "procs m1 p = Some pr"
      using cur(3) Some core_fields(4) [OF m1(3)] by (auto simp: thr_base_def)
    then have "proc_getas me m = Some (p_addrspace pr, m2)"
      using cur(1,2) Some m1(1) m2(1) by (simp add: proc_getas_def curproc_def)
    then show ?thesis
      using m2(2) L(1) [of p] agree_trans [OF core_agree [OF m2(3)] core_agree [OF m1(3)]] by simp
  qed
  then obtain as m' where m': "proc_getas me m = Some (as, m')" "quiet me L s m'" "agree me m' m" by blast
  show ?thesis
  proof (cases as)
    case None
    then show ?thesis using m' by (simp add: as_activate_def)
  next
    case (Some a)
    obtain m3 where m3: "splhigh me m' = Some (s, m3)" "quiet me L IPL_HIGH m3" "agree me m3 m'"
      using splhigh_ok [OF m'(2)] by blast
    obtain m4 where m4: "splx me s m3 = Some (IPL_HIGH, m4)" "quiet me L s m4" "agree me m4 m3"
      using splx_ok [OF m3(2) quiet_level [OF q]] by blast
    have "as_activate me m = Some m4" using Some m'(1) m3(1) m4(1) by (simp add: as_activate_def)
    then show ?thesis using m4(2) agree_trans [OF m4(3) agree_trans [OF m3(3) m'(3)]] by blast
  qed
qed

text \<open>A change of the current thread's state on its own: the list it stands on must match.\<close>

lemma sys_restate:
  assumes s: "sys m f {t}" and r: "threads m t = Some r" and r': "t_cpu r' = t_cpu r" "t_proc r' = t_proc r"
    and ok: "thr_ok m f t r'"
  shows "sys (m\<lparr>threads := (threads m)(t \<mapsto> r')\<rparr>) f {}"
  using sys_move [OF s sysD(1) [OF s] _ _ r, of r' "{}"] r' ok by simp

lemma switch_return_ok:
  assumes q: "quiet me {Runqueue_lock me} IPL_HIGH m" and sy: "sys m f {n}" and cur: "curthread me m = Some n"
    and off: "\<not> on_some f n" and r: "threads m n = Some r" "thr_base m n r" and z: "f (Zombies me) = Some zs"
  shows "\<exists>m'. switch_return me n m = Some m' \<and> quiet me {} IPL_HIGH m' \<and> sys m' (f(Zombies me \<mapsto> [])) {} \<and>
    (\<forall>d. curthread d m' = curthread d m) \<and> dom (threads m') = dom (threads m) - set zs"
proof -
  let ?r = "r\<lparr>t_wchan_name := None, t_state := S_RUN\<rparr>"
  let ?m1 = "m\<lparr>threads := (threads m)(n \<mapsto> ?r)\<rparr>"
  have ic: "is_current m n" using cur by (auto simp: is_current_def)
  have "thr_ok m f n ?r" using r(2) off ic by (simp add: thr_ok_iff placed_on_some)
  then have s1: "sys ?m1 f {}" by (intro sys_restate [OF sy r(1)]) simp_all
  have q1: "quiet me {Runqueue_lock me} IPL_HIGH ?m1" by (rule quiet_upd_thread [OF q r(1)]) simp
  obtain m2 where m2: "spinlock_release me (Runqueue_lock me) ?m1 = Some m2"
    "quiet me ({Runqueue_lock me} - {Runqueue_lock me}) IPL_HIGH m2" "core me m2 = core me ?m1"
    using sl.release [OF q1, of "Runqueue_lock me"] by blast
  have q2: "quiet me {} IPL_HIGH m2" using m2(2) by simp
  have a2: "agree me m2 ?m1" by (rule core_agree [OF m2(3)])
  obtain r2 where r2: "threads m2 n = Some r2" using agree_thread [OF a2, of n ?r] by auto
  have "thr_base m2 n r2" by (rule thr_base_agree [OF a2 _ r2, of ?r]) (use r(2) in simp_all)
  then obtain m3 where m3: "as_activate me m2 = Some m3" "quiet me {} IPL_HIGH m3" "agree me m3 m2"
    using as_activate_ok [OF q2 _ _ _ r2] agree_curthread [OF a2, of me] cur by auto
  have a3: "agree me m3 ?m1" by (rule agree_trans [OF m3(3) a2])
  have c3: "curthread d m3 = curthread d m" for d using agree_curthread [OF a3] by simp
  have s3: "sys m3 f {}" by (rule sys_agree [OF a3 s1])
  have "me \<in> dom (cpus m3)" using current_cpu(2) [OF s3] c3 cur by simp
  then obtain m4 where m4: "exorcise me m3 = Some m4" "quiet me {} IPL_HIGH m4"
    "sys m4 (f(Zombies me \<mapsto> [])) {}" "\<forall>d. curthread d m4 = curthread d m3"
    "dom (threads m4) = dom (threads m3) - set zs"
    using exorcise_ok [OF m3(2) s3 _ _ off z] c3 cur by auto
  have "dom (threads m3) = dom (threads m)" using agree_dom(1) [OF a3] r(1) by auto
  moreover have "switch_return me n m = Some m4"
    using r(1) m2(1) m3(1) m4(1) by (simp add: switch_return_def upd_thread_def)
  ultimately show ?thesis using m4(2-5) c3 by simp
qed

text \<open>
  The instant of the switch: \<open>n\<close>, just taken off the run queue of \<open>me\<close>, becomes current and
  the registers of the thread \<open>cur\<close>, which is on some list by now, are saved.
\<close>

definition swapped :: "cpuid \<Rightarrow> cpu \<Rightarrow> tid \<Rightarrow> tid \<Rightarrow> thread \<Rightarrow> int \<Rightarrow> machine \<Rightarrow> machine" where
  "swapped me k n cur rc spl m = m\<lparr>cpus := (cpus m)(me \<mapsto> k\<lparr>c_isidle := False, c_curthread := Some n\<rparr>),
     threads := (threads m)(cur \<mapsto> rc\<lparr>t_context := Some (Resume spl)\<rparr>)\<rparr>"

lemma current_is_me:
  assumes "sys m f X" and "is_current m n" and "threads m n = Some r" and "t_cpu r = Some me"
  shows "curthread me m = Some n"
  using assms current_cpu(1) [OF assms(1)] by (fastforce simp: is_current_def)

lemma swapped_current:
  assumes "curthread me m = Some cur"
  shows "curthread d (swapped me k n cur rc spl m) = (if d = me then Some n else curthread d m)"
    and "t \<noteq> n \<Longrightarrow> t \<noteq> cur \<Longrightarrow> is_current (swapped me k n cur rc spl m) t \<longleftrightarrow> is_current m t"
    and "is_current (swapped me k n cur rc spl m) n"
proof -
  have *: "curthread d (swapped me k n cur rc spl m) = (if d = me then Some n else curthread d m)" for d
    by (simp add: swapped_def curthread_def)
  then show "curthread d (swapped me k n cur rc spl m) = (if d = me then Some n else curthread d m)" .
  show "t \<noteq> n \<Longrightarrow> t \<noteq> cur \<Longrightarrow> is_current (swapped me k n cur rc spl m) t \<longleftrightarrow> is_current m t"
    using assms unfolding is_current_def * by (metis option.inject)
  show "is_current (swapped me k n cur rc spl m) n" by (auto simp: is_current_def *)
qed

lemma swapped_quiet:
  assumes q: "quiet me {Runqueue_lock me} IPL_HIGH m" and k: "cpus m me = Some k"
    and cur: "curthread me m = Some cur" "threads m cur = Some rc"
    and n: "threads m n = Some r" "n = cur \<or> suspended r"
  shows "quiet me {Runqueue_lock me} IPL_HIGH (swapped me k n cur rc spl m)" (is "quiet _ _ _ ?m")
    and "n \<noteq> cur \<Longrightarrow> t_curspl rc = IPL_HIGH \<and> t_iplhigh_count rc = 2"
proof -
  obtain c cur' r' where q': "running me m c cur' r'" "t_curspl r' = IPL_HIGH"
    "t_iplhigh_count r' = IPL_HIGH + int (card {Runqueue_lock me})" "irq m me = (IPL_HIGH + int (card {Runqueue_lock me}) = 0)"
    "c_spinlocks c = of_nat (card {Runqueue_lock me})" "locks m = held_by me {Runqueue_lock me}"
    using q by (rule quietE)
  have same: "c = k" "cur' = cur" "r' = rc"
    using runningD [OF q'(1)] running_curthread [OF q'(1)] k cur by simp_all
  show "n \<noteq> cur \<Longrightarrow> t_curspl rc = IPL_HIGH \<and> t_iplhigh_count rc = 2"
    using q' same by (simp add: IPL_HIGH_def)
  let ?r = "if n = cur then rc\<lparr>t_context := Some (Resume spl)\<rparr> else r"
  have "running me ?m (k\<lparr>c_isidle := False, c_curthread := Some n\<rparr>) n ?r"
    using n(1) runningD(1) [OF q'(1)] by (simp add: running_def swapped_def)
  then show "quiet me {Runqueue_lock me} IPL_HIGH ?m"
    by (rule quietI) (use q' same n(2) in \<open>auto simp: suspended_def swapped_def IPL_HIGH_def\<close>)
qed

lemma swapped_sys:
  assumes q: "quiet me {Runqueue_lock me} IPL_HIGH m" and sy: "sys m f {n}" and k: "cpus m me = Some k"
    and cur: "curthread me m = Some cur" "threads m cur = Some rc" "n = cur \<or> on_some f cur"
    and n: "threads m n = Some r" "thr_base m n r" "t_cpu r = Some me" and spl: "spl = IPL_NONE \<or> spl = IPL_HIGH"
  shows "sys (swapped me k n cur rc spl m) f {n}" (is "sys ?m _ _")
proof (rule sysI)
  let ?r = "rc\<lparr>t_context := Some (Resume spl)\<rparr>"
  have dc: "dom (cpus ?m) = dom (cpus m)" using k by (auto simp: swapped_def)
  show "tl_inv (tlh ?m) f (dom (threads ?m))" "set (allcpus ?m) = dom (cpus ?m)" "distinct (allcpus ?m)"
    using sysD(1-3) [OF sy] cur(2) dc by (simp_all add: swapped_def insert_absorb domI)
  have "members ?m p = members m p" for p using cur(2) by (auto simp: members_def swapped_def)
  then show "procs_ok ?m" using sysD(4) [OF sy] by (simp add: procs_ok_def swapped_def)
  have tn: "\<exists>r. threads ?m t = Some r \<and> t_cpu r = x" if "threads m t = Some r'" "t_cpu r' = x" for t r' x
    using that cur(2) by (auto simp: swapped_def)
  show "cpu_ok ?m f d" if d: "d \<in> dom (cpus ?m)" for d
  proof -
    have "cpu_ok m f d" using sysD(5) [OF sy] d dc by blast
    then obtain t r' where "curthread d m = Some t" "threads m t = Some r'" "t_cpu r' = Some d"
      "f (Runqueue d) \<noteq> None" "f (Zombies d) \<noteq> None"
      unfolding cpu_ok_def by blast
    then show ?thesis
      using tn [OF n(1,3)] tn [of t r' "Some d"] swapped_current(1) [OF cur(1)] by (simp add: cpu_ok_def)
  qed
  show "thr_ok ?m f t r'" if t: "threads ?m t = Some r'" "t \<notin> {n}" for t r'
  proof (cases "t = cur")
    case True
    then have "n \<noteq> cur" "r' = ?r" using t by (auto simp: swapped_def)
    then have "thr_ok m f cur rc" "on_some f cur" using sysD(6) [OF sy cur(2)] cur(3) by auto
    moreover have "t_curspl rc = IPL_HIGH" "t_iplhigh_count rc = 2"
      using swapped_quiet(2) [OF q k cur(1,2) n(1)] n(2) \<open>n \<noteq> cur\<close> current_is_me [OF sy _ n(1,3)] cur(1)
      by (auto simp: thr_base_def)
    ultimately show ?thesis
      using True \<open>r' = ?r\<close> dc spl
      by (auto simp: thr_ok_iff thr_base_def suspended_def stack_ok_def place_ok_def swapped_def split: tlid.splits)
  next
    case False
    then have "threads m t = Some r'" using t(1) by (simp add: swapped_def)
    then have "thr_ok m f t r'" using sysD(6) [OF sy] t(2) by blast
    moreover have "is_current ?m t \<longleftrightarrow> is_current m t"
      using swapped_current(2) [OF cur(1) _ False, of n] t(2) by simp
    moreover have "procs ?m = procs m" by (simp add: swapped_def)
    ultimately show ?thesis using dc by (simp add: thr_ok_iff thr_base_def)
  qed
qed

lemma switchframe_switch_ok:
  assumes q: "quiet me {Runqueue_lock me} IPL_HIGH m" and sy: "sys m f {n}" and k: "cpus m me = Some k"
    and cur: "curthread me m = Some cur" "threads m cur = Some rc" "n = cur \<or> on_some f cur"
    and n: "threads m n = Some r" "thr_base m n r" "t_cpu r = Some me" "\<not> on_some f n"
    and spl: "spl = IPL_NONE \<or> spl = IPL_HIGH" and z: "f (Zombies me) = Some zs"
  shows "\<exists>m' s'. switchframe_switch me cur spl n
        (m\<lparr>cpus := (cpus m)(me \<mapsto> k\<lparr>c_isidle := False, c_curthread := Some n\<rparr>)\<rparr>) = Some m' \<and>
    quiet me {} s' m' \<and> sys m' (f(Zombies me \<mapsto> [])) {} \<and>
    (\<forall>d. curthread d m' = (if d = me then Some n else curthread d m)) \<and> dom (threads m') = dom (threads m) - set zs"
proof -
  let ?m = "swapped me k n cur rc spl m"
  have susp: "n = cur \<or> suspended r"
    using n(2) current_is_me [OF sy _ n(1,3)] cur(1) by (auto simp: thr_base_def)
  have q1: "quiet me {Runqueue_lock me} IPL_HIGH ?m" by (rule swapped_quiet(1) [OF q k cur(1,2) n(1) susp])
  have s1: "sys ?m f {n}" by (rule swapped_sys [OF q sy k cur n(1-3) spl])
  have c1: "curthread me ?m = Some n" using swapped_current(1) [OF cur(1)] by simp
  define r1 where "r1 = (if n = cur then rc\<lparr>t_context := Some (Resume spl)\<rparr> else r)"
  have r1: "threads ?m n = Some r1" using n(1) by (simp add: swapped_def r1_def)
  have "dom (cpus ?m) = dom (cpus m)" using k by (auto simp: swapped_def)
  then have b1: "thr_base ?m n r1"
    using n(1,2) cur(2) swapped_current(3) [OF cur(1), of k n rc spl]
    by (auto simp: thr_base_def r1_def stack_ok_def swapped_def)
  have "\<exists>x. t_context r1 = Some x \<and> (\<forall>s. x = Resume s \<longrightarrow> s = IPL_NONE \<or> s = IPL_HIGH)"
    using susp spl by (cases "n = cur") (auto simp: r1_def suspended_def)
  then obtain x where x: "t_context r1 = Some x" "\<forall>s. x = Resume s \<longrightarrow> s = IPL_NONE \<or> s = IPL_HIGH" by blast
  obtain m2 where m2: "switch_return me n ?m = Some m2" "quiet me {} IPL_HIGH m2" "sys m2 (f(Zombies me \<mapsto> [])) {}"
    "\<forall>d. curthread d m2 = curthread d ?m" "dom (threads m2) = dom (threads ?m) - set zs"
    using switch_return_ok [OF q1 s1 c1 n(4) r1 b1 z] by blast
  define s' where "s' = (case x of Resume s \<Rightarrow> s | _ \<Rightarrow> IPL_NONE)"
  have "s' = IPL_NONE \<or> s' = IPL_HIGH" using x(2) by (cases x) (simp_all add: s'_def)
  then obtain m3 where m3: "splx me s' m2 = Some (IPL_HIGH, m3)" "quiet me {} s' m3" "agree me m3 m2"
    using splx_ok [OF m2(2)] by blast
  have run: "switchframe_switch me cur spl n
        (m\<lparr>cpus := (cpus m)(me \<mapsto> k\<lparr>c_isidle := False, c_curthread := Some n\<rparr>)\<rparr>) = Some m3"
    using cur(2) r1 x(1) m2(1) m3(1) c1
    by (cases x) (simp_all add: switchframe_switch_def upd_thread_def swapped_def s'_def thread_startup_head_def spl0_def)
  have "dom (threads ?m) = dom (threads m)" using cur(2) by (auto simp: swapped_def)
  moreover have "curthread d m3 = (if d = me then Some n else curthread d m)" for d
    using agree_curthread [OF m3(3), of d] m2(4) swapped_current(1) [OF cur(1), of d] by simp
  ultimately show ?thesis
    using run m3(2) sys_agree [OF m3(3) m2(3)] m2(5) agree_dom(1) [OF m3(3)] by auto
qed

lemma pick_next_ok:
  assumes sy: "sys m f {}" and rq: "f (Runqueue me) = Some (n # xs)"
  shows "\<exists>h r. pick_next me cpu_idle m = Some (n, m\<lparr>tlh := h\<rparr>) \<and> sys (m\<lparr>tlh := h\<rparr>) (f(Runqueue me \<mapsto> xs)) {n} \<and>
    \<not> on_some (f(Runqueue me \<mapsto> xs)) n \<and> threads m n = Some r \<and> thr_base m n r \<and> t_cpu r = Some me"
proof -
  obtain h r where "take_tlh (threadlist_remhead (Runqueue me)) m = Some (Some n, m\<lparr>tlh := h\<rparr>)"
    "sys (m\<lparr>tlh := h\<rparr>) (f(Runqueue me \<mapsto> xs)) {n}" "\<not> on_some (f(Runqueue me \<mapsto> xs)) n" "threads m n = Some r"
    "thr_base m n r" "place_ok r (Runqueue me)"
    using sys_remhead [OF sy rq] by blast
  then show ?thesis by (auto simp: pick_next.simps place_ok_def)
qed

text \<open>
  Where \<open>thread_switch\<close> puts the current thread, for each new state: the list, and the
  spinlock released on the way.
\<close>

inductive parks :: "cpuid \<Rightarrow> threadstate \<Rightarrow> (nat \<times> lkid) option \<Rightarrow> tlid \<Rightarrow> lkid set \<Rightarrow> bool" for me where
  ready: "parks me S_READY None (Runqueue me) {}"
| sleep: "lk \<noteq> Runqueue_lock me \<Longrightarrow> parks me S_SLEEP (Some (w, lk)) (Wchan w) {lk}"
| zombie: "parks me S_ZOMBIE None (Zombies me) {}"

text \<open>Appending the current thread to a list before its state says so.\<close>

lemma sys_append_cur:
  assumes s: "sys m f {}" and t: "threads m t = Some r" and off: "\<not> on_some f t" and l: "f l = Some xs"
  shows "\<exists>h. on_tlh (threadlist_addtail l t) (m\<lparr>threads := (threads m)(t \<mapsto> r\<lparr>t_wchan_name := y\<rparr>)\<rparr>) =
      Some (m\<lparr>threads := (threads m)(t \<mapsto> r\<lparr>t_wchan_name := y\<rparr>), tlh := h\<rparr>) \<and>
    sys (m\<lparr>threads := (threads m)(t \<mapsto> r\<lparr>t_wchan_name := y\<rparr>), tlh := h\<rparr>) (f(l \<mapsto> xs @ [t])) {t}"
proof -
  obtain h where h: "threadlist_addtail l t (tlh m) = Some h" "tl_inv h (f(l \<mapsto> xs @ [t])) (dom (threads m))"
    using threadlist_addtail_inv [OF sysD(1) [OF s] l _ off] t by blast
  then show ?thesis
    using sys_move [OF s h(2) _ _ t, of "r\<lparr>t_wchan_name := y\<rparr>" "{t}"] placed_snoc(1) [OF l off]
    by (auto simp: on_tlh_def)
qed

lemma set_parked_state:
  assumes q: "quiet me L s m" and sy: "sys m f {t}" and r: "threads m t = Some r" "thr_base m t r"
    and pl: "\<And>l'. placed f t l' \<longleftrightarrow> l' = l" and ok: "place_ok (r\<lparr>t_state := x\<rparr>) l"
  shows "\<exists>m'. upd_thread t (\<lambda>r. r\<lparr>t_state := x\<rparr>) m = Some m' \<and> quiet me L s m' \<and> sys m' f {} \<and>
    (\<forall>d. curthread d m' = curthread d m) \<and> dom (threads m') = dom (threads m)"
proof -
  have "on_some f t" using pl by (auto simp: placed_on_some)
  then have "thr_ok m f t (r\<lparr>t_state := x\<rparr>)" using r(2) pl ok by (simp add: thr_ok_iff)
  then have "sys (m\<lparr>threads := (threads m)(t \<mapsto> r\<lparr>t_state := x\<rparr>)\<rparr>) f {}"
    by (intro sys_restate [OF sy r(1)]) simp_all
  moreover have "quiet me L s (m\<lparr>threads := (threads m)(t \<mapsto> r\<lparr>t_state := x\<rparr>)\<rparr>)"
    by (rule quiet_upd_thread [OF q r(1)]) simp
  ultimately show ?thesis using r(1) by (simp add: upd_thread_def insert_absorb domI)
qed

lemma queue_append:
  assumes q: "quiet me L s m" and sy: "sys m f {}" and cur: "\<not> on_some f cur" "threads m cur = Some r" and l: "f l = Some xs"
  obtains h where "on_tlh (threadlist_addtail l cur) (m\<lparr>threads := (threads m)(cur \<mapsto> r\<lparr>t_wchan_name := y\<rparr>)\<rparr>) =
      Some (m\<lparr>threads := (threads m)(cur \<mapsto> r\<lparr>t_wchan_name := y\<rparr>), tlh := h\<rparr>)"
    "sys (m\<lparr>threads := (threads m)(cur \<mapsto> r\<lparr>t_wchan_name := y\<rparr>), tlh := h\<rparr>) (f(l \<mapsto> xs @ [cur])) {cur}"
    "quiet me L s (m\<lparr>threads := (threads m)(cur \<mapsto> r\<lparr>t_wchan_name := y\<rparr>), tlh := h\<rparr>)"
  using sys_append_cur [OF sy cur(2,1) l] quiet_upd_thread [OF q cur(2), of "r\<lparr>t_wchan_name := y\<rparr>"]
  by fastforce

lemma queue_cur_ready:
  assumes q: "quiet me {Runqueue_lock me} IPL_HIGH m" and sy: "sys m f {}"
    and cur: "curthread me m = Some cur" "\<not> on_some f cur" "threads m cur = Some r" and l: "f (Runqueue me) = Some xs"
  shows "\<exists>m1 m2. queue_cur me S_READY None cur m = Some m1 \<and> upd_thread cur (\<lambda>r. r\<lparr>t_state := S_READY\<rparr>) m1 = Some m2 \<and>
    quiet me {Runqueue_lock me} IPL_HIGH m2 \<and> sys m2 (f(Runqueue me \<mapsto> xs @ [cur])) {} \<and>
    (\<forall>d. curthread d m2 = curthread d m) \<and> dom (threads m2) = dom (threads m)"
proof -
  let ?f = "f(Runqueue me \<mapsto> xs @ [cur])"
  have base: "thr_base m cur r" using sysD(6) [OF sy cur(3)] by (simp add: thr_ok_iff)
  have tc: "t_cpu r = Some me" using current_cpu(1) [OF sy cur(1)] cur(3) by simp
  obtain m1 where m1: "thread_make_runnable me cur True m = Some m1" "quiet me {Runqueue_lock me} IPL_HIGH m1"
    "sys m1 ?f {}" "\<forall>d. curthread d m1 = curthread d m" "dom (threads m1) = dom (threads m)"
    using thread_make_runnable_ok [OF q sy cur(3,2) base tc, of xs True] l by auto
  obtain r1 where r1: "threads m1 cur = Some r1" using current_cpu(1) [OF m1(3), of me] m1(4) cur(1) by auto
  have "thr_ok m1 ?f cur r1" using sysD(6) [OF m1(3) r1] by simp
  then have "place_ok r1 (Runqueue me)" using placed_snoc(2) [of f, OF l cur(2)] by (simp add: thr_ok_iff)
  then have "r1\<lparr>t_state := S_READY\<rparr> = r1" by (simp add: place_ok_def)
  then have "upd_thread cur (\<lambda>r. r\<lparr>t_state := S_READY\<rparr>) m1 = Some m1"
    using r1 by (simp add: upd_thread_def map_upd_triv)
  then show ?thesis using m1 by (simp add: queue_cur_def)
qed

lemma queue_cur_sleep:
  assumes q: "quiet me {Runqueue_lock me, lk} IPL_HIGH m" and lk: "lk \<noteq> Runqueue_lock me" and sy: "sys m f {}"
    and cur: "curthread me m = Some cur" "\<not> on_some f cur" "threads m cur = Some r" and l: "f (Wchan w) = Some xs"
  shows "\<exists>m1 m2. queue_cur me S_SLEEP (Some (w, lk)) cur m = Some m1 \<and> upd_thread cur (\<lambda>r. r\<lparr>t_state := S_SLEEP\<rparr>) m1 = Some m2 \<and>
    quiet me {Runqueue_lock me} IPL_HIGH m2 \<and> sys m2 (f(Wchan w \<mapsto> xs @ [cur])) {} \<and>
    (\<forall>d. curthread d m2 = curthread d m) \<and> dom (threads m2) = dom (threads m)"
proof -
  let ?f = "f(Wchan w \<mapsto> xs @ [cur])" and ?r = "r\<lparr>t_wchan_name := wc_name m w\<rparr>"
  have base: "thr_base m cur r" using sysD(6) [OF sy cur(3)] by (simp add: thr_ok_iff)
  obtain h where h: "on_tlh (threadlist_addtail (Wchan w) cur) (m\<lparr>threads := (threads m)(cur \<mapsto> ?r)\<rparr>) =
      Some (m\<lparr>threads := (threads m)(cur \<mapsto> ?r), tlh := h\<rparr>)"
    "sys (m\<lparr>threads := (threads m)(cur \<mapsto> ?r), tlh := h\<rparr>) ?f {cur}"
    "quiet me {Runqueue_lock me, lk} IPL_HIGH (m\<lparr>threads := (threads m)(cur \<mapsto> ?r), tlh := h\<rparr>)"
    using queue_append [OF q sy cur(2,3) l] by blast
  let ?m = "m\<lparr>threads := (threads m)(cur \<mapsto> ?r), tlh := h\<rparr>"
  obtain m1 where m1: "spinlock_release me lk ?m = Some m1"
    "quiet me ({Runqueue_lock me, lk} - {lk}) IPL_HIGH m1" "core me m1 = core me ?m"
    using sl.release [OF h(3), of lk] by blast
  have a: "agree me m1 ?m" by (rule core_agree [OF m1(3)])
  obtain r1 where r1: "threads m1 cur = Some r1" using agree_thread [OF a, of cur] by auto
  have b1: "thr_base m1 cur r1" by (rule thr_base_agree [OF a _ r1, of ?r]) (use base in simp_all)
  have "{Runqueue_lock me, lk} - {lk} = {Runqueue_lock me}" using lk by auto
  then have q1: "quiet me {Runqueue_lock me} IPL_HIGH m1" using m1(2) by simp
  have pl: "placed ?f cur l' \<longleftrightarrow> l' = Wchan w" for l' by (rule placed_snoc(2) [of f, OF l cur(2)])
  obtain m2 where "upd_thread cur (\<lambda>r. r\<lparr>t_state := S_SLEEP\<rparr>) m1 = Some m2" "quiet me {Runqueue_lock me} IPL_HIGH m2"
    "sys m2 ?f {}" "\<forall>d. curthread d m2 = curthread d m1" "dom (threads m2) = dom (threads m1)"
    using set_parked_state [OF q1 sys_agree [OF a h(2)] r1 b1 pl, of S_SLEEP] by (auto simp: place_ok_def)
  then show ?thesis
    using h(1) m1(1) cur(3) agree_curthread [OF a] agree_dom(1) [OF a]
    by (simp add: queue_cur_def upd_thread_def insert_absorb domI)
qed

lemma queue_cur_zombie:
  assumes q: "quiet me {Runqueue_lock me} IPL_HIGH m" and sy: "sys m f {}"
    and cur: "curthread me m = Some cur" "\<not> on_some f cur" "threads m cur = Some r" and l: "f (Zombies me) = Some xs"
    and r: "t_proc r = None" "tm_badfaultfunc r = None"
  shows "\<exists>m1 m2. queue_cur me S_ZOMBIE None cur m = Some m1 \<and> upd_thread cur (\<lambda>r. r\<lparr>t_state := S_ZOMBIE\<rparr>) m1 = Some m2 \<and>
    quiet me {Runqueue_lock me} IPL_HIGH m2 \<and> sys m2 (f(Zombies me \<mapsto> xs @ [cur])) {} \<and>
    (\<forall>d. curthread d m2 = curthread d m) \<and> dom (threads m2) = dom (threads m)"
proof -
  let ?f = "f(Zombies me \<mapsto> xs @ [cur])" and ?r = "r\<lparr>t_wchan_name := Some ''ZOMBIE''\<rparr>"
  have base: "thr_base m cur r" using sysD(6) [OF sy cur(3)] by (simp add: thr_ok_iff)
  have tc: "t_cpu r = Some me" using current_cpu(1) [OF sy cur(1)] cur(3) by simp
  obtain h where h: "on_tlh (threadlist_addtail (Zombies me) cur) (m\<lparr>threads := (threads m)(cur \<mapsto> ?r)\<rparr>) =
      Some (m\<lparr>threads := (threads m)(cur \<mapsto> ?r), tlh := h\<rparr>)"
    "sys (m\<lparr>threads := (threads m)(cur \<mapsto> ?r), tlh := h\<rparr>) ?f {cur}"
    "quiet me {Runqueue_lock me} IPL_HIGH (m\<lparr>threads := (threads m)(cur \<mapsto> ?r), tlh := h\<rparr>)"
    using queue_append [OF q sy cur(2,3) l] by blast
  let ?m = "m\<lparr>threads := (threads m)(cur \<mapsto> ?r), tlh := h\<rparr>"
  have pl: "placed ?f cur l' \<longleftrightarrow> l' = Zombies me" for l' by (rule placed_snoc(2) [of f, OF l cur(2)])
  have "place_ok (?r\<lparr>t_state := S_ZOMBIE\<rparr>) (Zombies me)" using tc r by (simp add: place_ok_def)
  then obtain m2 where "upd_thread cur (\<lambda>r. r\<lparr>t_state := S_ZOMBIE\<rparr>) ?m = Some m2" "quiet me {Runqueue_lock me} IPL_HIGH m2"
    "sys m2 ?f {}" "\<forall>d. curthread d m2 = curthread d ?m" "dom (threads m2) = dom (threads ?m)"
    using set_parked_state [OF h(3,2) _ _ pl, of ?r S_ZOMBIE] base by auto
  then show ?thesis using h(1) cur(3) by (simp add: queue_cur_def upd_thread_def insert_absorb domI)
qed

lemma queue_cur_ok:
  assumes p: "parks me x wc l K" and q: "quiet me (insert (Runqueue_lock me) K) IPL_HIGH m" and sy: "sys m f {}"
    and cur: "curthread me m = Some cur" "\<not> on_some f cur" "threads m cur = Some r" and l: "f l = Some xs"
    and zo: "x = S_ZOMBIE \<Longrightarrow> t_proc r = None \<and> tm_badfaultfunc r = None"
  shows "\<exists>m1 m2. queue_cur me x wc cur m = Some m1 \<and> upd_thread cur (\<lambda>r. r\<lparr>t_state := x\<rparr>) m1 = Some m2 \<and>
    quiet me {Runqueue_lock me} IPL_HIGH m2 \<and> sys m2 (f(l \<mapsto> xs @ [cur])) {} \<and>
    (\<forall>d. curthread d m2 = curthread d m) \<and> dom (threads m2) = dom (threads m)"
  using p q l zo queue_cur_ready [OF _ sy cur] queue_cur_sleep [OF _ _ sy cur] queue_cur_zombie [OF _ sy cur]
  by cases auto

lemma on_some_drop: "g l = Some (n # xs) \<Longrightarrow> t \<noteq> n \<Longrightarrow> on_some (g(l \<mapsto> xs)) t \<longleftrightarrow> on_some g t"
  by (simp add: on_some_upd on_some_iff [of g l])

lemma switch_away_ok:
  assumes p: "parks me x wc l K" and q: "quiet me (insert (Runqueue_lock me) K) IPL_HIGH m" and sy: "sys m f {}"
    and cur: "curthread me m = Some cur" "\<not> on_some f cur" "threads m cur = Some r" and l: "f l = Some xs"
    and zo: "x = S_ZOMBIE \<Longrightarrow> t_proc r = None \<and> tm_badfaultfunc r = None"
    and n: "(f(l \<mapsto> xs @ [cur])) (Runqueue me) = Some (n # q')" "(f(l \<mapsto> xs @ [cur])) (Zombies me) = Some zs"
    and spl: "spl = IPL_NONE \<or> spl = IPL_HIGH"
  shows "\<exists>m1 m' s'. switch_away me cpu_idle x wc cur m = Some (n, m1) \<and> switchframe_switch me cur spl n m1 = Some m' \<and>
    quiet me {} s' m' \<and> sys m' (f(l \<mapsto> xs @ [cur], Runqueue me \<mapsto> q', Zombies me \<mapsto> [])) {} \<and>
    (\<forall>d. curthread d m' = (if d = me then Some n else curthread d m)) \<and> dom (threads m') = dom (threads m) - set zs"
proof -
  let ?f = "f(l \<mapsto> xs @ [cur])"
  obtain m1 m2 where m2: "queue_cur me x wc cur m = Some m1" "upd_thread cur (\<lambda>r. r\<lparr>t_state := x\<rparr>) m1 = Some m2"
    "quiet me {Runqueue_lock me} IPL_HIGH m2" "sys m2 ?f {}" "\<forall>d. curthread d m2 = curthread d m" "dom (threads m2) = dom (threads m)"
    using queue_cur_ok [OF p q sy cur l zo] by blast
  obtain k where k: "cpus m2 me = Some k" using current_cpu(2) [OF m2(4), of me cur] m2(5) cur(1) by auto
  let ?m3 = "m2\<lparr>cpus := (cpus m2)(me \<mapsto> k\<lparr>c_isidle := True\<rparr>)\<rparr>"
  have s3: "sys ?m3 ?f {}" by (rule sys_upd_cpu [OF m2(4) k]) simp
  have q3: "quiet me {Runqueue_lock me} IPL_HIGH ?m3" by (rule quiet_upd_cpu [OF m2(3) k]) simp
  obtain h rn where h: "pick_next me cpu_idle ?m3 = Some (n, ?m3\<lparr>tlh := h\<rparr>)"
    "sys (?m3\<lparr>tlh := h\<rparr>) (?f(Runqueue me \<mapsto> q')) {n}" "\<not> on_some (?f(Runqueue me \<mapsto> q')) n"
    "threads ?m3 n = Some rn" "thr_base ?m3 n rn" "t_cpu rn = Some me"
    using pick_next_ok [OF s3 n(1)] by blast
  let ?m4 = "?m3\<lparr>tlh := h\<rparr>"
  have c4: "curthread d ?m4 = curthread d m" for d
    using m2(5) [rule_format, of d] k by (auto simp: curthread_def)
  obtain rc where rc: "threads m2 cur = Some rc" using current_cpu(1) [OF m2(4), of me] m2(5) cur(1) by auto
  have "on_some ?f cur" by (rule placed_snoc(3) [OF l cur(2)])
  then have on: "n = cur \<or> on_some (?f(Runqueue me \<mapsto> q')) cur"
    using on_some_drop [of ?f, OF n(1), of cur] by blast
  have z: "(?f(Runqueue me \<mapsto> q')) (Zombies me) = Some zs" using n(2) by simp
  have q4: "quiet me {Runqueue_lock me} IPL_HIGH ?m4" using q3 by simp
  have fin: "\<exists>m' s'. switchframe_switch me cur spl n
      (?m4\<lparr>cpus := (cpus ?m4)(me \<mapsto> k\<lparr>c_isidle := True, c_isidle := False, c_curthread := Some n\<rparr>)\<rparr>) = Some m' \<and>
    quiet me {} s' m' \<and> sys m' (?f(Runqueue me \<mapsto> q', Zombies me \<mapsto> [])) {} \<and>
    (\<forall>d. curthread d m' = (if d = me then Some n else curthread d ?m4)) \<and> dom (threads m') = dom (threads ?m4) - set zs"
    by (rule switchframe_switch_ok [OF q4 h(2) _ _ _ on _ _ h(6,3) spl z]) (use c4 cur(1) rc h(4,5) in simp_all)
  have away: "switch_away me cpu_idle x wc cur m =
      Some (n, ?m4\<lparr>cpus := (cpus ?m4)(me \<mapsto> k\<lparr>c_isidle := True, c_isidle := False, c_curthread := Some n\<rparr>)\<rparr>)"
    using m2(1,2) k h(1) by (simp add: switch_away_def upd_cpu_def)
  have dom: "dom (threads ?m4) = dom (threads m)" using m2(6) by simp
  show ?thesis using fin away unfolding c4 dom by blast
qed

lemma checkstack_ok: "threads m t = Some r \<Longrightarrow> stack_ok r \<Longrightarrow> thread_checkstack t m = Some ()"
proof (cases "t_stack r")
  case (Some st)
  moreover assume "threads m t = Some r" "stack_ok r"
  moreover from this(2) Some have "0 < length st" "1 < length st" "2 < length st" "3 < length st"
    by (auto simp: stack_ok_def)
  ultimately show ?thesis by (simp add: thread_checkstack_def stack_ok_def get_at_def)
qed (simp add: thread_checkstack_def)

lemma checkstack_sys: "sys m f X \<Longrightarrow> threads m t = Some r \<Longrightarrow> t \<notin> X \<Longrightarrow> thread_checkstack t m = Some ()"
  using sysD(6) [of m f X t r] checkstack_ok by (simp add: thr_ok_def)

lemma thread_switch_ok:
  assumes p: "parks me x wc l K" and q: "quiet me K s m" and K: "Runqueue_lock me \<notin> K" and sy: "sys m f {}"
    and cur: "curthread me m = Some cur" "\<not> on_some f cur" "threads m cur = Some r"
    and k: "cpus m me = Some k" "\<not> c_isidle k" and l: "f l = Some xs"
    and zo: "x = S_ZOMBIE \<Longrightarrow> t_proc r = None \<and> tm_badfaultfunc r = None"
    and busy: "x = S_READY \<Longrightarrow> f (Runqueue me) \<noteq> Some []"
    and n: "(f(l \<mapsto> xs @ [cur])) (Runqueue me) = Some (n # q')" "(f(l \<mapsto> xs @ [cur])) (Zombies me) = Some zs"
  shows "\<exists>m' s'. thread_switch me cpu_idle x wc m = Some m' \<and> quiet me {} s' m' \<and>
    sys m' (f(l \<mapsto> xs @ [cur], Runqueue me \<mapsto> q', Zombies me \<mapsto> [])) {} \<and>
    (\<forall>d. curthread d m' = (if d = me then Some n else curthread d m)) \<and> dom (threads m') = dom (threads m) - set zs"
proof -
  obtain m1 where m1: "splhigh me m = Some (s, m1)" "quiet me K IPL_HIGH m1" "agree me m1 m"
    using splhigh_ok [OF q] by blast
  have "card K \<le> 1" using p by cases simp_all
  then have "card K < 2 ^ 32 - 1" by simp
  then obtain m2 where m2: "spinlock_acquire me (Runqueue_lock me) m1 = Some m2"
    "quiet me (insert (Runqueue_lock me) K) IPL_HIGH m2" "core me m2 = core me m1"
    using sl.acquire [OF m1(2) K] by blast
  have a2: "agree me m2 m" by (rule agree_trans [OF core_agree [OF m2(3)] m1(3)])
  have s1: "sys m1 f {}" by (rule sys_agree [OF m1(3) sy])
  have s2: "sys m2 f {}" by (rule sys_agree [OF a2 sy])
  have c1: "curthread me m1 = Some cur" using agree_curthread [OF m1(3)] cur(1) by simp
  have c2: "curthread d m2 = curthread d m" for d by (rule agree_curthread [OF a2])
  obtain k1 where k1: "cpus m1 me = Some k1" "\<not> c_isidle k1" using agree_cpu [OF m1(3) k(1)] k(2) by metis
  obtain r1 where r1: "threads m1 cur = Some r1" using agree_thread [OF m1(3) cur(3)] by blast
  obtain r2 where r2: "threads m2 cur = Some r2" "core_thread r2 = core_thread r" using agree_thread [OF a2 cur(3)] by blast
  have chk: "thread_checkstack cur m1 = Some ()" by (rule checkstack_sys [OF s1 r1]) simp
  obtain rq where rq: "f (Runqueue me) = Some rq" using sysD(5) [OF sy current_cpu(2) [OF sy cur(1)]] by (auto simp: cpu_ok_def)
  have go: "\<not> (x = S_READY \<and> threadlist_isempty (Runqueue me) (tlh m2))"
    using threadlist_isempty_iff [OF sysD(1) [OF s2] rq] busy rq by auto
  have zo2: "x = S_ZOMBIE \<Longrightarrow> t_proc r2 = None \<and> tm_badfaultfunc r2 = None"
    using zo core_thread_fields [OF r2(2)] by simp
  obtain m3 m' s' where m': "switch_away me cpu_idle x wc cur m2 = Some (n, m3)" "switchframe_switch me cur s n m3 = Some m'"
    "quiet me {} s' m'" "sys m' (f(l \<mapsto> xs @ [cur], Runqueue me \<mapsto> q', Zombies me \<mapsto> [])) {}"
    "\<forall>d. curthread d m' = (if d = me then Some n else curthread d m2)" "dom (threads m') = dom (threads m2) - set zs"
    using switch_away_ok [OF p m2(2) s2 _ cur(2) r2(1) l zo2 n quiet_level [OF q]] c2 cur(1) by metis
  have "thread_switch me cpu_idle x wc m = Some m'"
    using m1(1) c1 k1 chk m2(1) go m'(1,2) by (auto simp: thread_switch_def)
  then show ?thesis using m'(3-6) c2 agree_dom(1) [OF a2] by auto
qed

text \<open>With nothing else to run, \<open>thread_yield\<close> returns at once.\<close>

lemma thread_yield_alone:
  assumes q: "quiet me {} s m" and sy: "sys m f {}" and cur: "curthread me m = Some cur" "threads m cur = Some r"
    and k: "cpus m me = Some k" and rq: "f (Runqueue me) = Some []"
  shows "\<exists>m'. thread_yield me cpu_idle m = Some m' \<and> quiet me {} s m' \<and> agree me m' m"
proof -
  obtain m1 where m1: "splhigh me m = Some (s, m1)" "quiet me {} IPL_HIGH m1" "agree me m1 m"
    using splhigh_ok [OF q] by blast
  obtain m2 where m2: "spinlock_acquire me (Runqueue_lock me) m1 = Some m2"
    "quiet me {Runqueue_lock me} IPL_HIGH m2" "core me m2 = core me m1"
    using sl.acquire [OF m1(2), of "Runqueue_lock me"] by auto
  obtain m3 where m3: "spinlock_release me (Runqueue_lock me) m2 = Some m3" "quiet me {} IPL_HIGH m3" "core me m3 = core me m2"
    using sl.release [OF m2(2), of "Runqueue_lock me"] by auto
  have lvl: "s = IPL_NONE \<or> s = IPL_HIGH" by (rule quiet_level [OF q])
  have a3: "agree me m3 m" using core_agree [OF m3(3)] core_agree [OF m2(3)] m1(3) agree_trans by blast
  obtain m4 where m4: "splx me s m3 = Some (IPL_HIGH, m4)" "quiet me {} s m4" "agree me m4 m3" using splx_ok [OF m3(2) lvl] by blast
  obtain m5 where m5: "splx me s m1 = Some (IPL_HIGH, m5)" "quiet me {} s m5" "agree me m5 m1" using splx_ok [OF m1(2) lvl] by blast
  have s1: "sys m1 f {}" by (rule sys_agree [OF m1(3) sy])
  have s2: "sys m2 f {}" by (rule sys_agree [OF core_agree [OF m2(3)] s1])
  obtain k1 where k1: "cpus m1 me = Some k1" using agree_cpu [OF m1(3) k] by metis
  obtain r1 where r1: "threads m1 cur = Some r1" using agree_thread [OF m1(3) cur(2)] by blast
  have chk: "thread_checkstack cur m1 = Some ()" by (rule checkstack_sys [OF s1 r1]) simp
  have e: "threadlist_isempty (Runqueue me) (tlh m2)" using threadlist_isempty_iff [OF sysD(1) [OF s2] rq] by simp
  have c1: "curthread me m1 = Some cur" using agree_curthread [OF m1(3)] cur(1) by simp
  show ?thesis
  proof (cases "c_isidle k1")
    case True
    then show ?thesis
      using m1(1) c1 k1 m5 agree_trans [OF m5(3) m1(3)] by (simp add: thread_yield_def thread_switch_def)
  next
    case False
    then show ?thesis
      using m1(1) c1 k1 chk m2(1) e m3(1) m4 agree_trans [OF m4(3) a3] by (simp add: thread_yield_def thread_switch_def)
  qed
qed

section \<open>Threads and their processes\<close>

lemma members_finite: "sys m f X \<Longrightarrow> finite (members m p)"
proof -
  assume "sys m f X"
  then have "finite (dom (threads m))" using sysD(1) by (auto simp: tl_inv_def)
  then show ?thesis by (rule finite_subset [rotated]) (auto simp: members_def)
qed

lemma members_bound: "sys m f X \<Longrightarrow> card (members m p) < 2 ^ 32"
proof -
  assume s: "sys m f X"
  then have "finite (dom (threads m))" "card (dom (threads m)) < 2 ^ 32" using sysD(1) by (auto simp: tl_inv_def)
  moreover have "members m p \<subseteq> dom (threads m)" by (auto simp: members_def)
  ultimately show ?thesis using card_mono order.strict_trans1 by blast
qed

lemma members_set_proc:
  assumes "threads m t = Some r"
  shows "members (m\<lparr>procs := ps, threads := (threads m)(t \<mapsto> r\<lparr>t_proc := x\<rparr>)\<rparr>) p =
    (if x = Some p then insert t (members m p) else members m p - {t})"
  using assms by (auto simp: members_def)

text \<open>Changing the process of a thread together with the count of that process.\<close>

lemma sys_set_proc:
  assumes s: "sys m f X" and r: "threads m t = Some r" and p: "procs m p = Some pr"
    and cnt: "unat (p_numthreads pr') = card (if x = Some p then insert t (members m p) else members m p - {t})"
    and x: "x = None \<and> t_proc r = Some p \<or> x = Some p \<and> t_proc r = None"
    and z: "t \<notin> X \<Longrightarrow> (\<forall>c. placed f t (Zombies c) \<longrightarrow> x = None)"
  shows "sys (m\<lparr>procs := (procs m)(p \<mapsto> pr'), threads := (threads m)(t \<mapsto> r\<lparr>t_proc := x\<rparr>)\<rparr>) f X"
proof (rule sysI)
  let ?m = "m\<lparr>procs := (procs m)(p \<mapsto> pr'), threads := (threads m)(t \<mapsto> r\<lparr>t_proc := x\<rparr>)\<rparr>"
  show "tl_inv (tlh ?m) f (dom (threads ?m))" "set (allcpus ?m) = dom (cpus ?m)" "distinct (allcpus ?m)"
    using sysD(1-3) [OF s] r by (simp_all add: insert_absorb domI)
  have "members m p' - {t} = members m p'" if "p' \<noteq> p" for p'
    using x r that by (auto simp: members_def)
  then have "unat (p_numthreads q) = card (members ?m p')" if "procs ?m p' = Some q" for p' q
    using that sysD(4) [OF s] cnt x unfolding procs_ok_def members_set_proc [OF r] by (auto split: if_splits)
  then show "procs_ok ?m" by (simp add: procs_ok_def)
  have c: "curthread c ?m = curthread c m" for c by simp
  show "cpu_ok ?m f c" if "c \<in> dom (cpus ?m)" for c
    using sysD(5) [OF s, of c] that r unfolding cpu_ok_def c by (auto split: if_splits)
  have dm: "dom (procs ?m) = insert p (dom (procs m))" by simp
  have ic: "is_current ?m = is_current m" by (simp add: is_current_def fun_eq_iff)
  show "thr_ok ?m f u ru" if u: "threads ?m u = Some ru" "u \<notin> X" for u ru
  proof (cases "u = t")
    case True
    then have "thr_ok m f t r" "ru = r\<lparr>t_proc := x\<rparr>" using sysD(6) [OF s r] u by simp_all
    then show ?thesis
      using True x z u(2) ic by (auto simp: thr_ok_def place_ok_def stack_ok_def suspended_def split: tlid.splits)
  next
    case False
    then have "thr_ok m f u ru" using sysD(6) [OF s, of u ru] u by simp
    then show ?thesis using ic by (auto simp: thr_ok_def)
  qed
qed

text \<open>The common shape of \<open>proc_addthread\<close> and \<open>proc_remthread\<close>.\<close>

definition proc_update :: "cpuid \<Rightarrow> procid \<Rightarrow> (proc \<Rightarrow> proc) \<Rightarrow> tid \<Rightarrow> procid option \<Rightarrow> machine \<Rightarrow> machine option" where
  "proc_update me p g t x m = do {
     m \<leftarrow> spinlock_acquire me (Proc_lock p) m;
     m \<leftarrow> upd_proc p g m;
     m \<leftarrow> spinlock_release me (Proc_lock p) m;
     (spl, m) \<leftarrow> splhigh me m;
     m \<leftarrow> upd_thread t (\<lambda>r. r\<lparr>t_proc := x\<rparr>) m;
     (_, m) \<leftarrow> splx me spl m;
     Some m }"

lemma core_thread_proc: "core_thread (r\<lparr>t_proc := x\<rparr>) = (core_thread r)\<lparr>t_proc := x\<rparr>"
  by (cases r) (simp add: core_thread_def)

lemma proc_update_ok:
  assumes q: "quiet me L s m" and L: "Proc_lock p \<notin> L" "card L < 2 ^ 32 - 1" and sy: "sys m f X"
    and r: "threads m t = Some r" and p: "procs m p = Some pr"
    and cnt: "unat (p_numthreads (g pr)) = card (if x = Some p then insert t (members m p) else members m p - {t})"
    and x: "x = None \<and> t_proc r = Some p \<or> x = Some p \<and> t_proc r = None"
    and z: "t \<notin> X \<Longrightarrow> (\<forall>c. placed f t (Zombies c) \<longrightarrow> x = None)"
  shows "\<exists>m' m1 r'. proc_update me p g t x m = Some m' \<and> quiet me L s m' \<and> sys m' f X \<and>
    (\<forall>d. curthread d m' = curthread d m) \<and> agree me m' m1 \<and> threads m' t = Some r' \<and>
    m1 = m\<lparr>procs := (procs m)(p \<mapsto> g pr), threads := (threads m)(t \<mapsto> r\<lparr>t_proc := x\<rparr>)\<rparr> \<and>
    core_thread r' = core_thread (r\<lparr>t_proc := x\<rparr>)"
proof -
  obtain m1 where m1: "spinlock_acquire me (Proc_lock p) m = Some m1" "quiet me (insert (Proc_lock p) L) s m1"
    "core me m1 = core me m"
    using sl.acquire [OF q L] by blast
  let ?m2 = "m1\<lparr>procs := (procs m1)(p \<mapsto> g pr)\<rparr>"
  have p1: "procs m1 = procs m" by (rule core_fields(4) [OF m1(3)])
  have q2: "quiet me (insert (Proc_lock p) L) s ?m2" using m1(2) by simp
  obtain m3 where m3: "spinlock_release me (Proc_lock p) ?m2 = Some m3"
    "quiet me (insert (Proc_lock p) L - {Proc_lock p}) s m3" "core me m3 = core me ?m2"
    using sl.release [OF q2, of "Proc_lock p"] by blast
  have q3: "quiet me L s m3" using m3(2) L(1) by simp
  obtain m4 where m4: "splhigh me m3 = Some (s, m4)" "quiet me L IPL_HIGH m4" "agree me m4 m3"
    using splhigh_ok [OF q3] by blast
  have a4: "agree me m4 ?m2" by (rule agree_trans [OF m4(3) core_agree [OF m3(3)]])
  have a1: "agree me m1 m" by (rule core_agree [OF m1(3)])
  have a42: "agree me m4 (m\<lparr>procs := (procs m)(p \<mapsto> g pr)\<rparr>)"
    using a4 a1 agree_curthread [OF a1, of me] unfolding agree_def by (simp add: p1)
  obtain r4 where r4: "threads m4 t = Some r4" "core_thread r4 = core_thread r"
    using agree_thread [OF a42, of t r] r by auto
  let ?m5 = "m4\<lparr>threads := (threads m4)(t \<mapsto> r4\<lparr>t_proc := x\<rparr>)\<rparr>"
  have q5: "quiet me L IPL_HIGH ?m5" by (rule quiet_upd_thread [OF m4(2) r4(1)]) simp
  obtain m6 where m6: "splx me s ?m5 = Some (IPL_HIGH, m6)" "quiet me L s m6" "agree me m6 ?m5"
    using splx_ok [OF q5 quiet_level [OF q]] by blast
  have run: "proc_update me p g t x m = Some m6"
    using m1(1) m3(1) m4(1) r4(1) m6(1) p p1 by (simp add: proc_update_def upd_proc_def upd_thread_def)
  let ?m = "m\<lparr>procs := (procs m)(p \<mapsto> g pr), threads := (threads m)(t \<mapsto> r\<lparr>t_proc := x\<rparr>)\<rparr>"
  have cr: "core_thread (r4\<lparr>t_proc := x\<rparr>) = core_thread (r\<lparr>t_proc := x\<rparr>)"
    by (simp only: core_thread_proc r4(2))
  have "r4 = r" if "curthread me m \<noteq> Some t"
    using agree_threads(2) [OF a42, of t] that r r4(1) by simp
  then have a5: "agree me ?m5 ?m"
    using a42 cr unfolding agree_def by auto
  have a6: "agree me m6 ?m" by (rule agree_trans [OF m6(3) a5])
  have "sys m6 f X" by (rule sys_agree [OF a6 sys_set_proc [OF sy r p cnt x z]])
  moreover obtain r6 where "threads m6 t = Some r6" "core_thread r6 = core_thread (r\<lparr>t_proc := x\<rparr>)"
    using agree_thread [OF a6, of t] by auto
  moreover have "curthread d m6 = curthread d m" for d using agree_curthread [OF a6] by simp
  ultimately show ?thesis using run m6(2) a6 by blast
qed

lemma proc_remthread_ok:
  assumes q: "quiet me L s m" and L: "Proc_lock p \<notin> L" "card L < 2 ^ 32 - 1" and sy: "sys m f X"
    and r: "threads m t = Some r" "t_proc r = Some p" and p: "procs m p = Some pr"
  shows "\<exists>m' m1 r'. proc_remthread me t m = Some m' \<and> quiet me L s m' \<and> sys m' f X \<and>
    (\<forall>d. curthread d m' = curthread d m) \<and> agree me m' m1 \<and> threads m' t = Some r' \<and>
    m1 = m\<lparr>procs := (procs m)(p \<mapsto> pr\<lparr>p_numthreads := p_numthreads pr - 1\<rparr>), threads := (threads m)(t \<mapsto> r\<lparr>t_proc := None\<rparr>)\<rparr> \<and>
    core_thread r' = core_thread (r\<lparr>t_proc := None\<rparr>)"
proof -
  let ?g = "\<lambda>p. p\<lparr>p_numthreads := p_numthreads p - 1\<rparr>"
  have mem: "t \<in> members m p" using r by (simp add: members_def)
  have n: "unat (p_numthreads pr) = card (members m p)" using sysD(4) [OF sy] p by (simp add: procs_ok_def)
  have pos: "card (members m p) > 0" using mem members_finite [OF sy] by (auto simp: card_gt_0_iff)
  then have nz: "p_numthreads pr > 0" using n by (simp add: word_less_nat_alt)
  then have "unat (p_numthreads (?g pr)) = card (members m p) - 1"
    using unat_dec_u32 [of "p_numthreads pr"] n by (simp add: word_neq_0_conv)
  then have cnt: "unat (p_numthreads (?g pr)) = card (if None = Some p then insert t (members m p) else members m p - {t})"
    using mem members_finite [OF sy] by simp
  obtain m1 where m1: "spinlock_acquire me (Proc_lock p) m = Some m1" "core me m1 = core me m"
    using sl.acquire [OF q L] by blast
  have "procs m1 p = Some pr" using core_fields(4) [OF m1(2)] p by simp
  then have "proc_remthread me t m = proc_update me p ?g t None m"
    using r m1(1) nz by (simp add: proc_remthread_def proc_update_def)
  then show ?thesis using proc_update_ok [where g = ?g and x = None, OF q L sy r(1) p cnt] r(2) by simp
qed

lemma proc_addthread_ok:
  assumes q: "quiet me L s m" and L: "Proc_lock p \<notin> L" "card L < 2 ^ 32 - 1" and sy: "sys m f X"
    and r: "threads m t = Some r" "t_proc r = None" "t \<in> X" and p: "procs m p = Some pr"
  shows "\<exists>m' m1 r'. proc_addthread me p t m = Some (Inr (), m') \<and> quiet me L s m' \<and> sys m' f X \<and>
    (\<forall>d. curthread d m' = curthread d m) \<and> agree me m' m1 \<and> threads m' t = Some r' \<and>
    m1 = m\<lparr>procs := (procs m)(p \<mapsto> pr\<lparr>p_numthreads := p_numthreads pr + 1\<rparr>), threads := (threads m)(t \<mapsto> r\<lparr>t_proc := Some p\<rparr>)\<rparr> \<and>
    core_thread r' = core_thread (r\<lparr>t_proc := Some p\<rparr>)"
proof -
  let ?g = "\<lambda>p. p\<lparr>p_numthreads := p_numthreads p + 1\<rparr>"
  have mem: "t \<notin> members m p" using r by (simp add: members_def)
  have n: "unat (p_numthreads pr) = card (members m p)" using sysD(4) [OF sy] p by (simp add: procs_ok_def)
  have sub: "insert t (members m p) \<subseteq> dom (threads m)" using r by (auto simp: members_def)
  have "finite (dom (threads m))" "card (dom (threads m)) < 2 ^ 32" using sysD(1) [OF sy] by (auto simp: tl_inv_def)
  then have "card (insert t (members m p)) < 2 ^ 32" using card_mono [OF _ sub] by linarith
  then have "unat (p_numthreads pr) + 1 < 2 ^ 32" using n mem members_finite [OF sy] by simp
  then have "unat (p_numthreads (?g pr)) = card (members m p) + 1"
    using unat_inc_u32 [of "p_numthreads pr"] n by simp
  then have cnt: "unat (p_numthreads (?g pr)) = card (if Some p = Some p then insert t (members m p) else members m p - {t})"
    using mem members_finite [OF sy] by simp
  have "proc_addthread me p t m = map_option (Pair (Inr ())) (proc_update me p ?g t (Some p) m)"
    using r by (simp add: proc_addthread_def proc_update_def map_option_bind option.map_comp bind_assoc comp_def split: Option.bind_splits prod.splits)
  then show ?thesis using proc_update_ok [where g = ?g and x = "Some p", OF q L sy r(1) p cnt] r(2,3) by auto
qed

section \<open>Exiting\<close>

lemma thread_exit_ok:
  assumes q: "quiet me {} s m" and sy: "sys m f {}"
    and cur: "curthread me m = Some cur" "\<not> on_some f cur" "threads m cur = Some r"
    and k: "cpus m me = Some k" "\<not> c_isidle k" and r: "t_proc r = Some p" "tm_badfaultfunc r = None"
    and rq: "f (Runqueue me) = Some (n # q')" and z: "f (Zombies me) = Some zs"
  shows "\<exists>m' s'. thread_exit me cpu_idle m = Some m' \<and> quiet me {} s' m' \<and>
    sys m' (f(Runqueue me \<mapsto> q', Zombies me \<mapsto> [])) {} \<and>
    (\<forall>d. curthread d m' = (if d = me then Some n else curthread d m)) \<and>
    dom (threads m') = dom (threads m) - insert cur (set zs)"
proof -
  have "thr_ok m f cur r" using sysD(6) [OF sy cur(3)] by simp
  then obtain pr where pr: "procs m p = Some pr" using r(1) by (auto simp: thr_ok_def)
  obtain m1 m0 r1 where m1: "proc_remthread me cur m = Some m1" "quiet me {} s m1" "sys m1 f {}"
    "\<forall>d. curthread d m1 = curthread d m" "agree me m1 m0" "threads m1 cur = Some r1"
    "m0 = m\<lparr>procs := (procs m)(p \<mapsto> pr\<lparr>p_numthreads := p_numthreads pr - 1\<rparr>), threads := (threads m)(cur \<mapsto> r\<lparr>t_proc := None\<rparr>)\<rparr>"
    "core_thread r1 = core_thread (r\<lparr>t_proc := None\<rparr>)"
    using proc_remthread_ok [OF q _ _ sy cur(3) r(1) pr] by auto
  have r1: "t_proc r1 = None" "tm_badfaultfunc r1 = None"
    using core_thread_fields [OF m1(8)] r(2) by simp_all
  obtain m2 where m2: "splhigh me m1 = Some (s, m2)" "quiet me {} IPL_HIGH m2" "agree me m2 m1"
    using splhigh_ok [OF m1(2)] by blast
  have s2: "sys m2 f {}" by (rule sys_agree [OF m2(3) m1(3)])
  have c2: "curthread d m2 = curthread d m" for d using agree_curthread [OF m2(3)] m1(4) by simp
  obtain r2 where r2: "threads m2 cur = Some r2" "core_thread r2 = core_thread r1" using agree_thread [OF m2(3) m1(6)] by blast
  have r2': "t_proc r2 = None \<and> tm_badfaultfunc r2 = None" using core_thread_fields [OF r2(2)] r1 by simp
  have "cpus m0 me = Some k" using k(1) m1(7) by simp
  then obtain k1 where "cpus m1 me = Some k1" "c_isidle k1 = c_isidle k" using agree_cpu [OF m1(5)] by metis
  then obtain k2 where k2: "cpus m2 me = Some k2" "\<not> c_isidle k2" using agree_cpu [OF m2(3)] k(2) by metis
  let ?f = "f(Zombies me \<mapsto> zs @ [cur])"
  obtain m3 s' where m3: "thread_switch me cpu_idle S_ZOMBIE None m2 = Some m3" "quiet me {} s' m3"
    "sys m3 (?f(Runqueue me \<mapsto> q', Zombies me \<mapsto> [])) {}"
    "\<forall>d. curthread d m3 = (if d = me then Some n else curthread d m2)" "dom (threads m3) = dom (threads m2) - set (zs @ [cur])"
    using thread_switch_ok [where cpu_idle = cpu_idle and n = n and q' = q' and zs = "zs @ [cur]",
        OF parks.zombie m2(2) _ s2 _ cur(2) r2(1) k2 z] r2' rq c2 cur(1) by auto
  have "thread_exit me cpu_idle m = Some m3"
    using cur(1) m1(1,6) r1 checkstack_sys [OF m1(3,6)] m2(1) m3(1) by (simp add: thread_exit_def)
  moreover have "dom (threads m2) = dom (threads m)"
    using agree_dom(1) [OF m2(3)] agree_dom(1) [OF m1(5)] m1(7) cur(3) by auto
  moreover have "?f(Runqueue me \<mapsto> q', Zombies me \<mapsto> []) = f(Runqueue me \<mapsto> q', Zombies me \<mapsto> [])" by (auto simp: fun_eq_iff)
  ultimately show ?thesis using m3(2-5) c2 by auto
qed

end
