(* ===== verification/Thread_Lifecycle.thy ===== *)
theory Thread_Lifecycle
  imports Scheduler
begin

text \<open>
  Creating threads (\<open>thread_create\<close>, \<open>thread_fork\<close> of \<open>kern/thread/thread.c\<close>), and the
  properties of the context switch: round-robin yielding, sleeping and waking on wait
  channels, exiting and being reaped.
\<close>

section \<open>A new thread\<close>

lemma tl_inv_new:
  assumes inv: "tl_inv h f N" and t: "t \<notin> N" and room: "card N + 1 < 2 ^ 32"
  shows "\<exists>h'. threadlistnode_init (TNode t) (Some t) h = Some h' \<and> tl_inv h' f (insert t N)"
proof -
  let ?h = "set_self (TNode t) (Some t) (set_prev (TNode t) None (set_next (TNode t) None h))"
  have off: "\<not> on_some f t" using tl_inv_sub [OF inv] t by (auto simp: on_some_def)
  have rep: "tl_rep ?h l xs" if l: "f l = Some xs" for l xs
  proof -
    have "TNode t \<notin> set (tl_nodes l xs)" using off l by (auto simp: set_tl_nodes on_some_def)
    then have "chain h (tl_nodes l xs) \<longleftrightarrow> chain ?h (tl_nodes l xs)"
      by (intro successively_cong) (auto simp: linked_def)
    moreover have "t \<notin> set xs" using off l by (auto simp: on_some_def)
    ultimately show ?thesis using tl_inv_rep [OF inv l] by (auto simp: tl_rep_def)
  qed
  have "tl_inv ?h f (insert t N)"
    unfolding tl_inv_def
  proof (intro conjI allI impI ballI)
    show "tl_rep ?h l xs" if "f l = Some xs" for l xs using rep that .
    show "set xs \<subseteq> insert t N" if "f l = Some xs" for l xs using tl_inv_sub [OF inv that] by blast
    show "l = l'" if "f l = Some xs \<and> f l' = Some ys \<and> u \<in> set xs \<and> u \<in> set ys" for l l' xs ys u
      using tl_inv_disjoint [OF inv, of l xs l' ys u] that by blast
    show "off_list ?h u" if "u \<in> insert t N" "\<not> on_some f u" for u
      using that tl_inv_off [OF inv, of u] by (auto simp: off_list_def)
    show "finite (insert t N)" "card (insert t N) < 2 ^ 32"
      using inv t room by (auto simp: tl_inv_def)
  qed
  then show ?thesis by (simp add: threadlistnode_init_def)
qed

lemma not_current_new: "sys m f X \<Longrightarrow> t \<notin> dom (threads m) \<Longrightarrow> \<not> is_current m t"
  using current_cpu(1) [of m f X _ t] by (auto simp: is_current_def)

lemma sys_new:
  assumes s: "sys m f X" and t: "t \<notin> dom (threads m)" and h: "tl_inv h f (insert t (dom (threads m)))"
    and r: "t_proc r = None"
  shows "sys (m\<lparr>threads := (threads m)(t \<mapsto> r), tlh := h\<rparr>) f (insert t X)"
proof (rule sysI)
  let ?m = "m\<lparr>threads := (threads m)(t \<mapsto> r), tlh := h\<rparr>"
  show "tl_inv (tlh ?m) f (dom (threads ?m))" "set (allcpus ?m) = dom (cpus ?m)" "distinct (allcpus ?m)"
    using h sysD(2,3) [OF s] by simp_all
  have "members ?m p = members m p" for p using r t by (auto simp: members_def)
  then show "procs_ok ?m" using sysD(4) [OF s] by (simp add: procs_ok_def)
  show "cpu_ok ?m f c" if "c \<in> dom (cpus ?m)" for c
  proof -
    have "cpu_ok m f c" using sysD(5) [OF s] that by simp
    then show ?thesis using t by (auto simp: cpu_ok_def)
  qed
  show "thr_ok ?m f u ru" if "threads ?m u = Some ru" "u \<notin> insert t X" for u ru
    using sysD(6) [OF s, of u ru] that by simp
qed

lemma sys_upd_held:
  assumes s: "sys m f X" and t: "t \<in> X" "threads m t = Some r" "\<not> is_current m t" and r: "t_proc r' = t_proc r"
  shows "sys (m\<lparr>threads := (threads m)(t \<mapsto> r')\<rparr>) f X"
  using sys_move [OF s sysD(1) [OF s] _ _ t(2), of r' X] t r by auto

lemma thread_create_ok:
  assumes q: "quiet me L s m" and sy: "sys m f X" and t: "t \<notin> dom (threads m)" and room: "card (dom (threads m)) + 1 < 2 ^ 32"
  shows "\<exists>m'. thread_create (Some t) True name m = Some (Some t, m') \<and> quiet me L s m' \<and> sys m' f (insert t X) \<and>
    (\<forall>d. curthread d m' = curthread d m) \<and> (\<forall>u. u \<noteq> t \<longrightarrow> threads m' u = threads m u) \<and> procs m' = procs m \<and> cpus m' = cpus m \<and>
    threads m' t = Some \<lparr>t_name = name, t_wchan_name = Some ''NEW'', t_state = S_READY,
           tm_badfaultfunc = None, t_stack = None, t_context = None, t_cpu = None, t_proc = None,
           t_in_interrupt = False, t_curspl = IPL_HIGH, t_iplhigh_count = 1\<rparr>"
proof -
  let ?r = "\<lparr>t_name = name, t_wchan_name = Some ''NEW'', t_state = S_READY,
           tm_badfaultfunc = None, t_stack = None, t_context = None, t_cpu = None, t_proc = None,
           t_in_interrupt = False, t_curspl = IPL_HIGH, t_iplhigh_count = 1\<rparr>"
  obtain h where h: "threadlistnode_init (TNode t) (Some t) (tlh m) = Some h" "tl_inv h f (insert t (dom (threads m)))"
    using tl_inv_new [OF sysD(1) [OF sy] t room] by blast
  let ?m = "m\<lparr>threads := (threads m)(t \<mapsto> ?r), tlh := h\<rparr>"
  have "sys ?m f (insert t X)" by (rule sys_new [OF sy t h(2)]) simp
  moreover have "thread_create (Some t) True name m = Some (Some t, ?m)"
    using h(1) by (simp add: thread_create_def on_tlh_def)
  moreover have "quiet me L s ?m"
  proof -
    obtain c cur r where q': "running me m c cur r" "t_curspl r = s" "s = IPL_NONE \<or> s = IPL_HIGH"
      "t_iplhigh_count r = s + int (card L)" "irq m me = (s + int (card L) = 0)"
      "c_spinlocks c = of_nat (card L)" "finite L" "card L < 2 ^ 32" "locks m = held_by me L"
      using q by (rule quietE)
    have "running me ?m c cur r" using q'(1) t by (auto simp: running_def)
    then show ?thesis by (rule quietI) (use q' in simp_all)
  qed
  ultimately show ?thesis by simp
qed

lemma thread_create_fails:
  "thread_create None dup name m = Some (None, m)" "thread_create al False name m = Some (None, m)"
  by (simp_all add: thread_create_def split: option.split)

text \<open>The updates \<open>thread_fork\<close> makes to the new thread before it is attached to its process.\<close>

lemma checkstack_init_ok:
  assumes "threads m t = Some r" and "t_stack r = Some st" and "4 \<le> length st"
  shows "\<exists>st'. thread_checkstack_init t m = Some (m\<lparr>threads := (threads m)(t \<mapsto> r\<lparr>t_stack := Some st'\<rparr>)\<rparr>) \<and>
    stack_ok (r\<lparr>t_stack := Some st'\<rparr>)"
proof -
  let ?M = THREAD_STACK_MAGIC
  let ?st = "st[0 := ?M, 1 := ?M, 2 := ?M, 3 := ?M]"
  have len: "0 < length st" "1 < length st" "2 < length st" "3 < length st" using assms(3) by linarith+
  have "?st ! i = ?M" if "i < 4" for i
  proof -
    have "i = 0 \<or> i = 1 \<or> i = 2 \<or> i = 3" using that by linarith
    then show ?thesis using len by (auto simp: nth_list_update)
  qed
  then have "stack_ok (r\<lparr>t_stack := Some ?st\<rparr>)" using assms(3) by (simp add: stack_ok_def)
  moreover have "thread_checkstack_init t m = Some (m\<lparr>threads := (threads m)(t \<mapsto> r\<lparr>t_stack := Some ?st\<rparr>)\<rparr>)"
    using assms(1,2) len by (simp add: thread_checkstack_init_def put_at_def upd_thread_def)
  ultimately show ?thesis by blast
qed

lemma quiet_upd_other:
  assumes "quiet me L s m" and "curthread me m \<noteq> Some t" and "threads m t = Some r"
  shows "quiet me L s (m\<lparr>threads := (threads m)(t \<mapsto> r')\<rparr>)"
  using quiet_upd_thread [OF assms(1,3)] assms(2) by blast

text \<open>What \<open>thread_fork\<close> does once the new thread has its stack, its cpu and its process.\<close>

lemma fork_finish:
  assumes q: "quiet me L s m" and o: "outer L" and sy: "sys m f {t}" and nc: "\<not> is_current m t" and off: "\<not> on_some f t"
    and r: "threads m t = Some r" "t_cpu r = Some c" "c \<in> dom (cpus m)" "stack_ok r" "t_proc r = Some p" "p \<in> dom (procs m)"
    and lvl: "t_curspl r = IPL_HIGH" "t_iplhigh_count r = 1" and rq: "f (Runqueue c) = Some xs"
  shows "\<exists>m1 m2 m'. upd_thread t (\<lambda>r. r\<lparr>t_iplhigh_count := t_iplhigh_count r + 1\<rparr>) m = Some m1 \<and>
    switchframe_init t e d1 d2 m1 = Some m2 \<and> thread_make_runnable me t False m2 = Some m' \<and>
    quiet me L s m' \<and> sys m' (f(Runqueue c \<mapsto> xs @ [t])) {} \<and> (\<forall>d. curthread d m' = curthread d m) \<and>
    dom (threads m') = dom (threads m)"
proof -
  let ?r = "r\<lparr>t_iplhigh_count := t_iplhigh_count r + 1, t_context := Some (Startup e d1 d2)\<rparr>"
  let ?m = "m\<lparr>threads := (threads m)(t \<mapsto> ?r)\<rparr>"
  have ncm: "curthread me m \<noteq> Some t" using nc by (auto simp: is_current_def)
  have q1: "quiet me L s ?m" by (rule quiet_upd_other [OF q ncm r(1)])
  have s1: "sys ?m f {t}" by (rule sys_upd_held [OF sy _ r(1) nc]) simp_all
  have "suspended ?r" using lvl by (simp add: suspended_def)
  then have b1: "thr_base ?m t ?r" using r by (simp add: thr_base_def stack_ok_def)
  have t1: "threads ?m t = Some ?r" "t_cpu ?r = Some c" using r(2) by simp_all
  have L: "if False then Runqueue_lock c \<in> L else Runqueue_lock c \<notin> L" "Ipi_lock c \<notin> L" "card L < 2 ^ 32 - 2"
    using o by (simp_all add: outer_def)
  obtain m' where m': "thread_make_runnable me t False ?m = Some m'" "quiet me L s m'"
    "sys m' (f(Runqueue c \<mapsto> xs @ [t])) ({t} - {t})" "\<forall>d. curthread d m' = curthread d ?m" "dom (threads m') = dom (threads ?m)"
    using thread_make_runnable_ok [OF q1 s1 t1(1) off b1 t1(2) rq L] by blast
  have "upd_thread t (\<lambda>r. r\<lparr>t_iplhigh_count := t_iplhigh_count r + 1\<rparr>) m =
      Some (m\<lparr>threads := (threads m)(t \<mapsto> r\<lparr>t_iplhigh_count := t_iplhigh_count r + 1\<rparr>)\<rparr>)"
    using r(1) by (simp add: upd_thread_def)
  moreover have "switchframe_init t e d1 d2 (m\<lparr>threads := (threads m)(t \<mapsto> r\<lparr>t_iplhigh_count := t_iplhigh_count r + 1\<rparr>)\<rparr>) = Some ?m"
    by (simp add: switchframe_init_def upd_thread_def)
  ultimately show ?thesis using m' r(1) by (simp add: insert_absorb domI)
qed

lemma fork_start:
  assumes q: "quiet me L s m" and sy: "sys m f {}" and t: "t \<notin> dom (threads m)" "card (dom (threads m)) + 1 < 2 ^ 32"
    and st: "4 \<le> length st"
  shows "\<exists>m1 m2 m3 m4 r4. thread_create (Some t) True name m = Some (Some t, m1) \<and>
    upd_thread t (\<lambda>r. r\<lparr>t_stack := Some st\<rparr>) m1 = Some m2 \<and> thread_checkstack_init t m2 = Some m3 \<and>
    upd_thread t (\<lambda>r. r\<lparr>t_cpu := Some me\<rparr>) m3 = Some m4 \<and> quiet me L s m4 \<and> sys m4 f {t} \<and>
    (\<forall>d. curthread d m3 = curthread d m) \<and> (\<forall>d. curthread d m4 = curthread d m) \<and>
    (\<forall>u. u \<noteq> t \<longrightarrow> threads m3 u = threads m u) \<and> (\<forall>u. u \<noteq> t \<longrightarrow> threads m4 u = threads m u) \<and>
    procs m4 = procs m \<and> cpus m4 = cpus m \<and> threads m4 t = Some r4 \<and> t_proc r4 = None \<and> t_cpu r4 = Some me \<and>
    stack_ok r4 \<and> t_curspl r4 = IPL_HIGH \<and> t_iplhigh_count r4 = 1"
proof -
  obtain m1 r0 where m1: "thread_create (Some t) True name m = Some (Some t, m1)" "quiet me L s m1" "sys m1 f {t}"
    "\<forall>d. curthread d m1 = curthread d m" "\<forall>u. u \<noteq> t \<longrightarrow> threads m1 u = threads m u" "procs m1 = procs m" "cpus m1 = cpus m"
    and r0: "threads m1 t = Some r0" "t_proc r0 = None" "t_curspl r0 = IPL_HIGH" "t_iplhigh_count r0 = 1"
    using thread_create_ok [OF q sy t, of name] by fastforce
  have "\<not> is_current m t" by (rule not_current_new [OF sy t(1)])
  then have nc1: "\<not> is_current m1 t" "curthread me m1 \<noteq> Some t" using m1(4) by (auto simp: is_current_def)
  let ?r1 = "r0\<lparr>t_stack := Some st\<rparr>"
  obtain st' where st': "thread_checkstack_init t (m1\<lparr>threads := (threads m1)(t \<mapsto> ?r1)\<rparr>) =
      Some (m1\<lparr>threads := (threads m1)(t \<mapsto> ?r1\<lparr>t_stack := Some st'\<rparr>)\<rparr>)" "stack_ok (?r1\<lparr>t_stack := Some st'\<rparr>)"
    using checkstack_init_ok [of "m1\<lparr>threads := (threads m1)(t \<mapsto> ?r1)\<rparr>" t ?r1 st] st by auto
  let ?r4 = "r0\<lparr>t_stack := Some st', t_cpu := Some me\<rparr>"
  let ?m4 = "m1\<lparr>threads := (threads m1)(t \<mapsto> ?r4)\<rparr>"
  have "quiet me L s ?m4" by (rule quiet_upd_other [OF m1(2) nc1(2) r0(1)])
  moreover have "sys ?m4 f {t}" by (rule sys_upd_held [OF m1(3) _ r0(1) nc1(1)]) simp_all
  moreover have "upd_thread t (\<lambda>r. r\<lparr>t_stack := Some st\<rparr>) m1 = Some (m1\<lparr>threads := (threads m1)(t \<mapsto> ?r1)\<rparr>)"
    "upd_thread t (\<lambda>r. r\<lparr>t_cpu := Some me\<rparr>) (m1\<lparr>threads := (threads m1)(t \<mapsto> ?r1\<lparr>t_stack := Some st'\<rparr>)\<rparr>) = Some ?m4"
    using r0(1) by (simp_all add: upd_thread_def)
  moreover have "stack_ok ?r4" using st'(2) by (simp add: stack_ok_def)
  ultimately show ?thesis
    using m1 r0 st'(1) by (intro exI conjI) (assumption | simp)+
qed

lemma thread_fork_ok:
  assumes q: "quiet me L s m" and o: "outer L" "\<And>p. Proc_lock p \<notin> L" and sy: "sys m f {}"
    and t: "t \<notin> dom (threads m)" "card (dom (threads m)) + 1 < 2 ^ 32" and st: "4 \<le> length st"
    and cur: "curthread me m = Some cur" "threads m cur = Some cr"
    and p: "(case proc of Some p \<Rightarrow> Some p | None \<Rightarrow> t_proc cr) = Some p" "procs m p = Some pr"
    and rq: "f (Runqueue me) = Some xs"
  shows "\<exists>m'. thread_fork me (Some t) True (Some st) name proc e d1 d2 m = Some (Inr (), m') \<and> quiet me L s m' \<and>
    sys m' (f(Runqueue me \<mapsto> xs @ [t])) {} \<and> (\<forall>d. curthread d m' = curthread d m) \<and>
    dom (threads m') = insert t (dom (threads m))"
proof -
  obtain m1 m2 m3 m4 r4 where run: "thread_create (Some t) True name m = Some (Some t, m1)"
    "upd_thread t (\<lambda>r. r\<lparr>t_stack := Some st\<rparr>) m1 = Some m2" "thread_checkstack_init t m2 = Some m3"
    "upd_thread t (\<lambda>r. r\<lparr>t_cpu := Some me\<rparr>) m3 = Some m4"
    and q4: "quiet me L s m4" and s4: "sys m4 f {t}"
    and c: "\<forall>d. curthread d m3 = curthread d m" "\<forall>d. curthread d m4 = curthread d m"
    and oth: "\<forall>u. u \<noteq> t \<longrightarrow> threads m3 u = threads m u" "\<forall>u. u \<noteq> t \<longrightarrow> threads m4 u = threads m u"
    and pc: "procs m4 = procs m" "cpus m4 = cpus m" and r4: "threads m4 t = Some r4" "t_proc r4 = None" "t_cpu r4 = Some me"
    "stack_ok r4" "t_curspl r4 = IPL_HIGH" "t_iplhigh_count r4 = 1"
    using fork_start [OF q sy t st, of name] by blast
  have nc: "\<not> is_current m t" by (rule not_current_new [OF sy t(1)])
  have off: "\<not> on_some f t" using tl_inv_sub [OF sysD(1) [OF sy]] t(1) by (auto simp: on_some_def)
  have ct: "cur \<noteq> t" using cur(2) t(1) by auto
  have me: "t_cpu cr = Some me" "me \<in> dom (cpus m)" using current_cpu [OF sy cur(1)] cur(2) by simp_all
  have p4: "procs m4 p = Some pr" using p(2) pc by simp
  have room: "card L < 2 ^ 32 - 1" using o(1) by (simp add: outer_def)
  obtain m5 m5' r5 where m5: "proc_addthread me p t m4 = Some (Inr (), m5)" "quiet me L s m5" "sys m5 f {t}"
    "\<forall>d. curthread d m5 = curthread d m4" "agree me m5 m5'" "threads m5 t = Some r5"
    "m5' = m4\<lparr>procs := (procs m4)(p \<mapsto> pr\<lparr>p_numthreads := p_numthreads pr + 1\<rparr>), threads := (threads m4)(t \<mapsto> r4\<lparr>t_proc := Some p\<rparr>)\<rparr>"
    using proc_addthread_ok [OF q4 o(2) room s4 r4(1,2) _ p4] by blast
  have "curthread me m5' \<noteq> Some t" using m5(7) c nc by (auto simp: is_current_def)
  then have r5: "r5 = r4\<lparr>t_proc := Some p\<rparr>" using agree_threads(2) [OF m5(5), of t] m5(6,7) by simp
  have c5: "curthread d m5 = curthread d m" for d using m5(4) c by simp
  have nc5: "\<not> is_current m5 t" using nc c5 by (simp add: is_current_def)
  have d5: "me \<in> dom (cpus m5)" "p \<in> dom (procs m5)"
    using agree_dom(2) [OF m5(5)] agree_fields(4) [OF m5(5)] m5(7) me(2) pc by auto
  obtain m6 m7 m' where m': "upd_thread t (\<lambda>r. r\<lparr>t_iplhigh_count := t_iplhigh_count r + 1\<rparr>) m5 = Some m6"
    "switchframe_init t e d1 d2 m6 = Some m7" "thread_make_runnable me t False m7 = Some m'"
    "quiet me L s m'" "sys m' (f(Runqueue me \<mapsto> xs @ [t])) {}" "\<forall>d. curthread d m' = curthread d m5" "dom (threads m') = dom (threads m5)"
    using fork_finish [OF m5(2) o(1) m5(3) nc5 off m5(6) _ d5(1) _ _ d5(2) _ _ rq, of e d1 d2] r5 r4(3-6)
    by (auto simp: stack_ok_def)
  have "thread_fork me (Some t) True (Some st) name proc e d1 d2 m = Some (Inr (), m')"
    using run c(1) oth(1) ct cur me(1) p(1) m5(1) m'(1-3) by (simp add: thread_fork_def)
  moreover have "dom (threads m5) = insert t (dom (threads m))"
    using agree_dom(1) [OF m5(5)] m5(7) oth(2) by (auto simp: dom_def split: if_splits)
  ultimately show ?thesis using m'(4-7) c5 by simp
qed

lemma thread_fork_no_memory:
  assumes q: "quiet me L s m" and sy: "sys m f {}" and t: "t \<notin> dom (threads m)" "card (dom (threads m)) + 1 < 2 ^ 32"
  shows "thread_fork me None dup stk name proc e d1 d2 m = Some (Inl ENOMEM, m)"
    and "thread_fork me (Some t) False stk name proc e d1 d2 m = Some (Inl ENOMEM, m)"
    and "\<exists>m'. thread_fork me (Some t) True None name proc e d1 d2 m = Some (Inl ENOMEM, m') \<and>
      quiet me L s m' \<and> sys m' f {} \<and> threads m' = threads m"
proof -
  show "thread_fork me None dup stk name proc e d1 d2 m = Some (Inl ENOMEM, m)"
    and "thread_fork me (Some t) False stk name proc e d1 d2 m = Some (Inl ENOMEM, m)"
    by (simp_all add: thread_fork_def thread_create_fails)
  obtain m1 r0 where m1: "thread_create (Some t) True name m = Some (Some t, m1)" "quiet me L s m1" "sys m1 f {t}"
    "\<forall>d. curthread d m1 = curthread d m" "\<forall>u. u \<noteq> t \<longrightarrow> threads m1 u = threads m u"
    and r0: "threads m1 t = Some r0" "t_proc r0 = None" "t_state r0 = S_READY" "tm_badfaultfunc r0 = None"
    using thread_create_ok [OF q sy t, of name] by fastforce
  have nc: "\<not> is_current m t" by (rule not_current_new [OF sy t(1)])
  then have nc1: "\<not> is_current m1 t" using m1(4) by (auto simp: is_current_def)
  then have ncm: "curthread me m1 \<noteq> Some t" by (auto simp: is_current_def)
  have off: "\<not> on_some f t" using tl_inv_sub [OF sysD(1) [OF sy]] t(1) by (auto simp: on_some_def)
  let ?m = "m1\<lparr>threads := (threads m1)(t \<mapsto> r0\<lparr>t_stack := None\<rparr>)\<rparr>"
  have q2: "quiet me L s ?m" by (rule quiet_upd_other [OF m1(2) ncm r0(1)])
  have s2: "sys ?m f {t}" by (rule sys_upd_held [OF m1(3) _ r0(1) nc1]) simp_all
  obtain m' where m': "thread_destroy me t ?m = Some m'" "quiet me L s m'" "sys m' f {}"
    "m' = ?m\<lparr>threads := (threads ?m)(t := None)\<rparr>"
    using thread_destroy_ok [OF q2 s2 off] r0 nc1 by auto
  have "threads m t = None" using t(1) by auto
  then have "threads m' = threads m" using m'(4) m1(5) by (auto simp: fun_eq_iff)
  then show "\<exists>m'. thread_fork me (Some t) True None name proc e d1 d2 m = Some (Inl ENOMEM, m') \<and>
      quiet me L s m' \<and> sys m' f {} \<and> threads m' = threads m"
    using m1(1) r0(1) m'(1-3) by (simp add: thread_fork_def upd_thread_def)
qed

section \<open>A machine with a running, a ready and a sleeping thread\<close>

definition trio_thread :: "string \<Rightarrow> threadstate \<Rightarrow> int \<Rightarrow> int \<Rightarrow> switchframe option \<Rightarrow> thread" where
  "trio_thread name st spl cnt ctx = \<lparr>t_name = name, t_wchan_name = None, t_state = st, tm_badfaultfunc = None,
     t_stack = None, t_context = ctx, t_cpu = Some 0, t_proc = Some 0, t_in_interrupt = False, t_curspl = spl,
     t_iplhigh_count = cnt\<rparr>"

definition trio :: "tlheap \<Rightarrow> machine" where
  "trio h = \<lparr>threads = [0 \<mapsto> trio_thread ''menu'' S_RUN 0 0 None, 3 \<mapsto> trio_thread ''ready'' S_READY 1 2 (Some (Resume 0)),
       4 \<mapsto> trio_thread ''asleep'' S_SLEEP 1 2 (Some (Resume 0))],
     cpus = [0 \<mapsto> \<lparr>c_number = 0, c_hardware_number = 0, c_curthread = Some 0, c_hardclocks = 0,
       c_spinlocks = 0, c_isidle = False, c_ipi_pending = 0,
       c_shootdown = replicate 16 \<lparr>ts_placeholder = 0\<rparr>, c_numshootdown = 0\<rparr>],
     allcpus = [0], curcpu_exists = True,
     procs = [0 \<mapsto> \<lparr>p_name = ''[kernel]'', p_numthreads = 3, p_addrspace = None, p_cwd = None, file_table = []\<rparr>],
     wc_name = [5 \<mapsto> ''sem''], tlh = h, locks = (\<lambda>_. \<lparr>splk_lock = 0, splk_holder = None\<rparr>), irq = (\<lambda>_. True),
     ls_uniprocessor = True, ctlcpu_cipi = (\<lambda>_. False), cputhreads = (\<lambda>_. None)\<rparr>"

definition trio_lists :: "tlid \<rightharpoonup> tid list" where
  "trio_lists = [Runqueue 0 \<mapsto> [3], Zombies 0 \<mapsto> [], Wchan 5 \<mapsto> [4]]"

lemma trio_heap: "\<exists>h. tl_inv h trio_lists {0, 3, 4}"
proof -
  let ?N = "{0, 3, 4 :: tid}" and ?f = "[Runqueue 0 \<mapsto> [], Zombies 0 \<mapsto> [], Wchan 5 \<mapsto> []] :: tlid \<rightharpoonup> tid list"
  have "tl_inv (threadlist_init (Runqueue 0) tl_fresh) [Runqueue 0 \<mapsto> []] ?N"
    by (rule tl_fresh_init) simp_all
  from threadlist_init_inv [OF this, of "Zombies 0"]
  have "tl_inv (threadlist_init (Zombies 0) (threadlist_init (Runqueue 0) tl_fresh)) [Runqueue 0 \<mapsto> [], Zombies 0 \<mapsto> []] ?N"
    by simp
  from threadlist_init_inv [OF this, of "Wchan 5"] obtain h where h: "tl_inv h ?f ?N" by auto
  have off: "\<not> on_some ?f t" for t by (auto simp: on_some_def split: if_splits)
  obtain h1 where h1: "tl_inv h1 (?f(Runqueue 0 \<mapsto> [] @ [3])) ?N"
    using threadlist_addtail_inv [OF h _ _ off, of "Runqueue 0" "[]" 3] by auto
  have "\<not> on_some (?f(Runqueue 0 \<mapsto> [] @ [3])) 4" by (auto simp: on_some_def split: if_splits)
  then obtain h2 where "tl_inv h2 (?f(Runqueue 0 \<mapsto> [] @ [3], Wchan 5 \<mapsto> [] @ [4])) ?N"
    using threadlist_addtail_inv [OF h1, of "Wchan 5" "[]" 4] by auto
  moreover have "?f(Runqueue 0 \<mapsto> [] @ [3], Wchan 5 \<mapsto> [] @ [4]) = trio_lists"
    by (auto simp: trio_lists_def fun_eq_iff)
  ultimately show ?thesis by metis
qed

lemma trio_quiet: "quiet 0 {} IPL_NONE (trio h)"
  by (simp add: quiet_def trio_def trio_thread_def running_def held_by_def IPL_NONE_def)

lemma trio_placed:
  "placed trio_lists 0 l \<longleftrightarrow> False" "placed trio_lists 3 l \<longleftrightarrow> l = Runqueue 0"
  "placed trio_lists 4 l \<longleftrightarrow> l = Wchan 5"
  by (auto simp: placed_def trio_lists_def split: if_splits)

lemma trio_sel:
  "threads (trio h) = [0 \<mapsto> trio_thread ''menu'' S_RUN 0 0 None, 3 \<mapsto> trio_thread ''ready'' S_READY 1 2 (Some (Resume 0)),
     4 \<mapsto> trio_thread ''asleep'' S_SLEEP 1 2 (Some (Resume 0))]"
  "tlh (trio h) = h" "allcpus (trio h) = [0]" "dom (cpus (trio h)) = {0}" "dom (procs (trio h)) = {0}"
  "procs (trio h) p = Some pr \<Longrightarrow> p = 0 \<and> p_numthreads pr = 3"
  "curthread c (trio h) = (if c = 0 then Some 0 else None)"
  by (auto simp: trio_def curthread_def split: if_splits)

lemma trio_thread_sel:
  "t_proc (trio_thread nm st spl cnt ctx) = Some 0" "t_cpu (trio_thread nm st spl cnt ctx) = Some 0"
  "t_state (trio_thread nm st spl cnt ctx) = st" "stack_ok (trio_thread nm st spl cnt ctx)"
  "suspended (trio_thread nm st spl cnt ctx) \<longleftrightarrow> spl = IPL_HIGH \<and> cnt = 2 \<and>
     (\<exists>x. ctx = Some x \<and> (\<forall>s. x = Resume s \<longrightarrow> s = IPL_NONE \<or> s = IPL_HIGH))"
  "tm_badfaultfunc (trio_thread nm st spl cnt ctx) = None"
  by (simp_all add: trio_thread_def stack_ok_def suspended_def)

lemma trio_threads_cases:
  assumes "threads (trio h) t = Some r"
  obtains nm st spl cnt ctx where "r = trio_thread nm st spl cnt ctx" "t \<in> {0, 3, 4}"
  using assms unfolding trio_sel by (auto split: if_splits)

lemma trio_sys:
  assumes "tl_inv h trio_lists {0, 3, 4}"
  shows "sys (trio h) trio_lists {}"
proof (rule sysI)
  have dt: "dom (threads (trio h)) = {0, 3, 4}" by (simp add: trio_sel insert_commute)
  show "tl_inv (tlh (trio h)) trio_lists (dom (threads (trio h)))" unfolding dt trio_sel(2) using assms .
  show "set (allcpus (trio h)) = dom (cpus (trio h))" "distinct (allcpus (trio h))" by (simp_all add: trio_sel)
  have "dom (threads (trio h)) \<subseteq> members (trio h) 0"
  proof
    fix t assume "t \<in> dom (threads (trio h))"
    then obtain r where r: "threads (trio h) t = Some r" by blast
    then have "t_proc r = Some 0" by (rule trio_threads_cases) (simp add: trio_thread_sel)
    then show "t \<in> members (trio h) 0" using r by (simp add: members_def)
  qed
  moreover have "members (trio h) 0 \<subseteq> dom (threads (trio h))" by (auto simp: members_def)
  ultimately have "members (trio h) 0 = {0, 3, 4}" using dt by blast
  then show "procs_ok (trio h)" by (auto simp: procs_ok_def dest: trio_sel(6))
  show "cpu_ok (trio h) trio_lists c" if "c \<in> dom (cpus (trio h))" for c
    using that by (simp add: cpu_ok_def trio_sel trio_thread_sel) (simp add: trio_lists_def)
  have ic: "is_current (trio h) t \<longleftrightarrow> t = 0" for t by (auto simp: is_current_def trio_sel)
  have base: "thr_base (trio h) t (trio_thread nm st spl cnt ctx)"
    if "t = 0 \<or> suspended (trio_thread nm st spl cnt ctx)" for t nm st spl cnt ctx
    using that ic by (auto simp: thr_base_def trio_thread_sel(1-4) trio_sel)
  have "thr_ok (trio h) trio_lists 0 (trio_thread ''menu'' S_RUN 0 0 None)"
    unfolding thr_ok_iff ic placed_on_some trio_placed using base [of 0] by (simp add: trio_thread_sel)
  moreover have "thr_ok (trio h) trio_lists 3 (trio_thread ''ready'' S_READY 1 2 (Some (Resume 0)))"
    unfolding thr_ok_iff ic placed_on_some trio_placed using base [of 3]
    by (simp add: trio_thread_sel place_ok_def IPL_HIGH_def IPL_NONE_def)
  moreover have "thr_ok (trio h) trio_lists 4 (trio_thread ''asleep'' S_SLEEP 1 2 (Some (Resume 0)))"
    unfolding thr_ok_iff ic placed_on_some trio_placed using base [of 4]
    by (simp add: trio_thread_sel place_ok_def IPL_HIGH_def IPL_NONE_def)
  ultimately show "thr_ok (trio h) trio_lists t r" if "threads (trio h) t = Some r" "t \<notin> {}" for t r
    using that(1) unfolding trio_sel by (simp split: if_splits)
qed

lemma trio_exists: "\<exists>h. sys (trio h) trio_lists {} \<and> quiet 0 {} IPL_NONE (trio h)"
  using trio_heap trio_sys trio_quiet by blast

lemma trio_facts:
  "curthread 0 (trio h) = Some 0" "threads (trio h) 0 = Some (trio_thread ''menu'' S_RUN 0 0 None)"
  "\<exists>k. cpus (trio h) 0 = Some k \<and> \<not> c_isidle k" "trio_lists (Runqueue 0) = Some [3]" "trio_lists (Zombies 0) = Some []"
  "trio_lists (Wchan 5) = Some [4]" "trio_lists (Local 1) = None" "dom (threads (trio h)) = {0, 3, 4}"
  by (simp_all add: trio_sel trio_lists_def insert_commute) (simp add: trio_def)

lemma trio_off: "\<not> on_some trio_lists 0"
  by (simp add: placed_on_some trio_placed)

lemma wchan_sleep_ok:
  assumes "quiet me {lk} s m" and "sys m f {}" and "lk \<noteq> Runqueue_lock me" and "curthread me m = Some cur"
    and "\<not> on_some f cur" and "threads m cur = Some r" and "\<not> t_in_interrupt r" and "cpus m me = Some k"
    and "\<not> c_isidle k" and "f (Wchan w) = Some ws" and "f (Runqueue me) = Some (n # q)"
  shows "\<exists>m' s'. wchan_sleep me cpu_idle w lk m = Some m' \<and> quiet me {} s' m' \<and>
    sys m' (f(Wchan w \<mapsto> ws @ [cur], Runqueue me \<mapsto> q, Zombies me \<mapsto> [])) {} \<and>
    (\<forall>d. curthread d m' = (if d = me then Some n else curthread d m))"
proof -
  obtain zs where z: "f (Zombies me) = Some zs"
    using sysD(5) [OF assms(2) current_cpu(2) [OF assms(2,4)]] by (auto simp: cpu_ok_def)
  have "c_spinlocks k = 1" using assms(1,8) by (auto simp: quiet_def running_def)
  then have "wchan_sleep me cpu_idle w lk m = thread_switch me cpu_idle S_SLEEP (Some (w, lk)) m"
    using assms(4,6-8) quiet_held [OF assms(1), of lk] by (simp add: wchan_sleep_def)
  moreover have "Runqueue_lock me \<notin> {lk}" using assms(3) by auto
  ultimately show ?thesis
    using thread_switch_ok [where cpu_idle = cpu_idle and n = n and q' = q and zs = zs,
        OF parks.sleep [OF assms(3)] assms(1) _ assms(2,4,5,6,8,9,10)] assms(11) z by auto
qed

section \<open>Properties\<close>

text \<open>
  C6. Round robin. If a thread \<open>cur\<close> yields while \<open>n\<close> heads the run queue of its cpu,
  \<open>thread_yield\<close> fails no assertion, \<open>n\<close> becomes current, \<open>cur\<close> goes to the tail of the
  queue, exited threads of this cpu are destroyed, all locks are released, and the invariant
  of the thread system holds again with every thread where its state says.
\<close>

theorem thread_yield_round_robin:
  assumes "quiet me {} s m" and "sys m f {}" and "curthread me m = Some cur" and "\<not> on_some f cur"
    and "cpus m me = Some k" and "\<not> c_isidle k" and "f (Runqueue me) = Some (n # q)"
  shows "\<exists>m' s'. thread_yield me cpu_idle m = Some m' \<and> quiet me {} s' m' \<and>
    sys m' (f(Runqueue me \<mapsto> q @ [cur], Zombies me \<mapsto> [])) {} \<and>
    (\<forall>d. curthread d m' = (if d = me then Some n else curthread d m))"
proof -
  obtain r where r: "threads m cur = Some r" using current_cpu(1) [OF assms(2,3)] by blast
  obtain zs where z: "f (Zombies me) = Some zs"
    using sysD(5) [OF assms(2) current_cpu(2) [OF assms(2,3)]] by (auto simp: cpu_ok_def)
  have "f(Runqueue me \<mapsto> (n # q) @ [cur], Runqueue me \<mapsto> q @ [cur], Zombies me \<mapsto> []) =
      f(Runqueue me \<mapsto> q @ [cur], Zombies me \<mapsto> [])" by (auto simp: fun_eq_iff)
  then show ?thesis
    using thread_switch_ok [where cpu_idle = cpu_idle and n = n and q' = "q @ [cur]" and zs = zs,
        OF parks.ready assms(1) _ assms(2-4) r assms(5-7)] assms(7) z
    unfolding thread_yield_def by auto
qed

theorem thread_yield_round_robin_witness:
  "\<exists>h m' s'. sys (trio h) trio_lists {} \<and> thread_yield 0 (\<lambda>_. None) (trio h) = Some m' \<and> quiet 0 {} s' m' \<and>
    sys m' (trio_lists(Runqueue 0 \<mapsto> [0], Zombies 0 \<mapsto> [])) {} \<and> curthread 0 m' = Some 3"
proof -
  obtain h where h: "sys (trio h) trio_lists {}" "quiet 0 {} IPL_NONE (trio h)" using trio_exists by blast
  obtain k where k: "cpus (trio h) 0 = Some k" "\<not> c_isidle k" using trio_facts(3) by blast
  obtain m' s' where "thread_yield 0 (\<lambda>_. None) (trio h) = Some m'" "quiet 0 {} s' m'"
    "sys m' (trio_lists(Runqueue 0 \<mapsto> [0], Zombies 0 \<mapsto> [])) {}" "curthread 0 m' = Some 3"
    using thread_yield_round_robin [OF h(2,1) trio_facts(1) trio_off k trio_facts(4), of "\<lambda>_. None"] by auto
  then show ?thesis using h(1) by blast
qed





text \<open>
  C9. Waking all threads. \<open>wchan_wakeall\<close> empties the channel and appends to the run queue of
  every cpu \<open>c\<close> exactly the sleepers that belong to \<open>c\<close>, in the order in which they went to
  sleep; no thread is lost and the private list is empty again.
\<close>

theorem wchan_wakeall_in_order:
  assumes "quiet me L s m" and "outer L" and "sys m f {}" and "lk \<in> L" and "f (Wchan w) = Some ws"
    and "f (Local 1) = None \<or> f (Local 1) = Some []"
  shows "\<exists>m' f'. wchan_wakeall me w lk m = Some m' \<and> quiet me L s m' \<and> sys m' f' {} \<and> f' (Wchan w) = Some [] \<and>
    (\<forall>c q. f (Runqueue c) = Some q \<longrightarrow> f' (Runqueue c) = Some (q @ filter (\<lambda>t. cpu_of m t = Some c) ws))"
proof -
  let ?g = "f(Wchan w \<mapsto> [], Local 1 \<mapsto> [])"
  let ?f = "enq_all (cpu_of m) ws ?g"
  have cpu: "\<exists>c. cpu_of m t = Some c \<and> f (Runqueue c) \<noteq> None" if t: "t \<in> set ws" for t
  proof -
    obtain r where r: "threads m t = Some r" using tl_inv_sub [OF sysD(1) [OF assms(3)] assms(5)] t by auto
    then obtain c where "t_cpu r = Some c" "c \<in> dom (cpus m)" using sysD(6) [OF assms(3) r] by (auto simp: thr_ok_def)
    then show ?thesis using sysD(5) [OF assms(3)] r by (auto simp: cpu_ok_def cpu_of_def)
  qed
  have "?f (Runqueue c) = Some (q @ filter (\<lambda>t. cpu_of m t = Some c) ws)" if c: "f (Runqueue c) = Some q" for c q
  proof -
    have "?f (Runqueue c) = Some (q @ filter (\<lambda>t. the (cpu_of m t) = c) ws)"
      by (rule enq_all_Runqueue) (use c cpu in fastforce)+
    moreover have "filter (\<lambda>t. the (cpu_of m t) = c) ws = filter (\<lambda>t. cpu_of m t = Some c) ws"
      by (rule filter_cong) (use cpu in fastforce)+
    ultimately show ?thesis by simp
  qed
  moreover have "?f (Wchan w) = Some []" by (subst enq_all_other) simp_all
  ultimately show ?thesis using wchan_wakeall_ok [OF assms] by blast
qed

theorem wchan_wakeall_in_order_witness:
  "\<exists>h m m' s' f'. spinlock_acquire 0 (Sem_lock 5) (trio h) = Some m \<and> wchan_wakeall 0 5 (Sem_lock 5) m = Some m' \<and>
    sys m' f' {} \<and> f' (Wchan 5) = Some [] \<and> f' (Runqueue 0) = Some [3, 4]"
proof -
  obtain h where h: "sys (trio h) trio_lists {}" "quiet 0 {} IPL_NONE (trio h)" using trio_exists by blast
  obtain m where m: "spinlock_acquire 0 (Sem_lock 5) (trio h) = Some m" "quiet 0 {Sem_lock 5} IPL_NONE m" "core 0 m = core 0 (trio h)"
    using sl.acquire [OF h(2), of "Sem_lock 5"] by auto
  have a: "agree 0 m (trio h)" by (rule core_agree [OF m(3)])
  have s: "sys m trio_lists {}" by (rule sys_agree [OF a h(1)])
  have "cpu_of m 4 = Some 0" using cpu_of_agree [OF a] by (simp add: cpu_of_def trio_sel trio_thread_sel)
  then show ?thesis
    using wchan_wakeall_in_order [OF m(2) _ s _ trio_facts(6), of "Sem_lock 5"] m(1) trio_facts(4,7) by (fastforce simp: outer_def)
qed

text \<open>
  C10. Forking. With memory available, \<open>thread_fork\<close> succeeds: one new thread exists, at the
  tail of the caller's run queue, ready, with its guard band set and the interrupt bookkeeping
  that \<open>thread_startup\<close> expects, and its process counts one thread more; the caller keeps
  running. The process count invariant is part of \<open>sys\<close>.
\<close>

theorem thread_fork_adds_thread:
  assumes "quiet me {} s m" and "sys m f {}" and "t \<notin> dom (threads m)" and "card (dom (threads m)) + 1 < 2 ^ 32"
    and "length st * 4 = STACK_SIZE" and "curthread me m = Some cur" and "threads m cur = Some cr"
    and "(case proc of Some p \<Rightarrow> Some p | None \<Rightarrow> t_proc cr) = Some p" and "procs m p = Some pr"
    and "f (Runqueue me) = Some q"
  shows "\<exists>m'. thread_fork me (Some t) True (Some st) name proc e d1 d2 m = Some (Inr (), m') \<and> quiet me {} s m' \<and>
    sys m' (f(Runqueue me \<mapsto> q @ [t])) {} \<and> (\<forall>d. curthread d m' = curthread d m) \<and>
    dom (threads m') = insert t (dom (threads m))"
  using assms thread_fork_ok [OF assms(1) _ _ assms(2-4) _ assms(6-10)] by (simp add: outer_def STACK_SIZE_def)

theorem thread_fork_adds_thread_witness:
  "\<exists>h m'. thread_fork 0 (Some 9) True (Some (replicate 1024 0)) ''new'' None 0 0 0 (trio h) = Some (Inr (), m') \<and>
    sys m' (trio_lists(Runqueue 0 \<mapsto> [3, 9])) {} \<and> dom (threads m') = {0, 3, 4, 9}"
proof -
  obtain h where h: "sys (trio h) trio_lists {}" "quiet 0 {} IPL_NONE (trio h)" using trio_exists by blast
  have "procs (trio h) 0 \<noteq> None" using trio_sel(5) [of h] by auto
  then obtain pr where "procs (trio h) 0 = Some pr" by auto
  then show ?thesis
    using thread_fork_adds_thread [OF h(2,1) _ _ _ trio_facts(1,2) _ _ trio_facts(4), of 9 "replicate 1024 0" None 0 pr "''new''" 0 0 0]
      trio_facts(8) [of h] by (auto simp: STACK_SIZE_def trio_thread_sel insert_commute)
qed

text \<open>
  C11. Exiting. \<open>thread_exit\<close> of a thread in a process detaches it from the process, switches
  to the next ready thread and never comes back; the exited thread and all earlier zombies of
  the cpu are destroyed by the thread switched to, so none of them exists afterwards.
\<close>

theorem thread_exit_reaps:
  assumes "quiet me {} s m" and "sys m f {}" and "curthread me m = Some cur" and "\<not> on_some f cur"
    and "threads m cur = Some r" and "cpus m me = Some k" and "\<not> c_isidle k" and "t_proc r = Some p"
    and "tm_badfaultfunc r = None" and "f (Runqueue me) = Some (n # q)" and "f (Zombies me) = Some zs"
  shows "\<exists>m' s'. thread_exit me cpu_idle m = Some m' \<and> quiet me {} s' m' \<and>
    sys m' (f(Runqueue me \<mapsto> q, Zombies me \<mapsto> [])) {} \<and> curthread me m' = Some n \<and>
    dom (threads m') = dom (threads m) - insert cur (set zs)"
proof -
  obtain m' s' where "thread_exit me cpu_idle m = Some m'" "quiet me {} s' m'" "sys m' (f(Runqueue me \<mapsto> q, Zombies me \<mapsto> [])) {}"
    "\<forall>d. curthread d m' = (if d = me then Some n else curthread d m)" "dom (threads m') = dom (threads m) - insert cur (set zs)"
    using thread_exit_ok [OF assms] by blast
  moreover from this(4) have "curthread me m' = Some n" by simp
  ultimately show ?thesis by blast
qed

theorem thread_exit_reaps_witness:
  "\<exists>h m' s'. thread_exit 0 (\<lambda>_. None) (trio h) = Some m' \<and> quiet 0 {} s' m' \<and>
    sys m' (trio_lists(Runqueue 0 \<mapsto> [], Zombies 0 \<mapsto> [])) {} \<and> curthread 0 m' = Some 3 \<and> dom (threads m') = {3, 4}"
proof -
  obtain h where h: "sys (trio h) trio_lists {}" "quiet 0 {} IPL_NONE (trio h)" using trio_exists by blast
  obtain k where k: "cpus (trio h) 0 = Some k" "\<not> c_isidle k" using trio_facts(3) by blast
  obtain m' s' where "thread_exit 0 (\<lambda>_. None) (trio h) = Some m'" "quiet 0 {} s' m'"
    "sys m' (trio_lists(Runqueue 0 \<mapsto> [], Zombies 0 \<mapsto> [])) {}" "curthread 0 m' = Some 3"
    "dom (threads m') = dom (threads (trio h)) - insert 0 (set [])"
    using thread_exit_reaps [OF h(2,1) trio_facts(1) trio_off trio_facts(2) k trio_thread_sel(1,6) trio_facts(4,5), of "\<lambda>_. None"]
    by blast
  moreover from this(5) have "dom (threads m') = {3, 4}" unfolding trio_facts(8) by simp
  ultimately show ?thesis by blast
qed

end
