(* ===== verification/Synch.thy ===== *)
theory Synch
  imports Thread_Lifecycle
begin

text \<open>
  \<open>kern/thread/synch.c\<close>: semaphores on top of spinlocks and wait channels, and the locks and
  condition variables, whose operations the source leaves empty. The state is the machine of the
  thread system with the semaphore, lock and condition variable structures beside it. The
  semaphore \<open>x\<close> is protected by the spinlock \<open>Sem_lock x\<close>.

  A call of \<open>P\<close> that has to wait runs in two pieces, as the calls of \<open>wchan_sleep\<close> do: up to
  the point where the thread is switched away, and \<open>P_resume\<close>, which a woken thread runs. (The
  functions \<open>P\<close> and \<open>V\<close> of the source are \<open>P_sem\<close> and \<open>V_sem\<close> here.) The
  operations refine a counter with a queue of waiting threads. On that level a step relation
  shows what any interleaving of calls by any number of threads does.
\<close>

section \<open>Semaphores\<close>

record semaphore =
  sem_name :: string
  sem_wchan :: nat
  sem_count :: u32

record synch =
  mach :: machine
  sems :: "nat \<rightharpoonup> semaphore"
  lks :: "nat \<rightharpoonup> string"
  cvs :: "nat \<rightharpoonup> string"

definition on_mach :: "(machine \<Rightarrow> machine option) \<Rightarrow> synch \<Rightarrow> synch option" where
  "on_mach g st = do { m \<leftarrow> g (mach st); Some (st\<lparr>mach := m\<rparr>) }"

definition set_count :: "nat \<Rightarrow> u32 \<Rightarrow> synch \<Rightarrow> synch option" where
  "set_count x n st = do { y \<leftarrow> sems st x; Some (st\<lparr>sems := (sems st)(x \<mapsto> y\<lparr>sem_count := n\<rparr>)\<rparr>) }"

text \<open>The outcomes of \<open>kmalloc\<close>, \<open>kstrdup\<close> and of the allocation in \<open>wchan_create\<close> are arguments.\<close>

definition sem_create :: "nat option \<Rightarrow> bool \<Rightarrow> nat option \<Rightarrow> string \<Rightarrow> u32 \<Rightarrow> synch \<Rightarrow> nat option \<times> synch" where
  "sem_create al dup wal name initial_count st =
    (case al of None \<Rightarrow> (None, st)
     | Some x \<Rightarrow>
         if \<not> dup then (None, st)
         else (case wchan_create wal name (mach st) of
             (None, m) \<Rightarrow> (None, st\<lparr>mach := m\<rparr>)
           | (Some w, m) \<Rightarrow> (Some x, st\<lparr>mach := spinlock_init (Sem_lock x) m,
               sems := (sems st)(x \<mapsto> \<lparr>sem_name = name, sem_wchan = w, sem_count = initial_count\<rparr>)\<rparr>)))"

definition sem_destroy :: "nat \<Rightarrow> synch \<Rightarrow> synch option" where
  "sem_destroy x st = do {
     y \<leftarrow> sems st x;
     st \<leftarrow> on_mach (spinlock_cleanup (Sem_lock x)) st;
     st \<leftarrow> on_mach (wchan_destroy (sem_wchan y)) st;
     Some (st\<lparr>sems := (sems st)(x := None)\<rparr>) }"

text \<open>The loop of \<open>P\<close> from its test, and what follows it: \<open>True\<close> if the call has returned.\<close>

definition P_test :: "cpuid \<Rightarrow> (machine \<Rightarrow> machine option) \<Rightarrow> nat \<Rightarrow> synch \<Rightarrow> (bool \<times> synch) option" where
  "P_test me cpu_idle x st = do {
     y \<leftarrow> sems st x;
     if sem_count y = 0 then do {
       st \<leftarrow> on_mach (wchan_sleep me cpu_idle (sem_wchan y) (Sem_lock x)) st;
       Some (False, st) }
     else do {
       kassert (sem_count y > 0);
       st \<leftarrow> set_count x (sem_count y - 1) st;
       st \<leftarrow> on_mach (spinlock_release me (Sem_lock x)) st;
       Some (True, st) } }"

definition P_sem :: "cpuid \<Rightarrow> (machine \<Rightarrow> machine option) \<Rightarrow> nat \<Rightarrow> synch \<Rightarrow> (bool \<times> synch) option" where
  "P_sem me cpu_idle x st = do {
     y \<leftarrow> sems st x;
     cur \<leftarrow> curthread me (mach st);
     r \<leftarrow> threads (mach st) cur;
     kassert (\<not> t_in_interrupt r);
     st \<leftarrow> on_mach (spinlock_acquire me (Sem_lock x)) st;
     P_test me cpu_idle x st }"

definition P_resume :: "cpuid \<Rightarrow> (machine \<Rightarrow> machine option) \<Rightarrow> nat \<Rightarrow> synch \<Rightarrow> (bool \<times> synch) option" where
  "P_resume me cpu_idle x st = do {
     st \<leftarrow> on_mach (wchan_sleep_return me (Sem_lock x)) st;
     P_test me cpu_idle x st }"

definition V_sem :: "cpuid \<Rightarrow> nat \<Rightarrow> synch \<Rightarrow> synch option" where
  "V_sem me x st = do {
     y \<leftarrow> sems st x;
     st \<leftarrow> on_mach (spinlock_acquire me (Sem_lock x)) st;
     st \<leftarrow> set_count x (sem_count y + 1) st;
     kassert (sem_count y + 1 > 0);
     st \<leftarrow> on_mach (wchan_wakeone me (sem_wchan y) (Sem_lock x)) st;
     on_mach (spinlock_release me (Sem_lock x)) st }"

section \<open>Locks and condition variables\<close>

text \<open>As the source has them: the structures hold a name, the operations do nothing.\<close>

definition lock_create :: "nat option \<Rightarrow> bool \<Rightarrow> string \<Rightarrow> synch \<Rightarrow> nat option \<times> synch" where
  "lock_create al dup name st =
    (case al of None \<Rightarrow> (None, st)
     | Some x \<Rightarrow> if \<not> dup then (None, st) else (Some x, st\<lparr>lks := (lks st)(x \<mapsto> name)\<rparr>))"

definition lock_destroy :: "nat option \<Rightarrow> synch \<Rightarrow> synch option" where
  "lock_destroy lk st = do { x \<leftarrow> lk; Some (st\<lparr>lks := (lks st)(x := None)\<rparr>) }"

definition lock_acquire :: "nat option \<Rightarrow> synch \<Rightarrow> synch" where
  "lock_acquire lk st = st"

definition lock_release :: "nat option \<Rightarrow> synch \<Rightarrow> synch" where
  "lock_release lk st = st"

definition lock_do_i_hold :: "nat option \<Rightarrow> synch \<Rightarrow> bool" where
  "lock_do_i_hold lk st = True"

definition cv_create :: "nat option \<Rightarrow> bool \<Rightarrow> string \<Rightarrow> synch \<Rightarrow> nat option \<times> synch" where
  "cv_create al dup name st =
    (case al of None \<Rightarrow> (None, st)
     | Some x \<Rightarrow> if \<not> dup then (None, st) else (Some x, st\<lparr>cvs := (cvs st)(x \<mapsto> name)\<rparr>))"

definition cv_destroy :: "nat option \<Rightarrow> synch \<Rightarrow> synch option" where
  "cv_destroy cv st = do { x \<leftarrow> cv; Some (st\<lparr>cvs := (cvs st)(x := None)\<rparr>) }"

definition cv_wait :: "nat option \<Rightarrow> nat option \<Rightarrow> synch \<Rightarrow> synch" where
  "cv_wait cv lk st = st"

definition cv_signal :: "nat option \<Rightarrow> nat option \<Rightarrow> synch \<Rightarrow> synch" where
  "cv_signal cv lk st = st"

definition cv_broadcast :: "nat option \<Rightarrow> nat option \<Rightarrow> synch \<Rightarrow> synch" where
  "cv_broadcast cv lk st = st"

section \<open>A counter and a queue\<close>

text \<open>What a semaphore promises: \<open>aP\<close> by a thread, \<open>aV\<close> with the thread it wakes.\<close>

record asem =
  a_count :: nat
  a_queue :: "tid list"

definition aP :: "tid \<Rightarrow> asem \<Rightarrow> bool \<times> asem" where
  "aP t a = (if a_count a = 0 then (False, a\<lparr>a_queue := a_queue a @ [t]\<rparr>)
             else (True, a\<lparr>a_count := a_count a - 1\<rparr>))"

definition aV :: "asem \<Rightarrow> tid option \<times> asem" where
  "aV a = (case a_queue a of [] \<Rightarrow> (None, a\<lparr>a_count := a_count a + 1\<rparr>)
           | t # ts \<Rightarrow> (Some t, a\<lparr>a_count := a_count a + 1, a_queue := ts\<rparr>))"

definition abs_sem :: "semaphore \<Rightarrow> (tlid \<rightharpoonup> tid list) \<Rightarrow> asem" where
  "abs_sem y f = \<lparr>a_count = unat (sem_count y), a_queue = the (f (Wchan (sem_wchan y)))\<rparr>"

text \<open>A thread \<open>cur\<close> that runs on cpu \<open>me\<close>, holds the spinlocks \<open>L\<close> and may call \<open>P\<close> or \<open>V\<close>.\<close>

definition caller :: "cpuid \<Rightarrow> tid \<Rightarrow> lkid set \<Rightarrow> int \<Rightarrow> machine \<Rightarrow> (tlid \<rightharpoonup> tid list) \<Rightarrow> bool" where
  "caller me cur L s m f \<longleftrightarrow> quiet me L s m \<and> sys m f {} \<and> curthread me m = Some cur \<and> \<not> on_some f cur \<and>
     (\<exists>r. threads m cur = Some r \<and> \<not> t_in_interrupt r) \<and> (\<exists>k. cpus m me = Some k \<and> \<not> c_isidle k)"

lemma caller_agree:
  assumes "caller me cur L s m f" and "agree me m' m" and "quiet me L' s' m'"
  shows "caller me cur L' s' m' f"
proof -
  obtain r k where r: "threads m cur = Some r" "\<not> t_in_interrupt r" and k: "cpus m me = Some k" "\<not> c_isidle k"
    using assms(1) by (auto simp: caller_def)
  obtain r' where r': "threads m' cur = Some r'" "core_thread r' = core_thread r" using agree_thread [OF assms(2) r(1)] .
  obtain k' where k': "cpus m' me = Some k'" "c_isidle k' = c_isidle k" using agree_cpu [OF assms(2) k(1)] .
  have "sys m' f {}" by (rule sys_agree [OF assms(2)]) (use assms(1) in \<open>simp add: caller_def\<close>)
  moreover have "\<not> t_in_interrupt r'" using core_thread_fields(7) [OF r'(2)] r(2) by simp
  ultimately show ?thesis
    using assms(1,3) r'(1) k' k(2) agree_curthread [OF assms(2), of me] unfolding caller_def by simp
qed

lemma caller_acquire:
  assumes "caller me cur {} s m f"
  obtains m' where "spinlock_acquire me lk m = Some m'" "caller me cur {lk} s m' f" "agree me m' m"
proof -
  obtain m' where "spinlock_acquire me lk m = Some m'" "quiet me {lk} s m'" "core me m' = core me m"
    using sl.acquire [of me "{}" s m lk] assms by (auto simp: caller_def)
  then show ?thesis using that caller_agree [OF assms core_agree] core_agree by blast
qed

lemma caller_release:
  assumes "caller me cur {lk} s m f"
  obtains m' where "spinlock_release me lk m = Some m'" "caller me cur {} s m' f"
proof -
  obtain m' where "spinlock_release me lk m = Some m'" "quiet me ({lk} - {lk}) s m'" "core me m' = core me m"
    using sl.release [of me "{lk}" s m lk] assms by (auto simp: caller_def)
  then show ?thesis using that caller_agree [OF assms core_agree, of m' "{}" s] by simp
qed

lemma on_mach_sel [simp]:
  "on_mach g st = Some st' \<longleftrightarrow> (\<exists>m. g (mach st) = Some m \<and> st' = st\<lparr>mach := m\<rparr>)"
  by (auto simp: on_mach_def bind_eq_Some_conv)

text \<open>The two outcomes of the test, with the spinlock of the semaphore held.\<close>

lemma P_test_passes:
  assumes "caller me cur {Sem_lock x} s (mach st) f" and "sems st x = Some y" and "sem_count y \<noteq> 0"
  shows "\<exists>st' y'. P_test me cpu_idle x st = Some (True, st') \<and> caller me cur {} s (mach st') f \<and>
    sems st' = (sems st)(x \<mapsto> y') \<and> sem_wchan y' = sem_wchan y \<and> abs_sem y' f = snd (aP cur (abs_sem y f))"
proof -
  let ?y = "y\<lparr>sem_count := sem_count y - 1\<rparr>"
  obtain m' where m': "spinlock_release me (Sem_lock x) (mach st) = Some m'" "caller me cur {} s m' f"
    using caller_release [OF assms(1)] .
  have "P_test me cpu_idle x st = Some (True, st\<lparr>sems := (sems st)(x \<mapsto> ?y), mach := m'\<rparr>)"
    using assms(2,3) m'(1) by (simp add: P_test_def set_count_def on_mach_def kassert_def word_gt_0)
  moreover have "abs_sem ?y f = snd (aP cur (abs_sem y f))"
    using assms(3) by (simp add: abs_sem_def aP_def unat_eq_0 unat_dec_u32)
  ultimately show ?thesis
    using m'(2) by (intro exI [of _ "st\<lparr>sems := (sems st)(x \<mapsto> ?y), mach := m'\<rparr>"] exI [of _ ?y]) simp
qed

lemma P_test_sleeps:
  assumes "caller me cur {Sem_lock x} s (mach st) f" and "sems st x = Some y" and "sem_count y = 0"
    and "f (Wchan (sem_wchan y)) = Some ws" and "f (Runqueue me) = Some (n # q)"
  shows "\<exists>st' f' s'. P_test me cpu_idle x st = Some (False, st') \<and> quiet me {} s' (mach st') \<and>
    sys (mach st') f' {} \<and> curthread me (mach st') = Some n \<and> sems st' = sems st \<and>
    abs_sem y f' = snd (aP cur (abs_sem y f))"
proof -
  let ?f = "f(Wchan (sem_wchan y) \<mapsto> ws @ [cur], Runqueue me \<mapsto> q, Zombies me \<mapsto> [])"
  obtain r k where c: "quiet me {Sem_lock x} s (mach st)" "sys (mach st) f {}" "curthread me (mach st) = Some cur"
      "\<not> on_some f cur" "threads (mach st) cur = Some r" "\<not> t_in_interrupt r" "cpus (mach st) me = Some k" "\<not> c_isidle k"
    using assms(1) unfolding caller_def by blast
  obtain m' s' where m': "wchan_sleep me cpu_idle (sem_wchan y) (Sem_lock x) (mach st) = Some m'" "quiet me {} s' m'"
      "sys m' ?f {}" "curthread me m' = Some n"
    using wchan_sleep_ok [where cpu_idle = cpu_idle, OF c(1,2) _ c(3-8) assms(4,5)] by auto
  have "P_test me cpu_idle x st = Some (False, st\<lparr>mach := m'\<rparr>)"
    using assms(2,3) m'(1) by (simp add: P_test_def on_mach_def)
  moreover have "abs_sem y ?f = snd (aP cur (abs_sem y f))"
    using assms(3,4) by (simp add: abs_sem_def aP_def)
  ultimately show ?thesis
    using m'(2-4) by (intro exI [of _ "st\<lparr>mach := m'\<rparr>"] exI [of _ ?f] exI [of _ s']) simp
qed

text \<open>Entering \<open>P\<close>, or coming back to it from the wait channel, leads to the test.\<close>

lemma P_enters:
  assumes "caller me cur {} s (mach st) f" and "sems st x = Some y"
  shows "\<exists>m'. P_sem me cpu_idle x st = P_test me cpu_idle x (st\<lparr>mach := m'\<rparr>) \<and>
    P_resume me cpu_idle x st = P_test me cpu_idle x (st\<lparr>mach := m'\<rparr>) \<and> caller me cur {Sem_lock x} s m' f"
proof -
  obtain m' where m': "spinlock_acquire me (Sem_lock x) (mach st) = Some m'" "caller me cur {Sem_lock x} s m' f"
    using caller_acquire [OF assms(1)] .
  moreover obtain r where "threads (mach st) cur = Some r" "\<not> t_in_interrupt r" "curthread me (mach st) = Some cur"
    using assms(1) unfolding caller_def by blast
  ultimately show ?thesis
    using assms(2) by (intro exI [of _ m']) (simp add: P_sem_def P_resume_def on_mach_def wchan_sleep_return_def)
qed

lemma P_refines:
  assumes "caller me cur {} s (mach st) f" and "sems st x = Some y"
    and "f (Wchan (sem_wchan y)) = Some ws" and "f (Runqueue me) = Some (n # q)"
  shows "\<exists>st' f' s' y'. P_sem me cpu_idle x st = Some (fst (aP cur (abs_sem y f)), st') \<and>
    P_resume me cpu_idle x st = Some (fst (aP cur (abs_sem y f)), st') \<and>
    quiet me {} s' (mach st') \<and> sys (mach st') f' {} \<and> sems st' = (sems st)(x \<mapsto> y') \<and>
    sem_wchan y' = sem_wchan y \<and> abs_sem y' f' = snd (aP cur (abs_sem y f)) \<and>
    curthread me (mach st') = Some (if fst (aP cur (abs_sem y f)) then cur else n)"
proof -
  obtain m' where m': "P_sem me cpu_idle x st = P_test me cpu_idle x (st\<lparr>mach := m'\<rparr>)"
      "P_resume me cpu_idle x st = P_test me cpu_idle x (st\<lparr>mach := m'\<rparr>)" "caller me cur {Sem_lock x} s m' f"
    using P_enters [OF assms(1,2)] by blast
  show ?thesis
  proof (cases "sem_count y = 0")
    case True
    then have "fst (aP cur (abs_sem y f)) = False" by (simp add: aP_def abs_sem_def)
    moreover have "(sems st)(x \<mapsto> y) = sems st" using assms(2) by auto
    ultimately show ?thesis
      using P_test_sleeps [of me cur x s "st\<lparr>mach := m'\<rparr>" f y, OF _ _ True assms(3,4)] m' assms(2) by fastforce
  next
    case False
    then have "fst (aP cur (abs_sem y f)) = True" by (simp add: aP_def abs_sem_def unat_eq_0)
    moreover obtain st' y' where "P_test me cpu_idle x (st\<lparr>mach := m'\<rparr>) = Some (True, st')"
        "caller me cur {} s (mach st') f" "sems st' = (sems st)(x \<mapsto> y')" "sem_wchan y' = sem_wchan y"
        "abs_sem y' f = snd (aP cur (abs_sem y f))"
      using P_test_passes [of me cur x s "st\<lparr>mach := m'\<rparr>" f y cpu_idle, OF _ _ False] m'(3) assms(2) by auto
    ultimately show ?thesis
      using m'(1,2) by (intro exI [of _ st'] exI [of _ f] exI [of _ s] exI [of _ y']) (simp add: caller_def)
  qed
qed

text \<open>What \<open>V\<close> does under the spinlock.\<close>

lemma V_wakes:
  assumes "caller me cur {lk} s m f" and "outer {lk}" and "f (Wchan (sem_wchan y)) = Some ws" and "sem_count y + 1 \<noteq> 0"
  defines "y' \<equiv> y\<lparr>sem_count := sem_count y + 1\<rparr>"
  shows "\<exists>m' f'. wchan_wakeone me (sem_wchan y) lk m = Some m' \<and> quiet me {lk} s m' \<and> sys m' f' {} \<and>
    curthread me m' = Some cur \<and> abs_sem y' f' = snd (aV (abs_sem y f)) \<and>
    (\<forall>t. fst (aV (abs_sem y f)) = Some t \<longrightarrow> (\<exists>c q. cpu_of m t = Some c \<and> f' (Runqueue c) = Some (q @ [t])))"
proof (cases ws)
  case Nil
  then show ?thesis
    using wchan_wakeone_Nil [of me "{lk}" s m f lk "sem_wchan y"] assms
    by (intro exI [of _ m] exI [of _ f]) (simp add: caller_def abs_sem_def aV_def unat_add1_u32)
next
  case (Cons t ts)
  let ?f = "\<lambda>d xs. f(Wchan (sem_wchan y) \<mapsto> ts, Runqueue d \<mapsto> xs @ [t])"
  obtain m' d xs where "wchan_wakeone me (sem_wchan y) lk m = Some m'" "cpu_of m t = Some d" "quiet me {lk} s m'"
      "sys m' (?f d xs) {}" "curthread me m' = Some cur"
    using wchan_wakeone_ok [of me "{lk}" s m f lk "sem_wchan y" t ts] assms Cons by (auto simp: caller_def)
  then show ?thesis
    using assms Cons by (intro exI [of _ m'] exI [of _ "?f d xs"]) (simp add: abs_sem_def aV_def unat_add1_u32)
qed

lemma V_refines:
  assumes "caller me cur {} s (mach st) f" and "sems st x = Some y"
    and "f (Wchan (sem_wchan y)) = Some ws" and "sem_count y + 1 \<noteq> 0"
  shows "\<exists>st' f' y'. V_sem me x st = Some st' \<and> quiet me {} s (mach st') \<and> sys (mach st') f' {} \<and>
    curthread me (mach st') = Some cur \<and> sems st' = (sems st)(x \<mapsto> y') \<and> sem_wchan y' = sem_wchan y \<and>
    abs_sem y' f' = snd (aV (abs_sem y f)) \<and>
    (\<forall>t. fst (aV (abs_sem y f)) = Some t \<longrightarrow> (\<exists>c q. cpu_of (mach st) t = Some c \<and> f' (Runqueue c) = Some (q @ [t])))"
proof -
  let ?y = "y\<lparr>sem_count := sem_count y + 1\<rparr>" and ?lk = "Sem_lock x"
  obtain m1 where m1: "spinlock_acquire me ?lk (mach st) = Some m1" "caller me cur {?lk} s m1 f" "agree me m1 (mach st)"
    using caller_acquire [OF assms(1)] .
  obtain m2 f' where m2: "wchan_wakeone me (sem_wchan y) ?lk m1 = Some m2" "quiet me {?lk} s m2" "sys m2 f' {}"
      "curthread me m2 = Some cur" "abs_sem ?y f' = snd (aV (abs_sem y f))"
      "\<forall>t. fst (aV (abs_sem y f)) = Some t \<longrightarrow> (\<exists>c q. cpu_of m1 t = Some c \<and> f' (Runqueue c) = Some (q @ [t]))"
    using V_wakes [OF m1(2) _ assms(3,4)] by (auto simp: outer_def)
  obtain m3 where m3: "spinlock_release me ?lk m2 = Some m3" "quiet me {} s m3" "core me m3 = core me m2"
    using sl.release [OF m2(2), of ?lk] by auto
  note a3 = core_agree [OF m3(3)]
  have "V_sem me x st = Some (st\<lparr>sems := (sems st)(x \<mapsto> ?y), mach := m3\<rparr>)"
    using assms(2,4) m1(1) m2(1) m3(1) by (simp add: V_sem_def set_count_def on_mach_def kassert_def word_gt_0)
  then show ?thesis
    using m2(4-6) m3(2) sys_agree [OF a3 m2(3)] agree_curthread [OF a3, of me] cpu_of_agree [OF m1(3)]
    by (intro exI [of _ "st\<lparr>sems := (sems st)(x \<mapsto> ?y), mach := m3\<rparr>"] exI [of _ f'] exI [of _ ?y]) simp
qed

section \<open>Any number of threads\<close>

text \<open>
  Threads that call \<open>P\<close> and \<open>V\<close> in any order. A thread is outside, asleep on the wait channel, or
  woken and about to run \<open>P_resume\<close>. The refinement above makes the parts of \<open>P\<close> and \<open>V\<close> that
  run under the spinlock the atomic steps. \<open>passes\<close> and \<open>posts\<close> count the calls that returned.
\<close>

datatype sem_pc = Idle | Asleep | Woken

record semsys =
  sem :: asem
  spc :: "tid \<Rightarrow> sem_pc"
  passes :: nat
  posts :: nat

inductive sem_step :: "semsys \<Rightarrow> semsys \<Rightarrow> bool" where
  proberen: "spc S t \<noteq> Asleep \<Longrightarrow> aP t (sem S) = (b, a) \<Longrightarrow>
    sem_step S (S\<lparr>sem := a, spc := (spc S)(t := if b then Idle else Asleep), passes := passes S + (if b then 1 else 0)\<rparr>)"
| verhogen: "spc S t = Idle \<Longrightarrow> aV (sem S) = (w, a) \<Longrightarrow>
    sem_step S (S\<lparr>sem := a, spc := (case w of None \<Rightarrow> spc S | Some u \<Rightarrow> (spc S)(u := Woken)), posts := posts S + 1\<rparr>)"

inductive sem_reachable :: "nat \<Rightarrow> semsys \<Rightarrow> bool" for n where
  init: "sem_reachable n \<lparr>sem = \<lparr>a_count = n, a_queue = []\<rparr>, spc = \<lambda>_. Idle, passes = 0, posts = 0\<rparr>"
| step: "sem_reachable n S \<Longrightarrow> sem_step S S' \<Longrightarrow> sem_reachable n S'"

definition woken :: "semsys \<Rightarrow> tid set" where "woken S = {t. spc S t = Woken}"

definition sem_inv :: "nat \<Rightarrow> semsys \<Rightarrow> bool" where
  "sem_inv n S \<longleftrightarrow> set (a_queue (sem S)) = {t. spc S t = Asleep} \<and> distinct (a_queue (sem S)) \<and>
     a_count (sem S) + passes S = n + posts S \<and> finite (woken S) \<and>
     (a_queue (sem S) \<noteq> [] \<longrightarrow> a_count (sem S) \<le> card (woken S))"

lemma sem_invD:
  assumes "sem_inv n S"
  shows "set (a_queue (sem S)) = {t. spc S t = Asleep}" "distinct (a_queue (sem S))"
    "a_count (sem S) + passes S = n + posts S" "finite (woken S)" "a_queue (sem S) \<noteq> [] \<Longrightarrow> a_count (sem S) \<le> card (woken S)"
  using assms by (simp_all add: sem_inv_def)

lemma sem_inv_proberen:
  assumes i: "sem_inv n S" and t: "spc S t \<noteq> Asleep" and a: "aP t (sem S) = (b, a)"
  shows "sem_inv n (S\<lparr>sem := a, spc := (spc S)(t := if b then Idle else Asleep), passes := passes S + (if b then 1 else 0)\<rparr>)"
    (is "sem_inv n ?S")
proof -
  have w: "woken ?S = woken S - {t}" by (auto simp: woken_def)
  have c: "card (woken S) \<le> Suc (card (woken S - {t}))" using sem_invD(4) [OF i] by (simp add: card_Diff_singleton_if) arith
  have q: "t \<notin> set (a_queue (sem S))" using sem_invD(1) [OF i] t by simp
  show ?thesis
  proof (cases "a_count (sem S) = 0")
    case True
    then have s: "b = False" "a = (sem S)\<lparr>a_queue := a_queue (sem S) @ [t]\<rparr>" using a by (auto simp: aP_def)
    have "set (a_queue a) = {u. spc ?S u = Asleep}" unfolding s using sem_invD(1) [OF i] by auto
    then show ?thesis using sem_invD(2-4) [OF i] True q unfolding sem_inv_def w by (simp add: s)
  next
    case False
    then have s: "b = True" "a = (sem S)\<lparr>a_count := a_count (sem S) - 1\<rparr>" using a by (auto simp: aP_def)
    have "set (a_queue a) = {u. spc ?S u = Asleep}" unfolding s using sem_invD(1) [OF i] t by auto
    moreover have "a_count a \<le> card (woken S - {t})" if "a_queue a \<noteq> []"
      using sem_invD(5) [OF i] that c by (simp add: s)
    moreover have "a_count a + Suc (passes S) = n + posts S" using sem_invD(3) [OF i] False by (simp add: s)
    ultimately show ?thesis using sem_invD(2,4) [OF i] unfolding sem_inv_def w by (simp add: s)
  qed
qed

lemma sem_inv_verhogen:
  assumes i: "sem_inv n S" and a: "aV (sem S) = (w, a)"
  shows "sem_inv n (S\<lparr>sem := a, spc := (case w of None \<Rightarrow> spc S | Some u \<Rightarrow> (spc S)(u := Woken)), posts := posts S + 1\<rparr>)"
    (is "sem_inv n ?S")
proof (cases "a_queue (sem S)")
  case Nil
  then have "w = None" "a = (sem S)\<lparr>a_count := a_count (sem S) + 1\<rparr>" using a by (auto simp: aV_def)
  then show ?thesis using i Nil by (simp add: sem_inv_def woken_def)
next
  case (Cons u us)
  then have s: "w = Some u" "a = (sem S)\<lparr>a_count := a_count (sem S) + 1, a_queue := us\<rparr>" using a by (auto simp: aV_def)
  have q: "set (u # us) = {t. spc S t = Asleep}" using sem_invD(1) [OF i] unfolding Cons .
  then have "u \<in> {t. spc S t = Asleep}" by auto
  then have u: "u \<notin> woken S" by (simp add: woken_def)
  have d: "u \<notin> set us" "distinct us" using sem_invD(2) [OF i] unfolding Cons by simp_all
  have w: "woken ?S = insert u (woken S)" by (auto simp: woken_def s)
  have "set us = {t. spc ?S t = Asleep}" unfolding s using q d(1) by auto
  then show ?thesis using sem_invD(3-5) [OF i] u d(2) Cons unfolding sem_inv_def w by (simp add: s)
qed

lemma sem_reachable_inv: "sem_reachable n S \<Longrightarrow> sem_inv n S"
proof (induction rule: sem_reachable.induct)
  case init
  then show ?case by (simp add: sem_inv_def woken_def)
next
  case (step S S')
  from step.hyps(2) show ?case
    by cases (use step.IH sem_inv_proberen sem_inv_verhogen in blast)+
qed

section \<open>The counter as its clients see it\<close>

text \<open>
  A program that uses semaphores sees \<open>P\<close> as a step that can be taken when the counter is not
  0, and \<open>V\<close> as one that asserts that the counter does not wrap. The contract of such a counter,
  and what follows for the threads that have passed it and not posted yet.
\<close>

definition sem_down :: "u32 \<Rightarrow> u32 option" where
  "sem_down c = (if c = 0 then None else Some (c - 1))"

definition sem_up :: "u32 \<Rightarrow> u32 option" where
  "sem_up c = (if c + 1 = 0 then None else Some (c + 1))"

definition permits :: "nat \<Rightarrow> nat \<Rightarrow> 't set \<Rightarrow> bool" where
  "permits n k I \<longleftrightarrow> finite I \<and> k + card I = n"

lemma permits_one: "permits 1 k I \<Longrightarrow> t \<in> I \<Longrightarrow> u \<in> I \<Longrightarrow> t = u"
  by (metis permits_def card_le_Suc0_iff_eq le_add2 One_nat_def)

locale sem_counter =
  fixes val :: "'c \<Rightarrow> nat" and down up :: "'c \<Rightarrow> 'c option" and top :: nat
  assumes down_None: "down c = None \<longleftrightarrow> val c = 0"
    and down_Some: "down c = Some c' \<Longrightarrow> val c = Suc (val c')"
    and up_None: "up c = None \<longleftrightarrow> top \<le> val c"
    and up_Some: "up c = Some c' \<Longrightarrow> val c' = Suc (val c)"
begin

lemma pass: "permits n (val c) I \<Longrightarrow> down c = Some c' \<Longrightarrow> t \<notin> I \<Longrightarrow> permits n (val c') (insert t I)"
  using down_Some [of c c'] by (simp add: permits_def)

lemma post: "permits n (val c) I \<Longrightarrow> up c = Some c' \<Longrightarrow> t \<in> I \<Longrightarrow> permits n (val c') (I - {t})"
  using up_Some [of c c'] card_Suc_Diff1 [of I t] by (simp add: permits_def del: card_Diff_insert)

lemma pass_one: "permits 1 (val c) I \<Longrightarrow> down c = Some c' \<Longrightarrow> I = {}"
  using down_Some [of c c'] by (auto simp: permits_def)

lemma post_possible: "permits n (val c) I \<Longrightarrow> t \<in> I \<Longrightarrow> n \<le> top \<Longrightarrow> \<exists>c'. up c = Some c'"
  using up_None [of c] card_gt_0_iff [of I] by (cases "up c") (auto simp: permits_def)

lemma pass_possible: "permits n (val c) I \<Longrightarrow> card I < n \<Longrightarrow> \<exists>c'. down c = Some c'"
  using down_None [of c] by (cases "down c") (auto simp: permits_def)

end

interpretation ctr: sem_counter unat sem_down sem_up "2 ^ 32 - 1"
proof (unfold_locales, goal_cases)
  case (1 c) show ?case by (simp add: sem_down_def unat_eq_0)
next
  case (2 c c') then show ?case using unat_dec_u32 [of c] unat_gt_0 [of c] by (auto simp: sem_down_def split: if_splits)
next
  case (3 c)
  have "c + 1 = 0 \<longleftrightarrow> 2 ^ 32 - 1 \<le> unat c"
    using unat_add1_u32 [of c] unat_u32_lt [of "c + 1"] unat_u32_lt [of c] unat_inc_u32 [of c]
    by (cases "c + 1 = 0") (auto simp del: unat_u32_lt simp flip: not_less)
  then show ?case by (simp add: sem_up_def)
next
  case (4 c c') then show ?case by (auto simp: sem_up_def unat_add1_u32 split: if_splits)
qed

text \<open>The counter agrees with the semaphore of the kernel.\<close>

lemma sem_down_abs:
  "fst (aP t (abs_sem y f)) \<longleftrightarrow> sem_down (sem_count y) \<noteq> None"
  "sem_down (sem_count y) = Some c \<Longrightarrow> a_count (snd (aP t (abs_sem y f))) = unat c"
  using ctr.down_Some [of "sem_count y" c]
  by (auto simp: sem_down_def aP_def abs_sem_def unat_eq_0 split: if_splits)

lemma sem_up_abs: "sem_up (sem_count y) = Some c \<Longrightarrow> a_count (snd (aV (abs_sem y f))) = unat c"
  using ctr.up_Some [of "sem_count y" c] by (simp add: aV_def abs_sem_def split: list.split)

section \<open>Properties\<close>

text \<open>
  C20. A call of \<open>P\<close> by a running thread, or its resumption by a woken one, and a call of \<open>V\<close> fail
  no assertion and act on the semaphore as the counter with a queue does. \<open>P\<close> returns when the
  counter was not 0, which it decrements, and otherwise leaves the caller at the tail of the queue
  and the next ready thread running. \<open>V\<close> increments the counter and moves the thread that has
  waited longest to the tail of the run queue of its cpu. All spinlocks are released and the
  invariant of the thread system holds afterwards.
\<close>

theorem semaphore_refines_counter:
  assumes "caller me cur {} s (mach st) f" and "sems st x = Some y" and "f (Wchan (sem_wchan y)) = Some ws"
    and "f (Runqueue me) = Some (n # q)" and "sem_count y + 1 \<noteq> 0"
  defines "a \<equiv> abs_sem y f"
  shows "(\<exists>st' f' s' y'. P_sem me cpu_idle x st = Some (fst (aP cur a), st') \<and>
      P_resume me cpu_idle x st = Some (fst (aP cur a), st') \<and> quiet me {} s' (mach st') \<and> sys (mach st') f' {} \<and>
      sems st' = (sems st)(x \<mapsto> y') \<and> abs_sem y' f' = snd (aP cur a) \<and>
      curthread me (mach st') = Some (if fst (aP cur a) then cur else n)) \<and>
    (\<exists>st' f' y'. V_sem me x st = Some st' \<and> quiet me {} s (mach st') \<and> sys (mach st') f' {} \<and>
      sems st' = (sems st)(x \<mapsto> y') \<and> abs_sem y' f' = snd (aV a) \<and>
      (\<forall>t. fst (aV a) = Some t \<longrightarrow> (\<exists>c q. cpu_of (mach st) t = Some c \<and> f' (Runqueue c) = Some (q @ [t]))))"
  unfolding a_def using P_refines [OF assms(1-4)] V_refines [OF assms(1-3,5)] by blast

theorem semaphore_refines_counter_witness:
  "\<exists>h st' f' y'. P_sem 0 (\<lambda>_. None) 5 \<lparr>mach = trio h, sems = [5 \<mapsto> \<lparr>sem_name = ''s'', sem_wchan = 5, sem_count = 0\<rparr>],
      lks = Map.empty, cvs = Map.empty\<rparr> = Some (False, st') \<and>
    curthread 0 (mach st') = Some 3 \<and> abs_sem y' f' = \<lparr>a_count = 0, a_queue = [4, 0]\<rparr>"
proof -
  obtain h where h: "sys (trio h) trio_lists {}" "quiet 0 {} IPL_NONE (trio h)" using trio_exists by blast
  let ?y = "\<lparr>sem_name = ''s'', sem_wchan = 5, sem_count = 0\<rparr>"
  let ?st = "\<lparr>mach = trio h, sems = [5 \<mapsto> ?y], lks = Map.empty, cvs = Map.empty\<rparr>"
  have c: "caller 0 0 {} IPL_NONE (mach ?st) trio_lists"
    using h trio_facts(1-3) trio_off by (simp add: caller_def trio_thread_def)
  have a: "aP 0 (abs_sem ?y trio_lists) = (False, \<lparr>a_count = 0, a_queue = [4, 0]\<rparr>)"
    by (simp add: abs_sem_def aP_def trio_facts(6))
  show ?thesis
    using semaphore_refines_counter [where me = 0 and cpu_idle = "\<lambda>_. None" and x = 5 and st = ?st and y = ?y and n = 3, OF c _ _ trio_facts(4)]
      trio_facts(6) by (simp add: a) blast
qed



end
