(* ===== verification/Maths.thy ===== *)
theory Maths
  imports Synch
begin

text \<open>
  \<open>asst1/math.c\<close>: ten threads that increment one counter under a binary semaphore until it
  reaches 10000, and the thread that starts them, waits for them on a second semaphore and adds
  up their statistics. A step is one access to a shared variable or one semaphore operation, so
  that \<open>counter = counter + 1\<close> takes two; the steps of all threads interleave freely. A step that
  has to wait is not possible; the semaphores are the counters of \<open>Synch\<close>.

  The functions \<open>adder_step\<close> and \<open>main_step\<close> run one step of a thread, \<open>None\<close> if it waits.
\<close>

definition NADDERS :: nat where "NADDERS = 10"
definition NADDS :: u32 where "NADDS = 10000"

text \<open>The points of \<open>adder\<close>, each named by what the thread does next.\<close>

datatype adder_pc = Looping | Reading | Deciding | Loading | Storing | Rereading | Counting | Checking | Posting
  | Signalling | Exited

record adder =
  pc :: adder_pc
  la :: u32
  lb :: u32
  flag :: bool
  tmp :: u32

datatype main_pc = Forking nat | Waiting nat | Finished u32

record maths =
  counter :: u32
  adder_counters :: "u32 list"
  lock_cnt :: u32
  finished :: u32
  adders :: "nat \<rightharpoonup> adder"
  main :: main_pc
  insane :: bool

definition adder_start :: adder where
  "adder_start = \<lparr>pc = Looping, la = 0, lb = 0, flag = True, tmp = 0\<rparr>"

definition adder_step :: "nat \<Rightarrow> maths \<Rightarrow> maths option" where
  "adder_step n s = do {
     A \<leftarrow> adders s n;
     let upd = (\<lambda>A s. s\<lparr>adders := (adders s)(n \<mapsto> A)\<rparr>);
     case pc A of
       Looping \<Rightarrow>
         if flag A then do {
           c \<leftarrow> sem_down (lock_cnt s);
           Some (upd (A\<lparr>pc := Reading\<rparr>) (s\<lparr>lock_cnt := c\<rparr>)) }
         else Some (upd (A\<lparr>pc := Signalling\<rparr>) s)
     | Reading \<Rightarrow> Some (upd (A\<lparr>pc := Deciding, la := counter s\<rparr>) s)
     | Deciding \<Rightarrow> Some (upd (if la A < NADDS then A\<lparr>pc := Loading\<rparr> else A\<lparr>pc := Posting, flag := False\<rparr>) s)
     | Loading \<Rightarrow> Some (upd (A\<lparr>pc := Storing, tmp := counter s\<rparr>) s)
     | Storing \<Rightarrow> Some (upd (A\<lparr>pc := Rereading\<rparr>) (s\<lparr>counter := tmp A + 1\<rparr>))
     | Rereading \<Rightarrow> Some (upd (A\<lparr>pc := Counting, lb := counter s\<rparr>) s)
     | Counting \<Rightarrow> do {
         k \<leftarrow> get_at (adder_counters s) n;
         ks \<leftarrow> put_at n (k + 1) (adder_counters s);
         Some (upd (A\<lparr>pc := Checking\<rparr>) (s\<lparr>adder_counters := ks\<rparr>)) }
     | Checking \<Rightarrow> Some (upd (A\<lparr>pc := Posting\<rparr>) (s\<lparr>insane := insane s \<or> la A + 1 \<noteq> lb A\<rparr>))
     | Posting \<Rightarrow> do {
         c \<leftarrow> sem_up (lock_cnt s);
         Some (upd (A\<lparr>pc := Looping\<rparr>) (s\<lparr>lock_cnt := c\<rparr>)) }
     | Signalling \<Rightarrow> do {
         c \<leftarrow> sem_up (finished s);
         Some (upd (A\<lparr>pc := Exited\<rparr>) (s\<lparr>finished := c\<rparr>)) }
     | Exited \<Rightarrow> None }"

text \<open>The loop that adds up the statistics.\<close>

primrec sum_counters :: "nat \<Rightarrow> u32 list \<Rightarrow> u32 option" where
  "sum_counters 0 ks = Some 0"
| "sum_counters (Suc i) ks = do {
     sm \<leftarrow> sum_counters i ks;
     k \<leftarrow> get_at ks i;
     Some (sm + k) }"

text \<open>The main thread. A \<open>thread_fork\<close> that fails panics, which ends the run.\<close>

definition main_step :: "maths \<Rightarrow> maths option" where
  "main_step s = (case main s of
       Forking i \<Rightarrow>
         if i < NADDERS then Some (s\<lparr>adders := (adders s)(i \<mapsto> adder_start), main := Forking (i + 1)\<rparr>)
         else Some (s\<lparr>main := Waiting 0\<rparr>)
     | Waiting i \<Rightarrow>
         if i < NADDERS then do {
           c \<leftarrow> sem_down (finished s);
           Some (s\<lparr>finished := c, main := Waiting (i + 1)\<rparr>) }
         else do {
           sm \<leftarrow> sum_counters NADDERS (adder_counters s);
           Some (s\<lparr>main := Finished sm\<rparr>) }
     | Finished sm \<Rightarrow> None)"

text \<open>
  The state after the two semaphores are created. \<open>counter\<close> and \<open>adder_counters\<close> are global
  variables, which \<open>maths\<close> does not set: they are what an earlier run left.
\<close>

definition maths_init :: "u32 \<Rightarrow> u32 list \<Rightarrow> maths" where
  "maths_init c ks = \<lparr>counter = c, adder_counters = ks, lock_cnt = 1, finished = 0, adders = Map.empty,
     main = Forking 0, insane = False\<rparr>"

inductive maths_step :: "maths \<Rightarrow> maths \<Rightarrow> bool" where
  adder: "adder_step n s = Some s' \<Longrightarrow> maths_step s s'"
| main: "main_step s = Some s' \<Longrightarrow> maths_step s s'"

section \<open>The invariant\<close>

text \<open>The adders at one of some points, and the points between \<open>P(lock_cnt)\<close> and \<open>V(lock_cnt)\<close>.\<close>

definition at :: "adder_pc set \<Rightarrow> (nat \<rightharpoonup> adder) \<Rightarrow> nat set" where
  "at X f = {n. \<exists>A. f n = Some A \<and> pc A \<in> X}"

definition region :: "adder_pc set" where
  "region = {Reading, Deciding, Loading, Storing, Rereading, Counting, Checking, Posting}"

lemma at_upd: "at X (f(n \<mapsto> A)) = (if pc A \<in> X then insert n (at X f) else at X f - {n})"
  by (auto simp: at_def)

lemma at_mem: "adders s n = Some A \<Longrightarrow> n \<in> at X (adders s) \<longleftrightarrow> pc A \<in> X"
  by (simp add: at_def)

lemma at_mono: "X \<subseteq> Y \<Longrightarrow> at X f \<subseteq> at Y f"
  by (auto simp: at_def)

text \<open>What the local variables of an adder say about the counter.\<close>

definition local_ok :: "u32 \<Rightarrow> adder \<Rightarrow> bool" where
  "local_ok c A = (case pc A of
       Looping \<Rightarrow> flag A \<or> c = NADDS
     | Reading \<Rightarrow> flag A
     | Deciding \<Rightarrow> flag A \<and> la A = c
     | Loading \<Rightarrow> flag A \<and> la A = c \<and> c < NADDS
     | Storing \<Rightarrow> flag A \<and> la A = c \<and> tmp A = c \<and> c < NADDS
     | Rereading \<Rightarrow> flag A \<and> la A + 1 = c
     | Counting \<Rightarrow> flag A \<and> la A + 1 = lb A
     | Checking \<Rightarrow> flag A \<and> la A + 1 = lb A
     | Posting \<Rightarrow> flag A \<or> c = NADDS
     | Signalling \<Rightarrow> c = NADDS
     | Exited \<Rightarrow> c = NADDS)"

primrec forked :: "main_pc \<Rightarrow> nat" where
  "forked (Forking i) = i"
| "forked (Waiting i) = NADDERS"
| "forked (Finished sm) = NADDERS"

primrec waited :: "main_pc \<Rightarrow> nat" where
  "waited (Forking i) = 0"
| "waited (Waiting i) = i"
| "waited (Finished sm) = NADDERS"

definition tally :: "u32 list \<Rightarrow> nat" where
  "tally ks = sum_list (map unat ks)"

text \<open>
  The increments that are in \<open>counter\<close> and not yet in \<open>adder_counters\<close> are those of the adders
  between the two; the counters of the adders never wrap because their sm is bounded.
\<close>

definition maths_inv :: "maths \<Rightarrow> bool" where
  "maths_inv s \<longleftrightarrow> length (adder_counters s) = NADDERS \<and> counter s \<le> NADDS \<and> \<not> insane s \<and>
     permits 1 (unat (lock_cnt s)) (at region (adders s)) \<and>
     dom (adders s) = {..<forked (main s)} \<and> forked (main s) \<le> NADDERS \<and> waited (main s) \<le> NADDERS \<and>
     (\<forall>n A. adders s n = Some A \<longrightarrow> local_ok (counter s) A) \<and>
     tally (adder_counters s) + card (at {Rereading, Counting} (adders s)) = unat (counter s) \<and>
     waited (main s) + unat (finished s) = card (at {Exited} (adders s)) \<and>
     (\<forall>sm. main s = Finished sm \<longrightarrow> unat sm = tally (adder_counters s))"

lemma maths_invD:
  assumes "maths_inv s"
  shows "length (adder_counters s) = NADDERS" "counter s \<le> NADDS" "\<not> insane s"
    "permits 1 (unat (lock_cnt s)) (at region (adders s))"
    "dom (adders s) = {..<forked (main s)}" "forked (main s) \<le> NADDERS" "waited (main s) \<le> NADDERS"
    "adders s n = Some A \<Longrightarrow> local_ok (counter s) A"
    "tally (adder_counters s) + card (at {Rereading, Counting} (adders s)) = unat (counter s)"
    "waited (main s) + unat (finished s) = card (at {Exited} (adders s))"
    "main s = Finished sm \<Longrightarrow> unat sm = tally (adder_counters s)"
  using assms by (simp_all add: maths_inv_def)

lemma finite_at: "maths_inv s \<Longrightarrow> finite (at X (adders s))"
  by (rule finite_subset [of _ "dom (adders s)"]) (auto simp: at_def maths_inv_def)

lemma tally_bound: "maths_inv s \<Longrightarrow> tally (adder_counters s) < 2 ^ 32"
  using maths_invD(9) [of s] unat_u32_lt [of "counter s"] by (simp del: unat_u32_lt)

lemma maths_inv_init:
  assumes "length ks = NADDERS" and "c \<le> NADDS" and "tally ks = unat c"
  shows "maths_inv (maths_init c ks)"
  using assms by (simp add: maths_inv_def maths_init_def at_def permits_def)

lemma adder_lt: "maths_inv s \<Longrightarrow> adders s n = Some A \<Longrightarrow> n < NADDERS"
  using maths_invD(5,6) [of s] by (metis domI lessThan_iff less_le_trans)

lemma at_lt: "maths_inv s \<Longrightarrow> at X (adders s) \<subseteq> {..<NADDERS}"
  using adder_lt by (auto simp: at_def)

text \<open>While an adder has not exited, the main thread still waits.\<close>

lemma not_finished:
  assumes i: "maths_inv s" and n: "adders s n = Some A" "pc A \<noteq> Exited"
  shows "waited (main s) + unat (finished s) < NADDERS" and "main s \<noteq> Finished sm"
proof -
  have "at {Exited} (adders s) \<subseteq> {..<NADDERS} - {n}"
    using at_lt [OF i, of "{Exited}"] n by (auto simp: at_def)
  moreover have "n < NADDERS" by (rule adder_lt [OF i n(1)])
  ultimately have "card (at {Exited} (adders s)) < NADDERS"
    using card_mono [of "{..<NADDERS} - {n}" "at {Exited} (adders s)"] by simp
  then show w: "waited (main s) + unat (finished s) < NADDERS" using maths_invD(10) [OF i] by simp
  show "main s \<noteq> Finished sm" using w by auto
qed

text \<open>
  Moving one adder \<open>n\<close> to \<open>A'\<close>, with the counter as it is.
\<close>

lemma maths_inv_move:
  assumes i: "maths_inv s" and n: "adders s n = Some A" and l: "local_ok (counter s) A'" and A': "pc A' \<noteq> Exited" "pc A \<noteq> Exited"
    and p: "permits 1 (unat c) (at region ((adders s)(n \<mapsto> A')))" and len: "length ks = NADDERS"
    and t: "tally ks + card (at {Rereading, Counting} ((adders s)(n \<mapsto> A'))) = unat (counter s)"
  shows "maths_inv (s\<lparr>lock_cnt := c, adder_counters := ks, adders := (adders s)(n \<mapsto> A')\<rparr>)"
proof -
  have "dom ((adders s)(n \<mapsto> A')) = {..<forked (main s)}" using maths_invD(5) [OF i] n by auto
  moreover have "at {Exited} ((adders s)(n \<mapsto> A')) = at {Exited} (adders s)"
    using n A' by (auto simp: at_def)
  ultimately show ?thesis
    using maths_invD [OF i] not_finished(2) [OF i n A'(2)] p len t l by (simp add: maths_inv_def)
qed

lemma at_same:
  "adders s n = Some A \<Longrightarrow> (pc A \<in> X \<longleftrightarrow> pc A' \<in> X) \<Longrightarrow> at X ((adders s)(n \<mapsto> A')) = at X (adders s)"
  by (auto simp: at_def)

text \<open>A move that neither enters nor leaves the region, nor the points before the statistics.\<close>

lemma maths_inv_local:
  assumes i: "maths_inv s" and n: "adders s n = Some A" and l: "local_ok (counter s) A'" and A': "pc A' \<noteq> Exited" "pc A \<noteq> Exited"
    and r: "pc A \<in> region \<longleftrightarrow> pc A' \<in> region" "pc A \<in> {Rereading, Counting} \<longleftrightarrow> pc A' \<in> {Rereading, Counting}"
  shows "maths_inv (s\<lparr>adders := (adders s)(n \<mapsto> A')\<rparr>)"
proof -
  have "maths_inv (s\<lparr>lock_cnt := lock_cnt s, adder_counters := adder_counters s, adders := (adders s)(n \<mapsto> A')\<rparr>)"
    using maths_invD(1,4,9) [OF i] at_same [OF n r(1)] at_same [OF n r(2)]
    by (intro maths_inv_move [OF i n l A']) simp_all
  then show ?thesis by simp
qed

lemma tally_upd:
  "n < length ks \<Longrightarrow> unat (ks ! n) + 1 < 2 ^ 32 \<Longrightarrow> tally (ks[n := ks ! n + 1]) = tally ks + 1"
proof (induction ks arbitrary: n)
  case (Cons k ks)
  then show ?case using unat_inc_u32 [of k] by (cases n) (auto simp: tally_def)
qed simp

lemma tally_mem: "n < length ks \<Longrightarrow> unat (ks ! n) \<le> tally ks"
  unfolding tally_def by (rule member_le_sum_list) simp_all

lemma maths_inv_counting:
  assumes i: "maths_inv s" and n: "adders s n = Some A" and A: "pc A = Counting"
  shows "maths_inv (s\<lparr>adder_counters := (adder_counters s)[n := adder_counters s ! n + 1], adders := (adders s)(n \<mapsto> A\<lparr>pc := Checking\<rparr>)\<rparr>)"
proof -
  let ?ks = "adder_counters s" and ?A = "A\<lparr>pc := Checking\<rparr>"
  have lt: "n < length ?ks" using adder_lt [OF i n] maths_invD(1) [OF i] by simp
  have "unat (counter s) \<le> 10000" using maths_invD(2) [OF i] by (simp add: NADDS_def word_le_nat_alt)
  then have "unat (?ks ! n) + 1 < 2 ^ 32" using tally_mem [OF lt] maths_invD(9) [OF i] by simp
  then have t: "tally (?ks[n := ?ks ! n + 1]) = tally ?ks + 1" by (rule tally_upd [OF lt])
  have "n \<in> at {Rereading, Counting} (adders s)" using A at_mem [OF n] by simp
  then have c: "card (at {Rereading, Counting} (adders s)) = Suc (card (at {Rereading, Counting} ((adders s)(n \<mapsto> ?A))))"
    using finite_at [OF i] card_Suc_Diff1 [of "at {Rereading, Counting} (adders s)" n] by (simp add: at_upd)
  have "maths_inv (s\<lparr>lock_cnt := lock_cnt s, adder_counters := ?ks[n := ?ks ! n + 1], adders := (adders s)(n \<mapsto> ?A)\<rparr>)"
  proof (rule maths_inv_move [OF i n])
    show "local_ok (counter s) ?A" using maths_invD(8) [OF i n] A by (simp add: local_ok_def)
    show "permits 1 (unat (lock_cnt s)) (at region ((adders s)(n \<mapsto> ?A)))"
      using maths_invD(4) [OF i] at_same [OF n, of region ?A] A by (simp add: region_def)
    show "tally (?ks[n := ?ks ! n + 1]) + card (at {Rereading, Counting} ((adders s)(n \<mapsto> ?A))) = unat (counter s)"
      using t c maths_invD(9) [OF i] by simp
  qed (use A maths_invD(1) [OF i] in simp_all)
  then show ?thesis by simp
qed

lemma maths_inv_lock:
  assumes i: "maths_inv s" and n: "adders s n = Some A" and l: "local_ok (counter s) A'" and A: "pc A \<notin> {Exited, Rereading, Counting}"
    and A': "pc A' \<notin> {Exited, Rereading, Counting}" and p: "permits 1 (unat c) (at region ((adders s)(n \<mapsto> A')))"
  shows "maths_inv (s\<lparr>lock_cnt := c, adders := (adders s)(n \<mapsto> A')\<rparr>)"
proof -
  have "maths_inv (s\<lparr>lock_cnt := c, adder_counters := adder_counters s, adders := (adders s)(n \<mapsto> A')\<rparr>)"
    using maths_invD(1,9) [OF i] at_same [OF n, of "{Rereading, Counting}" A'] A A' p
    by (intro maths_inv_move [OF i n l]) simp_all
  then show ?thesis by simp
qed

text \<open>The store. No other adder is in the region, and none has seen the final value.\<close>

lemma maths_inv_storing:
  assumes i: "maths_inv s" and n: "adders s n = Some A" and A: "pc A = Storing"
  shows "maths_inv (s\<lparr>counter := tmp A + 1, adders := (adders s)(n \<mapsto> A\<lparr>pc := Rereading\<rparr>)\<rparr>)"
proof -
  let ?c = "counter s" and ?f = "(adders s)(n \<mapsto> A\<lparr>pc := Rereading\<rparr>)"
  have l: "flag A" "la A = ?c" "tmp A = ?c" "?c < NADDS" using maths_invD(8) [OF i n] A by (simp_all add: local_ok_def)
  have u: "unat (?c + 1) = unat ?c + 1" "?c + 1 \<le> NADDS"
    using l(4) unat_inc_u32 [of ?c] by (simp_all add: NADDS_def word_less_nat_alt word_le_nat_alt)
  have nr: "n \<in> at region (adders s)" using at_mem [OF n] A by (simp add: region_def)
  have "local_ok (?c + 1) B" if b: "?f k = Some B" for k B
  proof (cases "k = n")
    case True
    then show ?thesis using b l by (auto simp: local_ok_def)
  next
    case False
    then have k: "adders s k = Some B" using b by simp
    then have "k \<notin> at region (adders s)" using permits_one [OF maths_invD(4) [OF i] nr] False by blast
    then have "pc B \<notin> region" using at_mem [OF k] by simp
    then show ?thesis using maths_invD(8) [OF i k] l(4) by (auto simp: local_ok_def region_def split: adder_pc.splits)
  qed
  moreover have "n \<notin> at {Rereading, Counting} (adders s)" using at_mem [OF n] A by simp
  then have "card (at {Rereading, Counting} ?f) = Suc (card (at {Rereading, Counting} (adders s)))"
    using finite_at [OF i] by (simp add: at_upd)
  moreover have "at region ?f = at region (adders s)" "at {Exited} ?f = at {Exited} (adders s)"
    using at_same [OF n] A by (simp_all add: region_def)
  moreover have "dom ?f = {..<forked (main s)}" using maths_invD(5) [OF i] n by auto
  ultimately show ?thesis
    using maths_invD [OF i] not_finished(2) [OF i n] A u l(3) unfolding maths_inv_def by simp
qed

lemma maths_inv_signalling:
  assumes i: "maths_inv s" and n: "adders s n = Some A" and A: "pc A = Signalling" and c: "sem_up (finished s) = Some c"
  shows "maths_inv (s\<lparr>finished := c, adders := (adders s)(n \<mapsto> A\<lparr>pc := Exited\<rparr>)\<rparr>)"
proof -
  let ?f = "(adders s)(n \<mapsto> A\<lparr>pc := Exited\<rparr>)"
  have "local_ok (counter s) B" if b: "?f k = Some B" for k B
  proof (cases "k = n")
    case True
    then show ?thesis using b maths_invD(8) [OF i n] A by (auto simp: local_ok_def)
  qed (use b maths_invD(8) [OF i, of k B] in simp)
  moreover have "n \<notin> at {Exited} (adders s)" using at_mem [OF n] A by simp
  then have "card (at {Exited} ?f) = Suc (card (at {Exited} (adders s)))"
    using finite_at [OF i] by (simp add: at_upd)
  moreover have "at region ?f = at region (adders s)" "at {Rereading, Counting} ?f = at {Rereading, Counting} (adders s)"
    using at_same [OF n] A by (simp_all add: region_def)
  moreover have "dom ?f = {..<forked (main s)}" using maths_invD(5) [OF i] n by auto
  ultimately show ?thesis
    using maths_invD [OF i] not_finished(2) [OF i n] A ctr.up_Some [OF c] unfolding maths_inv_def by simp
qed

lemma maths_inv_enter:
  assumes i: "maths_inv s" and n: "adders s n = Some A" and A: "pc A = Looping" "flag A" and c: "sem_down (lock_cnt s) = Some c"
  shows "maths_inv (s\<lparr>lock_cnt := c, adders := (adders s)(n \<mapsto> A\<lparr>pc := Reading\<rparr>)\<rparr>)"
proof -
  have "n \<notin> at region (adders s)" using at_mem [OF n] A by (simp add: region_def)
  from ctr.pass [OF maths_invD(4) [OF i] c this]
  show ?thesis using A by (intro maths_inv_lock [OF i n]) (simp_all add: at_upd local_ok_def region_def)
qed

lemma maths_inv_leave:
  assumes i: "maths_inv s" and n: "adders s n = Some A" and A: "pc A = Posting" and c: "sem_up (lock_cnt s) = Some c"
  shows "maths_inv (s\<lparr>lock_cnt := c, adders := (adders s)(n \<mapsto> A\<lparr>pc := Looping\<rparr>)\<rparr>)"
proof -
  have "n \<in> at region (adders s)" using at_mem [OF n] A by (simp add: region_def)
  from ctr.post [OF maths_invD(4) [OF i] c this]
  show ?thesis using A maths_invD(8) [OF i n]
    by (intro maths_inv_lock [OF i n]) (simp_all add: at_upd local_ok_def region_def)
qed

lemma adder_step_inv:
  assumes i: "maths_inv s" and s': "adder_step n s = Some s'"
  shows "maths_inv s'"
proof -
  obtain A where n: "adders s n = Some A" using s' by (auto simp: adder_step_def bind_eq_Some_conv)
  note l = maths_invD(8) [OF i n]
  note step = s' [unfolded adder_step_def n Let_def, simplified]
  show ?thesis
  proof (cases "pc A")
    case Looping
    show ?thesis
    proof (cases "flag A")
      case True
      then show ?thesis using step Looping maths_inv_enter [OF i n] by (auto simp: bind_eq_Some_conv)
    next
      case False
      then show ?thesis using step Looping l
        by (auto simp: local_ok_def region_def intro!: maths_inv_local [OF i n])
    qed
  next
    case Posting
    then show ?thesis using step maths_inv_leave [OF i n] by (auto simp: bind_eq_Some_conv)
  next
    case Counting
    have "n < length (adder_counters s)" using adder_lt [OF i n] maths_invD(1) [OF i] by simp
    then show ?thesis using step Counting maths_inv_counting [OF i n] by auto
  next
    case Checking
    have "\<not> insane s" by (rule maths_invD(3) [OF i])
    moreover have "la A + 1 = lb A" using l Checking by (simp add: local_ok_def)
    ultimately have "s' = s\<lparr>adders := (adders s)(n \<mapsto> A\<lparr>pc := Posting\<rparr>)\<rparr>" using step Checking by auto
    then show ?thesis using Checking l by (auto simp: local_ok_def region_def intro!: maths_inv_local [OF i n])
  next
    case Signalling
    then show ?thesis using step maths_inv_signalling [OF i n] by (auto simp: bind_eq_Some_conv)
  next
    case Storing
    then show ?thesis using step maths_inv_storing [OF i n] by auto
  next
    case Deciding
    then have "\<not> la A < NADDS \<Longrightarrow> counter s = NADDS"
      using l maths_invD(2) [OF i] by (simp add: local_ok_def)
    then show ?thesis using Deciding step l
      by (auto simp: local_ok_def region_def split: if_splits intro!: maths_inv_local [OF i n])
  qed (use step l in \<open>auto simp: local_ok_def region_def intro!: maths_inv_local [OF i n]\<close>)
qed

lemma at_fork: "adders s i = None \<Longrightarrow> Looping \<notin> X \<Longrightarrow> at X ((adders s)(i \<mapsto> adder_start)) = at X (adders s)"
  by (auto simp: at_def adder_start_def)

lemma tally_take: "tally (take n ks) \<le> tally ks"
  unfolding tally_def by (metis append_take_drop_id map_append sum_list_append le_add1)

lemma sum_counters_tally:
  "n \<le> length ks \<Longrightarrow> tally ks < 2 ^ 32 \<Longrightarrow> \<exists>v. sum_counters n ks = Some v \<and> unat v = tally (take n ks)"
proof (induction n)
  case (Suc n)
  then obtain v where v: "sum_counters n ks = Some v" "unat v = tally (take n ks)" by auto
  have "tally (take (Suc n) ks) = tally (take n ks) + unat (ks ! n)"
    using Suc.prems(1) by (simp add: take_Suc_conv_app_nth tally_def)
  then have "unat (v + ks ! n) = tally (take (Suc n) ks)"
    using v(2) tally_take [of "Suc n" ks] Suc.prems(2) by (subst unat_plus_u32) simp_all
  then show ?case using v(1) Suc.prems(1) by simp
qed (simp add: tally_def)

lemma main_step_inv:
  assumes i: "maths_inv s" and s': "main_step s = Some s'"
  shows "maths_inv s'"
proof (cases "main s")
  case (Forking k)
  show ?thesis
  proof (cases "k < NADDERS")
    case True
    have d: "dom (adders s) = {..<k}" using maths_invD(5) [OF i] Forking by simp
    then have "adders s k = None" by (metis domIff lessThan_iff less_irrefl)
    note at = at_fork [OF this]
    have "local_ok (counter s) adder_start" by (simp add: local_ok_def adder_start_def)
    then have "\<forall>n A. ((adders s)(k \<mapsto> adder_start)) n = Some A \<longrightarrow> local_ok (counter s) A"
      using maths_invD(8) [OF i] by auto
    moreover have "dom ((adders s)(k \<mapsto> adder_start)) = {..<k + 1}" using d by auto
    moreover have "s' = s\<lparr>adders := (adders s)(k \<mapsto> adder_start), main := Forking (k + 1)\<rparr>"
      using s' Forking True by (simp add: main_step_def)
    ultimately show ?thesis
      using Forking True maths_invD(1-4,7,9,10) [OF i] at unfolding maths_inv_def by (simp add: region_def)
  next
    case False
    then have "k = NADDERS" using maths_invD(6) [OF i] Forking by simp
    moreover from this have "s' = s\<lparr>main := Waiting 0\<rparr>" using s' Forking by (simp add: main_step_def)
    ultimately show ?thesis using i Forking by (simp add: maths_inv_def)
  qed
next
  case (Waiting k)
  show ?thesis
  proof (cases "k < NADDERS")
    case True
    then obtain c where c: "sem_down (finished s) = Some c" "s' = s\<lparr>finished := c, main := Waiting (k + 1)\<rparr>"
      using s' Waiting by (auto simp: main_step_def bind_eq_Some_conv)
    show ?thesis unfolding c(2) using i Waiting True ctr.down_Some [OF c(1)] by (simp add: maths_inv_def)
  next
    case False
    then have k: "k = NADDERS" using maths_invD(7) [OF i] Waiting by simp
    have len: "length (adder_counters s) = NADDERS" by (rule maths_invD(1) [OF i])
    have "tally (adder_counters s) < 2 ^ 32" by (rule tally_bound [OF i])
    then obtain v where v: "sum_counters NADDERS (adder_counters s) = Some v" "unat v = tally (adder_counters s)"
      using sum_counters_tally [of NADDERS "adder_counters s"] len by auto
    have "s' = s\<lparr>main := Finished v\<rparr>" using s' Waiting False v(1) by (simp add: main_step_def)
    then show ?thesis using i Waiting k v(2) by (simp add: maths_inv_def)
  qed
qed (use s' in \<open>simp add: main_step_def\<close>)

lemma maths_step_inv: "maths_inv s \<Longrightarrow> maths_step s s' \<Longrightarrow> maths_inv s'"
  by (erule maths_step.cases) (auto intro: adder_step_inv main_step_inv)

lemma maths_steps_inv: "(maths_step ^^ k) s s' \<Longrightarrow> maths_inv s \<Longrightarrow> maths_inv s'"
  by (induction k arbitrary: s') (auto intro: maths_step_inv)

section \<open>Progress\<close>

text \<open>The work that is left. An increment pays for the steps of the next round.\<close>

definition rank :: "adder option \<Rightarrow> nat" where
  "rank x = (case x of None \<Rightarrow> 11 | Some A \<Rightarrow> (case pc A of
       Looping \<Rightarrow> if flag A then 10 else 6
     | Reading \<Rightarrow> 9 | Deciding \<Rightarrow> 8 | Loading \<Rightarrow> 7 | Storing \<Rightarrow> 6
     | Rereading \<Rightarrow> 20 | Counting \<Rightarrow> 19 | Checking \<Rightarrow> 18
     | Posting \<Rightarrow> if flag A then 17 else 7
     | Signalling \<Rightarrow> 5 | Exited \<Rightarrow> 0))"

primrec main_rank :: "main_pc \<Rightarrow> nat" where
  "main_rank (Forking i) = 13"
| "main_rank (Waiting i) = 12 - i"
| "main_rank (Finished sm) = 0"

definition work :: "maths \<Rightarrow> nat" where
  "work s = (\<Sum>n<NADDERS. rank (adders s n)) + 15 * (10000 - unat (counter s)) + main_rank (main s)"

lemma rank_upd:
  assumes "n < NADDERS"
  shows "(\<Sum>k<NADDERS. rank ((f(n \<mapsto> A)) k)) + rank (f n) = (\<Sum>k<NADDERS. rank (f k)) + rank (Some A)"
proof -
  have "(\<Sum>k<NADDERS. rank ((f(n \<mapsto> A)) k)) = rank (Some A) + (\<Sum>k\<in>{..<NADDERS} - {n}. rank (f k))"
    using assms by (subst sum.remove [of _ n]) (auto intro!: sum.cong)
  moreover have "(\<Sum>k<NADDERS. rank (f k)) = rank (f n) + (\<Sum>k\<in>{..<NADDERS} - {n}. rank (f k))"
    using assms by (subst sum.remove [of _ n]) auto
  ultimately show ?thesis by simp
qed

lemma adder_step_work:
  assumes i: "maths_inv s" and s': "adder_step n s = Some s'"
  shows "work s' < work s"
proof -
  obtain A where n: "adders s n = Some A" using s' by (auto simp: adder_step_def bind_eq_Some_conv)
  note l = maths_invD(8) [OF i n] and r = rank_upd [OF adder_lt [OF i n], of "adders s"]
  note step = s' [unfolded adder_step_def n Let_def, simplified]
  have less: "work s' < work s"
    if "adders s' = (adders s)(n \<mapsto> A')" "main s' = main s" "counter s' = counter s" "rank (Some A') < rank (Some A)" for A'
    using that r [of A'] n unfolding work_def by simp
  have store: "work s' < work s"
    if "adders s' = (adders s)(n \<mapsto> A')" "main s' = main s" "unat (counter s') = unat (counter s) + 1"
      "unat (counter s) < 10000" "rank (Some A') < rank (Some A) + 15" for A'
    using that r [of A'] n unfolding work_def by simp
  show ?thesis
  proof (cases "pc A = Storing")
    case True
    then have "tmp A = counter s" "unat (counter s) < 10000" using l by (simp_all add: local_ok_def NADDS_def word_less_nat_alt)
    then show ?thesis
      using True step unat_inc_u32 [of "counter s"] by (intro store [of "A\<lparr>pc := Rereading\<rparr>"]) (auto simp: rank_def)
  next
    case False
    then obtain A' where "adders s' = (adders s)(n \<mapsto> A')" "main s' = main s" "counter s' = counter s" "rank (Some A') < rank (Some A)"
      using step l by (cases "pc A") (auto simp: rank_def local_ok_def bind_eq_Some_conv split: if_splits)
    then show ?thesis by (rule less)
  qed
qed

lemma main_step_work:
  assumes i: "maths_inv s" and s': "main_step s = Some s'"
  shows "work s' < work s"
proof (cases "main s")
  case (Forking k)
  have d: "dom (adders s) = {..<k}" using maths_invD(5) [OF i] Forking by simp
  then have "adders s k = None" by (metis domIff lessThan_iff less_irrefl)
  then show ?thesis
    using s' Forking rank_upd [of k "adders s" adder_start]
    by (auto simp: main_step_def work_def rank_def adder_start_def split: if_splits)
next
  case (Waiting k)
  then show ?thesis
    using s' maths_invD(7) [OF i] by (auto simp: main_step_def work_def NADDERS_def bind_eq_Some_conv split: if_splits)
qed (use s' in \<open>simp add: main_step_def\<close>)

lemma maths_step_work: "maths_inv s \<Longrightarrow> maths_step s s' \<Longrightarrow> work s' < work s"
  by (erule maths_step.cases) (auto intro: adder_step_work main_step_work)

lemma maths_steps_work: "(maths_step ^^ k) s s' \<Longrightarrow> maths_inv s \<Longrightarrow> k + work s' \<le> work s"
proof (induction k arbitrary: s')
  case (Suc k)
  then obtain r where r: "(maths_step ^^ k) s r" "maths_step r s'" by auto
  then show ?case
    using Suc.IH [OF r(1) Suc.prems(2)] maths_step_work [OF maths_steps_inv [OF r(1) Suc.prems(2)] r(2)] by simp
qed simp

lemma work_init: "unat c \<le> 10000 \<Longrightarrow> work (maths_init c ks) = 15 * (10000 - unat c) + 123"
  by (simp add: work_def maths_init_def rank_def NADDERS_def)

text \<open>An adder inside the region is never stopped, nor one that is about to leave.\<close>

lemma adder_runs:
  assumes i: "maths_inv s" and n: "adders s n = Some A" and A: "pc A \<noteq> Exited" "pc A \<noteq> Looping \<or> \<not> flag A"
  shows "\<exists>s'. adder_step n s = Some s'"
proof (cases "pc A")
  case Counting
  have "n < length (adder_counters s)" using adder_lt [OF i n] maths_invD(1) [OF i] by simp
  then show ?thesis using n Counting by (simp add: adder_step_def)
next
  case Posting
  then have "n \<in> at region (adders s)" using at_mem [OF n] by (simp add: region_def)
  then obtain c where "sem_up (lock_cnt s) = Some c" using ctr.post_possible [OF maths_invD(4) [OF i], of n] by auto
  then show ?thesis using n Posting by (simp add: adder_step_def)
next
  case Signalling
  have "unat (finished s) < 10" using not_finished(1) [OF i n A(1)] by (simp add: NADDERS_def)
  then show ?thesis using ctr.up_None [of "finished s"] n Signalling by (cases "sem_up (finished s)") (auto simp: adder_step_def)
qed (use n A in \<open>auto simp: adder_step_def\<close>)

lemma adders_run:
  assumes i: "maths_inv s" and n: "adders s n = Some A" and A: "pc A \<noteq> Exited"
  shows "\<exists>s'. maths_step s s'"
proof (cases "pc A = Looping \<and> flag A")
  case True
  show ?thesis
  proof (cases "sem_down (lock_cnt s)")
    case None
    then have "card (at region (adders s)) = 1"
      using ctr.down_None [of "lock_cnt s"] maths_invD(4) [OF i] by (simp add: permits_def)
    then obtain k where "k \<in> at region (adders s)" by (metis card_1_singletonE insertI1)
    then obtain B where "adders s k = Some B" "pc B \<in> region" by (auto simp: at_def)
    then show ?thesis using adder_runs [OF i] adder by (fastforce simp: region_def)
  next
    case (Some c)
    then have "\<exists>s'. adder_step n s = Some s'" using n True by (simp add: adder_step_def)
    then show ?thesis using adder by blast
  qed
next
  case False
  then show ?thesis using adder_runs [OF i n A] adder by blast
qed

lemma maths_not_stuck:
  assumes i: "maths_inv s" and m: "\<And>sm. main s \<noteq> Finished sm"
  shows "\<exists>s'. maths_step s s'"
proof (cases "main s")
  case (Forking k)
  then have "\<exists>s'. main_step s = Some s'" by (simp add: main_step_def)
  then show ?thesis using main by blast
next
  case (Waiting k)
  show ?thesis
  proof (cases "\<exists>n A. adders s n = Some A \<and> pc A \<noteq> Exited")
    case True
    then show ?thesis using adders_run [OF i] by blast
  next
    case False
    then have "at {Exited} (adders s) = dom (adders s)" by (auto simp: at_def)
    then have "at {Exited} (adders s) = {..<NADDERS}" using maths_invD(5) [OF i] Waiting by simp
    then have f: "k + unat (finished s) = NADDERS" using maths_invD(10) [OF i] Waiting by simp
    have "\<exists>s'. main_step s = Some s'"
    proof (cases "k < NADDERS")
      case True
      then have "sem_down (finished s) \<noteq> None" using f ctr.down_None [of "finished s"] by simp
      then show ?thesis using Waiting True by (auto simp: main_step_def)
    next
      case False
      have "tally (adder_counters s) < 2 ^ 32" by (rule tally_bound [OF i])
      then show ?thesis
        using Waiting False sum_counters_tally [of NADDERS "adder_counters s"] maths_invD(1) [OF i]
        by (auto simp: main_step_def)
    qed
    then show ?thesis using main by blast
  qed
qed (use m in simp)

lemma maths_finished:
  assumes i: "maths_inv s" and m: "main s = Finished sm"
  shows "counter s = NADDS \<and> sm = NADDS \<and> at {Exited} (adders s) = {..<NADDERS}"
proof -
  have c: "card (at {Exited} (adders s)) \<ge> NADDERS" using maths_invD(10) [OF i] m by simp
  then have e: "at {Exited} (adders s) = {..<NADDERS}"
    using at_lt [OF i] by (intro card_seteq) simp_all
  then have "0 \<in> at {Exited} (adders s)" by (simp add: NADDERS_def)
  then obtain A where A: "adders s 0 = Some A" "pc A = Exited" by (auto simp: at_def)
  then have n: "counter s = NADDS" using maths_invD(8) [OF i A(1)] by (simp add: local_ok_def)
  have "at {Rereading, Counting} (adders s) \<inter> at {Exited} (adders s) = {}" by (auto simp: at_def)
  then have "at {Rereading, Counting} (adders s) = {}" using at_lt [OF i] unfolding e by blast
  then have "unat sm = unat NADDS" using maths_invD(9) [OF i] maths_invD(11) [OF i m] n by simp
  then show ?thesis using n e by (simp add: word_unat_eq_iff)
qed

section \<open>Properties\<close>

text \<open>
  C22. However its threads interleave, a run of \<open>maths\<close> that starts with a counter that agrees
  with the statistics takes a bounded number of steps and stops only when the main thread has
  printed its results: the counter is then 10000 and the increments the adders have counted add
  up to 10000. On the way at most one adder is between \<open>P(lock_cnt)\<close> and \<open>V(lock_cnt)\<close>, and the
  check \<open>a + 1 != b\<close> never succeeds.
\<close>

theorem maths_counts_correctly:
  assumes "length ks = NADDERS" and "c \<le> NADDS" and "tally ks = unat c"
    and "(maths_step ^^ k) (maths_init c ks) s"
  shows "k \<le> 15 * (10000 - unat c) + 123 \<and> \<not> insane s \<and> card (at region (adders s)) \<le> 1 \<and>
    ((\<nexists>s'. maths_step s s') \<longrightarrow> main s = Finished 10000 \<and> counter s = 10000)"
proof -
  note i0 = maths_inv_init [OF assms(1-3)]
  note i = maths_steps_inv [OF assms(4) i0]
  have "unat c \<le> 10000" using assms(2) by (simp add: NADDS_def word_le_nat_alt)
  then have "k \<le> 15 * (10000 - unat c) + 123" using maths_steps_work [OF assms(4) i0] work_init [of c ks] by simp
  moreover have "main s = Finished 10000 \<and> counter s = 10000" if stuck: "\<nexists>s'. maths_step s s'"
  proof -
    obtain sm where "main s = Finished sm" using maths_not_stuck [OF i] stuck by blast
    then show ?thesis using maths_finished [OF i] by (simp add: NADDS_def)
  qed
  ultimately show ?thesis using maths_invD(3,4) [OF i] by (auto simp: permits_def)
qed

theorem maths_counts_correctly_witness:
  "\<exists>s. maths_step (maths_init 0 (replicate 10 0)) s \<and> \<not> insane s \<and> card (at region (adders s)) \<le> 1"
proof -
  let ?s = "maths_init 0 (replicate 10 0)"
  have "\<exists>s. main_step ?s = Some s" by (simp add: main_step_def maths_init_def)
  then obtain s where s: "maths_step ?s s" using main by blast
  moreover have "tally (replicate 10 0) = 0" by (simp add: tally_def)
  ultimately show ?thesis
    using maths_counts_correctly [of "replicate 10 0" 0 1 s] by (auto simp: NADDERS_def)
qed

end
