(* ===== verification/Paintshop.thy ===== *)
theory Paintshop
  imports Synch
begin

text \<open>
  \<open>asst1/paintshop.c\<close>: customers put cans into an order buffer and wait for them in a delivery
  buffer, staff take orders, reserve the tints, mix and serve. A step is one semaphore operation
  or one access to shared variables between two of them, and the steps of all threads interleave
  freely. A step that has to wait is not possible.

  The driver is not part of the program: the number of customers \<open>NC\<close> and of colours, the colours
  that a can asks for (\<open>cols\<close>) and what \<open>mix\<close> does are parameters, and so is the order in which
  the threads call the functions: a customer orders any can that no one is waiting for, and goes
  home at any time between two orders; staff serve orders until \<open>take_order\<close> returns null.
  \<open>mixed\<close> records which cans \<open>mix\<close> has been called on since they were last ordered.
\<close>

section \<open>State\<close>

datatype semname = Order_mutex | Delivery_mutex | Tints_mutex | Stuff_exit | Remaining_customers_mutex
  | Access_specific_tints nat | Ready_cans | Order_buffer_full | Delivery_buffer_empty | Order_buffer_empty

text \<open>The points of the functions, each named by what the thread does next.\<close>

datatype point =
    Idle_customer | P_order_empty | P_order | Put_order | V_order | V_order_full
  | P_ready | P_delivery | Find_can | V_delivery | V_ready | Test_found | V_delivery_empty
  | P_remaining | Go_home | V_remaining | Gone
  | Test_remaining | P_exit | V_exit | P_order_full | P_take | Find_order | V_take | V_full_again | Test_order | V_order_empty
  | P_tints | P_colour nat | V_tints | Mix | V_colour nat
  | P_delivery_empty | P_serve | Put_delivery | V_serve | V_ready_cans

datatype who = Customer nat | Staff nat

record agent =
  at_point :: point
  can :: "nat option"
  is_found :: bool

record shop =
  remaining_customers :: int
  order_buffer :: "nat option list"
  delivery_buffer :: "nat option list"
  sema :: "semname \<Rightarrow> u32"
  agents :: "who \<rightharpoonup> agent"
  mixed :: "nat set"

text \<open>The first index of a buffer that satisfies a condition, as the loops with \<open>break\<close> find it.\<close>

fun first_index :: "('a \<Rightarrow> bool) \<Rightarrow> 'a list \<Rightarrow> nat option" where
  "first_index P [] = None"
| "first_index P (x # xs) = (if P x then Some 0 else map_option Suc (first_index P xs))"

definition shop_P :: "semname \<Rightarrow> shop \<Rightarrow> shop option" where
  "shop_P x s = do { c \<leftarrow> sem_down (sema s x); Some (s\<lparr>sema := (sema s)(x := c)\<rparr>) }"

definition shop_V :: "semname \<Rightarrow> shop \<Rightarrow> shop option" where
  "shop_V x s = do { c \<leftarrow> sem_up (sema s x); Some (s\<lparr>sema := (sema s)(x := c)\<rparr>) }"

definition goto :: "who \<Rightarrow> agent \<Rightarrow> point \<Rightarrow> shop \<Rightarrow> shop" where
  "goto w A p s = s\<lparr>agents := (agents s)(w \<mapsto> A\<lparr>at_point := p\<rparr>)\<rparr>"

section \<open>Customers\<close>

definition put_order :: "nat option \<Rightarrow> shop \<Rightarrow> shop" where
  "put_order k s = (case first_index (\<lambda>x. x = None) (order_buffer s) of
       None \<Rightarrow> s | Some i \<Rightarrow> s\<lparr>order_buffer := (order_buffer s)[i := k]\<rparr>)"

definition find_can :: "nat option \<Rightarrow> shop \<Rightarrow> bool \<times> shop" where
  "find_can k s = (case first_index (\<lambda>x. x = k) (delivery_buffer s) of
       None \<Rightarrow> (False, s) | Some i \<Rightarrow> (True, s\<lparr>delivery_buffer := (delivery_buffer s)[i := None]\<rparr>))"

text \<open>\<open>order_paint\<close> and \<open>go_home\<close>.\<close>

definition customer_step :: "who \<Rightarrow> agent \<Rightarrow> shop \<Rightarrow> shop option" where
  "customer_step w A s = (case at_point A of
       P_order_empty \<Rightarrow> do { s \<leftarrow> shop_P Order_buffer_empty s; Some (goto w A P_order s) }
     | P_order \<Rightarrow> do { s \<leftarrow> shop_P Order_mutex s; Some (goto w A Put_order s) }
     | Put_order \<Rightarrow> Some (goto w A V_order (put_order (can A) s))
     | V_order \<Rightarrow> do { s \<leftarrow> shop_V Order_mutex s; Some (goto w A V_order_full s) }
     | V_order_full \<Rightarrow> do { s \<leftarrow> shop_V Order_buffer_full s; Some (goto w (A\<lparr>is_found := False\<rparr>) P_ready s) }
     | P_ready \<Rightarrow> do { s \<leftarrow> shop_P Ready_cans s; Some (goto w A P_delivery s) }
     | P_delivery \<Rightarrow> do { s \<leftarrow> shop_P Delivery_mutex s; Some (goto w A Find_can s) }
     | Find_can \<Rightarrow> (case find_can (can A) s of (b, s) \<Rightarrow> Some (goto w (A\<lparr>is_found := is_found A \<or> b\<rparr>) V_delivery s))
     | V_delivery \<Rightarrow> do { s \<leftarrow> shop_V Delivery_mutex s; Some (goto w A V_ready s) }
     | V_ready \<Rightarrow> do { s \<leftarrow> shop_V Ready_cans s; Some (goto w A Test_found s) }
     | Test_found \<Rightarrow> Some (goto w A (if is_found A then V_delivery_empty else P_ready) s)
     | V_delivery_empty \<Rightarrow> do { s \<leftarrow> shop_V Delivery_buffer_empty s; Some (goto w A Idle_customer s) }
     | P_remaining \<Rightarrow> do { s \<leftarrow> shop_P Remaining_customers_mutex s; Some (goto w A Go_home s) }
     | Go_home \<Rightarrow> Some (goto w A V_remaining (s\<lparr>remaining_customers := remaining_customers s - 1\<rparr>))
     | V_remaining \<Rightarrow> do { s \<leftarrow> shop_V Remaining_customers_mutex s; Some (goto w A Gone s) }
     | _ \<Rightarrow> None)"

section \<open>Staff\<close>

definition find_order :: "shop \<Rightarrow> (nat option \<times> shop) option" where
  "find_order s = (case first_index (\<lambda>x. x \<noteq> None) (order_buffer s) of
       None \<Rightarrow> None | Some i \<Rightarrow> Some (order_buffer s ! i, s\<lparr>order_buffer := (order_buffer s)[i := None]\<rparr>))"

definition put_delivery :: "nat option \<Rightarrow> shop \<Rightarrow> shop" where
  "put_delivery k s = (case first_index (\<lambda>x. x = None) (delivery_buffer s) of
       None \<Rightarrow> s | Some i \<Rightarrow> s\<lparr>delivery_buffer := (delivery_buffer s)[i := k]\<rparr>)"

text \<open>
  One round of the loops of \<open>fill_order\<close>: the semaphore of the colour at index \<open>i\<close>, if there is
  one. A colour that has no semaphore is an access outside the array.
\<close>

definition colour_round :: "(semname \<Rightarrow> shop \<Rightarrow> shop option) \<Rightarrow> nat \<Rightarrow> nat list \<Rightarrow> nat \<Rightarrow> shop \<Rightarrow> shop option" where
  "colour_round op NCOLOURS cs i s =
    (if cs ! i \<noteq> 0 then if cs ! i < NCOLOURS then op (Access_specific_tints (cs ! i)) s else None else Some s)"

text \<open>\<open>take_order\<close>, \<open>fill_order\<close> and \<open>serve_order\<close>.\<close>

definition staff_step :: "nat \<Rightarrow> (nat \<Rightarrow> nat list) \<Rightarrow> who \<Rightarrow> agent \<Rightarrow> shop \<Rightarrow> shop option" where
  "staff_step NCOLOURS cols w A s = (case at_point A of
       Test_remaining \<Rightarrow> Some (goto w A (if remaining_customers s = 0 then P_exit else P_order_full) s)
     | P_exit \<Rightarrow> do { s \<leftarrow> shop_P Stuff_exit s; Some (goto w (A\<lparr>can := None\<rparr>) V_exit s) }
     | V_exit \<Rightarrow> do { s \<leftarrow> shop_V Stuff_exit s; Some (goto w A Gone s) }
     | P_order_full \<Rightarrow> do { s \<leftarrow> shop_P Order_buffer_full s; Some (goto w A P_take s) }
     | P_take \<Rightarrow> do { s \<leftarrow> shop_P Order_mutex s; Some (goto w A Find_order s) }
     | Find_order \<Rightarrow> Some (case find_order s of
           None \<Rightarrow> goto w A V_take s
         | Some (k, s) \<Rightarrow> goto w (A\<lparr>can := k, is_found := True\<rparr>) V_take s)
     | V_take \<Rightarrow> do { s \<leftarrow> shop_V Order_mutex s; Some (goto w A V_full_again s) }
     | V_full_again \<Rightarrow> do { s \<leftarrow> shop_V Order_buffer_full s; Some (goto w A Test_order s) }
     | Test_order \<Rightarrow> Some (goto w A (if is_found A then V_order_empty else Test_remaining) s)
     | V_order_empty \<Rightarrow> do { s \<leftarrow> shop_V Order_buffer_empty s; Some (goto w A P_tints s) }
     | P_tints \<Rightarrow> do { s \<leftarrow> shop_P Tints_mutex s; Some (goto w A (P_colour 0) s) }
     | P_colour i \<Rightarrow> do {
         k \<leftarrow> can A;
         if i < length (cols k) then do { s \<leftarrow> colour_round shop_P NCOLOURS (cols k) i s; Some (goto w A (P_colour (i + 1)) s) }
         else Some (goto w A V_tints s) }
     | V_tints \<Rightarrow> do { s \<leftarrow> shop_V Tints_mutex s; Some (goto w A Mix s) }
     | Mix \<Rightarrow> do { k \<leftarrow> can A; Some (goto w A (V_colour 0) (s\<lparr>mixed := insert k (mixed s)\<rparr>)) }
     | V_colour i \<Rightarrow> do {
         k \<leftarrow> can A;
         if i < length (cols k) then do { s \<leftarrow> colour_round shop_V NCOLOURS (cols k) i s; Some (goto w A (V_colour (i + 1)) s) }
         else Some (goto w A P_delivery_empty s) }
     | P_delivery_empty \<Rightarrow> do { s \<leftarrow> shop_P Delivery_buffer_empty s; Some (goto w A P_serve s) }
     | P_serve \<Rightarrow> do { s \<leftarrow> shop_P Delivery_mutex s; Some (goto w A Put_delivery s) }
     | Put_delivery \<Rightarrow> Some (goto w A V_serve (put_delivery (can A) s))
     | V_serve \<Rightarrow> do { s \<leftarrow> shop_V Delivery_mutex s; Some (goto w A V_ready_cans s) }
     | V_ready_cans \<Rightarrow> do { s \<leftarrow> shop_V Ready_cans s; Some (goto w (A\<lparr>is_found := False\<rparr>) Test_remaining s) }
     | _ \<Rightarrow> None)"

section \<open>The shop\<close>

definition paintshop_open :: "nat \<Rightarrow> (who \<rightharpoonup> agent) \<Rightarrow> shop" where
  "paintshop_open NC ags = \<lparr>remaining_customers = int NC, order_buffer = replicate NC None, delivery_buffer = replicate NC None,
     sema = (\<lambda>x. case x of Ready_cans \<Rightarrow> 0 | Order_buffer_full \<Rightarrow> 0
       | Delivery_buffer_empty \<Rightarrow> of_nat NC | Order_buffer_empty \<Rightarrow> of_nat NC | _ \<Rightarrow> 1),
     agents = ags, mixed = {}\<rparr>"

text \<open>The cans that a customer is waiting for.\<close>

definition has_ordered :: "agent \<Rightarrow> bool" where
  "has_ordered A \<longleftrightarrow> at_point A \<in> {P_order_empty, P_order, Put_order, V_order, V_order_full, P_ready, P_delivery, Find_can,
     V_delivery, V_ready, Test_found, V_delivery_empty}"

definition wanted :: "shop \<Rightarrow> nat set" where
  "wanted s = {k. \<exists>w A. agents s w = Some A \<and> has_ordered A \<and> can A = Some k}"

text \<open>\<open>order\<close> and \<open>leave\<close> are the calls of \<open>order_paint\<close> and \<open>go_home\<close>.\<close>

inductive shop_step :: "nat \<Rightarrow> (nat \<Rightarrow> nat list) \<Rightarrow> shop \<Rightarrow> shop \<Rightarrow> bool" for NCOLOURS cols where
  order: "agents s w = Some A \<Longrightarrow> at_point A = Idle_customer \<Longrightarrow> k \<notin> wanted s \<Longrightarrow>
    shop_step NCOLOURS cols s (goto w (A\<lparr>can := Some k\<rparr>) P_order_empty (s\<lparr>mixed := mixed s - {k}\<rparr>))"
| leave: "agents s w = Some A \<Longrightarrow> at_point A = Idle_customer \<Longrightarrow> shop_step NCOLOURS cols s (goto w A P_remaining s)"
| customer: "agents s w = Some A \<Longrightarrow> customer_step w A s = Some s' \<Longrightarrow> shop_step NCOLOURS cols s s'"
| staff: "agents s w = Some A \<Longrightarrow> staff_step NCOLOURS cols w A s = Some s' \<Longrightarrow> shop_step NCOLOURS cols s s'"

text \<open>Opening time: \<open>NC\<close> customers, \<open>NS\<close> staff.\<close>

definition opening_time :: "nat \<Rightarrow> nat \<Rightarrow> shop" where
  "opening_time NC NS = paintshop_open NC (\<lambda>w. case w of
       Customer i \<Rightarrow> if i < NC then Some \<lparr>at_point = Idle_customer, can = None, is_found = False\<rparr> else None
     | Staff i \<Rightarrow> if i < NS then Some \<lparr>at_point = Test_remaining, can = None, is_found = False\<rparr> else None)"

section \<open>Who uses a semaphore\<close>

text \<open>The tints that an agent holds.\<close>

definition held :: "(nat \<Rightarrow> nat list) \<Rightarrow> agent \<Rightarrow> nat list" where
  "held cols A = (case can A of None \<Rightarrow> [] | Some k \<Rightarrow> (case at_point A of
       P_colour i \<Rightarrow> take i (cols k) | V_tints \<Rightarrow> cols k | Mix \<Rightarrow> cols k | V_colour i \<Rightarrow> drop i (cols k) | _ \<Rightarrow> []))"

definition uses :: "(nat \<Rightarrow> nat list) \<Rightarrow> semname \<Rightarrow> agent \<Rightarrow> bool" where
  "uses cols x A = (case x of
       Order_mutex \<Rightarrow> at_point A \<in> {Put_order, V_order, Find_order, V_take}
     | Delivery_mutex \<Rightarrow> at_point A \<in> {Find_can, V_delivery, Put_delivery, V_serve}
     | Tints_mutex \<Rightarrow> at_point A = V_tints \<or> (\<exists>i. at_point A = P_colour i)
     | Stuff_exit \<Rightarrow> at_point A = V_exit
     | Remaining_customers_mutex \<Rightarrow> at_point A \<in> {Go_home, V_remaining}
     | Access_specific_tints c \<Rightarrow> c \<noteq> 0 \<and> c \<in> set (held cols A)
     | Order_buffer_empty \<Rightarrow> at_point A \<in> {P_order, Put_order, V_order_empty} \<or>
         at_point A \<in> {V_take, V_full_again, Test_order} \<and> is_found A
     | Delivery_buffer_empty \<Rightarrow> at_point A \<in> {P_serve, Put_delivery, V_delivery_empty} \<or>
         at_point A \<in> {V_delivery, V_ready, Test_found} \<and> is_found A
     | _ \<Rightarrow> False)"

definition occupied :: "nat option list \<Rightarrow> nat set" where
  "occupied b = {i. i < length b \<and> b ! i \<noteq> None}"

definition buf :: "semname \<Rightarrow> shop \<Rightarrow> nat option list" where
  "buf x s = (case x of Order_buffer_empty \<Rightarrow> order_buffer s | Delivery_buffer_empty \<Rightarrow> delivery_buffer s | _ \<Rightarrow> [])"

definition slots :: "semname \<Rightarrow> shop \<Rightarrow> nat set" where
  "slots x s = occupied (buf x s)"

definition those :: "(agent \<Rightarrow> bool) \<Rightarrow> (who \<rightharpoonup> agent) \<Rightarrow> who set" where
  "those Q f = {w. \<exists>A. f w = Some A \<and> Q A}"

definition users :: "(nat \<Rightarrow> nat list) \<Rightarrow> semname \<Rightarrow> shop \<Rightarrow> (who + nat) set" where
  "users cols x s = Inl ` those (uses cols x) (agents s) \<union> Inr ` slots x s"

definition counting :: "semname \<Rightarrow> bool" where
  "counting x \<longleftrightarrow> x \<in> {Order_buffer_empty, Delivery_buffer_empty}"

definition gate :: "semname \<Rightarrow> bool" where
  "gate x \<longleftrightarrow> x \<in> {Ready_cans, Order_buffer_full}"

definition sems_ok :: "nat \<Rightarrow> (nat \<Rightarrow> nat list) \<Rightarrow> shop \<Rightarrow> bool" where
  "sems_ok NC cols s \<longleftrightarrow> (\<forall>x. \<not> gate x \<longrightarrow> permits (if counting x then NC else 1) (unat (sema s x)) (users cols x s))"

lemma those_upd: "those Q (f(w \<mapsto> A)) = (if Q A then insert w (those Q f) else those Q f - {w})"
  by (auto simp: those_def)

lemma those_mem: "agents s w = Some A \<Longrightarrow> w \<in> those Q (agents s) \<longleftrightarrow> Q A"
  by (simp add: those_def)

lemma goto_sel [simp]:
  "agents (goto w A p s) = (agents s)(w \<mapsto> A\<lparr>at_point := p\<rparr>)" "sema (goto w A p s) = sema s"
  "order_buffer (goto w A p s) = order_buffer s" "delivery_buffer (goto w A p s) = delivery_buffer s"
  "mixed (goto w A p s) = mixed s" "remaining_customers (goto w A p s) = remaining_customers s"
  by (simp_all add: goto_def)

text \<open>How the users change when one agent moves and the buffers stay.\<close>

lemma users_move:
  assumes "agents s w = Some A" and "agents s' = (agents s)(w \<mapsto> B)" and "slots x s' = slots x s"
  shows "users cols x s' = (if uses cols x B then insert (Inl w) (users cols x s) else users cols x s - {Inl w})"
  using assms unfolding users_def by (auto simp: those_upd)

lemma users_same:
  assumes "agents s w = Some A" and "agents s' = (agents s)(w \<mapsto> B)" and "slots x s' = slots x s"
    and "uses cols x B \<longleftrightarrow> uses cols x A"
  shows "users cols x s' = users cols x s"
  using assms those_mem [OF assms(1), of "uses cols x"] unfolding users_def by (auto simp: those_upd)

lemma sems_local:
  assumes i: "sems_ok NC cols s" and A: "agents s w = Some A" "agents s' = (agents s)(w \<mapsto> B)"
    and b: "order_buffer s' = order_buffer s" "delivery_buffer s' = delivery_buffer s"
    and m: "\<And>x. \<not> gate x \<Longrightarrow> sema s' x = sema s x" and u: "\<And>x. uses cols x B \<longleftrightarrow> uses cols x A"
  shows "sems_ok NC cols s'"
proof -
  have "users cols x s' = users cols x s" for x
    using b u by (intro users_same [OF A]) (auto simp: slots_def buf_def split: semname.split)
  then show ?thesis using i m by (simp add: sems_ok_def)
qed

lemma sems_P:
  assumes i: "sems_ok NC cols s" and A: "agents s w = Some A" and p: "shop_P x s = Some s1" and x: "\<not> gate x"
    and B: "s' = goto w A' q s1" "B = A'\<lparr>at_point := q\<rparr>" and u: "uses cols x B" "counting x \<Longrightarrow> \<not> uses cols x A"
    and o: "\<And>y. y \<noteq> x \<Longrightarrow> uses cols y B \<longleftrightarrow> uses cols y A"
  shows "sems_ok NC cols s'"
proof -
  obtain c where c: "sem_down (sema s x) = Some c" "s1 = s\<lparr>sema := (sema s)(x := c)\<rparr>"
    using p by (auto simp: shop_P_def bind_eq_Some_conv)
  have ag: "agents s' = (agents s)(w \<mapsto> B)" and sl: "slots y s' = slots y s" for y
    using B c(2) by (auto simp: slots_def buf_def split: semname.split)
  have pe: "permits (if counting x then NC else 1) (unat (sema s x)) (users cols x s)" using i x by (simp add: sems_ok_def)
  have "Inl w \<notin> users cols x s"
  proof (cases "counting x")
    case True
    then show ?thesis using u(2) those_mem [OF A] by (auto simp: users_def)
  next
    case False
    then have "users cols x s = {}" using pe ctr.pass_one [of "sema s x" "users cols x s" c] c(1) by simp
    then show ?thesis by simp
  qed
  from ctr.pass [OF pe c(1) this]
  have "permits (if counting x then NC else 1) (unat (sema s' x)) (users cols x s')"
    using users_move [OF A ag sl, of cols x] u(1) B(1) c(2) by simp
  moreover have "users cols y s' = users cols y s" if "y \<noteq> x" for y by (rule users_same [OF A ag sl o [OF that]])
  moreover have "sema s' y = sema s y" if "y \<noteq> x" for y using that B(1) c(2) by simp
  ultimately show ?thesis using i unfolding sems_ok_def by metis
qed

lemma sems_V:
  assumes i: "sems_ok NC cols s" and A: "agents s w = Some A" and p: "shop_V x s = Some s1" and x: "\<not> gate x"
    and B: "s' = goto w A' q s1" "B = A'\<lparr>at_point := q\<rparr>" and u: "\<not> uses cols x B" "uses cols x A"
    and o: "\<And>y. y \<noteq> x \<Longrightarrow> uses cols y B \<longleftrightarrow> uses cols y A"
  shows "sems_ok NC cols s'"
proof -
  obtain c where c: "sem_up (sema s x) = Some c" "s1 = s\<lparr>sema := (sema s)(x := c)\<rparr>"
    using p by (auto simp: shop_V_def bind_eq_Some_conv)
  have ag: "agents s' = (agents s)(w \<mapsto> B)" and sl: "slots y s' = slots y s" for y
    using B c(2) by (auto simp: slots_def buf_def split: semname.split)
  have pe: "permits (if counting x then NC else 1) (unat (sema s x)) (users cols x s)" using i x by (simp add: sems_ok_def)
  have "Inl w \<in> users cols x s" using u(2) those_mem [OF A, of "uses cols x"] by (simp add: users_def)
  from ctr.post [OF pe c(1) this]
  have "permits (if counting x then NC else 1) (unat (sema s' x)) (users cols x s')"
    using users_move [OF A ag sl, of cols x] u(1) B(1) c(2) by simp
  moreover have "users cols y s' = users cols y s" if "y \<noteq> x" for y by (rule users_same [OF A ag sl o [OF that]])
  moreover have "sema s' y = sema s y" if "y \<noteq> x" for y using that B(1) c(2) by simp
  ultimately show ?thesis using i unfolding sems_ok_def by metis
qed

section \<open>Slots\<close>

lemma first_index_Some: "first_index Q xs = Some i \<Longrightarrow> i < length xs \<and> Q (xs ! i)"
  by (induction xs arbitrary: i) (auto split: if_splits)

lemma first_index_None: "first_index Q xs = None \<longleftrightarrow> (\<forall>i < length xs. \<not> Q (xs ! i))"
proof (induction xs)
  case (Cons x xs)
  then show ?case by (auto simp: less_Suc_eq_0_disj)
qed simp

lemma occupied_upd:
  "i < length b \<Longrightarrow> occupied (b[i := x]) = (if x = None then occupied b - {i} else insert i (occupied b))"
  by (auto simp: occupied_def nth_list_update)

lemma permits_swap: "permits n c I \<Longrightarrow> a \<in> I \<Longrightarrow> b \<notin> I \<Longrightarrow> permits n c (insert b (I - {a}))"
  using card_Suc_Diff1 [of I a] by (simp add: permits_def del: card_Diff_insert)

text \<open>A reservation finds a free slot.\<close>

lemma free_slot:
  assumes "permits NC c I" and "Inl w \<in> I" and "Inr ` occupied b \<subseteq> I" and "length b = NC"
  shows "\<exists>i. first_index (\<lambda>x. x = None) b = Some i"
proof (rule ccontr)
  assume "\<not> ?thesis"
  then have "first_index (\<lambda>x. x = None) b = None" by simp
  then have "occupied b = {..<NC}" using assms(4) by (auto simp: first_index_None occupied_def)
  then have "insert (Inl w) (Inr ` {..<NC}) \<subseteq> I" using assms(2,3) by auto
  moreover have "card (insert (Inl w) (Inr ` {..<NC} :: ('a + nat) set)) = Suc NC"
    by (subst card_insert_disjoint) (auto simp: card_image)
  ultimately show False using assms(1) card_mono [of I "insert (Inl w) (Inr ` {..<NC})"] by (simp add: permits_def)
qed

text \<open>The agent \<open>w\<close> gives its permit to a slot, or takes over that of a slot.\<close>

lemma sems_buffer:
  assumes i: "sems_ok NC cols s" and A: "agents s w = Some A" "agents s' = (agents s)(w \<mapsto> B)" and m: "sema s' = sema s"
    and x: "counting x" and sl: "\<And>y. y \<noteq> x \<Longrightarrow> slots y s' = slots y s"
    and o: "\<And>y. y \<noteq> x \<Longrightarrow> uses cols y B \<longleftrightarrow> uses cols y A"
    and put: "uses cols x A \<and> \<not> uses cols x B \<and> j \<notin> slots x s \<and> slots x s' = insert j (slots x s) \<or>
      \<not> uses cols x A \<and> uses cols x B \<and> j \<in> slots x s \<and> slots x s' = slots x s - {j}"
  shows "sems_ok NC cols s'"
proof -
  have pe: "permits NC (unat (sema s x)) (users cols x s)" using i x by (auto simp: sems_ok_def counting_def gate_def)
  note mem = those_mem [OF A(1), of "uses cols x"]
  have "permits NC (unat (sema s x)) (users cols x s')"
    using put
  proof
    assume p: "uses cols x A \<and> \<not> uses cols x B \<and> j \<notin> slots x s \<and> slots x s' = insert j (slots x s)"
    then have "users cols x s' = insert (Inr j) (users cols x s - {Inl w})"
      using A mem by (auto simp: users_def those_upd)
    moreover have "Inl w \<in> users cols x s" "Inr j \<notin> users cols x s" using p mem by (auto simp: users_def)
    ultimately show ?thesis using permits_swap [OF pe] by simp
  next
    assume p: "\<not> uses cols x A \<and> uses cols x B \<and> j \<in> slots x s \<and> slots x s' = slots x s - {j}"
    then have "users cols x s' = insert (Inl w) (users cols x s - {Inr j})"
      using A mem by (auto simp: users_def those_upd)
    moreover have "Inr j \<in> users cols x s" "Inl w \<notin> users cols x s" using p mem by (auto simp: users_def)
    ultimately show ?thesis using permits_swap [OF pe] by simp
  qed
  moreover have "users cols y s' = users cols y s" if "y \<noteq> x" for y
    by (rule users_same [OF A sl [OF that] o [OF that]])
  ultimately show ?thesis using i x m unfolding sems_ok_def by metis
qed

section \<open>Agents\<close>

text \<open>Where an agent has a can in hand, and where a customer waits for one.\<close>

definition in_hand :: "agent \<Rightarrow> bool" where
  "in_hand A \<longleftrightarrow> at_point A \<in> {V_take, V_full_again, Test_order} \<and> is_found A \<or>
     at_point A \<in> {V_order_empty, P_tints, V_tints, Mix, P_delivery_empty, P_serve, Put_delivery} \<or>
     (\<exists>i. at_point A = P_colour i \<or> at_point A = V_colour i)"

definition waiting :: "agent \<Rightarrow> bool" where
  "waiting A \<longleftrightarrow> at_point A \<in> {V_order, V_order_full, P_ready, P_delivery, Find_can} \<or>
     at_point A \<in> {V_delivery, V_ready, Test_found} \<and> \<not> is_found A"

definition got :: "agent \<Rightarrow> bool" where
  "got A \<longleftrightarrow> at_point A = V_delivery_empty \<or> at_point A \<in> {V_delivery, V_ready, Test_found} \<and> is_found A"

definition nz :: "nat list \<Rightarrow> nat list" where
  "nz cs = filter (\<lambda>c. c \<noteq> 0) cs"

definition agent_ok :: "(nat \<Rightarrow> nat list) \<Rightarrow> agent \<Rightarrow> bool" where
  "agent_ok cols A \<longleftrightarrow> (has_ordered A \<or> in_hand A \<longrightarrow> can A \<noteq> None) \<and>
     (at_point A \<in> {P_ready, P_delivery, Find_can, Test_remaining, P_order_full, P_take, Find_order, P_exit, V_exit} \<longrightarrow> \<not> is_found A) \<and>
     distinct (nz (held cols A))"

lemma agent_okD:
  assumes "agent_ok cols A"
  shows "has_ordered A \<or> in_hand A \<Longrightarrow> \<exists>k. can A = Some k"
    "at_point A \<in> {P_ready, P_delivery, Find_can, Test_remaining, P_order_full, P_take, Find_order, P_exit, V_exit} \<Longrightarrow> \<not> is_found A"
    "distinct (nz (held cols A))"
  using assms by (auto simp: agent_ok_def)

lemma held_simps [simp]:
  "held cols (A\<lparr>at_point := P_colour i\<rparr>) = (case can A of None \<Rightarrow> [] | Some k \<Rightarrow> take i (cols k))"
  "held cols (A\<lparr>at_point := V_colour i\<rparr>) = (case can A of None \<Rightarrow> [] | Some k \<Rightarrow> drop i (cols k))"
  "held cols (A\<lparr>at_point := V_tints\<rparr>) = (case can A of None \<Rightarrow> [] | Some k \<Rightarrow> cols k)"
  "held cols (A\<lparr>at_point := Mix\<rparr>) = (case can A of None \<Rightarrow> [] | Some k \<Rightarrow> cols k)"
  by (simp_all add: held_def split: option.split)

lemma sems_P_step:
  assumes "sems_ok NC cols s" and "agents s w = Some A" and "\<not> gate x" and "shop_P x s \<bind> (\<lambda>s. Some (goto w A' q s)) = Some s'"
    and "uses cols x (A'\<lparr>at_point := q\<rparr>)" and "counting x \<Longrightarrow> \<not> uses cols x A"
    and "\<And>y. y \<noteq> x \<Longrightarrow> uses cols y (A'\<lparr>at_point := q\<rparr>) \<longleftrightarrow> uses cols y A"
  shows "sems_ok NC cols s'"
proof -
  obtain s1 where "shop_P x s = Some s1" "s' = goto w A' q s1" using assms(4) by (auto simp: bind_eq_Some_conv)
  then show ?thesis using assms by (intro sems_P [of NC cols s w A x s1 s' A' q "A'\<lparr>at_point := q\<rparr>"]) simp_all
qed

lemma sems_V_step:
  assumes "sems_ok NC cols s" and "agents s w = Some A" and "\<not> gate x" and "shop_V x s \<bind> (\<lambda>s. Some (goto w A' q s)) = Some s'"
    and "\<not> uses cols x (A'\<lparr>at_point := q\<rparr>)" and "uses cols x A"
    and "\<And>y. y \<noteq> x \<Longrightarrow> uses cols y (A'\<lparr>at_point := q\<rparr>) \<longleftrightarrow> uses cols y A"
  shows "sems_ok NC cols s'"
proof -
  obtain s1 where "shop_V x s = Some s1" "s' = goto w A' q s1" using assms(4) by (auto simp: bind_eq_Some_conv)
  then show ?thesis using assms by (intro sems_V [of NC cols s w A x s1 s' A' q "A'\<lparr>at_point := q\<rparr>"]) simp_all
qed

lemma sems_gate_step:
  assumes "sems_ok NC cols s" and "agents s w = Some A" and "gate x"
    and "\<And>y. uses cols y (A'\<lparr>at_point := q\<rparr>) \<longleftrightarrow> uses cols y A"
  shows "shop_P x s \<bind> (\<lambda>s. Some (goto w A' q s)) = Some s' \<Longrightarrow> sems_ok NC cols s'"
    and "shop_V x s \<bind> (\<lambda>s. Some (goto w A' q s)) = Some s' \<Longrightarrow> sems_ok NC cols s'"
proof -
  have *: "sems_ok NC cols (goto w A' q (s\<lparr>sema := (sema s)(x := c)\<rparr>))" for c
    using assms(3,4) by (intro sems_local [OF assms(1,2), of _ "A'\<lparr>at_point := q\<rparr>"]) auto
  show "sems_ok NC cols s'" if "shop_P x s \<bind> (\<lambda>s. Some (goto w A' q s)) = Some s'"
    using that * by (auto simp: bind_eq_Some_conv shop_P_def)
  show "sems_ok NC cols s'" if "shop_V x s \<bind> (\<lambda>s. Some (goto w A' q s)) = Some s'"
    using that * by (auto simp: bind_eq_Some_conv shop_V_def)
qed

lemma sems_goto:
  assumes "sems_ok NC cols s" and "agents s w = Some A" and "\<And>y. uses cols y (A'\<lparr>at_point := q\<rparr>) \<longleftrightarrow> uses cols y A"
  shows "sems_ok NC cols (goto w A' q s)" "sems_ok NC cols (goto w A' q (s\<lparr>remaining_customers := n\<rparr>))"
    "sems_ok NC cols (goto w A' q (s\<lparr>mixed := M\<rparr>))"
  by (rule sems_local [OF assms(1,2), of _ "A'\<lparr>at_point := q\<rparr>"], use assms(3) in simp_all)+

lemmas use_simps = uses_def held_def gate_def counting_def

text \<open>Putting a can into a free slot, and taking one out.\<close>

lemma sems_fill:
  assumes i: "sems_ok NC cols s" and A: "agents s w = Some A" "agents s' = (agents s)(w \<mapsto> B)" and m: "sema s' = sema s"
    and x: "counting x" and b: "buf x s' = (buf x s)[j := Some k]" "\<And>y. y \<noteq> x \<Longrightarrow> buf y s' = buf y s"
    and j: "j < length (buf x s)" "buf x s ! j = None"
    and u: "uses cols x A" "\<not> uses cols x B" "\<And>y. y \<noteq> x \<Longrightarrow> uses cols y B \<longleftrightarrow> uses cols y A"
  shows "sems_ok NC cols s'"
proof (rule sems_buffer [OF i A m x])
  have "j \<notin> slots x s" using j by (simp add: slots_def occupied_def)
  then show "uses cols x A \<and> \<not> uses cols x B \<and> j \<notin> slots x s \<and> slots x s' = insert j (slots x s) \<or>
      \<not> uses cols x A \<and> uses cols x B \<and> j \<in> slots x s \<and> slots x s' = slots x s - {j}"
    using u b(1) j(1) by (simp add: slots_def occupied_upd)
qed (use b(2) u(3) in \<open>simp_all add: slots_def\<close>)

lemma sems_drain:
  assumes i: "sems_ok NC cols s" and A: "agents s w = Some A" "agents s' = (agents s)(w \<mapsto> B)" and m: "sema s' = sema s"
    and x: "counting x" and b: "buf x s' = (buf x s)[j := None]" "\<And>y. y \<noteq> x \<Longrightarrow> buf y s' = buf y s"
    and j: "j < length (buf x s)" "buf x s ! j \<noteq> None"
    and u: "\<not> uses cols x A" "uses cols x B" "\<And>y. y \<noteq> x \<Longrightarrow> uses cols y B \<longleftrightarrow> uses cols y A"
  shows "sems_ok NC cols s'"
proof (rule sems_buffer [OF i A m x])
  have "j \<in> slots x s" using j by (simp add: slots_def occupied_def)
  then show "uses cols x A \<and> \<not> uses cols x B \<and> j \<notin> slots x s \<and> slots x s' = insert j (slots x s) \<or>
      \<not> uses cols x A \<and> uses cols x B \<and> j \<in> slots x s \<and> slots x s' = slots x s - {j}"
    using u b(1) j(1) by (simp add: slots_def occupied_upd)
qed (use b(2) u(3) in \<open>simp_all add: slots_def\<close>)

lemma slot_for:
  assumes i: "sems_ok NC cols s" and A: "agents s w = Some A" "uses cols x A" and x: "counting x" and len: "length (buf x s) = NC"
  shows "\<exists>j. first_index (\<lambda>y. y = None) (buf x s) = Some j \<and> j < length (buf x s) \<and> buf x s ! j = None"
proof -
  have "permits NC (unat (sema s x)) (users cols x s)" using i x by (auto simp: sems_ok_def gate_def counting_def)
  moreover have "Inl w \<in> users cols x s" using those_mem [OF A(1), of "uses cols x"] A(2) by (auto simp: users_def)
  ultimately obtain j where j: "first_index (\<lambda>y. y = None) (buf x s) = Some j"
    using free_slot [of NC _ "users cols x s" w "buf x s"] len by (auto simp: users_def slots_def)
  then show ?thesis using first_index_Some [OF j] by simp
qed

lemma sems_put_order:
  assumes i: "sems_ok NC cols s" and A: "agents s w = Some A" and k: "can A = Some k" and p: "at_point A = Put_order"
    and len: "length (order_buffer s) = NC"
  shows "sems_ok NC cols (goto w A V_order (put_order (can A) s))"
proof -
  obtain j where j: "first_index (\<lambda>y. y = None) (order_buffer s) = Some j" "j < length (order_buffer s)" "order_buffer s ! j = None"
    using slot_for [OF i A, of Order_buffer_empty] p len by (auto simp: counting_def buf_def uses_def)
  show ?thesis
    by (rule sems_fill [OF i A, of _ "A\<lparr>at_point := V_order\<rparr>" Order_buffer_empty j k])
      (use j k p in \<open>simp_all add: put_order_def use_simps buf_def split: semname.split\<close>)
qed

lemma sems_put_delivery:
  assumes i: "sems_ok NC cols s" and A: "agents s w = Some A" and k: "can A = Some k" and p: "at_point A = Put_delivery"
    and len: "length (delivery_buffer s) = NC"
  shows "sems_ok NC cols (goto w A V_serve (put_delivery (can A) s))"
proof -
  obtain j where j: "first_index (\<lambda>y. y = None) (delivery_buffer s) = Some j" "j < length (delivery_buffer s)" "delivery_buffer s ! j = None"
    using slot_for [OF i A, of Delivery_buffer_empty] p len by (auto simp: counting_def buf_def uses_def)
  show ?thesis
    by (rule sems_fill [OF i A, of _ "A\<lparr>at_point := V_serve\<rparr>" Delivery_buffer_empty j k])
      (use j k p in \<open>simp_all add: put_delivery_def use_simps buf_def split: semname.split\<close>)
qed

lemma sems_find_can:
  assumes i: "sems_ok NC cols s" and A: "agents s w = Some A" and k: "can A = Some k" and p: "at_point A = Find_can" "\<not> is_found A"
    and f: "find_can (can A) s = (b, s1)"
  shows "sems_ok NC cols (goto w (A\<lparr>is_found := is_found A \<or> b\<rparr>) V_delivery s1)"
proof (cases "first_index (\<lambda>x. x = can A) (delivery_buffer s)")
  case None
  then have s1: "b = False" "s1 = s" using f by (auto simp: find_can_def)
  show ?thesis unfolding s1
    by (rule sems_goto(1) [OF i A]) (use p in \<open>simp add: use_simps split: semname.split\<close>)
next
  case (Some j)
  note j = first_index_Some [OF Some]
  have s1: "b = True" "s1 = s\<lparr>delivery_buffer := (delivery_buffer s)[j := None]\<rparr>" using f Some by (auto simp: find_can_def)
  show ?thesis unfolding s1
    by (rule sems_drain [OF i A, of _ "A\<lparr>is_found := True, at_point := V_delivery\<rparr>" Delivery_buffer_empty j])
      (use j k p in \<open>simp_all add: use_simps buf_def split: semname.split\<close>)
qed

lemma sems_find_order:
  assumes i: "sems_ok NC cols s" and A: "agents s w = Some A" and p: "at_point A = Find_order" "\<not> is_found A"
  shows "sems_ok NC cols (case find_order s of None \<Rightarrow> goto w A V_take s
    | Some (k, s) \<Rightarrow> goto w (A\<lparr>can := k, is_found := True\<rparr>) V_take s)"
proof (cases "first_index (\<lambda>x. x \<noteq> None) (order_buffer s)")
  case None
  have "sems_ok NC cols (goto w A V_take s)"
    by (rule sems_goto(1) [OF i A]) (use p in \<open>simp add: use_simps split: semname.split\<close>)
  then show ?thesis using None by (simp add: find_order_def)
next
  case (Some j)
  note j = first_index_Some [OF Some]
  show ?thesis
    by (rule sems_drain [OF i A, of _ "A\<lparr>can := order_buffer s ! j, is_found := True, at_point := V_take\<rparr>" Order_buffer_empty j])
      (use j p Some in \<open>simp_all add: find_order_def use_simps buf_def split: semname.split option.split\<close>)
qed

lemma customer_step_sems:
  assumes i: "sems_ok NC cols s" and A: "agents s w = Some A" and ok: "agent_ok cols A"
    and len: "length (order_buffer s) = NC" "length (delivery_buffer s) = NC" and st: "customer_step w A s = Some s'"
  shows "sems_ok NC cols s'"
proof (cases "at_point A")
  case P_order_empty
  show ?thesis
    by (rule sems_P_step [OF i A _ st [unfolded customer_step_def P_order_empty point.case]])
      (use P_order_empty in \<open>simp_all add: use_simps split: semname.split\<close>)
next
  case P_order
  show ?thesis
    by (rule sems_P_step [OF i A _ st [unfolded customer_step_def P_order point.case]])
      (use P_order in \<open>simp_all add: use_simps split: semname.split\<close>)
next
  case V_order
  show ?thesis
    by (rule sems_V_step [OF i A _ st [unfolded customer_step_def V_order point.case]])
      (use V_order in \<open>simp_all add: use_simps split: semname.split\<close>)
next
  case V_order_full
  show ?thesis
    by (rule sems_gate_step(2) [OF i A _ _ st [unfolded customer_step_def V_order_full point.case]])
      (use V_order_full in \<open>simp_all add: use_simps split: semname.split\<close>)
next
  case P_ready
  show ?thesis
    by (rule sems_gate_step(1) [OF i A _ _ st [unfolded customer_step_def P_ready point.case]])
      (use P_ready in \<open>simp_all add: use_simps split: semname.split\<close>)
next
  case P_delivery
  show ?thesis
    by (rule sems_P_step [OF i A _ st [unfolded customer_step_def P_delivery point.case]])
      (use P_delivery in \<open>simp_all add: use_simps split: semname.split\<close>)
next
  case V_delivery
  show ?thesis
    by (rule sems_V_step [OF i A _ st [unfolded customer_step_def V_delivery point.case]])
      (use V_delivery in \<open>simp_all add: use_simps split: semname.split\<close>)
next
  case V_ready
  show ?thesis
    by (rule sems_gate_step(2) [OF i A _ _ st [unfolded customer_step_def V_ready point.case]])
      (use V_ready in \<open>simp_all add: use_simps split: semname.split\<close>)
next
  case V_delivery_empty
  show ?thesis
    by (rule sems_V_step [OF i A _ st [unfolded customer_step_def V_delivery_empty point.case]])
      (use V_delivery_empty in \<open>simp_all add: use_simps split: semname.split\<close>)
next
  case P_remaining
  show ?thesis
    by (rule sems_P_step [OF i A _ st [unfolded customer_step_def P_remaining point.case]])
      (use P_remaining in \<open>simp_all add: use_simps split: semname.split\<close>)
next
  case V_remaining
  show ?thesis
    by (rule sems_V_step [OF i A _ st [unfolded customer_step_def V_remaining point.case]])
      (use V_remaining in \<open>simp_all add: use_simps split: semname.split\<close>)
next
  case Put_order
  then show ?thesis using st sems_put_order [OF i A _ Put_order len(1)] agent_okD(1) [OF ok] by (auto simp: customer_step_def has_ordered_def)
next
  case Find_can
  then show ?thesis using st sems_find_can [OF i A _ Find_can] agent_okD(1,2) [OF ok]
    by (auto simp: customer_step_def has_ordered_def split: prod.splits)
next
  case Test_found
  show ?thesis using st Test_found
    by (auto simp: customer_step_def use_simps intro!: sems_goto [OF i A] split: semname.split if_splits)
next
  case Go_home
  show ?thesis using st Go_home
    by (auto simp: customer_step_def use_simps intro!: sems_goto [OF i A] split: semname.split if_splits)
qed (use st in \<open>simp_all add: customer_step_def\<close>)

text \<open>The loops over the colours: one round changes the holders of one tint.\<close>

lemma uses_tint:
  "can A = Some k \<Longrightarrow> uses cols y (A\<lparr>at_point := P_colour j\<rparr>) \<longleftrightarrow>
    (case y of Tints_mutex \<Rightarrow> True | Access_specific_tints c \<Rightarrow> c \<noteq> 0 \<and> c \<in> set (take j (cols k)) | _ \<Rightarrow> False)"
  "can A = Some k \<Longrightarrow> uses cols y (A\<lparr>at_point := V_tints\<rparr>) \<longleftrightarrow>
    (case y of Tints_mutex \<Rightarrow> True | Access_specific_tints c \<Rightarrow> c \<noteq> 0 \<and> c \<in> set (cols k) | _ \<Rightarrow> False)"
  "can A = Some k \<Longrightarrow> uses cols y (A\<lparr>at_point := V_colour j\<rparr>) \<longleftrightarrow>
    (case y of Access_specific_tints c \<Rightarrow> c \<noteq> 0 \<and> c \<in> set (drop j (cols k)) | _ \<Rightarrow> False)"
  "\<not> uses cols y (A\<lparr>at_point := P_delivery_empty\<rparr>)"
  by (simp_all add: uses_def held_def split: semname.split)

lemma tints_round:
  "j < length cs \<Longrightarrow> set (take (Suc j) cs) = insert (cs ! j) (set (take j cs))"
  "j < length cs \<Longrightarrow> set (drop j cs) = insert (cs ! j) (set (drop (Suc j) cs))"
  by (simp add: take_Suc_conv_app_nth) (metis Cons_nth_drop_Suc list.simps(15))

lemma colours_P:
  assumes i: "sems_ok NC cols s" and A: "agents s w = Some A" and p: "at_point A = P_colour j" and k: "can A = Some k"
    and st: "(if j < length (cols k) then do { s \<leftarrow> colour_round shop_P NCOLOURS (cols k) j s; Some (goto w A (P_colour (j + 1)) s) }
      else Some (goto w A V_tints s)) = Some s'"
  shows "sems_ok NC cols s'"
proof -
  have A': "A = A\<lparr>at_point := P_colour j\<rparr>" using p by simp
  note u = uses_tint(1,2) [OF k] and old = uses_tint(1) [OF k, of cols _ j, folded A']
  consider "j < length (cols k)" "cols k ! j \<noteq> 0" | "j < length (cols k)" "cols k ! j = 0" | "\<not> j < length (cols k)" by blast
  then show ?thesis
  proof cases
    case 1
    have "shop_P (Access_specific_tints (cols k ! j)) s \<bind> (\<lambda>s. Some (goto w A (P_colour (Suc j)) s)) = Some s'"
      using st 1 by (auto simp: colour_round_def split: if_splits)
    then show ?thesis
      by (rule sems_P_step [OF i A, rotated])
        (auto simp: u old tints_round(1) 1 gate_def counting_def split: semname.split)
  next
    case 2
    then have "s' = goto w A (P_colour (Suc j)) s" using st by (simp add: colour_round_def)
    moreover have "sems_ok NC cols (goto w A (P_colour (Suc j)) s)"
      by (rule sems_goto(1) [OF i A]) (auto simp: u old tints_round(1) 2 split: semname.split)
    ultimately show ?thesis by simp
  next
    case 3
    then have "s' = goto w A V_tints s" using st by simp
    moreover have "sems_ok NC cols (goto w A V_tints s)"
      by (rule sems_goto(1) [OF i A]) (use 3 in \<open>simp add: u old split: semname.split\<close>)
    ultimately show ?thesis by simp
  qed
qed

lemma colours_V:
  assumes i: "sems_ok NC cols s" and A: "agents s w = Some A" and p: "at_point A = V_colour j" and ok: "agent_ok cols A" and k: "can A = Some k"
    and st: "(if j < length (cols k) then do { s \<leftarrow> colour_round shop_V NCOLOURS (cols k) j s; Some (goto w A (V_colour (j + 1)) s) }
      else Some (goto w A P_delivery_empty s)) = Some s'"
  shows "sems_ok NC cols s'"
proof -
  have A': "A = A\<lparr>at_point := V_colour j\<rparr>" using p by simp
  note u = uses_tint(3) [OF k] and old = uses_tint(3) [OF k, of cols _ j, folded A']
  consider "j < length (cols k)" "cols k ! j \<noteq> 0" | "j < length (cols k)" "cols k ! j = 0" | "\<not> j < length (cols k)" by blast
  then show ?thesis
  proof cases
    case 1
    then have d: "drop j (cols k) = cols k ! j # drop (Suc j) (cols k)" by (simp add: Cons_nth_drop_Suc)
    have "distinct (nz (drop j (cols k)))" using agent_okD(3) [OF ok] p k by (simp add: held_def)
    then have n: "cols k ! j \<notin> set (drop (Suc j) (cols k))" using 1 unfolding d by (simp add: nz_def)
    have "shop_V (Access_specific_tints (cols k ! j)) s \<bind> (\<lambda>s. Some (goto w A (V_colour (Suc j)) s)) = Some s'"
      using st 1 by (auto simp: colour_round_def split: if_splits)
    then show ?thesis
      by (rule sems_V_step [OF i A, rotated])
        (auto simp: u old tints_round(2) 1 n gate_def counting_def split: semname.split)
  next
    case 2
    then have "s' = goto w A (V_colour (Suc j)) s" using st by (simp add: colour_round_def)
    moreover have "sems_ok NC cols (goto w A (V_colour (Suc j)) s)"
      by (rule sems_goto(1) [OF i A]) (auto simp: u old tints_round(2) 2 split: semname.split)
    ultimately show ?thesis by simp
  next
    case 3
    then have "s' = goto w A P_delivery_empty s" using st by simp
    moreover have "sems_ok NC cols (goto w A P_delivery_empty s)"
      by (rule sems_goto(1) [OF i A]) (use 3 in \<open>simp add: u uses_tint(4) old split: semname.split\<close>)
    ultimately show ?thesis by simp
  qed
qed

lemma staff_step_sems:
  assumes i: "sems_ok NC cols s" and A: "agents s w = Some A" and ok: "agent_ok cols A"
    and len: "length (order_buffer s) = NC" "length (delivery_buffer s) = NC" and st: "staff_step NCOLOURS cols w A s = Some s'"
  shows "sems_ok NC cols s'"
proof (cases "at_point A")
  case P_exit
  show ?thesis
    by (rule sems_P_step [OF i A _ st [unfolded staff_step_def P_exit point.case]])
      (use P_exit in \<open>simp_all add: use_simps split: semname.split\<close>)
next
  case V_exit
  show ?thesis
    by (rule sems_V_step [OF i A _ st [unfolded staff_step_def V_exit point.case]])
      (use V_exit in \<open>simp_all add: use_simps split: semname.split\<close>)
next
  case P_order_full
  show ?thesis
    by (rule sems_gate_step(1) [OF i A _ _ st [unfolded staff_step_def P_order_full point.case]])
      (use P_order_full in \<open>simp_all add: use_simps split: semname.split\<close>)
next
  case P_take
  show ?thesis
    by (rule sems_P_step [OF i A _ st [unfolded staff_step_def P_take point.case]])
      (use P_take in \<open>simp_all add: use_simps split: semname.split\<close>)
next
  case V_take
  show ?thesis
    by (rule sems_V_step [OF i A _ st [unfolded staff_step_def V_take point.case]])
      (use V_take in \<open>simp_all add: use_simps split: semname.split\<close>)
next
  case V_full_again
  show ?thesis
    by (rule sems_gate_step(2) [OF i A _ _ st [unfolded staff_step_def V_full_again point.case]])
      (use V_full_again in \<open>simp_all add: use_simps split: semname.split\<close>)
next
  case V_order_empty
  show ?thesis
    by (rule sems_V_step [OF i A _ st [unfolded staff_step_def V_order_empty point.case]])
      (use V_order_empty in \<open>simp_all add: use_simps split: semname.split\<close>)
next
  case V_tints
  show ?thesis
    by (rule sems_V_step [OF i A _ st [unfolded staff_step_def V_tints point.case]])
      (use V_tints in \<open>simp_all add: use_simps split: semname.split\<close>)
next
  case P_delivery_empty
  show ?thesis
    by (rule sems_P_step [OF i A _ st [unfolded staff_step_def P_delivery_empty point.case]])
      (use P_delivery_empty in \<open>simp_all add: use_simps split: semname.split\<close>)
next
  case P_serve
  show ?thesis
    by (rule sems_P_step [OF i A _ st [unfolded staff_step_def P_serve point.case]])
      (use P_serve in \<open>simp_all add: use_simps split: semname.split\<close>)
next
  case V_serve
  show ?thesis
    by (rule sems_V_step [OF i A _ st [unfolded staff_step_def V_serve point.case]])
      (use V_serve in \<open>simp_all add: use_simps split: semname.split\<close>)
next
  case V_ready_cans
  show ?thesis
    by (rule sems_gate_step(2) [OF i A _ _ st [unfolded staff_step_def V_ready_cans point.case]])
      (use V_ready_cans in \<open>simp_all add: use_simps split: semname.split\<close>)
next
  case P_tints
  show ?thesis
    by (rule sems_P_step [OF i A _ st [unfolded staff_step_def P_tints point.case]])
      (use P_tints in \<open>simp_all add: use_simps split: semname.split option.split\<close>)
next
  case (P_colour j)
  then show ?thesis using st colours_P [OF i A P_colour] agent_okD(1) [OF ok] by (auto simp: staff_step_def in_hand_def)
next
  case (V_colour j)
  then show ?thesis using st colours_V [OF i A V_colour ok] agent_okD(1) [OF ok] by (auto simp: staff_step_def in_hand_def)
next
  case Find_order
  then show ?thesis using st sems_find_order [OF i A Find_order] agent_okD(2) [OF ok] by (auto simp: staff_step_def)
next
  case Put_delivery
  then show ?thesis using st sems_put_delivery [OF i A _ Put_delivery len(2)] agent_okD(1) [OF ok]
    by (auto simp: staff_step_def in_hand_def)
next
  case Mix
  then obtain k where k: "can A = Some k" using agent_okD(1) [OF ok] by (auto simp: in_hand_def)
  then show ?thesis using st Mix
    by (auto simp: staff_step_def use_simps intro!: sems_goto [OF i A] split: semname.split)
qed (use st in \<open>auto simp: staff_step_def use_simps intro!: sems_goto [OF i A] split: semname.split if_splits\<close>)

section \<open>Where the cans are\<close>

datatype place = Ordered nat | Delivered nat | Hand who

definition hold :: "shop \<Rightarrow> place \<Rightarrow> nat option" where
  "hold s p = (case p of
       Ordered i \<Rightarrow> if i < length (order_buffer s) then order_buffer s ! i else None
     | Delivered i \<Rightarrow> if i < length (delivery_buffer s) then delivery_buffer s ! i else None
     | Hand w \<Rightarrow> (case agents s w of None \<Rightarrow> None | Some A \<Rightarrow> if in_hand A then can A else None))"

text \<open>The can of \<open>A\<close> must have been mixed.\<close>

definition tinted :: "agent \<Rightarrow> bool" where
  "tinted A \<longleftrightarrow> at_point A \<in> {P_delivery_empty, P_serve, Put_delivery} \<or> (\<exists>i. at_point A = V_colour i) \<or> got A"

definition awaited :: "shop \<Rightarrow> nat set" where
  "awaited s = {k. \<exists>w A. agents s w = Some A \<and> waiting A \<and> can A = Some k}"

definition flow_ok :: "shop \<Rightarrow> bool" where
  "flow_ok s \<longleftrightarrow> (\<forall>p q k. hold s p = Some k \<and> hold s q = Some k \<longrightarrow> p = q) \<and> ran (hold s) = awaited s \<and>
     (\<forall>v w A B. agents s v = Some A \<and> agents s w = Some B \<and> has_ordered A \<and> has_ordered B \<and> can A = can B \<longrightarrow> v = w) \<and>
     (\<forall>i k. hold s (Delivered i) = Some k \<longrightarrow> k \<in> mixed s) \<and>
     (\<forall>w A k. agents s w = Some A \<and> tinted A \<and> can A = Some k \<longrightarrow> k \<in> mixed s)"

lemma flow_okD:
  assumes "flow_ok s"
  shows "hold s p = Some k \<Longrightarrow> hold s q = Some k \<Longrightarrow> p = q" "ran (hold s) = awaited s"
    "agents s v = Some A \<Longrightarrow> agents s w = Some B \<Longrightarrow> has_ordered A \<Longrightarrow> has_ordered B \<Longrightarrow> can A = can B \<Longrightarrow> v = w"
    "hold s (Delivered i) = Some k \<Longrightarrow> k \<in> mixed s"
    "agents s w = Some A \<Longrightarrow> tinted A \<Longrightarrow> can A = Some k \<Longrightarrow> k \<in> mixed s"
  using assms unfolding flow_ok_def by blast+

lemma flow_okI:
  assumes "\<And>p q k. hold s p = Some k \<Longrightarrow> hold s q = Some k \<Longrightarrow> p = q" and "ran (hold s) = awaited s"
    and "\<And>v w A B. agents s v = Some A \<Longrightarrow> agents s w = Some B \<Longrightarrow> has_ordered A \<Longrightarrow> has_ordered B \<Longrightarrow> can A = can B \<Longrightarrow> v = w"
    and "\<And>i k. hold s (Delivered i) = Some k \<Longrightarrow> k \<in> mixed s"
    and "\<And>w A k. agents s w = Some A \<Longrightarrow> tinted A \<Longrightarrow> can A = Some k \<Longrightarrow> k \<in> mixed s"
  shows "flow_ok s"
  using assms unfolding flow_ok_def by blast

lemma waiting_ordered: "waiting A \<Longrightarrow> has_ordered A" "got A \<Longrightarrow> has_ordered A" "tinted A \<Longrightarrow> in_hand A \<or> has_ordered A"
  by (auto simp: waiting_def has_ordered_def got_def tinted_def in_hand_def)

text \<open>What the flow of cans sees of an agent.\<close>

definition profile :: "agent \<Rightarrow> bool \<times> bool \<times> bool \<times> bool \<times> nat option" where
  "profile A = (in_hand A, waiting A, has_ordered A, tinted A, if in_hand A \<or> has_ordered A then can A else None)"

lemma profileD:
  assumes "profile B = profile A"
  shows "in_hand B = in_hand A" "waiting B = waiting A" "has_ordered B = has_ordered A" "tinted B = tinted A"
    "in_hand A \<or> has_ordered A \<Longrightarrow> can B = can A"
  using assms by (auto simp: profile_def split: if_splits)

lemma flow_frame:
  assumes i: "flow_ok s" and A: "agents s w = Some A" "agents s' = (agents s)(w \<mapsto> B)"
    and b: "order_buffer s' = order_buffer s" "delivery_buffer s' = delivery_buffer s" and m: "mixed s' = mixed s"
    and p: "profile B = profile A"
  shows "flow_ok s'"
proof -
  note pr = profileD [OF p]
  have h: "hold s' q = hold s q" for q
    using A b pr(1,5) by (auto simp: hold_def split: place.split)
  have ag: "agents s' v = Some C' \<Longrightarrow> \<exists>C. agents s v = Some C \<and> profile C' = profile C" for v C'
    using A p by (cases "v = w") auto
  have ga: "agents s v = Some C \<Longrightarrow> \<exists>C'. agents s' v = Some C' \<and> profile C' = profile C" for v C
    using A p by (cases "v = w") auto
  have "k \<in> awaited s' \<longleftrightarrow> k \<in> awaited s" for k
  proof
    assume "k \<in> awaited s'"
    then obtain v C' where v: "agents s' v = Some C'" "waiting C'" "can C' = Some k" by (auto simp: awaited_def)
    from ag [OF v(1)] obtain C where C: "agents s v = Some C" "profile C' = profile C" by blast
    then have "waiting C" "can C = Some k" using v profileD(2,5) [OF C(2)] waiting_ordered(1) by auto
    then show "k \<in> awaited s" using C(1) by (auto simp: awaited_def)
  next
    assume "k \<in> awaited s"
    then obtain v C where v: "agents s v = Some C" "waiting C" "can C = Some k" by (auto simp: awaited_def)
    from ga [OF v(1)] obtain C' where C: "agents s' v = Some C'" "profile C' = profile C" by blast
    then have "waiting C'" "can C' = Some k" using v profileD(2,5) [OF C(2)] waiting_ordered(1) by auto
    then show "k \<in> awaited s'" using C(1) by (auto simp: awaited_def)
  qed
  then have "awaited s' = awaited s" by blast
  moreover have "hold s' = hold s" using h by blast
  moreover have "v = u" if "agents s' v = Some C" "agents s' u = Some D" "has_ordered C" "has_ordered D" "can C = can D" for v u C D
    using ag [OF that(1)] ag [OF that(2)] flow_okD(3) [OF i] profileD(3,5) that(3-5) by metis
  moreover have "k \<in> mixed s'" if "agents s' v = Some C" "tinted C" "can C = Some k" for v C k
    using ag [OF that(1)] flow_okD(5) [OF i] profileD(4,5) waiting_ordered(3) that(2,3) m by metis
  ultimately show ?thesis using flow_okD(1,2,4) [OF i] m by (intro flow_okI) simp_all
qed

lemma hold_move:
  assumes "agents s' = (agents s)(w \<mapsto> B)"
  shows "order_buffer s' = order_buffer s \<Longrightarrow> delivery_buffer s' = delivery_buffer s \<Longrightarrow>
      hold s' = (hold s)(Hand w := if in_hand B then can B else None)"
    and "i < length (order_buffer s) \<Longrightarrow> order_buffer s' = (order_buffer s)[i := x] \<Longrightarrow> delivery_buffer s' = delivery_buffer s \<Longrightarrow>
      hold s' = (hold s)(Ordered i := x, Hand w := if in_hand B then can B else None)"
    and "i < length (delivery_buffer s) \<Longrightarrow> delivery_buffer s' = (delivery_buffer s)[i := x] \<Longrightarrow> order_buffer s' = order_buffer s \<Longrightarrow>
      hold s' = (hold s)(Delivered i := x, Hand w := if in_hand B then can B else None)"
  using assms by (auto simp: hold_def fun_eq_iff nth_list_update split: place.split)

lemma hold_Hand: "agents s w = Some A \<Longrightarrow> hold s (Hand w) = (if in_hand A then can A else None)"
  by (simp add: hold_def)

text \<open>A can that its customer has not put down yet, or has picked up again, is nowhere else.\<close>

lemma not_held:
  assumes i: "flow_ok s" and A: "agents s w = Some A" "can A = Some k" "has_ordered A" "\<not> waiting A"
  shows "k \<notin> awaited s" and "hold s p \<noteq> Some k"
proof -
  show n: "k \<notin> awaited s"
  proof
    assume "k \<in> awaited s"
    then obtain v B where v: "agents s v = Some B" "waiting B" "can B = Some k" by (auto simp: awaited_def)
    then have "v = w" using flow_okD(3) [OF i v(1) A(1)] waiting_ordered(1) A(2,3) by auto
    then show False using v A by simp
  qed
  then show "hold s p \<noteq> Some k" using flow_okD(2) [OF i] by (metis ranI)
qed

lemma agents_split:
  "agents s w = Some A \<Longrightarrow> (\<exists>v C. agents s v = Some C \<and> Q C) \<longleftrightarrow> (\<exists>v C. v \<noteq> w \<and> agents s v = Some C \<and> Q C) \<or> Q A"
  by (metis option.inject)

lemma awaited_split:
  assumes "agents s w = Some A"
  shows "k \<in> awaited s \<longleftrightarrow> (\<exists>v C. v \<noteq> w \<and> agents s v = Some C \<and> waiting C \<and> can C = Some k) \<or> waiting A \<and> can A = Some k"
  unfolding awaited_def mem_Collect_eq by (rule agents_split [OF assms])

lemma awaited_move:
  assumes "agents s w = Some A" and "agents s' = (agents s)(w \<mapsto> B)"
  shows "waiting A \<Longrightarrow> waiting B \<Longrightarrow> can B = can A \<Longrightarrow> awaited s' = awaited s"
    and "\<not> waiting A \<Longrightarrow> \<not> waiting B \<Longrightarrow> awaited s' = awaited s"
    and "\<not> waiting A \<Longrightarrow> waiting B \<Longrightarrow> can B = Some k \<Longrightarrow> awaited s' = insert k (awaited s)"
proof -
  have "agents s' w = Some B" "v \<noteq> w \<Longrightarrow> agents s' v = agents s v" for v using assms(2) by simp_all
  note sp = awaited_split [OF assms(1)] awaited_split [OF this(1)] this(2)
  show "awaited s' = awaited s" if "waiting A" "waiting B" "can B = can A"
    using that by (intro set_eqI) (simp add: sp cong: conj_cong)
  show "awaited s' = awaited s" if "\<not> waiting A" "\<not> waiting B"
    using that by (intro set_eqI) (simp add: sp cong: conj_cong)
  show "awaited s' = insert k (awaited s)" if "\<not> waiting A" "waiting B" "can B = Some k"
    using that by (intro set_eqI) (auto simp add: sp cong: conj_cong)
qed

lemma awaited_drop:
  assumes i: "flow_ok s" and A: "agents s w = Some A" "waiting A" "can A = Some k" "agents s' = (agents s)(w \<mapsto> B)" "\<not> waiting B"
  shows "awaited s' = awaited s - {k}"
proof -
  have "v = w" if "agents s v = Some C" "waiting C" "can C = Some k" for v C
    using flow_okD(3) [OF i that(1) A(1)] that(2,3) A(2,3) waiting_ordered(1) by auto
  then have "(\<exists>v C. v \<noteq> w \<and> agents s v = Some C \<and> waiting C \<and> can C = Some k) \<longleftrightarrow> False" by blast
  moreover have "agents s' w = Some B" "v \<noteq> w \<Longrightarrow> agents s' v = agents s v" for v using A(4) by simp_all
  note sp = awaited_split [OF A(1)] awaited_split [OF this(1)] this(2)
  ultimately show ?thesis using A(2,3,5) by (intro set_eqI) (auto simp add: sp cong: conj_cong)
qed

text \<open>The third clause, that no two customers wait for one can, is kept by every step but an order.\<close>

lemma owners_move:
  assumes i: "flow_ok s" and A: "agents s w = Some A" "agents s' = (agents s)(w \<mapsto> B)"
    and o: "has_ordered B \<Longrightarrow> has_ordered A \<and> can B = can A"
    and v: "agents s' v = Some C" "agents s' u = Some D" "has_ordered C" "has_ordered D" "can C = can D"
  shows "v = u"
proof -
  have "\<exists>C'. agents s x = Some C' \<and> has_ordered C' \<and> can C' = can E" if "agents s' x = Some E" "has_ordered E" for x E
  proof (cases "x = w")
    case True
    then show ?thesis using that A o by simp
  qed (use that A(2) in simp)
  from this [OF v(1,3)] this [OF v(2,4)] show ?thesis using flow_okD(3) [OF i] v(5) by metis
qed

text \<open>Maps that have each value at most once: adding, removing and moving one.\<close>

definition once :: "('p \<rightharpoonup> 'k) \<Rightarrow> bool" where
  "once H \<longleftrightarrow> (\<forall>p q k. H p = Some k \<and> H q = Some k \<longrightarrow> p = q)"

lemma once_add: "once H \<Longrightarrow> k \<notin> ran H \<Longrightarrow> H p = None \<Longrightarrow> once (H(p \<mapsto> k)) \<and> ran (H(p \<mapsto> k)) = insert k (ran H)"
  by (auto simp: once_def ran_def [of H])

lemma once_drop:
  assumes "once H" and "H p = Some k"
  shows "once (H(p := None)) \<and> ran (H(p := None)) = ran H - {k}"
proof -
  have "x \<in> ran (H(p := None)) \<longleftrightarrow> x \<in> ran H - {k}" for x
  proof
    assume "x \<in> ran (H(p := None))"
    then obtain a where a: "a \<noteq> p" "H a = Some x" by (auto simp: ran_def split: if_splits)
    then have "x \<noteq> k" using assms unfolding once_def by blast
    then show "x \<in> ran H - {k}" using a(2) by (auto intro: ranI)
  next
    assume "x \<in> ran H - {k}"
    then obtain a where "H a = Some x" "x \<noteq> k" by (auto simp: ran_def)
    then have "(H(p := None)) a = Some x" using assms(2) by auto
    then show "x \<in> ran (H(p := None))" by (rule ranI)
  qed
  then show ?thesis using assms(1) by (auto simp: once_def)
qed

lemma once_move:
  assumes "once H" and "H p = Some k" and "H q = None"
  shows "once (H(p := None, q \<mapsto> k)) \<and> ran (H(p := None, q \<mapsto> k)) = ran H"
proof -
  have d: "once (H(p := None))" "ran (H(p := None)) = ran H - {k}" using once_drop [OF assms(1,2)] by auto
  moreover have "(H(p := None)) q = None" using assms(3) by simp
  moreover have "k \<in> ran H" using assms(2) by (rule ranI)
  ultimately show ?thesis using once_add [OF d(1), of k q] by auto
qed

lemma flow_once: "flow_ok s \<Longrightarrow> once (hold s)"
  using flow_okD(1) by (auto simp: once_def)

lemma tinted_move:
  assumes i: "flow_ok s" and A: "agents s' = (agents s)(w \<mapsto> B)" and m: "mixed s \<subseteq> mixed s'"
    and B: "\<And>k. tinted B \<Longrightarrow> can B = Some k \<Longrightarrow> k \<in> mixed s'"
    and v: "agents s' v = Some C" "tinted C" "can C = Some k"
  shows "k \<in> mixed s'"
proof (cases "v = w")
  case True
  then show ?thesis using v A B by simp
next
  case False
  then show ?thesis using v A flow_okD(5) [OF i] m by auto
qed

text \<open>
  A step of an agent that has not ordered or keeps its order, given what it does to the places:
  the flow is kept.
\<close>

lemma flow_change:
  assumes i: "flow_ok s" and A: "agents s w = Some A" "agents s' = (agents s)(w \<mapsto> B)"
    and o: "has_ordered B \<Longrightarrow> has_ordered A \<and> can B = can A" and m: "mixed s \<subseteq> mixed s'"
    and h: "once (hold s')" "ran (hold s') = awaited s'"
    and d: "\<And>j k. hold s' (Delivered j) = Some k \<Longrightarrow> k \<in> mixed s'"
    and B: "\<And>k. tinted B \<Longrightarrow> can B = Some k \<Longrightarrow> k \<in> mixed s'"
  shows "flow_ok s'"
proof (rule flow_okI)
  show "p = q" if "hold s' p = Some k" "hold s' q = Some k" for p q k using h(1) that by (auto simp: once_def)
  show "ran (hold s') = awaited s'" by (rule h(2))
  show "v = u" if "agents s' v = Some C" "agents s' u = Some D" "has_ordered C" "has_ordered D" "can C = can D" for v u C D
    using owners_move [OF i A o that] .
  show "k \<in> mixed s'" if "hold s' (Delivered j) = Some k" for j k by (rule d [OF that])
  show "k \<in> mixed s'" if "agents s' v = Some C" "tinted C" "can C = Some k" for v C k
    using tinted_move [OF i A(2) m B that] .
qed

lemmas point_simps = in_hand_def waiting_def has_ordered_def tinted_def got_def

lemma flow_put_order:
  assumes i: "flow_ok s" and A: "agents s w = Some A" "can A = Some k" "at_point A = Put_order"
    and j: "first_index (\<lambda>x. x = None) (order_buffer s) = Some j"
  shows "flow_ok (goto w A V_order (put_order (can A) s))" (is "flow_ok ?s")
proof -
  let ?B = "A\<lparr>at_point := V_order\<rparr>"
  note jj = first_index_Some [OF j]
  have ag: "agents ?s = (agents s)(w \<mapsto> ?B)" and b: "order_buffer ?s = (order_buffer s)[j := Some k]" "delivery_buffer ?s = delivery_buffer s"
    and m: "mixed ?s = mixed s" using j A by (simp_all add: put_order_def)
  have "hold s (Hand w) = None" "hold s (Ordered j) = None" using hold_Hand [OF A(1)] A(3) jj by (auto simp: in_hand_def hold_def)
  then have h: "hold ?s = (hold s)(Ordered j \<mapsto> k)"
    using hold_move(2) [OF ag _ b] jj by (auto simp: in_hand_def fun_eq_iff)
  have "k \<notin> ran (hold s)" using not_held(2) [OF i A(1,2)] A(3) by (auto simp: ran_def point_simps)
  from once_add [OF flow_once [OF i] this \<open>hold s (Ordered j) = None\<close>]
  have "once (hold ?s)" "ran (hold ?s) = insert k (ran (hold s))" unfolding h by simp_all
  moreover have "awaited ?s = insert k (awaited s)" using awaited_move(3) [OF A(1) ag] A by (simp add: point_simps)
  ultimately show ?thesis
    using flow_okD(2,4) [OF i] A(3) m by (intro flow_change [OF i A(1) ag]) (auto simp: h point_simps)
qed

lemma flow_find_can:
  assumes i: "flow_ok s" and A: "agents s w = Some A" "can A = Some k" "at_point A = Find_can" "\<not> is_found A"
    and f: "find_can (can A) s = (b, s1)"
  shows "flow_ok (goto w (A\<lparr>is_found := is_found A \<or> b\<rparr>) V_delivery s1)" (is "flow_ok ?s")
proof (cases "first_index (\<lambda>x. x = can A) (delivery_buffer s)")
  case None
  then have s1: "b = False" "s1 = s" using f by (auto simp: find_can_def)
  show ?thesis unfolding s1
    by (rule flow_frame [OF i A(1), where B = "A\<lparr>is_found := False, at_point := V_delivery\<rparr>"])
      (use A(3,4) in \<open>simp_all add: profile_def point_simps\<close>)
next
  case (Some j)
  note jj = first_index_Some [OF Some]
  have s1: "b = True" "s1 = s\<lparr>delivery_buffer := (delivery_buffer s)[j := None]\<rparr>" using f Some by (auto simp: find_can_def)
  let ?B = "A\<lparr>is_found := True, at_point := V_delivery\<rparr>"
  have ag: "agents ?s = (agents s)(w \<mapsto> ?B)" and b: "delivery_buffer ?s = (delivery_buffer s)[j := None]" "order_buffer ?s = order_buffer s"
    and m: "mixed ?s = mixed s" by (simp_all add: s1)
  have jk: "hold s (Delivered j) = Some k" "hold s (Hand w) = None"
    using hold_Hand [OF A(1)] A(2,3) jj by (auto simp: in_hand_def hold_def)
  then have h: "hold ?s = (hold s)(Delivered j := None)"
    using hold_move(3) [OF ag _ b] jj by (auto simp: in_hand_def fun_eq_iff)
  have "once (hold ?s)" "ran (hold ?s) = ran (hold s) - {k}" using once_drop [OF flow_once [OF i] jk(1)] unfolding h by simp_all
  moreover have "awaited ?s = awaited s - {k}"
    by (rule awaited_drop [OF i A(1) _ A(2) ag]) (use A(3) in \<open>simp_all add: point_simps\<close>)
  moreover have "k \<in> mixed s" by (rule flow_okD(4) [OF i jk(1)])
  ultimately show ?thesis
  proof (intro flow_change [OF i A(1) ag])
    show "l \<in> mixed ?s" if "hold ?s (Delivered n) = Some l" for n l
      using that flow_okD(4) [OF i, of n l]  unfolding h m by (simp split: if_splits)
  qed (use flow_okD(2) [OF i] A(2,3) m in \<open>simp_all add: point_simps\<close>)
qed

lemma flow_find_order:
  assumes i: "flow_ok s" and A: "agents s w = Some A" "at_point A = Find_order" "\<not> is_found A"
  shows "flow_ok (case find_order s of None \<Rightarrow> goto w A V_take s
    | Some (k, s) \<Rightarrow> goto w (A\<lparr>can := k, is_found := True\<rparr>) V_take s)" (is "flow_ok ?s")
proof (cases "first_index (\<lambda>x. x \<noteq> None) (order_buffer s)")
  case None
  have "flow_ok (goto w A V_take s)"
    by (rule flow_frame [OF i A(1), where B = "A\<lparr>at_point := V_take\<rparr>"])
      (use A(2,3) in \<open>simp_all add: profile_def point_simps\<close>)
  then show ?thesis using None by (simp add: find_order_def)
next
  case (Some j)
  note jj = first_index_Some [OF Some]
  then obtain k where k: "order_buffer s ! j = Some k" by auto
  let ?B = "A\<lparr>can := Some k, is_found := True, at_point := V_take\<rparr>"
  have ag: "agents ?s = (agents s)(w \<mapsto> ?B)" and b: "order_buffer ?s = (order_buffer s)[j := None]" "delivery_buffer ?s = delivery_buffer s"
    and m: "mixed ?s = mixed s" using Some k by (simp_all add: find_order_def)
  have jk: "hold s (Ordered j) = Some k" "hold s (Hand w) = None"
    using hold_Hand [OF A(1)] A(2) jj k by (auto simp: in_hand_def hold_def)
  then have h: "hold ?s = (hold s)(Ordered j := None, Hand w \<mapsto> k)"
    using hold_move(2) [OF ag _ b] jj by (simp add: in_hand_def)
  have "once (hold ?s)" "ran (hold ?s) = ran (hold s)" using once_move [OF flow_once [OF i] jk] unfolding h by simp_all
  moreover have "awaited ?s = awaited s"
    by (rule awaited_move(2) [OF A(1) ag]) (use A(2) in \<open>simp_all add: point_simps\<close>)
  ultimately show ?thesis
  proof (intro flow_change [OF i A(1) ag])
    show "l \<in> mixed ?s" if "hold ?s (Delivered n) = Some l" for n l
      using that flow_okD(4) [OF i, of n l]  unfolding h m by (simp split: if_splits)
  qed (use flow_okD(2) [OF i] A(2) m in \<open>simp_all add: point_simps\<close>)
qed

lemma flow_put_delivery:
  assumes i: "flow_ok s" and A: "agents s w = Some A" "can A = Some k" "at_point A = Put_delivery"
    and j: "first_index (\<lambda>x. x = None) (delivery_buffer s) = Some j"
  shows "flow_ok (goto w A V_serve (put_delivery (can A) s))" (is "flow_ok ?s")
proof -
  let ?B = "A\<lparr>at_point := V_serve\<rparr>"
  note jj = first_index_Some [OF j]
  have ag: "agents ?s = (agents s)(w \<mapsto> ?B)" and b: "delivery_buffer ?s = (delivery_buffer s)[j := Some k]" "order_buffer ?s = order_buffer s"
    and m: "mixed ?s = mixed s" using j A by (simp_all add: put_delivery_def)
  have jk: "hold s (Hand w) = Some k" "hold s (Delivered j) = None"
    using hold_Hand [OF A(1)] A(2,3) jj by (auto simp: in_hand_def hold_def)
  have h: "hold ?s = (hold s)(Hand w := None, Delivered j \<mapsto> k)"
    using hold_move(3) [OF ag _ b] jj by (simp add: in_hand_def fun_upd_twist)
  have "once (hold ?s)" "ran (hold ?s) = ran (hold s)" using once_move [OF flow_once [OF i] jk] unfolding h by simp_all
  moreover have "awaited ?s = awaited s"
    by (rule awaited_move(2) [OF A(1) ag]) (use A(3) in \<open>simp_all add: point_simps\<close>)
  moreover have "k \<in> mixed s" by (rule flow_okD(5) [OF i A(1) _ A(2)]) (use A(3) in \<open>simp add: point_simps\<close>)
  ultimately show ?thesis
  proof (intro flow_change [OF i A(1) ag])
    show "l \<in> mixed ?s" if "hold ?s (Delivered n) = Some l" for n l
      using that flow_okD(4) [OF i, of n l] \<open>k \<in> mixed s\<close> unfolding h m by (simp split: if_splits)
  qed (use flow_okD(2) [OF i] A(3) m in \<open>simp_all add: point_simps\<close>)
qed

lemma flow_mix:
  assumes i: "flow_ok s" and A: "agents s w = Some A" "can A = Some k" "at_point A = Mix"
  shows "flow_ok (goto w A (V_colour 0) (s\<lparr>mixed := insert k (mixed s)\<rparr>))" (is "flow_ok ?s")
proof -
  let ?B = "A\<lparr>at_point := V_colour 0\<rparr>"
  have ag: "agents ?s = (agents s)(w \<mapsto> ?B)" by simp
  have "hold ?s = hold s" using hold_move(1) [OF ag] hold_Hand [OF A(1)] A by (auto simp: in_hand_def fun_eq_iff)
  moreover have "awaited ?s = awaited s"
    by (rule awaited_move(2) [OF A(1) ag]) (use A(3) in \<open>simp_all add: point_simps\<close>)
  ultimately show ?thesis
    using flow_okD(2,4) [OF i] flow_once [OF i] A by (intro flow_change [OF i A(1) ag]) (auto simp: point_simps)
qed

lemma flow_done:
  assumes i: "flow_ok s" and A: "agents s w = Some A" "at_point A = V_delivery_empty"
  shows "flow_ok (goto w A Idle_customer (s\<lparr>sema := f\<rparr>))" (is "flow_ok ?s")
proof -
  have ag: "agents ?s = (agents s)(w \<mapsto> A\<lparr>at_point := Idle_customer\<rparr>)" by simp
  have "hold ?s = hold s" using hold_move(1) [OF ag] hold_Hand [OF A(1)] A by (auto simp: in_hand_def fun_eq_iff)
  moreover have "awaited ?s = awaited s"
    by (rule awaited_move(2) [OF A(1) ag]) (use A(2) in \<open>simp_all add: point_simps\<close>)
  ultimately show ?thesis
    using flow_okD(2,4) [OF i] flow_once [OF i] A by (intro flow_change [OF i A(1) ag]) (auto simp: point_simps)
qed

text \<open>A new order. No one waits for the can, so it is nowhere.\<close>

lemma flow_order:
  assumes i: "flow_ok s" and A: "agents s w = Some A" "at_point A = Idle_customer" and k: "k \<notin> wanted s"
  shows "flow_ok (goto w (A\<lparr>can := Some k\<rparr>) P_order_empty (s\<lparr>mixed := mixed s - {k}\<rparr>))" (is "flow_ok ?s")
proof -
  let ?B = "A\<lparr>can := Some k, at_point := P_order_empty\<rparr>"
  have ag: "agents ?s = (agents s)(w \<mapsto> ?B)" by simp
  have h: "hold ?s = hold s" using hold_move(1) [OF ag] hold_Hand [OF A(1)] A by (auto simp: in_hand_def fun_eq_iff)
  have aw: "awaited ?s = awaited s"
    by (rule awaited_move(2) [OF A(1) ag]) (use A(2) in \<open>simp_all add: point_simps\<close>)
  have free: "can C \<noteq> Some k" if "agents s v = Some C" "has_ordered C" for v C using k that by (auto simp: wanted_def)
  have nk: "k \<notin> awaited s" using k waiting_ordered(1) by (auto simp: wanted_def awaited_def)
  then have hk: "hold s p \<noteq> Some k" for p using flow_okD(2) [OF i] by (metis ranI)
  show ?thesis
  proof (rule flow_okI)
    show "p = q" if "hold ?s p = Some l" "hold ?s q = Some l" for p q l using flow_okD(1) [OF i] that unfolding h .
    show "ran (hold ?s) = awaited ?s" using flow_okD(2) [OF i] unfolding h aw .
    show "l \<in> mixed ?s" if "hold ?s (Delivered j) = Some l" for j l
      using that flow_okD(4) [OF i] hk unfolding h by auto
    show "v = u" if "agents ?s v = Some C" "agents ?s u = Some D" "has_ordered C" "has_ordered D" "can C = can D" for v u C D
    proof -
      have "x \<noteq> w \<and> agents s x = Some E \<and> can E \<noteq> Some k \<or> x = w \<and> can E = Some k"
        if "agents ?s x = Some E" "has_ordered E" for x E
        using that free [of x E] unfolding ag by (cases "x = w") auto
      from this [OF that(1,3)] this [OF that(2,4)] show ?thesis
        using that(3-5) flow_okD(3) [OF i, of v C u D] by metis
    qed
    show "l \<in> mixed ?s" if "agents ?s v = Some C" "tinted C" "can C = Some l" for v C l
    proof -
      have v: "v \<noteq> w" "agents s v = Some C" using that(1,2) unfolding ag by (auto simp: point_simps split: if_splits)
      have "l \<noteq> k"
        using waiting_ordered(3) [OF that(2)] free [OF v(2)] hk [of "Hand v"] hold_Hand [OF v(2)] that(3) by auto
      then show ?thesis using flow_okD(5) [OF i v(2) that(2,3)] by simp
    qed
  qed
qed

section \<open>Every step keeps the invariant\<close>

lemma sem_step_shape:
  "shop_P x s \<bind> (\<lambda>s. Some (goto w A q s)) = Some s' \<Longrightarrow> \<exists>f. s' = goto w A q (s\<lparr>sema := f\<rparr>)"
  "shop_V x s \<bind> (\<lambda>s. Some (goto w A q s)) = Some s' \<Longrightarrow> \<exists>f. s' = goto w A q (s\<lparr>sema := f\<rparr>)"
  by (auto simp: shop_P_def shop_V_def bind_eq_Some_conv)

lemma round_shape:
  assumes "colour_round op NCOLOURS cs j s = Some s1" and "op = shop_P \<or> op = shop_V"
  shows "\<exists>f. s1 = s\<lparr>sema := f\<rparr>"
proof -
  have "\<exists>f. s = s\<lparr>sema := f\<rparr>" by (rule exI [of _ "sema s"]) simp
  then show ?thesis
    using assms by (auto simp: colour_round_def shop_P_def shop_V_def bind_eq_Some_conv split: if_splits)
qed

lemma colours_shape:
  assumes "(if j < n then do { s \<leftarrow> colour_round op NCOLOURS cs j s; Some (goto w A q1 s) } else Some (goto w A q2 s)) = Some s'"
    and "op = shop_P \<or> op = shop_V"
  shows "\<exists>f q. s' = goto w A q (s\<lparr>sema := f\<rparr>) \<and> (q = q1 \<or> q = q2)"
proof (cases "j < n")
  case True
  then obtain s1 where "colour_round op NCOLOURS cs j s = Some s1" "s' = goto w A q1 s1"
    using assms(1) by (auto simp: bind_eq_Some_conv)
  then show ?thesis using round_shape [OF _ assms(2)] by blast
next
  case False
  then have "s' = goto w A q2 (s\<lparr>sema := sema s\<rparr>)" using assms(1) by simp
  then show ?thesis by blast
qed

lemma flow_goto:
  assumes "flow_ok s" and "agents s w = Some A" and "profile (A'\<lparr>at_point := q\<rparr>) = profile A"
  shows "flow_ok (goto w A' q (s\<lparr>sema := f\<rparr>))" "flow_ok (goto w A' q s)" "flow_ok (goto w A' q (s\<lparr>remaining_customers := n\<rparr>))"
  by (rule flow_frame [OF assms(1,2), where B = "A'\<lparr>at_point := q\<rparr>"], use assms(3) in simp_all)+

lemma flow_P_step:
  assumes "flow_ok s" and "agents s w = Some A" and "shop_P x s \<bind> (\<lambda>s. Some (goto w A' q s)) = Some s'"
    and "profile (A'\<lparr>at_point := q\<rparr>) = profile A"
  shows "flow_ok s'"
  using sem_step_shape(1) [OF assms(3)] flow_goto(1) [OF assms(1,2,4)] by auto

lemma flow_V_step:
  assumes "flow_ok s" and "agents s w = Some A" and "shop_V x s \<bind> (\<lambda>s. Some (goto w A' q s)) = Some s'"
    and "profile (A'\<lparr>at_point := q\<rparr>) = profile A"
  shows "flow_ok s'"
  using sem_step_shape(2) [OF assms(3)] flow_goto(1) [OF assms(1,2,4)] by auto

definition shop_inv :: "nat \<Rightarrow> (nat \<Rightarrow> nat list) \<Rightarrow> shop \<Rightarrow> bool" where
  "shop_inv NC cols s \<longleftrightarrow> sems_ok NC cols s \<and> flow_ok s \<and> length (order_buffer s) = NC \<and> length (delivery_buffer s) = NC \<and>
     (\<forall>w A. agents s w = Some A \<longrightarrow> agent_ok cols A)"

lemma shop_invD:
  assumes "shop_inv NC cols s"
  shows "sems_ok NC cols s" "flow_ok s" "length (order_buffer s) = NC" "length (delivery_buffer s) = NC"
    "agents s w = Some A \<Longrightarrow> agent_ok cols A"
  using assms by (simp_all add: shop_inv_def)

lemma customer_step_flow:
  assumes inv: "shop_inv NC cols s" and A: "agents s w = Some A" and st: "customer_step w A s = Some s'"
  shows "flow_ok s'"
proof -
  note i = shop_invD(2) [OF inv] and ok = shop_invD(5) [OF inv A]
  have k: "has_ordered A \<Longrightarrow> \<exists>k. can A = Some k" using agent_okD(1) [OF ok] by blast
  show ?thesis
proof (cases "at_point A")
  case P_order_empty
  show ?thesis
    by (rule flow_P_step [OF i A st [unfolded customer_step_def P_order_empty point.case]])
      (use P_order_empty ok in \<open>simp add: profile_def point_simps agent_ok_def\<close>)
next
  case P_order
  show ?thesis
    by (rule flow_P_step [OF i A st [unfolded customer_step_def P_order point.case]])
      (use P_order ok in \<open>simp add: profile_def point_simps agent_ok_def\<close>)
next
  case V_order
  show ?thesis
    by (rule flow_V_step [OF i A st [unfolded customer_step_def V_order point.case]])
      (use V_order ok in \<open>simp add: profile_def point_simps agent_ok_def\<close>)
next
  case V_order_full
  show ?thesis
    by (rule flow_V_step [OF i A st [unfolded customer_step_def V_order_full point.case]])
      (use V_order_full ok in \<open>simp add: profile_def point_simps agent_ok_def\<close>)
next
  case P_ready
  show ?thesis
    by (rule flow_P_step [OF i A st [unfolded customer_step_def P_ready point.case]])
      (use P_ready ok in \<open>simp add: profile_def point_simps agent_ok_def\<close>)
next
  case P_delivery
  show ?thesis
    by (rule flow_P_step [OF i A st [unfolded customer_step_def P_delivery point.case]])
      (use P_delivery ok in \<open>simp add: profile_def point_simps agent_ok_def\<close>)
next
  case V_delivery
  show ?thesis
    by (rule flow_V_step [OF i A st [unfolded customer_step_def V_delivery point.case]])
      (use V_delivery ok in \<open>simp add: profile_def point_simps agent_ok_def\<close>)
next
  case V_ready
  show ?thesis
    by (rule flow_V_step [OF i A st [unfolded customer_step_def V_ready point.case]])
      (use V_ready ok in \<open>simp add: profile_def point_simps agent_ok_def\<close>)
next
  case P_remaining
  show ?thesis
    by (rule flow_P_step [OF i A st [unfolded customer_step_def P_remaining point.case]])
      (use P_remaining ok in \<open>simp add: profile_def point_simps agent_ok_def\<close>)
next
  case V_remaining
  show ?thesis
    by (rule flow_V_step [OF i A st [unfolded customer_step_def V_remaining point.case]])
      (use V_remaining ok in \<open>simp add: profile_def point_simps agent_ok_def\<close>)
next
  case Put_order
  then obtain k where k: "can A = Some k" using k by (auto simp: has_ordered_def)
  obtain j where "first_index (\<lambda>y. y = None) (order_buffer s) = Some j"
    using slot_for [OF shop_invD(1) [OF inv] A, of Order_buffer_empty] shop_invD(3) [OF inv] Put_order
    by (auto simp: counting_def buf_def uses_def)
  then show ?thesis using flow_put_order [OF i A k Put_order] st Put_order by (simp add: customer_step_def)
next
  case Find_can
  then obtain k where k: "can A = Some k" using k by (auto simp: has_ordered_def)
  then show ?thesis using flow_find_can [OF i A k Find_can] agent_okD(2) [OF ok] st Find_can
    by (auto simp: customer_step_def split: prod.splits)
next
  case Test_found
  then have "s' = goto w A (if is_found A then V_delivery_empty else P_ready) s" using st by (simp add: customer_step_def)
  then show ?thesis using Test_found by (auto simp: profile_def point_simps intro!: flow_goto(2) [OF i A])
next
  case V_delivery_empty
  then obtain f where "s' = goto w A Idle_customer (s\<lparr>sema := f\<rparr>)"
    using st sem_step_shape(2) [of Delivery_buffer_empty s w A Idle_customer s'] by (auto simp: customer_step_def)
  then show ?thesis using flow_done [OF i A V_delivery_empty] by simp
next
  case Go_home
  then have "s' = goto w A V_remaining (s\<lparr>remaining_customers := remaining_customers s - 1\<rparr>)" using st by (simp add: customer_step_def)
  then show ?thesis using Go_home by (auto simp: profile_def point_simps intro!: flow_goto(3) [OF i A])
qed (use st in \<open>simp_all add: customer_step_def\<close>)
qed

lemma staff_step_flow:
  assumes inv: "shop_inv NC cols s" and A: "agents s w = Some A" and st: "staff_step NCOLOURS cols w A s = Some s'"
  shows "flow_ok s'"
proof -
  note i = shop_invD(2) [OF inv] and ok = shop_invD(5) [OF inv A]
  have k: "in_hand A \<Longrightarrow> \<exists>k. can A = Some k" using agent_okD(1) [OF ok] by blast
  show ?thesis
proof (cases "at_point A")
  case P_exit
  show ?thesis
    by (rule flow_P_step [OF i A st [unfolded staff_step_def P_exit point.case]])
      (use P_exit ok in \<open>simp add: profile_def point_simps agent_ok_def\<close>)
next
  case V_exit
  show ?thesis
    by (rule flow_V_step [OF i A st [unfolded staff_step_def V_exit point.case]])
      (use V_exit ok in \<open>simp add: profile_def point_simps agent_ok_def\<close>)
next
  case P_order_full
  show ?thesis
    by (rule flow_P_step [OF i A st [unfolded staff_step_def P_order_full point.case]])
      (use P_order_full ok in \<open>simp add: profile_def point_simps agent_ok_def\<close>)
next
  case P_take
  show ?thesis
    by (rule flow_P_step [OF i A st [unfolded staff_step_def P_take point.case]])
      (use P_take ok in \<open>simp add: profile_def point_simps agent_ok_def\<close>)
next
  case V_take
  show ?thesis
    by (rule flow_V_step [OF i A st [unfolded staff_step_def V_take point.case]])
      (use V_take ok in \<open>simp add: profile_def point_simps agent_ok_def\<close>)
next
  case V_full_again
  show ?thesis
    by (rule flow_V_step [OF i A st [unfolded staff_step_def V_full_again point.case]])
      (use V_full_again ok in \<open>simp add: profile_def point_simps agent_ok_def\<close>)
next
  case V_order_empty
  show ?thesis
    by (rule flow_V_step [OF i A st [unfolded staff_step_def V_order_empty point.case]])
      (use V_order_empty ok in \<open>simp add: profile_def point_simps agent_ok_def\<close>)
next
  case P_tints
  show ?thesis
    by (rule flow_P_step [OF i A st [unfolded staff_step_def P_tints point.case]])
      (use P_tints ok in \<open>simp add: profile_def point_simps agent_ok_def\<close>)
next
  case V_tints
  show ?thesis
    by (rule flow_V_step [OF i A st [unfolded staff_step_def V_tints point.case]])
      (use V_tints ok in \<open>simp add: profile_def point_simps agent_ok_def\<close>)
next
  case P_delivery_empty
  show ?thesis
    by (rule flow_P_step [OF i A st [unfolded staff_step_def P_delivery_empty point.case]])
      (use P_delivery_empty ok in \<open>simp add: profile_def point_simps agent_ok_def\<close>)
next
  case P_serve
  show ?thesis
    by (rule flow_P_step [OF i A st [unfolded staff_step_def P_serve point.case]])
      (use P_serve ok in \<open>simp add: profile_def point_simps agent_ok_def\<close>)
next
  case V_serve
  show ?thesis
    by (rule flow_V_step [OF i A st [unfolded staff_step_def V_serve point.case]])
      (use V_serve ok in \<open>simp add: profile_def point_simps agent_ok_def\<close>)
next
  case V_ready_cans
  show ?thesis
    by (rule flow_V_step [OF i A st [unfolded staff_step_def V_ready_cans point.case]])
      (use V_ready_cans ok in \<open>simp add: profile_def point_simps agent_ok_def\<close>)
next
  case (P_colour j)
  then obtain k where k: "can A = Some k" using k by (auto simp: in_hand_def)
  obtain f q where "s' = goto w A q (s\<lparr>sema := f\<rparr>)" "q = P_colour (j + 1) \<or> q = V_tints"
    using colours_shape [of j "length (cols k)" shop_P NCOLOURS "cols k" s w A "P_colour (j + 1)" V_tints s'] st P_colour k
    by (auto simp: staff_step_def)
  then show ?thesis using P_colour by (auto simp: profile_def point_simps intro!: flow_goto(1) [OF i A])
next
  case (V_colour j)
  then obtain k where k: "can A = Some k" using k by (auto simp: in_hand_def)
  obtain f q where "s' = goto w A q (s\<lparr>sema := f\<rparr>)" "q = V_colour (j + 1) \<or> q = P_delivery_empty"
    using colours_shape [of j "length (cols k)" shop_V NCOLOURS "cols k" s w A "V_colour (j + 1)" P_delivery_empty s'] st V_colour k
    by (auto simp: staff_step_def)
  then show ?thesis using V_colour by (auto simp: profile_def point_simps intro!: flow_goto(1) [OF i A])
next
  case Find_order
  then show ?thesis using st flow_find_order [OF i A Find_order] agent_okD(2) [OF ok] by (auto simp: staff_step_def)
next
  case Put_delivery
  then obtain k where k: "can A = Some k" using k by (auto simp: in_hand_def)
  obtain j where "first_index (\<lambda>y. y = None) (delivery_buffer s) = Some j"
    using slot_for [OF shop_invD(1) [OF inv] A, of Delivery_buffer_empty] shop_invD(4) [OF inv] Put_delivery
    by (auto simp: counting_def buf_def uses_def)
  then show ?thesis using flow_put_delivery [OF i A k Put_delivery] st Put_delivery by (simp add: staff_step_def)
next
  case Mix
  then obtain k where k: "can A = Some k" using k by (auto simp: in_hand_def)
  then show ?thesis using flow_mix [OF i A k Mix] st Mix by (simp add: staff_step_def)
next
  case Test_remaining
  then have "s' = goto w A (if remaining_customers s = 0 then P_exit else P_order_full) s" using st by (simp add: staff_step_def)
  then show ?thesis using Test_remaining by (auto simp: profile_def point_simps intro!: flow_goto(2) [OF i A])
next
  case Test_order
  then have "s' = goto w A (if is_found A then V_order_empty else Test_remaining) s" using st by (simp add: staff_step_def)
  then show ?thesis using Test_order by (auto simp: profile_def point_simps intro!: flow_goto(2) [OF i A])
qed (use st in \<open>simp_all add: staff_step_def\<close>)
qed

lemma put_sel [simp]:
  "agents (put_order k s) = agents s" "length (order_buffer (put_order k s)) = length (order_buffer s)"
  "delivery_buffer (put_order k s) = delivery_buffer s"
  "agents (put_delivery k s) = agents s" "length (delivery_buffer (put_delivery k s)) = length (delivery_buffer s)"
  "order_buffer (put_delivery k s) = order_buffer s"
  by (simp_all add: put_order_def put_delivery_def split: option.split)

lemma find_can_sel:
  "find_can k s = (b, s1) \<Longrightarrow> agents s1 = agents s \<and> length (delivery_buffer s1) = length (delivery_buffer s) \<and> order_buffer s1 = order_buffer s"
  by (auto simp: find_can_def split: option.splits)

lemma find_order_sel:
  "find_order s = Some (k, s1) \<Longrightarrow> k \<noteq> None \<and> agents s1 = agents s \<and>
    length (order_buffer s1) = length (order_buffer s) \<and> delivery_buffer s1 = delivery_buffer s"
  by (auto simp: find_order_def split: option.splits dest: first_index_Some)

lemmas step_simps = bind_eq_Some_conv shop_P_def shop_V_def

text \<open>One agent moves, its own conditions hold at its new point, and the buffers keep their lengths.\<close>

definition moves :: "(nat \<Rightarrow> nat list) \<Rightarrow> who \<Rightarrow> shop \<Rightarrow> shop \<Rightarrow> bool" where
  "moves cols w s s' \<longleftrightarrow> (\<exists>B. agents s' = (agents s)(w \<mapsto> B) \<and> agent_ok cols B) \<and>
     length (order_buffer s') = length (order_buffer s) \<and> length (delivery_buffer s') = length (delivery_buffer s)"

lemma moves_goto:
  "agents s1 = agents s \<Longrightarrow> agent_ok cols (A\<lparr>at_point := q\<rparr>) \<Longrightarrow> length (order_buffer s1) = length (order_buffer s) \<Longrightarrow>
    length (delivery_buffer s1) = length (delivery_buffer s) \<Longrightarrow> moves cols w s (goto w A q s1)"
  by (auto simp: moves_def)

lemma customer_step_moves:
  assumes ok: "agent_ok cols A" and st: "customer_step w A s = Some s'"
  shows "moves cols w s s'"
  using st ok find_can_sel [of "can A" s]
  by (cases "at_point A") (auto simp: customer_step_def step_simps agent_ok_def point_simps held_def nz_def split: prod.splits option.splits intro!: moves_goto)

lemma colours_distinct:
  assumes i: "sems_ok NC cols s" and A: "agents s w = Some A" "at_point A = P_colour j" "can A = Some k" and ok: "agent_ok cols A"
    and j: "j < length (cols k)" and r: "colour_round shop_P NCOLOURS (cols k) j s = Some s1"
  shows "distinct (nz (take (Suc j) (cols k)))"
proof -
  have d: "distinct (nz (take j (cols k)))" using agent_okD(3) [OF ok] A(2,3) by (simp add: held_def)
  have "cols k ! j \<notin> set (nz (take j (cols k)))"
  proof (cases "cols k ! j = 0")
    case False
    let ?x = "Access_specific_tints (cols k ! j)"
    obtain c where "sem_down (sema s ?x) = Some c" using r False by (auto simp: colour_round_def step_simps split: if_splits)
    moreover have "permits 1 (unat (sema s ?x)) (users cols ?x s)" using i by (auto simp: sems_ok_def gate_def counting_def)
    ultimately have "users cols ?x s = {}" using ctr.pass_one by blast
    then have "\<not> uses cols ?x A" using those_mem [OF A(1), of "uses cols ?x"] by (auto simp: users_def)
    then show ?thesis using False A(2,3) by (auto simp: uses_def held_def nz_def)
  qed (simp add: nz_def)
  then show ?thesis using d j by (auto simp: take_Suc_conv_app_nth nz_def)
qed

lemma nz_drop: "distinct (nz (drop j cs)) \<Longrightarrow> distinct (nz (drop (Suc j) cs))"
  by (cases "j < length cs") (auto simp: nz_def simp flip: Cons_nth_drop_Suc split: if_splits)

lemma staff_step_moves:
  assumes i: "sems_ok NC cols s" and A: "agents s w = Some A" and ok: "agent_ok cols A" and st: "staff_step NCOLOURS cols w A s = Some s'"
  shows "moves cols w s s'"
proof (cases "at_point A")
  case (P_colour j)
  then obtain k where k: "can A = Some k" using agent_okD(1) [OF ok] by (auto simp: in_hand_def)
  show ?thesis
  proof (cases "j < length (cols k)")
    case True
    then obtain s1 where s1: "colour_round shop_P NCOLOURS (cols k) j s = Some s1" "s' = goto w A (P_colour (j + 1)) s1"
      using st P_colour k by (auto simp: staff_step_def bind_eq_Some_conv)
    obtain f where f: "s1 = s\<lparr>sema := f\<rparr>" using round_shape [OF s1(1)] by blast
    have "agent_ok cols (A\<lparr>at_point := P_colour (j + 1)\<rparr>)"
      using colours_distinct [OF i A P_colour k ok True s1(1)] k by (simp add: agent_ok_def point_simps)
    then show ?thesis unfolding s1(2) f by (intro moves_goto) simp_all
  next
    case False
    then have "agent_ok cols (A\<lparr>at_point := V_tints\<rparr>)"
      using agent_okD(3) [OF ok] P_colour k by (simp add: agent_ok_def point_simps held_def)
    moreover have "s' = goto w A V_tints s" using st P_colour k False by (simp add: staff_step_def)
    ultimately show ?thesis by (auto intro: moves_goto)
  qed
next
  case (V_colour j)
  then obtain k where k: "can A = Some k" using agent_okD(1) [OF ok] by (auto simp: in_hand_def)
  obtain f q where s': "s' = goto w A q (s\<lparr>sema := f\<rparr>)" "q = V_colour (j + 1) \<or> q = P_delivery_empty"
    using colours_shape [of j "length (cols k)" shop_V NCOLOURS "cols k" s w A "V_colour (j + 1)" P_delivery_empty s'] st V_colour k
    by (auto simp: staff_step_def)
  have "distinct (nz (drop j (cols k)))" using agent_okD(3) [OF ok] V_colour k by (simp add: held_def)
  then have "agent_ok cols (A\<lparr>at_point := q\<rparr>)"
    using s'(2) k nz_drop by (auto simp: agent_ok_def point_simps held_def nz_def)
  then show ?thesis unfolding s'(1) by (intro moves_goto) simp_all
next
  case Find_order
  show ?thesis
  proof (cases "find_order s")
    case None
    then show ?thesis using st ok Find_order
      by (auto simp: staff_step_def agent_ok_def point_simps held_def nz_def split: option.splits intro!: moves_goto)
  next
    case (Some p)
    then obtain k s1 where p: "find_order s = Some (k, s1)" by (cases p) auto
    then show ?thesis using st ok Find_order find_order_sel [OF p]
      by (auto simp: staff_step_def agent_ok_def point_simps held_def nz_def split: option.split intro!: moves_goto)
  qed
qed (use st ok in \<open>auto simp: staff_step_def step_simps agent_ok_def point_simps held_def nz_def split: option.splits intro!: moves_goto\<close>)

lemma shop_inv_moves:
  assumes i: "shop_inv NC cols s" and m: "moves cols w s s'" and "sems_ok NC cols s'" and "flow_ok s'"
  shows "shop_inv NC cols s'"
proof -
  obtain B where B: "agents s' = (agents s)(w \<mapsto> B)" "agent_ok cols B" using m by (auto simp: moves_def)
  have "agent_ok cols C" if "agents s' v = Some C" for v C
    using that B shop_invD(5) [OF i] by (cases "v = w") auto
  then show ?thesis using assms shop_invD(3,4) [OF i] by (simp add: shop_inv_def moves_def)
qed

lemma shop_step_inv:
  assumes i: "shop_inv NC cols s" and st: "shop_step NCOLOURS cols s s'"
  shows "shop_inv NC cols s'"
  using st
proof cases
  case (order w A k)
  note ok = shop_invD(5) [OF i order(2)]
  have "sems_ok NC cols s'" unfolding order(1)
    by (rule sems_goto(3) [OF shop_invD(1) [OF i] order(2)]) (use order(3) in \<open>simp add: use_simps split: semname.split option.split\<close>)
  moreover have "flow_ok s'" unfolding order(1) by (rule flow_order [OF shop_invD(2) [OF i] order(2-4)])
  moreover have "moves cols w s s'" unfolding order(1)
    by (rule moves_goto) (use ok order(3) in \<open>simp_all add: agent_ok_def point_simps held_def nz_def split: option.splits\<close>)
  ultimately show ?thesis by (intro shop_inv_moves [OF i])
next
  case (leave w A)
  note ok = shop_invD(5) [OF i leave(2)]
  have "sems_ok NC cols s'" unfolding leave(1)
    by (rule sems_goto(1) [OF shop_invD(1) [OF i] leave(2)]) (use leave(3) in \<open>simp add: use_simps split: semname.split option.split\<close>)
  moreover have "flow_ok s'" unfolding leave(1)
    by (rule flow_goto(2) [OF shop_invD(2) [OF i] leave(2)]) (use leave(3) in \<open>simp add: profile_def point_simps\<close>)
  moreover have "moves cols w s s'" unfolding leave(1)
    by (rule moves_goto) (use ok leave(3) in \<open>simp_all add: agent_ok_def point_simps held_def nz_def split: option.splits\<close>)
  ultimately show ?thesis by (intro shop_inv_moves [OF i])
next
  case (customer w A)
  note ok = shop_invD(5) [OF i customer(1)]
  show ?thesis
    by (rule shop_inv_moves [OF i customer_step_moves [OF ok customer(2)]])
      (rule customer_step_sems [OF shop_invD(1) [OF i] customer(1) ok shop_invD(3,4) [OF i] customer(2)],
       rule customer_step_flow [OF i customer])
next
  case (staff w A)
  note ok = shop_invD(5) [OF i staff(1)]
  show ?thesis
    by (rule shop_inv_moves [OF i staff_step_moves [OF shop_invD(1) [OF i] staff(1) ok staff(2)]])
      (rule staff_step_sems [OF shop_invD(1) [OF i] staff(1) ok shop_invD(3,4) [OF i] staff(2)],
       rule staff_step_flow [OF i staff])
qed

inductive shop_reachable :: "nat \<Rightarrow> nat \<Rightarrow> nat \<Rightarrow> (nat \<Rightarrow> nat list) \<Rightarrow> shop \<Rightarrow> bool" for NC NS NCOLOURS cols where
  start: "shop_reachable NC NS NCOLOURS cols (opening_time NC NS)"
| next_step: "shop_reachable NC NS NCOLOURS cols s \<Longrightarrow> shop_step NCOLOURS cols s s' \<Longrightarrow> shop_reachable NC NS NCOLOURS cols s'"

lemma opening_agents:
  "agents (opening_time NC NS) w = Some A \<Longrightarrow> at_point A \<in> {Idle_customer, Test_remaining} \<and> can A = None \<and> \<not> is_found A"
  by (auto simp: opening_time_def paintshop_open_def split: who.splits if_splits)

lemma opening_profile:
  assumes "agents (opening_time NC NS) w = Some A"
  shows "\<not> in_hand A" "\<not> waiting A" "\<not> has_ordered A" "\<not> tinted A" "\<not> uses cols x A" "agent_ok cols A"
  using opening_agents [OF assms] by (auto simp: point_simps uses_def held_def agent_ok_def nz_def split: semname.split)

lemma opening_sel:
  "order_buffer (opening_time NC NS) = replicate NC None" "delivery_buffer (opening_time NC NS) = replicate NC None"
  "NC < 2 ^ 32 \<Longrightarrow> \<not> gate x \<Longrightarrow> unat (sema (opening_time NC NS) x) = (if counting x then NC else 1)"
  by (auto simp: opening_time_def paintshop_open_def counting_def gate_def unat_of_nat_u32 split: semname.split)

lemma shop_inv_init:
  assumes "NC < 2 ^ 32"
  shows "shop_inv NC cols (opening_time NC NS)"
proof -
  let ?s = "opening_time NC NS"
  have "slots x ?s = {}" for x by (simp add: slots_def buf_def occupied_def opening_sel split: semname.split)
  moreover have "those (uses cols x) (agents ?s) = {}" for x using opening_profile(5) by (auto simp: those_def)
  ultimately have "users cols x ?s = {}" for x by (simp add: users_def)
  then have "sems_ok NC cols ?s" using opening_sel(3) [OF assms] by (simp add: sems_ok_def permits_def)
  moreover have h: "hold ?s p = None" for p
    using opening_profile(1) by (cases p) (auto simp: hold_def opening_sel split: option.split)
  have "flow_ok ?s"
  proof (rule flow_okI)
    have "awaited ?s = {}" using opening_profile(2) by (auto simp: awaited_def)
    then show "ran (hold ?s) = awaited ?s" using h by (simp add: ran_def)
  qed (use h opening_profile(3,4) in auto)
  moreover have "agent_ok cols A" if "agents ?s w = Some A" for w A by (rule opening_profile(6) [OF that])
  ultimately show ?thesis by (simp add: shop_inv_def opening_sel)
qed

lemma shop_reachable_inv: "shop_reachable NC NS NCOLOURS cols s \<Longrightarrow> NC < 2 ^ 32 \<Longrightarrow> shop_inv NC cols s"
  by (induction rule: shop_reachable.induct) (auto intro: shop_inv_init shop_step_inv)

section \<open>Exclusion\<close>

lemma users_exclusive:
  assumes "sems_ok NC cols s" and "\<not> gate x" "\<not> counting x" and "agents s v = Some A" "uses cols x A" and "agents s w = Some B" "uses cols x B"
  shows "v = w" and "sema s x = 0"
proof -
  have p: "permits 1 (unat (sema s x)) (users cols x s)" using assms(1-3) by (auto simp: sems_ok_def)
  have m: "Inl v \<in> users cols x s" "Inl w \<in> users cols x s" using assms(4-7) by (auto simp: users_def those_def)
  show "v = w" using permits_one [OF p m] by simp
  have "card (users cols x s) \<noteq> 0" using m(1) p by (auto simp: permits_def)
  then have "unat (sema s x) = 0" using p unfolding permits_def by linarith
  then show "sema s x = 0" by (simp add: unat_eq_0)
qed

text \<open>An agent that wants a tint that it already holds waits forever, and holds up all mixing.\<close>

lemma stuck_on_own_tint:
  assumes i: "shop_inv NC cols s" and A: "agents s w = Some A" "at_point A = P_colour j" "can A = Some k"
    and j: "j < length (cols k)" "cols k ! j \<noteq> 0" "cols k ! j \<in> set (take j (cols k))" and st: "shop_step NCOLOURS cols s s'"
  shows "agents s' w = Some A"
proof -
  let ?x = "Access_specific_tints (cols k ! j)"
  have "uses cols ?x A" using A j by (simp add: uses_def held_def)
  then have "sema s ?x = 0"
    using users_exclusive(2) [OF shop_invD(1) [OF i] _ _ A(1) _ A(1), of ?x] by (simp add: gate_def counting_def)
  then have "shop_P ?x s = None" by (simp add: shop_P_def sem_down_def)
  then have no: "staff_step NCOLOURS cols w A s = None" "customer_step w A s = None"
    using A(2,3) j by (simp_all add: staff_step_def customer_step_def colour_round_def)
  have "\<exists>v B. v \<noteq> w \<and> agents s' = (agents s)(v \<mapsto> B)"
    using st
  proof cases
    case (order v C l)
    then have "v \<noteq> w" using A by auto
    then show ?thesis using order(1) by auto
  next
    case (leave v C)
    then have "v \<noteq> w" using A by auto
    then show ?thesis using leave(1) by auto
  next
    case (customer v C)
    then have "v \<noteq> w" using A no by auto
    then show ?thesis using customer_step_moves [OF shop_invD(5) [OF i customer(1)] customer(2)] by (auto simp: moves_def)
  next
    case (staff v C)
    then have "v \<noteq> w" using A no by auto
    then show ?thesis
      using staff_step_moves [OF shop_invD(1) [OF i] staff(1) shop_invD(5) [OF i staff(1)] staff(2)] by (auto simp: moves_def)
  qed
  then show ?thesis using A(1) by auto
qed

section \<open>Runs\<close>

text \<open>A given sequence of steps.\<close>

fun run :: "nat \<Rightarrow> (nat \<Rightarrow> nat list) \<Rightarrow> who list \<Rightarrow> shop \<Rightarrow> shop option" where
  "run NCOLOURS cols [] s = Some s"
| "run NCOLOURS cols (w # ws) s = do {
     A \<leftarrow> agents s w;
     s \<leftarrow> (case w of Customer _ \<Rightarrow> customer_step w A s | Staff _ \<Rightarrow> staff_step NCOLOURS cols w A s);
     run NCOLOURS cols ws s }"

lemma run_reachable:
  "shop_reachable NC NS NCOLOURS cols s \<Longrightarrow> run NCOLOURS cols ws s = Some s' \<Longrightarrow> shop_reachable NC NS NCOLOURS cols s'"
proof (induction ws arbitrary: s)
  case (Cons w ws)
  then obtain A s1 where A: "agents s w = Some A" "customer_step w A s = Some s1 \<or> staff_step NCOLOURS cols w A s = Some s1"
      "run NCOLOURS cols ws s1 = Some s'" by (cases w) (auto simp: bind_eq_Some_conv)
  then have "shop_step NCOLOURS cols s s1" by (auto intro: customer staff)
  then show ?case using Cons.IH A(3) next_step [OF Cons.prems(1)] by blast
qed simp

text \<open>One customer, one of staff, and an order of can 7.\<close>

definition first_order :: shop where
  "first_order = goto (Customer 0) \<lparr>at_point = Idle_customer, can = Some 7, is_found = False\<rparr> P_order_empty
     ((opening_time 1 1)\<lparr>mixed := {} - {7}\<rparr>)"

lemma first_order_reachable: "shop_reachable 1 1 NCOLOURS cols first_order"
proof -
  let ?A = "\<lparr>at_point = Idle_customer, can = None, is_found = False\<rparr>"
  have a: "agents (opening_time 1 1) (Customer 0) = Some ?A" by (simp add: opening_time_def paintshop_open_def)
  have "7 \<notin> wanted (opening_time 1 1)" using opening_profile(3) by (auto simp: wanted_def)
  from next_step [OF start order [OF a _ this]] show ?thesis
    by (simp add: first_order_def) (simp add: opening_time_def paintshop_open_def)
qed

definition finds :: "shop option \<Rightarrow> who \<Rightarrow> point \<Rightarrow> bool" where
  "finds r w q = (case r of None \<Rightarrow> False | Some s \<Rightarrow> (case agents s w of None \<Rightarrow> False | Some A \<Rightarrow> at_point A = q \<and> can A = Some 7))"

lemma findsE: "finds r w q \<Longrightarrow> \<exists>s A. r = Some s \<and> agents s w = Some A \<and> at_point A = q \<and> can A = Some 7"
  by (auto simp: finds_def split: option.splits)

lemma served_run:
  "finds (run 2 (\<lambda>_. [1]) (replicate 5 (Customer 0) @ replicate 22 (Staff 0) @ replicate 6 (Customer 0)) first_order)
    (Customer 0) V_delivery_empty"
  by code_simp

lemma stuck_run:
  "finds (run 2 (\<lambda>_. [1, 1]) (replicate 5 (Customer 0) @ replicate 10 (Staff 0)) first_order) (Staff 0) (P_colour 1)"
  by code_simp

section \<open>Properties\<close>

text \<open>
  C23. Whatever the interleaving, no can is lost, copied or handed over untinted: while a customer
  waits for a can after putting it into the order buffer, the can is in exactly one place, a slot
  of a buffer or the hands of one of the staff; and when \<open>order_paint\<close> is about to return, the can
  has been through \<open>mix\<close> since it was ordered and is nowhere in the shop any more.
\<close>

theorem paintshop_delivers:
  assumes "shop_reachable NC NS NCOLOURS cols s" and "NC < 2 ^ 32" and "agents s w = Some A" and "can A = Some k"
  shows "(waiting A \<longrightarrow> (\<exists>!p. hold s p = Some k)) \<and>
    (at_point A = V_delivery_empty \<longrightarrow> k \<in> mixed s \<and> (\<forall>p. hold s p \<noteq> Some k))"
proof -
  note i = shop_invD(2) [OF shop_reachable_inv [OF assms(1,2)]]
  have "\<exists>!p. hold s p = Some k" if "waiting A"
  proof -
    have "k \<in> awaited s" using assms(3,4) that by (auto simp: awaited_def)
    then obtain p where "hold s p = Some k" using flow_okD(2) [OF i] by (auto simp: ran_def)
    then show ?thesis using flow_okD(1) [OF i] by blast
  qed
  moreover have "k \<in> mixed s \<and> (\<forall>p. hold s p \<noteq> Some k)" if "at_point A = V_delivery_empty"
    using that flow_okD(5) [OF i assms(3) _ assms(4)] not_held(2) [OF i assms(3,4)] by (simp add: point_simps)
  ultimately show ?thesis by blast
qed

theorem paintshop_delivers_witness:
  "\<exists>s A. shop_reachable 1 1 2 (\<lambda>_. [1]) s \<and> agents s (Customer 0) = Some A \<and> at_point A = V_delivery_empty \<and>
    can A = Some 7 \<and> 7 \<in> mixed s \<and> (\<forall>p. hold s p \<noteq> Some 7)"
proof -
  obtain s A where s: "run 2 (\<lambda>_. [1]) (replicate 5 (Customer 0) @ replicate 22 (Staff 0) @ replicate 6 (Customer 0)) first_order = Some s"
    "agents s (Customer 0) = Some A" "at_point A = V_delivery_empty" "can A = Some 7" using findsE [OF served_run] by blast
  note r = run_reachable [OF first_order_reachable s(1)]
  show ?thesis using paintshop_delivers [OF r _ s(2,4)] r s(2-4) by auto
qed

text \<open>
  C24. While a member of staff calls \<open>mix\<close>, no other calls it with a can that asks for one of the same
  tints; at most one thread at a time works on each buffer; and the search for a free slot of
  the order buffer or of the delivery buffer always finds one.
\<close>

theorem paintshop_excludes:
  assumes "shop_reachable NC NS NCOLOURS cols s" and "NC < 2 ^ 32" and "agents s v = Some A" and "agents s w = Some B" and "v \<noteq> w"
  shows "(at_point A = Mix \<and> at_point B = Mix \<and> can A = Some j \<and> can B = Some k \<longrightarrow> set (cols j) \<inter> set (cols k) \<subseteq> {0}) \<and>
    \<not> (uses cols Order_mutex A \<and> uses cols Order_mutex B) \<and> \<not> (uses cols Delivery_mutex A \<and> uses cols Delivery_mutex B) \<and>
    (at_point A = Put_order \<longrightarrow> None \<in> set (order_buffer s)) \<and> (at_point A = Put_delivery \<longrightarrow> None \<in> set (delivery_buffer s))"
proof -
  note inv = shop_reachable_inv [OF assms(1,2)]
  note i = shop_invD(1) [OF inv]
  have ex: "\<not> (uses cols x A \<and> uses cols x B)" if "\<not> gate x" "\<not> counting x" for x
    using users_exclusive(1) [OF i that assms(3) _ assms(4)] assms(5) by blast
  have "c = 0" if "at_point A = Mix" "at_point B = Mix" "can A = Some j" "can B = Some k" "c \<in> set (cols j)" "c \<in> set (cols k)" for c
    using ex [of "Access_specific_tints c"] that by (auto simp: uses_def held_def gate_def counting_def)
  moreover have "None \<in> set (order_buffer s)" if "at_point A = Put_order"
    using slot_for [OF i assms(3), of Order_buffer_empty] shop_invD(3) [OF inv] that
    by (auto simp: counting_def buf_def uses_def) (metis nth_mem)
  moreover have "None \<in> set (delivery_buffer s)" if "at_point A = Put_delivery"
    using slot_for [OF i assms(3), of Delivery_buffer_empty] shop_invD(4) [OF inv] that
    by (auto simp: counting_def buf_def uses_def) (metis nth_mem)
  ultimately show ?thesis using ex [of Order_mutex] ex [of Delivery_mutex] by (auto simp: gate_def counting_def)
qed

theorem paintshop_excludes_witness:
  "\<exists>s A. shop_reachable 1 1 2 (\<lambda>_. [1]) s \<and> agents s (Customer 0) = Some A \<and> at_point A = P_order_empty \<and>
    \<not> (uses (\<lambda>_. [1]) Order_mutex A \<and> uses (\<lambda>_. [1]) Order_mutex \<lparr>at_point = Test_remaining, can = None, is_found = False\<rparr>)"
proof -
  have a: "agents first_order (Customer 0) = Some \<lparr>at_point = P_order_empty, can = Some 7, is_found = False\<rparr>"
    "agents first_order (Staff 0) = Some \<lparr>at_point = Test_remaining, can = None, is_found = False\<rparr>"
    by (simp_all add: first_order_def opening_time_def paintshop_open_def)
  show ?thesis using paintshop_excludes [OF first_order_reachable _ a] a(1) first_order_reachable by fastforce
qed

text \<open>
  C25. A can that asks for one tint twice stops the shop: once a member of staff that holds the tint
  reaches it again in the loop of \<open>fill_order\<close>, it stays there whatever the others do, and
  \<open>tints_mutex\<close> is never free again, so that no one else gets to \<open>mix\<close>.
\<close>

theorem paintshop_same_tint_twice:
  assumes "shop_reachable NC NS NCOLOURS cols s" and "NC < 2 ^ 32" and "agents s w = Some A" and "at_point A = P_colour j" and "can A = Some k"
    and "j < length (cols k)" and "cols k ! j \<noteq> 0" and "cols k ! j \<in> set (take j (cols k))" and "(shop_step NCOLOURS cols)\<^sup>*\<^sup>* s s'"
  shows "agents s' w = Some A \<and> sema s' Tints_mutex = 0"
proof -
  have "agents s' w = Some A \<and> shop_inv NC cols s'"
    using assms(9)
  proof (induction rule: rtranclp_induct)
    case base
    then show ?case using assms(3) shop_reachable_inv [OF assms(1,2)] by simp
  next
    case (step t u)
    then show ?case
      using stuck_on_own_tint [OF _ _ assms(4-8) step.hyps(2)] shop_step_inv [OF _ step.hyps(2)] by blast
  qed
  moreover have "uses cols Tints_mutex A" using assms(4) by (simp add: uses_def)
  ultimately show ?thesis using users_exclusive(2) [of NC cols s' Tints_mutex w A w A] shop_invD(1) by (auto simp: gate_def counting_def)
qed

theorem paintshop_same_tint_twice_witness:
  "\<exists>s A. shop_reachable 1 1 2 (\<lambda>_. [1, 1]) s \<and> agents s (Staff 0) = Some A \<and> at_point A = P_colour 1 \<and>
    (\<forall>s'. (shop_step 2 (\<lambda>_. [1, 1]))\<^sup>*\<^sup>* s s' \<longrightarrow> agents s' (Staff 0) = Some A \<and> sema s' Tints_mutex = 0)"
proof -
  obtain s A where s: "run 2 (\<lambda>_. [1, 1]) (replicate 5 (Customer 0) @ replicate 10 (Staff 0)) first_order = Some s"
    "agents s (Staff 0) = Some A" "at_point A = P_colour 1" "can A = Some 7" using findsE [OF stuck_run] by blast
  note r = run_reachable [OF first_order_reachable s(1)]
  show ?thesis using paintshop_same_tint_twice [OF r _ s(2-4)] r s(2,3) by auto
qed

end
