(* ===== verification/Millicode.thy ===== *)
theory Millicode
  imports Prelude "HOL-Library.Signed_Division"
begin

text \<open>
  The 64-bit arithmetic of \<open>common/gcc-millicode\<close>, which the compiler calls on a 32-bit
  machine. A \<open>long long\<close> is a 64-bit word seen through \<open>union uu\<close> as a high and a low
  32-bit word. Each routine computes with 32-bit words only; the lemmas show that it agrees
  with the operation on 64-bit words.
\<close>

unbundle bit_operations_syntax

section \<open>The two halves of a long long\<close>

definition ui_H :: "u64 \<Rightarrow> u32" where "ui_H x = ucast (drop_bit 32 x)"

definition ui_L :: "u64 \<Rightarrow> u32" where "ui_L x = ucast x"

definition uu :: "u32 \<Rightarrow> u32 \<Rightarrow> u64" where
  "uu h l = push_bit 32 (ucast h) OR ucast l"

definition INT_BITS :: nat where "INT_BITS = 32"

definition HALF_BITS :: nat where "HALF_BITS = 16"

definition HHALF :: "u32 \<Rightarrow> u32" where "HHALF x = drop_bit HALF_BITS x"

definition LHALF :: "u32 \<Rightarrow> u32" where "LHALF x = x AND (push_bit HALF_BITS 1 - 1)"

definition LHUP :: "u32 \<Rightarrow> u32" where "LHUP x = push_bit HALF_BITS x"

text \<open>A C comparison used as an integer.\<close>

definition cbit :: "bool \<Rightarrow> u32" where "cbit b = (if b then 1 else 0)"

section \<open>Sums, differences, bitwise operations, comparisons\<close>

definition adddi3 :: "u64 \<Rightarrow> u64 \<Rightarrow> u64" where
  "adddi3 a b =
    (let sumL = ui_L a + ui_L b;
         sumH = ui_H a + ui_H b + cbit (sumL < ui_L b)
     in uu sumH sumL)"

definition subdi3 :: "u64 \<Rightarrow> u64 \<Rightarrow> u64" where
  "subdi3 a b =
    (let diffL = ui_L a - ui_L b;
         diffH = ui_H a - ui_H b - cbit (diffL > ui_L a)
     in uu diffH diffL)"

definition negdi2 :: "u64 \<Rightarrow> u64" where
  "negdi2 a =
    (let resL = - ui_L a; resH = - ui_H a - cbit (resL > 0) in uu resH resL)"

definition anddi3 :: "u64 \<Rightarrow> u64 \<Rightarrow> u64" where
  "anddi3 a b = uu (ui_H a AND ui_H b) (ui_L a AND ui_L b)"

definition iordi3 :: "u64 \<Rightarrow> u64 \<Rightarrow> u64" where
  "iordi3 a b = uu (ui_H a OR ui_H b) (ui_L a OR ui_L b)"

definition xordi3 :: "u64 \<Rightarrow> u64 \<Rightarrow> u64" where
  "xordi3 a b = uu (ui_H a XOR ui_H b) (ui_L a XOR ui_L b)"

definition one_cmpldi2 :: "u64 \<Rightarrow> u64" where
  "one_cmpldi2 a = uu (NOT (ui_H a)) (NOT (ui_L a))"

definition cmpdi2 :: "u64 \<Rightarrow> u64 \<Rightarrow> int" where
  "cmpdi2 a b =
    (if sint (ui_H a) < sint (ui_H b) then 0 else if sint (ui_H a) > sint (ui_H b) then 2
     else if ui_L a < ui_L b then 0 else if ui_L a > ui_L b then 2 else 1)"

definition ucmpdi2 :: "u64 \<Rightarrow> u64 \<Rightarrow> int" where
  "ucmpdi2 a b =
    (if ui_H a < ui_H b then 0 else if ui_H a > ui_H b then 2
     else if ui_L a < ui_L b then 0 else if ui_L a > ui_L b then 2 else 1)"

section \<open>Shifts\<close>

text \<open>Shifting a 32-bit operand by 32 or more is undefined in C; such a shift is \<open>None\<close>.\<close>

definition shl32 :: "u32 \<Rightarrow> nat \<Rightarrow> u32 option" where
  "shl32 x n = (if n < 32 then Some (push_bit n x) else None)"

definition shr32 :: "u32 \<Rightarrow> nat \<Rightarrow> u32 option" where
  "shr32 x n = (if n < 32 then Some (drop_bit n x) else None)"

definition sar32 :: "u32 \<Rightarrow> nat \<Rightarrow> u32 option" where
  "sar32 x n = (if n < 32 then Some (signed_drop_bit n x) else None)"

definition ashldi3 :: "u64 \<Rightarrow> u32 \<Rightarrow> u64 option" where
  "ashldi3 a shift =
    (if shift = 0 then Some a
     else if unat shift \<ge> INT_BITS then do {
       h \<leftarrow> shl32 (ui_L a) (unat shift - INT_BITS);
       Some (uu h 0) }
     else do {
       h1 \<leftarrow> shl32 (ui_H a) (unat shift);
       h2 \<leftarrow> shr32 (ui_L a) (INT_BITS - unat shift);
       l \<leftarrow> shl32 (ui_L a) (unat shift);
       Some (uu (h1 OR h2) l) })"

definition lshldi3 :: "u64 \<Rightarrow> u32 \<Rightarrow> u64 option" where
  "lshldi3 a shift =
    (if shift = 0 then Some a
     else if unat shift \<ge> INT_BITS then do {
       h \<leftarrow> shl32 (ui_L a) (unat shift - INT_BITS);
       Some (uu h 0) }
     else do {
       h1 \<leftarrow> shl32 (ui_H a) (unat shift);
       h2 \<leftarrow> shr32 (ui_L a) (INT_BITS - unat shift);
       l \<leftarrow> shl32 (ui_L a) (unat shift);
       Some (uu (h1 OR h2) l) })"

definition lshrdi3 :: "u64 \<Rightarrow> u32 \<Rightarrow> u64 option" where
  "lshrdi3 a shift =
    (if shift = 0 then Some a
     else if unat shift \<ge> INT_BITS then do {
       l \<leftarrow> shr32 (ui_H a) (unat shift - INT_BITS);
       Some (uu 0 l) }
     else do {
       l1 \<leftarrow> shr32 (ui_L a) (unat shift);
       l2 \<leftarrow> shl32 (ui_H a) (INT_BITS - unat shift);
       h \<leftarrow> shr32 (ui_H a) (unat shift);
       Some (uu h (l1 OR l2)) })"

definition ashrdi3 :: "u64 \<Rightarrow> u32 \<Rightarrow> u64 option" where
  "ashrdi3 a shift =
    (if shift = 0 then Some a
     else if unat shift \<ge> INT_BITS then do {
       s \<leftarrow> sar32 (ui_H a) (INT_BITS - 1);
       s \<leftarrow> sar32 s 1;
       l \<leftarrow> sar32 (ui_H a) (unat shift - INT_BITS);
       Some (uu s l) }
     else do {
       l1 \<leftarrow> shr32 (ui_L a) (unat shift);
       l2 \<leftarrow> shl32 (ui_H a) (INT_BITS - unat shift);
       h \<leftarrow> sar32 (ui_H a) (unat shift);
       Some (uu h (l1 OR l2)) })"

section \<open>Products\<close>

definition lmulq :: "u32 \<Rightarrow> u32 \<Rightarrow> u64" where
  "lmulq u v =
    (let u1 = HHALF u; u0 = LHALF u; v1 = HHALF v; v0 = LHALF v;
         low = u0 * v0
     in if u1 = 0 \<and> v1 = 0 then ucast low
        else
          let (udiff, neg) = (if u1 \<ge> u0 then (u1 - u0, False) else (u0 - u1, True));
              (vdiff, neg) = (if v0 \<ge> v1 then (v0 - v1, neg) else (v1 - v0, \<not> neg));
              mid = udiff * vdiff;
              high = u1 * v1;
              prodh = high + HHALF high;
              prodl = LHUP high;
              was = prodl;
              (prodl, prodh) =
                (if neg then
                   (let prodl = prodl - LHUP mid
                    in (prodl, prodh - (HHALF mid + cbit (prodl > was))))
                 else
                   (let prodl = prodl + LHUP mid
                    in (prodl, prodh + (HHALF mid + cbit (prodl < was)))));
              was = prodl;
              prodl = prodl + LHUP low;
              prodh = prodh + (HHALF low + cbit (prodl < was));
              prodl = prodl + low;
              prodh = (if prodl < low then prodh + 1 else prodh)
          in uu prodh prodl)"

definition muldi3 :: "u64 \<Rightarrow> u64 \<Rightarrow> u64" where
  "muldi3 a b =
    (let (u, negall) = (if sint a \<ge> 0 then (a, False) else (- a, True));
         (v, negall) = (if sint b \<ge> 0 then (b, negall) else (- b, \<not> negall));
         u1 = ui_H u; u0 = ui_L u; v1 = ui_H v; v0 = ui_L v;
         prod =
           (if u1 = 0 \<and> v1 = 0 then lmulq u0 v0
            else
              let low = lmulq u0 v0;
                  (negmid, udiff) = (if u1 \<ge> u0 then (False, u1 - u0) else (True, u0 - u1));
                  (vdiff, negmid) = (if v0 \<ge> v1 then (v0 - v1, negmid) else (v1 - v0, \<not> negmid));
                  mid = udiff * vdiff;
                  high = u1 * v1
              in uu (high + (if negmid then - mid else mid) + ui_L low + ui_H low) (ui_L low))
     in if negall then - prod else prod)"

section \<open>Agreement with 64-bit arithmetic\<close>

lemma bit_u32_lt: "bit (x :: u32) n \<Longrightarrow> n < 32"
  using bit_imp_le_length [of x n] by simp

lemma ui_H_uu [simp]: "ui_H (uu h l) = h"
  by (rule bit_word_eqI) (auto simp: ui_H_def uu_def bit_simps dest: bit_u32_lt)

lemma ui_L_uu [simp]: "ui_L (uu h l) = l"
  by (rule bit_word_eqI) (auto simp: ui_L_def uu_def bit_simps)

lemma uu_ui [simp]: "uu (ui_H x) (ui_L x) = x"
  by (rule bit_word_eqI) (auto simp: uu_def ui_H_def ui_L_def bit_simps not_le)

lemma uu_eqI: "ui_H x = h \<Longrightarrow> ui_L x = l \<Longrightarrow> uu h l = x"
  by auto

lemma uu_ring: "uu h l = ucast h * 2 ^ 32 + ucast l"
proof -
  have "push_bit 32 (ucast h :: u64) + ucast l = push_bit 32 (ucast h) OR ucast l"
  proof (rule disjunctive_add)
    fix n
    show "\<not> bit (push_bit 32 (ucast h :: u64)) n \<or> \<not> bit (ucast l :: u64) n"
    proof (cases "n < 32")
      case True then show ?thesis by (simp add: bit_push_bit_iff)
    next
      case False then show ?thesis
        using bit_u32_lt [of l n] by (auto simp: bit_ucast_iff)
    qed
  qed
  then show ?thesis unfolding uu_def by (simp only: push_bit_eq_mult)
qed

lemma unat_sum_u32:
  fixes x y :: u32
  shows "unat x + unat y = unat (x + y) + (if x + y < y then 2 ^ 32 else 0)"
proof (cases "unat x + unat y < 2 ^ 32")
  case True
  then show ?thesis
    by (simp add: unat_plus_u32 word_less_nat_alt)
next
  case False
  have "unat (x + y) = (unat x + unat y) mod 2 ^ 32" by (simp add: unat_word_ariths)
  also have "\<dots> = unat x + unat y - 2 ^ 32"
    using False unat_u32_lt [of x] unat_u32_lt [of y] by (simp add: le_mod_geq del: unat_u32_lt)
  finally have "unat (x + y) = unat x + unat y - 2 ^ 32" .
  then show ?thesis
    using False unat_u32_lt [of x] by (simp add: word_less_nat_alt del: unat_u32_lt)
qed

lemma ucast_u32: "(ucast (x :: u32) :: u64) = of_nat (unat x)"
  by simp

lemma ucast_sum: "(ucast x + ucast y :: u64) = ucast (x + y :: u32) + (if x + y < y then 2 ^ 32 else 0)"
  using arg_cong [OF unat_sum_u32 [of x y], of "of_nat :: nat \<Rightarrow> u64"]
  by (simp add: ucast_u32 del: of_nat_unat)

lemma ucast_shift: "(ucast (x + y :: u32) :: u64) * 2 ^ 32 = ucast x * 2 ^ 32 + ucast y * 2 ^ 32"
proof -
  have "(ucast x + ucast y :: u64) * 2 ^ 32 =
      ucast (x + y) * 2 ^ 32 + (if x + y < y then 2 ^ 32 else 0) * 2 ^ 32"
    unfolding ucast_sum by (simp add: distrib_right)
  then show ?thesis
    by (simp add: distrib_right split: if_splits)
qed

lemma uu_add: "uu h l + uu h' l' = uu (h + h' + cbit (l + l' < l')) (l + l')"
proof -
  have "uu h l + uu h' l' = ucast (h + h') * 2 ^ 32 + (ucast l + ucast l')"
    unfolding ucast_shift by (simp add: uu_ring algebra_simps)
  also have "\<dots> = ucast (h + h' + cbit (l + l' < l')) * 2 ^ 32 + ucast (l + l')"
    unfolding ucast_sum by (subst (2) ucast_shift) (simp add: cbit_def)
  finally show ?thesis by (simp add: uu_ring)
qed

lemma add_less_comm: "(x :: u32) + y < y \<longleftrightarrow> x + y < x"
  using unat_sum_u32 [of x y] unat_sum_u32 [of y x]
  by (auto simp: add.commute split: if_splits)

lemma uu_sub: "uu h l - uu h' l' = uu (h - h' - cbit (l - l' > l)) (l - l')"
proof -
  have "uu (h - h' - cbit (l - l' > l)) (l - l') + uu h' l' = uu h l"
    using add_less_comm [of "l - l'" l'] by (simp add: uu_add)
  then show ?thesis by (simp add: diff_eq_eq)
qed

lemma adddi3_eq: "adddi3 a b = a + b"
proof -
  have "adddi3 a b = uu (ui_H a) (ui_L a) + uu (ui_H b) (ui_L b)"
    by (simp add: adddi3_def uu_add Let_def del: uu_ui)
  then show ?thesis by simp
qed

lemma subdi3_eq: "subdi3 a b = a - b"
proof -
  have "subdi3 a b = uu (ui_H a) (ui_L a) - uu (ui_H b) (ui_L b)"
    by (simp add: subdi3_def uu_sub Let_def del: uu_ui)
  then show ?thesis by simp
qed

lemma negdi2_eq: "negdi2 a = - a"
proof -
  have "negdi2 a = uu 0 0 - uu (ui_H a) (ui_L a)"
    by (simp add: negdi2_def uu_sub Let_def del: uu_ui)
  also have "uu 0 0 = 0" by (simp add: uu_def)
  finally show ?thesis by simp
qed

lemmas uu_bits = uu_def ui_H_def ui_L_def bit_simps

lemma bitwise_eq:
  "anddi3 a b = a AND b" "iordi3 a b = a OR b" "xordi3 a b = a XOR b" "one_cmpldi2 a = NOT a"
  by (rule bit_word_eqI,
      auto simp: anddi3_def iordi3_def xordi3_def one_cmpldi2_def uu_bits not_le)+

lemma unat_uu: "unat (uu h l) = unat h * 2 ^ 32 + unat l"
proof -
  have "unat h * 2 ^ 32 + unat l < 2 ^ 64"
    using unat_u32_lt [of h] unat_u32_lt [of l] by (simp del: unat_u32_lt)
  moreover have "uu h l = of_nat (unat h * 2 ^ 32 + unat l)"
    by (simp add: uu_ring)
  ultimately show ?thesis by (simp only: unsigned_of_nat) (simp add: take_bit_nat_eq_self)
qed

lemma lex_less:
  assumes "b < B" and "d < B"
  shows "a * B + b < c * B + d \<longleftrightarrow> a < c \<or> a = c \<and> b < (d :: nat)"
proof -
  have step: "x * B + y < z * B + w" if "x < z" "y < B" for x y z w :: nat
    using mult_le_mono1 [of "Suc x" z B] that by simp
  show ?thesis
    using step [of a c b d] step [of c a d b] assms by (cases a c rule: linorder_cases) auto
qed

lemma unat_halves: "unat x = unat (ui_H x) * 2 ^ 32 + unat (ui_L x)"
  using unat_uu [of "ui_H x" "ui_L x"] by simp

lemma u64_less_halves: "a < b \<longleftrightarrow> ui_H a < ui_H b \<or> ui_H a = ui_H b \<and> ui_L a < ui_L b"
  unfolding word_less_nat_alt unat_halves [of a] unat_halves [of b]
  by (subst lex_less) (auto simp: word_unat_eq_iff)

lemma ucmpdi2_eq: "ucmpdi2 a b = (if a < b then 0 else if a > b then 2 else 1)"
  unfolding ucmpdi2_def u64_less_halves [of a b] u64_less_halves [of b a] by auto

lemma sint_cases: "sint x = (if uint x < 2 ^ (LENGTH('a) - 1) then uint x else uint x - 2 ^ LENGTH('a))"
  for x :: "'a :: len word"
proof -
  let ?n = "LENGTH('a) - 1"
  have S: "Suc ?n = LENGTH('a)" by simp
  have u: "uint x < 2 ^ Suc ?n" unfolding S by (rule uint_lt2p)
  have b: "uint x - 2 ^ ?n < 2 ^ ?n" using u unfolding power_Suc by linarith
  have "bit (uint x) ?n \<longleftrightarrow> \<not> uint x < 2 ^ ?n"
  proof (cases "uint x < 2 ^ ?n")
    case True
    then show ?thesis by (simp add: bit_iff_odd)
  next
    case False
    then have "uint x div 2 ^ ?n = (uint x - 2 ^ ?n + 2 ^ ?n) div 2 ^ ?n" by simp
    also have "\<dots> = 1"
      using b False by (subst div_add_self2) (simp_all add: div_pos_pos_trivial)
    finally have "uint x div 2 ^ ?n = 1" .
    then show ?thesis using False by (simp add: bit_iff_odd)
  qed
  then show ?thesis
    unfolding sint_uint signed_take_bit_eq_take_bit_minus S using u
    by (simp add: take_bit_int_eq_self S)
qed

lemma lex_less_int:
  assumes "0 \<le> b" "b < 2 ^ 32" "0 \<le> d" "d < 2 ^ 32"
  shows "a * 2 ^ 32 + b < c * 2 ^ 32 + d \<longleftrightarrow> a < c \<or> a = c \<and> b < (d :: int)"
  using assms by auto

lemma sint_halves: "sint x = sint (ui_H x) * 2 ^ 32 + uint (ui_L x)"
proof -
  have split: "h * 2 ^ 32 + l < 2 ^ 63 \<longleftrightarrow> h < 2 ^ 31" if "0 \<le> l" "l < 2 ^ 32" for h l :: int
    using that by auto
  have "uint x = uint (ui_H x) * 2 ^ 32 + uint (ui_L x)"
    using arg_cong [OF unat_halves [of x], of int] by simp
  then show ?thesis
    using split [of "uint (ui_L x)" "uint (ui_H x)"] uint_lt2p [of "ui_L x"] by (simp add: sint_cases)
qed

lemma cmpdi2_eq: "cmpdi2 a b = (if sint a < sint b then 0 else if sint a > sint b then 2 else 1)"
proof -
  have "sint x < sint y \<longleftrightarrow> sint (ui_H x) < sint (ui_H y) \<or> sint (ui_H x) = sint (ui_H y) \<and> ui_L x < ui_L y"
    for x y
    unfolding sint_halves [of x] sint_halves [of y] word_less_def
    using uint_lt2p [of "ui_L x"] uint_lt2p [of "ui_L y"] by (subst lex_less_int) simp_all
  then show ?thesis unfolding cmpdi2_def by auto
qed

lemma bit_uu: "bit (uu h l) n \<longleftrightarrow> (if n < 32 then bit l n else bit h (n - 32))"
  by (auto simp: uu_def bit_simps dest: bit_u32_lt)

lemma bit_ui: "bit (ui_L x) n \<longleftrightarrow> n < 32 \<and> bit x n" "bit (ui_H x) n \<longleftrightarrow> n < 32 \<and> bit x (32 + n)"
  by (simp_all add: ui_L_def ui_H_def bit_simps)

lemma bit_u64_lt: "bit (x :: u64) n \<Longrightarrow> n < 64"
  using bit_imp_le_length [of x n] by simp

lemmas shift_defs = shl32_def shr32_def sar32_def INT_BITS_def

lemma lshldi3_eq:
  assumes "unat shift < 64"
  shows "lshldi3 a shift = Some (push_bit (unat shift) a)"
proof (cases "shift = 0")
  case False
  then have s: "0 < unat shift" by (simp add: unat_gt_0)
  show ?thesis
  proof (cases "32 \<le> unat shift")
    case True
    have "uu (push_bit (unat shift - 32) (ui_L a)) 0 = push_bit (unat shift) a"
      by (rule bit_word_eqI) (use True assms in \<open>auto simp: bit_uu bit_ui bit_simps\<close>)
    then show ?thesis using True False assms by (simp add: lshldi3_def shift_defs)
  next
    case small: False
    have "uu (push_bit (unat shift) (ui_H a) OR drop_bit (32 - unat shift) (ui_L a))
        (push_bit (unat shift) (ui_L a)) = push_bit (unat shift) a"
      by (rule bit_word_eqI)
        (use small s in \<open>auto simp: bit_uu bit_ui bit_simps not_le not_less\<close>)
    then show ?thesis using small s False by (simp add: lshldi3_def shift_defs)
  qed
qed (simp add: lshldi3_def)

lemma ashldi3_eq: "unat shift < 64 \<Longrightarrow> ashldi3 a shift = Some (push_bit (unat shift) a)"
  using lshldi3_eq unfolding lshldi3_def ashldi3_def .

lemma lshrdi3_eq:
  assumes "unat shift < 64"
  shows "lshrdi3 a shift = Some (drop_bit (unat shift) a)"
proof (cases "shift = 0")
  case False
  then have s: "0 < unat shift" by (simp add: unat_gt_0)
  show ?thesis
  proof (cases "32 \<le> unat shift")
    case True
    have "uu 0 (drop_bit (unat shift - 32) (ui_H a)) = drop_bit (unat shift) a"
      by (rule bit_word_eqI) (use True in \<open>auto simp: bit_uu bit_ui bit_simps dest: bit_u64_lt\<close>)
    then show ?thesis using True False assms by (simp add: lshrdi3_def shift_defs)
  next
    case small: False
    have "uu (drop_bit (unat shift) (ui_H a))
        (drop_bit (unat shift) (ui_L a) OR push_bit (32 - unat shift) (ui_H a)) = drop_bit (unat shift) a"
      by (rule bit_word_eqI)
        (use small s in \<open>auto simp: bit_uu bit_ui bit_simps not_le not_less add.commute [of _ "unat shift"] dest: bit_u64_lt\<close>)
    then show ?thesis using small s False by (simp add: lshrdi3_def shift_defs)
  qed
qed (simp add: lshrdi3_def)

lemma bit_sar: "bit (signed_drop_bit k x) n \<longleftrightarrow> n < LENGTH('a) \<and> bit x (min (k + n) (LENGTH('a) - 1))"
  for x :: "'a :: len word"
  by (auto simp: bit_signed_drop_bit_iff min_def not_le dest: bit_imp_le_length)

lemma ashrdi3_eq:
  assumes "unat shift < 64"
  shows "ashrdi3 a shift = Some (signed_drop_bit (unat shift) a)"
proof (cases "shift = 0")
  case False
  then have s: "0 < unat shift" by (simp add: unat_gt_0)
  show ?thesis
  proof (cases "32 \<le> unat shift")
    case True
    have "uu (signed_drop_bit 1 (signed_drop_bit 31 (ui_H a))) (signed_drop_bit (unat shift - 32) (ui_H a))
        = signed_drop_bit (unat shift) a"
      by (rule bit_word_eqI) (use True in \<open>auto simp: bit_uu bit_ui bit_sar min_def\<close>)
    then show ?thesis using True False assms by (simp add: ashrdi3_def shift_defs)
  next
    case small: False
    have "uu (signed_drop_bit (unat shift) (ui_H a))
        (drop_bit (unat shift) (ui_L a) OR push_bit (32 - unat shift) (ui_H a)) = signed_drop_bit (unat shift) a"
      by (rule bit_word_eqI)
        (use small s in \<open>auto simp: bit_uu bit_ui bit_sar bit_simps not_le not_less min_def
          add.commute [of _ "unat shift"], metis le_add_diff_inverse not_le\<close>)
    then show ?thesis using small s False by (simp add: ashrdi3_def shift_defs)
  qed
qed (simp add: ashrdi3_def)

text \<open>A shift of 64 or more reaches a 32-bit shift that C leaves undefined.\<close>

lemma shift_undefined:
  assumes "unat shift \<ge> 64"
  shows "lshldi3 a shift = None \<and> lshrdi3 a shift = None \<and> ashrdi3 a shift = None"
proof -
  have "shift \<noteq> 0" using assms by auto
  then show ?thesis using assms by (simp add: lshldi3_def lshrdi3_def ashrdi3_def shift_defs)
qed

section \<open>Multiplication\<close>

lemma unat_HHALF: "unat (HHALF x) = unat x div 2 ^ 16"
  by (simp add: HHALF_def HALF_BITS_def unat_drop_bit_eq) (simp add: drop_bit_eq_div)

lemma LHALF_mask: "LHALF x = take_bit 16 x"
  by (simp add: LHALF_def HALF_BITS_def take_bit_eq_mask mask_eq_exp_minus_1)

lemma unat_LHALF: "unat (LHALF x) = unat x mod 2 ^ 16"
  by (simp add: LHALF_mask unsigned_take_bit_eq) (simp add: take_bit_eq_mod)

lemma halves_lt: "unat (HHALF x) < 2 ^ 16" "unat (LHALF x) < 2 ^ 16"
  using unat_u32_lt [of x] by (simp_all add: unat_HHALF unat_LHALF less_mult_imp_div_less del: unat_u32_lt)

lemma uu_LHUP: "uu (HHALF x) (LHUP x) = ucast x * 2 ^ 16"
proof -
  have "uu (HHALF x) (LHUP x) = push_bit 16 (ucast x)"
    by (rule bit_word_eqI)
      (auto simp: bit_uu HHALF_def LHUP_def HALF_BITS_def bit_simps)
  then show ?thesis by (simp add: push_bit_eq_mult)
qed

lemma uu_add': "uu h l + uu h' l' = uu (h + (h' + cbit (l + l' < l))) (l + l')"
  by (simp add: uu_add add_less_comm add.assoc)

lemma uu_sub': "uu h l - uu h' l' = uu (h - (h' + cbit (l - l' > l))) (l - l')"
  by (simp add: uu_sub diff_diff_eq)

lemma uu_inc: "uu h l + ucast l' = uu (if l + l' < l' then h + 1 else h) (l + l')"
  using uu_add [of h l 0 l'] by (simp add: uu_ring [of 0] cbit_def)

lemma ucast_mult_half:
  assumes "unat x < 2 ^ 16" and "unat y < 2 ^ 16"
  shows "(ucast (x * y :: u32) :: u64) = ucast x * ucast y"
proof -
  have "unat x * unat y \<le> (2 ^ 16 - 1) * (2 ^ 16 - 1)"
    using assms by (intro mult_le_mono) simp_all
  then have "unat (x * y) = unat x * unat y" by (simp add: unat_word_ariths)
  then show ?thesis
    using ucast_u32 [of "x * y"] by (simp del: of_nat_unat) simp
qed

lemma ucast_diff: "y \<le> x \<Longrightarrow> (ucast (x - y :: u32) :: u64) = ucast x - ucast y"
  using ucast_u32 [of "x - y"]
  by (simp add: unat_sub word_le_nat_alt del: of_nat_unat) simp

lemma ucast_halves: "(ucast x :: u64) = ucast (HHALF x) * 2 ^ 16 + ucast (LHALF x)"
proof -
  have "unat x = unat (HHALF x) * 2 ^ 16 + unat (LHALF x)"
    by (simp add: unat_HHALF unat_LHALF)
  from arg_cong [OF this, of "of_nat :: nat \<Rightarrow> u64"] show ?thesis by simp
qed

text \<open>The signed middle term: the product of two absolute differences with its sign.\<close>

lemma signed_mid:
  fixes u1 u0 v1 v0 :: u32
  assumes "unat u1 < 2 ^ 16" "unat u0 < 2 ^ 16" "unat v1 < 2 ^ 16" "unat v0 < 2 ^ 16"
    and "(ud, neg) = (if u1 \<ge> u0 then (u1 - u0, False) else (u0 - u1, True))"
    and "(vd, neg') = (if v0 \<ge> v1 then (v0 - v1, neg) else (v1 - v0, \<not> neg))"
  shows "(if neg' then - ucast (ud * vd) else ucast (ud * vd)) = (ucast u1 - ucast u0) * (ucast v0 - ucast v1 :: u64)"
proof -
  have sub: "unat (x - y) < 2 ^ 16" if "unat x < 2 ^ 16" "y \<le> x" for x y :: u32
    using that by (simp add: unat_sub word_le_nat_alt)
  have "unat ud < 2 ^ 16" "unat vd < 2 ^ 16"
    using assms sub by (auto split: if_splits)
  then have "(ucast (ud * vd) :: u64) = ucast ud * ucast vd" by (rule ucast_mult_half)
  moreover have "(ucast u1 - ucast u0 :: u64) = (if neg then - ucast ud else ucast ud)"
    using assms(5) by (auto simp: ucast_diff not_le split: if_splits)
  moreover have "(ucast v0 - ucast v1 :: u64) = (if neg' = neg then ucast vd else - ucast vd)"
    using assms(6) by (auto simp: ucast_diff not_le split: if_splits)
  ultimately show ?thesis by auto
qed

lemma lmulq_eq: "lmulq u v = ucast u * ucast v"
proof -
  let ?u1 = "HHALF u" and ?u0 = "LHALF u" and ?v1 = "HHALF v" and ?v0 = "LHALF v"
  obtain ud neg where ud: "(ud, neg) = (if ?u1 \<ge> ?u0 then (?u1 - ?u0, False) else (?u0 - ?u1, True))"
    by (cases "?u1 \<ge> ?u0") auto
  obtain vd neg' where vd: "(vd, neg') = (if ?v0 \<ge> ?v1 then (?v0 - ?v1, neg) else (?v1 - ?v0, \<not> neg))"
    by (cases "?v0 \<ge> ?v1") auto
  let ?low = "?u0 * ?v0" and ?high = "?u1 * ?v1" and ?mid = "ud * vd"
  have low: "(ucast ?low :: u64) = ucast ?u0 * ucast ?v0" and high: "(ucast ?high :: u64) = ucast ?u1 * ucast ?v1"
    by (rule ucast_mult_half, rule halves_lt, rule halves_lt)+
  have mid: "(if neg' then - ucast ?mid else ucast ?mid) = (ucast ?u1 - ucast ?u0) * (ucast ?v0 - ucast ?v1 :: u64)"
    by (rule signed_mid [OF _ _ _ _ ud vd]) (simp_all only: halves_lt)
  have p1: "uu (?high + HHALF ?high) (LHUP ?high) = ucast ?high * 2 ^ 32 + ucast ?high * 2 ^ 16"
    using uu_add [of ?high 0 "HHALF ?high" "LHUP ?high"] by (simp add: uu_LHUP cbit_def uu_ring [of _ 0])
  show ?thesis
  proof (cases "?u1 = 0 \<and> ?v1 = 0")
    case True
    then show ?thesis
      by (simp add: lmulq_def Let_def low ucast_halves [of u] ucast_halves [of v])
  next
    case False
    let ?p = "uu (?high + HHALF ?high) (LHUP ?high)"
      and ?m = "uu (HHALF ?mid) (LHUP ?mid)" and ?l = "uu (HHALF ?low) (LHUP ?low)"
    have "lmulq u v = (if neg' then ?p - ?m else ?p + ?m) + ?l + ucast ?low"
      unfolding uu_add' uu_sub'
      by (simp add: lmulq_def Let_def False flip: ud vd) (simp add: uu_add' uu_inc)
    then have "lmulq u v = ucast ?high * 2 ^ 32 + ucast ?high * 2 ^ 16 +
        (if neg' then - ucast ?mid else ucast ?mid) * 2 ^ 16 + ucast ?low * 2 ^ 16 + ucast ?low"
      unfolding uu_LHUP p1 by simp
    then show ?thesis
      unfolding low high mid ucast_halves [of u] ucast_halves [of v] by (simp add: algebra_simps)
  qed
qed

lemma ucast_mult_shift: "(ucast (x * y :: u32) :: u64) * 2 ^ 32 = ucast x * ucast y * 2 ^ 32"
proof -
  have two64: "(2 ^ 64 :: u64) = 0" by simp
  have "unat x * unat y = unat (x * y) + 2 ^ 32 * (unat x * unat y div 2 ^ 32)"
    by (simp add: unat_word_ariths)
  then have "of_nat (unat x * unat y) * (2 ^ 32 :: u64)
      = of_nat (unat (x * y) + 2 ^ 32 * (unat x * unat y div 2 ^ 32)) * 2 ^ 32"
    by (rule arg_cong)
  also have "\<dots> = of_nat (unat (x * y)) * 2 ^ 32 + of_nat (unat x * unat y div 2 ^ 32) * 2 ^ 64"
    by (simp only: of_nat_add of_nat_mult of_nat_power algebra_simps of_nat_numeral) simp
  finally show ?thesis by (simp only: two64 of_nat_mult of_nat_unat mult_zero_right add_0_right)
qed

lemma ucast_neg_shift: "(ucast (- x :: u32) :: u64) * 2 ^ 32 = - (ucast x * 2 ^ 32)"
  using ucast_shift [of "- x" x] by (simp add: eq_neg_iff_add_eq_0)

lemma ucast_diff_shift: "(ucast (x - y :: u32) :: u64) * 2 ^ 32 = ucast x * 2 ^ 32 - ucast y * 2 ^ 32"
  using ucast_shift [of "x - y" y] by simp

lemma mid_shift:
  fixes u1 u0 v1 v0 :: u32
  assumes "(neg, ud) = (if u1 \<ge> u0 then (False, u1 - u0) else (True, u0 - u1))"
    and "(vd, neg') = (if v0 \<ge> v1 then (v0 - v1, neg) else (v1 - v0, \<not> neg))"
  shows "(ucast (if neg' then - (ud * vd) else ud * vd) :: u64) * 2 ^ 32 =
    (ucast u1 - ucast u0) * (ucast v0 - ucast v1) * (2 ^ 32 :: u64)"
proof -
  have "(if neg' then - (ud * vd) else ud * vd) = (u1 - u0) * (v0 - v1)"
    using assms by (auto simp: algebra_simps split: if_splits)
  then have "(ucast (if neg' then - (ud * vd) else ud * vd) :: u64) * 2 ^ 32 =
      ucast (u1 - u0) * ucast (v0 - v1) * 2 ^ 32"
    by (simp only: ucast_mult_shift)
  also have "\<dots> = ucast (u1 - u0) * 2 ^ 32 * ucast (v0 - v1)" by (simp only: ac_simps)
  also have "\<dots> = (ucast u1 - ucast u0) * (ucast (v0 - v1) * 2 ^ 32)"
    unfolding ucast_diff_shift [of u1 u0] by (simp add: algebra_simps)
  also have "\<dots> = (ucast u1 - ucast u0) * (ucast v0 - ucast v1) * 2 ^ 32"
    unfolding ucast_diff_shift by (simp add: algebra_simps)
  finally show ?thesis .
qed

lemma ui_L_shift: "ucast (ui_L x) * (2 ^ 32 :: u64) = x * 2 ^ 32"
proof -
  have "x * 2 ^ 32 = (ucast (ui_H x) * 2 ^ 32 + ucast (ui_L x)) * 2 ^ 32"
    using uu_ring [of "ui_H x" "ui_L x"] by simp
  also have "\<dots> = ucast (ui_H x) * (2 ^ 32 * 2 ^ 32) + ucast (ui_L x) * 2 ^ 32"
    by (simp only: algebra_simps)
  also have "(2 ^ 32 * 2 ^ 32 :: u64) = 0" by simp
  finally show ?thesis by simp
qed

lemma nilpotent_product:
  fixes t :: "'a :: comm_ring_1"
  assumes "t * t = 0"
  shows "(a * t + b) * (c * t + d) = a * c * t + (a - b) * (d - c) * t + b * d * t + b * d"
proof -
  have "(a * t + b) * (c * t + d) = a * c * (t * t) + (a * d + b * c) * t + b * d"
    by (simp only: algebra_simps)
  then show ?thesis using assms by (simp add: algebra_simps)
qed

text \<open>Multiplication agrees with multiplication of 64-bit words, for all operands.\<close>

lemma muldi3_eq: "muldi3 a b = a * b"
proof -
  obtain u n1 where u: "(if sint a \<ge> 0 then (a, False) else (- a, True)) = (u, n1)" by fastforce
  obtain v n where v: "(if sint b \<ge> 0 then (b, n1) else (- b, \<not> n1)) = (v, n)" by fastforce
  let ?u1 = "ui_H u" and ?u0 = "ui_L u" and ?v1 = "ui_H v" and ?v0 = "ui_L v"
  obtain ud neg where ud: "(neg, ud) = (if ?u1 \<ge> ?u0 then (False, ?u1 - ?u0) else (True, ?u0 - ?u1))"
    by (cases "?u1 \<ge> ?u0") auto
  obtain vd neg' where vd: "(vd, neg') = (if ?v0 \<ge> ?v1 then (?v0 - ?v1, neg) else (?v1 - ?v0, \<not> neg))"
    by (cases "?v0 \<ge> ?v1") auto
  let ?low = "lmulq ?u0 ?v0"
  have uv: "u = ucast ?u1 * 2 ^ 32 + ucast ?u0" "v = ucast ?v1 * 2 ^ 32 + ucast ?v0"
    using uu_ring [of ?u1 ?u0] uu_ring [of ?v1 ?v0] by simp_all
  have "uu (?u1 * ?v1 + (if neg' then - (ud * vd) else ud * vd) + ui_L ?low + ui_H ?low) (ui_L ?low)
      = ucast (?u1 * ?v1) * 2 ^ 32 + ucast (if neg' then - (ud * vd) else ud * vd) * 2 ^ 32
        + ucast (ui_L ?low) * 2 ^ 32 + (ucast (ui_H ?low) * 2 ^ 32 + ucast (ui_L ?low))"
    unfolding uu_ring ucast_shift by (simp only: add.assoc)
  also have "\<dots> = u * v"
    unfolding mid_shift [OF ud vd] ucast_mult_shift ui_L_shift uu_ring [symmetric] uu_ui lmulq_eq
    by (subst uv(1), subst uv(2), subst nilpotent_product) (simp_all only: ac_simps, simp)
  finally have big: "uu (?u1 * ?v1 + (if neg' then - (ud * vd) else ud * vd) + ui_L ?low + ui_H ?low)
      (ui_L ?low) = u * v" .
  have small: "?low = u * v" if "?u1 = 0" "?v1 = 0"
    using uv that by (simp add: lmulq_eq)
  have "muldi3 a b = (if n then - (u * v) else u * v)"
    unfolding muldi3_def Let_def u v prod.case ud [symmetric] vd [symmetric] big
    using small by simp
  then show ?thesis
    using u v by (auto split: if_splits)
qed

section \<open>Properties\<close>

text \<open>
  C14. The routines that add, subtract, negate, multiply and compare long longs in 32-bit pieces
  agree with the operations on 64-bit words, for all operands.
\<close>

theorem millicode_arithmetic:
  "adddi3 a b = a + b \<and> subdi3 a b = a - b \<and> negdi2 a = - a \<and> muldi3 a b = a * b \<and>
   anddi3 a b = a AND b \<and> iordi3 a b = a OR b \<and> xordi3 a b = a XOR b \<and> one_cmpldi2 a = NOT a \<and>
   ucmpdi2 a b = (if a < b then 0 else if a > b then 2 else 1) \<and>
   cmpdi2 a b = (if sint a < sint b then 0 else if sint a > sint b then 2 else 1)"
  by (simp only: adddi3_eq subdi3_eq negdi2_eq muldi3_eq bitwise_eq ucmpdi2_eq cmpdi2_eq)

text \<open>
  C15. Shifts of a long long by less than 64 never shift a 32-bit half by 32 or more and agree
  with the shifts on 64-bit words; the right shift of a signed number keeps the sign.
\<close>

theorem millicode_shifts:
  assumes "unat shift < 64"
  shows "ashldi3 a shift = Some (push_bit (unat shift) a) \<and> lshldi3 a shift = Some (push_bit (unat shift) a) \<and>
    lshrdi3 a shift = Some (drop_bit (unat shift) a) \<and> ashrdi3 a shift = Some (signed_drop_bit (unat shift) a)"
  using assms by (simp add: ashldi3_eq lshldi3_eq lshrdi3_eq ashrdi3_eq)

theorem millicode_shifts_witness:
  "ashldi3 5 40 = Some (push_bit 40 5) \<and> lshldi3 5 40 = Some (push_bit 40 5) \<and>
    lshrdi3 5 40 = Some (drop_bit 40 5) \<and> ashrdi3 5 40 = Some (signed_drop_bit 40 5)"
  using millicode_shifts [of 40 5] by simp

end
