(* ===== verification/Division.thy ===== *)
theory Division
  imports Millicode
begin

text \<open>
  \<open>common/gcc-millicode/qdivrem.c\<close>: 64-bit division by Knuth's Algorithm D on digits of 16
  bits, and the four division routines on top of it. The arrays \<open>uspace\<close>, \<open>vspace\<close> and
  \<open>qspace\<close> are lists of five digits, the pointers \<open>u\<close>, \<open>v\<close> and \<open>q\<close> into them are offsets
  and an access outside an array is \<open>None\<close>. The stack slots that the C code leaves
  uninitialised are arguments. The main lemma shows that the result is the quotient and the
  remainder, hence also that no access is out of bounds and every loop ends.
\<close>

unbundle bit_operations_syntax

type_synonym digit = "16 word"

abbreviation up :: "digit \<Rightarrow> u32" where "up \<equiv> ucast"

abbreviation dn :: "u32 \<Rightarrow> digit" where "dn \<equiv> ucast"

section \<open>The routines\<close>

definition B :: u32 where "B = push_bit HALF_BITS 1"

definition COMBINE :: "u32 \<Rightarrow> u32 \<Rightarrow> u32" where
  "COMBINE a b = push_bit HALF_BITS a OR b"

text \<open>\<open>shl\<close>: \<open>base\<close> is the index of \<open>p[0]\<close>.\<close>

fun shl_loop :: "nat \<Rightarrow> nat \<Rightarrow> nat \<Rightarrow> digit list \<Rightarrow> digit list option" where
  "shl_loop i 0 sh p = Some p"
| "shl_loop i (Suc k) sh p = do {
     a \<leftarrow> get_at p i;
     b \<leftarrow> get_at p (i + 1);
     p \<leftarrow> put_at i (dn (LHALF (push_bit sh (up a)) OR drop_bit (HALF_BITS - sh) (up b))) p;
     shl_loop (i + 1) k sh p }"

definition shl :: "nat \<Rightarrow> nat \<Rightarrow> nat \<Rightarrow> digit list \<Rightarrow> digit list option" where
  "shl base len sh p = do {
     p \<leftarrow> shl_loop base len sh p;
     a \<leftarrow> get_at p (base + len);
     put_at (base + len) (dn (LHALF (push_bit sh (up a)))) p }"

text \<open>The division by a single digit.\<close>

definition short_div :: "digit list \<Rightarrow> u32 \<Rightarrow> (u64 \<times> u64) option" where
  "short_div u t = do {
     u1 \<leftarrow> get_at u 1;
     u2 \<leftarrow> get_at u 2;
     u3 \<leftarrow> get_at u 3;
     u4 \<leftarrow> get_at u 4;
     let q1 = dn (up u1 div t);
     let rbj = COMBINE (up u1 mod t) (up u2);
     let q2 = dn (rbj div t);
     let rbj = COMBINE (rbj mod t) (up u3);
     let q3 = dn (rbj div t);
     let rbj = COMBINE (rbj mod t) (up u4);
     let q4 = dn (rbj div t);
     Some (uu (COMBINE (up q1) (up q2)) (COMBINE (up q3) (up q4)), ucast (rbj mod t)) }"

text \<open>
  Skipping the leading zeros of the divisor: \<open>Inl vo\<close> when a single digit is left, with \<open>v\<close>
  at offset \<open>vo\<close>; \<open>Inr (n, vo)\<close> otherwise.
\<close>

fun vskip :: "nat \<Rightarrow> nat \<Rightarrow> digit list \<Rightarrow> (nat + nat \<times> nat) option" where
  "vskip 0 vo v = None"
| "vskip (Suc n) vo v = do {
     d \<leftarrow> get_at v (vo + 1);
     if d \<noteq> 0 then Some (Inr (Suc n, vo))
     else if n = 1 then Some (Inl vo)
     else vskip n (vo + 1) v }"

function uskip :: "int \<Rightarrow> nat \<Rightarrow> digit list \<Rightarrow> (int \<times> nat) option" where
  "uskip m uo u = do {
     d \<leftarrow> get_at u (uo + 1);
     if d \<noteq> 0 then Some (m, uo) else uskip (m - 1) (uo + 1) u }"
  by pat_completeness auto
termination
  by (relation "measure (\<lambda>(m, uo, u). length u - uo)") (auto simp: get_at_def split: if_splits)

declare uskip.simps [simp del]

fun qzero :: "nat \<Rightarrow> digit list \<Rightarrow> digit list option" where
  "qzero 0 q = Some q"
| "qzero (Suc i) q = do { q \<leftarrow> put_at i 0 q; qzero i q }"

text \<open>D1: the multiplier.\<close>

partial_function (option) norm_loop :: "u32 \<Rightarrow> nat \<Rightarrow> nat option" where
  "norm_loop t d = (if t < B div 2 then norm_loop (push_bit 1 t) (d + 1) else Some d)"

text \<open>D3: the estimate of a quotient digit; \<open>toobig\<close> enters the loop at its label.\<close>

partial_function (option) qhat_loop ::
  "bool \<Rightarrow> u32 \<Rightarrow> u32 \<Rightarrow> u32 \<Rightarrow> u32 \<Rightarrow> u32 \<Rightarrow> u32 option" where
  "qhat_loop toobig v1 v2 uj2 qhat rhat =
    (if toobig \<or> v2 * qhat > COMBINE rhat uj2 then
       (let qhat = qhat - 1; rhat = rhat + v1
        in if rhat \<ge> B then Some qhat else qhat_loop False v1 v2 uj2 qhat rhat)
     else Some qhat)"

definition qhat_of :: "digit \<Rightarrow> digit \<Rightarrow> digit \<Rightarrow> digit \<Rightarrow> digit \<Rightarrow> u32 option" where
  "qhat_of v1 v2 uj0 uj1 uj2 =
    (if uj0 = v1 then qhat_loop True (up v1) (up v2) (up uj2) B (up uj1)
     else let nn = COMBINE (up uj0) (up uj1)
          in qhat_loop False (up v1) (up v2) (up uj2) (nn div up v1) (nn mod up v1))"

text \<open>D4: multiply and subtract; \<open>a\<close> is the index of \<open>u[j]\<close>, \<open>vo\<close> that of \<open>v[0]\<close>.\<close>

fun mulsub :: "nat \<Rightarrow> nat \<Rightarrow> digit list \<Rightarrow> u32 \<Rightarrow> nat \<Rightarrow> u32 \<Rightarrow> digit list \<Rightarrow> (u32 \<times> digit list) option" where
  "mulsub a vo v qhat 0 t u = Some (t, u)"
| "mulsub a vo v qhat (Suc i) t u = do {
     ui \<leftarrow> get_at u (a + Suc i);
     vi \<leftarrow> get_at v (vo + Suc i);
     let t = up ui - up vi * qhat - t;
     u \<leftarrow> put_at (a + Suc i) (dn (LHALF t)) u;
     mulsub a vo v qhat i ((B - HHALF t) AND (B - 1)) u }"

text \<open>D6: add back.\<close>

fun addback :: "nat \<Rightarrow> nat \<Rightarrow> digit list \<Rightarrow> nat \<Rightarrow> u32 \<Rightarrow> digit list \<Rightarrow> (u32 \<times> digit list) option" where
  "addback a vo v 0 t u = Some (t, u)"
| "addback a vo v (Suc i) t u = do {
     ui \<leftarrow> get_at u (a + Suc i);
     vi \<leftarrow> get_at v (vo + Suc i);
     let t = t + (up ui + up vi);
     u \<leftarrow> put_at (a + Suc i) (dn (LHALF t)) u;
     addback a vo v i (HHALF t) u }"

definition add_back_all :: "nat \<Rightarrow> nat \<Rightarrow> digit list \<Rightarrow> nat \<Rightarrow> digit list \<Rightarrow> digit list option" where
  "add_back_all a vo v n u = do {
     (t, u) \<leftarrow> addback a vo v n 0 u;
     uj \<leftarrow> get_at u a;
     put_at a (dn (LHALF (up uj + t))) u }"

definition d_step :: "nat \<Rightarrow> digit list \<Rightarrow> nat \<Rightarrow> digit \<Rightarrow> digit \<Rightarrow> nat \<Rightarrow> digit list \<Rightarrow> (u32 \<times> digit list) option" where
  "d_step vo v n v1 v2 a u = do {
     uj0 \<leftarrow> get_at u a;
     uj1 \<leftarrow> get_at u (a + 1);
     uj2 \<leftarrow> get_at u (a + 2);
     qhat \<leftarrow> qhat_of v1 v2 uj0 uj1 uj2;
     (t, u) \<leftarrow> mulsub a vo v qhat n 0 u;
     uj \<leftarrow> get_at u a;
     let t = up uj - t;
     u \<leftarrow> put_at a (dn (LHALF t)) u;
     if HHALF t \<noteq> 0 then do {
       u \<leftarrow> add_back_all a vo v n u;
       Some (qhat - 1, u) }
     else Some (qhat, u) }"

text \<open>The loop on \<open>j\<close>; \<open>a\<close> is the index of \<open>u[j]\<close>, \<open>b\<close> that of \<open>q[j]\<close>.\<close>

fun d_loop :: "nat \<Rightarrow> digit list \<Rightarrow> nat \<Rightarrow> digit \<Rightarrow> digit \<Rightarrow> nat \<Rightarrow> nat \<Rightarrow> nat \<Rightarrow> digit list \<Rightarrow> digit list \<Rightarrow>
    (digit list \<times> digit list) option" where
  "d_loop vo v n v1 v2 0 a b u q = Some (u, q)"
| "d_loop vo v n v1 v2 (Suc k) a b u q = do {
     (qhat, u) \<leftarrow> d_step vo v n v1 v2 a u;
     q \<leftarrow> put_at b (dn qhat) q;
     d_loop vo v n v1 v2 k (a + 1) (b + 1) u q }"

text \<open>The remainder \<open>u[m..m+n] >> d\<close>; \<open>a\<close> is the index of \<open>u[m]\<close>.\<close>

fun rem_loop :: "nat \<Rightarrow> nat \<Rightarrow> nat \<Rightarrow> digit list \<Rightarrow> digit list option" where
  "rem_loop a d 0 u = Some u"
| "rem_loop a d (Suc i) u = do {
     x \<leftarrow> get_at u (a + Suc i);
     y \<leftarrow> get_at u (a + i);
     u \<leftarrow> put_at (a + Suc i) (dn (drop_bit d (up x) OR LHALF (push_bit (HALF_BITS - d) (up y)))) u;
     rem_loop a d i u }"

definition quad :: "digit list \<Rightarrow> u64 option" where
  "quad s = do {
     s1 \<leftarrow> get_at s 1;
     s2 \<leftarrow> get_at s 2;
     s3 \<leftarrow> get_at s 3;
     s4 \<leftarrow> get_at s 4;
     Some (uu (COMBINE (up s1) (up s2)) (COMBINE (up s3) (up s4))) }"

definition shl_if :: "nat \<Rightarrow> nat \<Rightarrow> nat \<Rightarrow> digit list \<Rightarrow> digit list option" where
  "shl_if base len d p = (if d > 0 then shl base len d p else Some p)"

definition rem_if :: "nat \<Rightarrow> nat \<Rightarrow> nat \<Rightarrow> digit list \<Rightarrow> digit list option" where
  "rem_if a d n u = (if d \<noteq> 0 then do { u \<leftarrow> rem_loop a d n u; put_at a 0 u } else Some u)"

text \<open>Algorithm D with the divisor \<open>v[1..n]\<close> at offset \<open>vo\<close>.\<close>

definition long_div :: "bool \<Rightarrow> nat \<Rightarrow> nat \<Rightarrow> digit list \<Rightarrow> digit list \<Rightarrow> digit list \<Rightarrow> (u64 \<times> u64 option) option" where
  "long_div arq n vo u v q = do {
     (m, uo) \<leftarrow> uskip (4 - int n) 0 u;
     if m < 0 then None
     else do {
       let m = nat m;
       q \<leftarrow> qzero (4 - m) q;
       t \<leftarrow> get_at v (vo + 1);
       d \<leftarrow> norm_loop (up t) 0;
       u \<leftarrow> shl_if uo (m + n) d u;
       v \<leftarrow> shl_if (vo + 1) (n - 1) d v;
       v1 \<leftarrow> get_at v (vo + 1);
       v2 \<leftarrow> get_at v (vo + 2);
       (u, q) \<leftarrow> d_loop vo v n v1 v2 (m + 1) uo (4 - m) u q;
       r \<leftarrow> (if arq then do {
           u \<leftarrow> rem_if (uo + m) d n u;
           r \<leftarrow> quad u;
           Some (Some r) }
         else Some None);
       quot \<leftarrow> quad q;
       Some (quot, r) } }"

text \<open>
  \<open>__qdivrem\<close>: \<open>arq\<close> says whether the caller wants the remainder; \<open>v0\<close> and \<open>q\<close> are what the
  stack holds in \<open>vspace[0]\<close> and \<open>qspace\<close>. Dividing by zero traps.
\<close>

definition qdivrem :: "digit \<Rightarrow> digit list \<Rightarrow> bool \<Rightarrow> u64 \<Rightarrow> u64 \<Rightarrow> (u64 \<times> u64 option) option" where
  "qdivrem v0 q arq ull vll =
    (if vll = 0 then None
     else if ull < vll then Some (0, if arq then Some ull else None)
     else do {
       let u = [0, dn (HHALF (ui_H ull)), dn (LHALF (ui_H ull)), dn (HHALF (ui_L ull)), dn (LHALF (ui_L ull))];
       let v = [v0, dn (HHALF (ui_H vll)), dn (LHALF (ui_H vll)), dn (HHALF (ui_L vll)), dn (LHALF (ui_L vll))];
       plan \<leftarrow> vskip 4 0 v;
       case plan of
         Inl vo \<Rightarrow> do {
           t \<leftarrow> get_at v (vo + 2);
           (quot, r) \<leftarrow> short_div u (up t);
           Some (quot, if arq then Some r else None) }
       | Inr (n, vo) \<Rightarrow> long_div arq n vo u v q })"

definition udivdi3 :: "digit \<Rightarrow> digit list \<Rightarrow> u64 \<Rightarrow> u64 \<Rightarrow> u64 option" where
  "udivdi3 v0 q a b = map_option fst (qdivrem v0 q False a b)"

definition umoddi3 :: "digit \<Rightarrow> digit list \<Rightarrow> u64 \<Rightarrow> u64 \<Rightarrow> u64 option" where
  "umoddi3 v0 q a b = do { (_, r) \<leftarrow> qdivrem v0 q True a b; r }"

definition divdi3 :: "digit \<Rightarrow> digit list \<Rightarrow> u64 \<Rightarrow> u64 \<Rightarrow> u64 option" where
  "divdi3 v0 q a b = do {
     let (ua, neg) = (if sint a < 0 then (- a, True) else (a, False));
     let (ub, neg) = (if sint b < 0 then (- b, \<not> neg) else (b, neg));
     (uq, _) \<leftarrow> qdivrem v0 q False ua ub;
     Some (if neg then - uq else uq) }"

definition moddi3 :: "digit \<Rightarrow> digit list \<Rightarrow> u64 \<Rightarrow> u64 \<Rightarrow> u64 option" where
  "moddi3 v0 q a b = do {
     let (ua, neg) = (if sint a < 0 then (- a, True) else (a, False));
     let ub = (if sint b < 0 then - b else b);
     (_, r) \<leftarrow> qdivrem v0 q True ua ub;
     ur \<leftarrow> r;
     Some (if neg then - ur else ur) }"

section \<open>Digits as numbers\<close>

text \<open>The number written by \<open>k\<close> digits from index \<open>a\<close> on, the most significant first.\<close>

primrec dv :: "digit list \<Rightarrow> nat \<Rightarrow> nat \<Rightarrow> nat" where
  "dv xs a 0 = 0"
| "dv xs a (Suc k) = dv xs a k * 65536 + unat (xs ! (a + k))"

lemma unat_digit_lt [simp]: "unat (x :: digit) < 65536"
  using unsigned_less [of x] by simp

lemma unat_up [simp]: "unat (up x) = unat x"
proof -
  have "unat x < 2 ^ 32" by (rule less_trans [OF unat_digit_lt]) simp
  then show ?thesis by (simp add: unsigned_ucast_eq take_bit_nat_eq_self)
qed

lemma dv_lt: "dv xs a k < 65536 ^ k"
proof (induction k)
  case (Suc k)
  then have "dv xs a k * 65536 + 65536 \<le> 65536 ^ k * 65536" by simp
  then show ?case using unat_digit_lt [of "xs ! (a + k)"]
    by (simp del: unat_digit_lt)
qed simp

lemma dv_cong: "(\<And>i. a \<le> i \<Longrightarrow> i < a + k \<Longrightarrow> xs ! i = ys ! i) \<Longrightarrow> dv xs a k = dv ys a k"
  by (induction k) simp_all

lemma dv_update_out: "i < a \<or> a + k \<le> i \<Longrightarrow> dv (xs[i := x]) a k = dv xs a k"
  by (rule dv_cong) auto

lemma dv_append: "dv xs a (k + l) = dv xs a k * 65536 ^ l + dv xs (a + k) l"
  by (induction l) (simp_all add: algebra_simps)

lemma dv_head: "dv xs a (Suc k) = unat (xs ! a) * 65536 ^ k + dv xs (a + 1) k"
  using dv_append [of xs a 1 k] by simp

lemma dv_small_head:
  assumes "dv xs a (Suc n) < 65536 ^ n"
  shows "xs ! a = 0" and "dv xs (a + 1) n = dv xs a (Suc n)"
proof -
  have "unat (xs ! a) * 65536 ^ n < 1 * 65536 ^ n"
    using assms unfolding dv_head by (simp only: mult_1)
  then have z: "unat (xs ! a) = 0" by (simp only: mult_less_cancel2) simp
  then show "xs ! a = 0" by (simp add: word_unat_eq_iff)
  then show "dv xs (a + 1) n = dv xs a (Suc n)" unfolding dv_head by simp
qed

lemma unat_LHALF_dn: "unat (dn (LHALF x)) = unat x mod 65536"
proof -
  have "unat (dn (LHALF x)) = unat (LHALF x) mod 65536"
    by (simp add: unsigned_ucast_eq take_bit_eq_mod)
  then show ?thesis by (simp add: unat_LHALF)
qed

lemma unat_HHALF_dn: "unat (dn (HHALF x)) = unat x div 65536"
  using halves_lt(1) [of x]
  by (simp add: unsigned_ucast_eq take_bit_nat_eq_self unat_HHALF)

lemma B_val: "B = 65536" "unat B = 65536"
  by (simp_all add: B_def HALF_BITS_def)

lemma unat_COMBINE:
  assumes "unat a < 65536" and "unat b < 65536"
  shows "unat (COMBINE a b) = unat a * 65536 + unat b"
proof -
  have b: "b = take_bit 16 b"
    using assms(2) by (simp add: word_unat_eq_iff unsigned_take_bit_eq take_bit_nat_eq_self)
  have "COMBINE a b = push_bit 16 a + b"
    unfolding COMBINE_def HALF_BITS_def
    by (rule disjunctive_add [symmetric]) (subst b, auto simp: bit_simps)
  moreover have "unat (push_bit 16 a) = unat a * 65536"
    using assms(1) by (simp add: push_bit_eq_mult unat_word_ariths)
  ultimately show ?thesis
    using assms by (simp add: unat_plus_u32)
qed

section \<open>The estimate of a quotient digit\<close>

lemma unat_mult_digit:
  assumes "unat (x :: u32) < 65536" and "unat y < 65536"
  shows "unat (x * y) = unat x * unat y"
proof -
  have "unat x * unat y \<le> 65535 * 65535" using assms by (intro mult_le_mono) simp_all
  then show ?thesis by (simp add: unat_word_ariths)
qed

text \<open>
  The setting of D3: \<open>x\<close> is the part of the dividend under the divisor \<open>y\<close>, \<open>p\<close> the weight
  of the last digit that the estimate looks at.
\<close>

definition knuth :: "nat \<Rightarrow> nat \<Rightarrow> nat \<Rightarrow> nat \<Rightarrow> nat \<Rightarrow> nat \<Rightarrow> nat \<Rightarrow> nat \<Rightarrow> bool" where
  "knuth u0 u1 u2 v1 v2 p x y \<longleftrightarrow>
     u0 < 65536 \<and> u1 < 65536 \<and> u2 < 65536 \<and> v1 < 65536 \<and> v2 < 65536 \<and> 32768 \<le> v1 \<and> 0 < p \<and>
     x div p = (u0 * 65536 + u1) * 65536 + u2 \<and> y div p = v1 * 65536 + v2 \<and> x < y * 65536"

lemma knuth_bounds:
  assumes "knuth u0 u1 u2 v1 v2 p x y"
  shows "((u0 * 65536 + u1) * 65536 + u2) * p \<le> x" "x < ((u0 * 65536 + u1) * 65536 + u2) * p + p"
    "(v1 * 65536 + v2) * p \<le> y" "y < (v1 * 65536 + v2) * p + p" "0 < y"
proof -
  have K: "x div p = (u0 * 65536 + u1) * 65536 + u2" "y div p = v1 * 65536 + v2" "0 < p" "0 < v1"
    using assms by (auto simp: knuth_def)
  have "x = x div p * p + x mod p" "x mod p < p" "y = y div p * p + y mod p" "y mod p < p"
    using K(3) by simp_all
  then show "((u0 * 65536 + u1) * 65536 + u2) * p \<le> x" "x < ((u0 * 65536 + u1) * 65536 + u2) * p + p"
    "(v1 * 65536 + v2) * p \<le> y" "y < (v1 * 65536 + v2) * p + p"
    unfolding K(1,2) by linarith+
  then show "0 < y" using K by (cases "y = 0") auto
qed

text \<open>A failed test shows that the estimate is too large.\<close>

lemma knuth_too_big:
  assumes "knuth u0 u1 u2 v1 v2 p x y"
    and "q * v1 + r = u0 * 65536 + u1" and "v2 * q > r * 65536 + u2"
  shows "x div y < q"
proof -
  note b = knuth_bounds [OF assms(1)]
  have "(u0 * 65536 + u1) * 65536 + u2 < q * (v1 * 65536 + v2)"
    using assms(2,3) by (simp flip: assms(2)) (simp add: algebra_simps)
  then have "((u0 * 65536 + u1) * 65536 + u2 + 1) * p \<le> q * (v1 * 65536 + v2) * p"
    by (intro mult_le_mono1) simp
  then have "x < q * (v1 * 65536 + v2) * p"
    using b(2) by (simp add: algebra_simps)
  also have "\<dots> \<le> q * y" using mult_le_mono2 [OF b(3), of q] by (simp add: mult.assoc)
  finally show ?thesis using b(5) by (simp add: div_less_iff_less_mult)
qed

text \<open>A passed test leaves an estimate at most one too large.\<close>

lemma knuth_close:
  assumes "knuth u0 u1 u2 v1 v2 p x y"
    and "q * v1 + r = u0 * 65536 + u1" and "v2 * q \<le> r * 65536 + u2" and "q < 65536"
  shows "q \<le> x div y + 1"
proof -
  note b = knuth_bounds [OF assms(1)]
  have "q * (v1 * 65536 + v2) \<le> (u0 * 65536 + u1) * 65536 + u2"
    using assms(3) by (simp flip: assms(2)) (simp add: algebra_simps)
  then have "q * (v1 * 65536 + v2) * p \<le> x" using b(1) by (metis mult_le_mono1 le_trans)
  moreover have "q * y \<le> q * ((v1 * 65536 + v2) * p + p)"
    using b(4) by (intro mult_le_mono2) simp
  moreover have "q * p \<le> (v1 * 65536 + v2) * p"
    using assms(1,4) by (intro mult_le_mono1) (simp add: knuth_def)
  ultimately have "q * y \<le> x + y" using b(3) by (simp add: algebra_simps)
  then have "(q - 1) * y \<le> x" by (simp add: diff_mult_distrib)
  then have "q - 1 \<le> x div y" using b(5) by (simp add: less_eq_div_iff_mult_less_eq)
  then show ?thesis by simp
qed

lemma knuth_lead_le:
  assumes "knuth u0 u1 u2 v1 v2 p x y"
  shows "u0 \<le> v1"
proof (rule ccontr)
  assume "\<not> u0 \<le> v1"
  note b = knuth_bounds [OF assms]
  have "y < (v1 * 65536 + v2 + 1) * p" using b(4) by (simp add: algebra_simps)
  also have "\<dots> \<le> (v1 + 1) * 65536 * p"
    using assms by (intro mult_le_mono1) (simp add: knuth_def)
  also have "\<dots> \<le> u0 * 65536 * p"
    using \<open>\<not> u0 \<le> v1\<close> by (intro mult_le_mono1) simp
  finally have "y * 65536 \<le> u0 * 65536 * p * 65536" by (intro mult_le_mono1 less_imp_le)
  also have "\<dots> \<le> ((u0 * 65536 + u1) * 65536 + u2) * p" by (simp add: algebra_simps)
  also have "\<dots> \<le> x" by (rule b(1))
  finally show False using assms by (simp add: knuth_def)
qed

text \<open>The first estimate is not too small.\<close>

lemma knuth_start:
  assumes "knuth u0 u1 u2 v1 v2 p x y"
  shows "x div y \<le> (u0 * 65536 + u1) div v1"
proof -
  note b = knuth_bounds [OF assms]
  let ?N = "u0 * 65536 + u1" and ?q = "x div y"
  have "v1 * 65536 * p \<le> (v1 * 65536 + v2) * p" by (intro mult_le_mono1) simp
  then have "?q * (v1 * 65536 * p) \<le> ?q * y" using b(3) by (intro mult_le_mono2) (rule le_trans)
  also have "\<dots> \<le> x" by (rule div_times_less_eq_dividend)
  also have "x < (?N * 65536 + u2 + 1) * p" using b(2) by (simp add: algebra_simps)
  also have "\<dots> \<le> ((?N + 1) * 65536) * p"
    using assms by (intro mult_le_mono1) (simp add: knuth_def)
  finally have "(?q * v1) * (65536 * p) < (?N + 1) * (65536 * p)" by (simp only: ac_simps)
  then have "?q * v1 < ?N + 1" by (simp only: mult_less_cancel2)
  then show ?thesis
    using assms by (simp add: knuth_def less_eq_div_iff_mult_less_eq)
qed

text \<open>The loop ends with the quotient digit or one more.\<close>

lemma qhat_loop_ok:
  assumes K: "knuth u0 u1 (unat uj2) (unat v1) (unat v2) p x y"
    and "unat qhat * unat v1 + unat rhat = u0 * 65536 + u1"
    and "unat rhat < 65536" and "unat qhat < 65536" and "x div y \<le> unat qhat"
  shows "\<exists>q. qhat_loop False v1 v2 uj2 qhat rhat = Some q \<and> x div y \<le> unat q \<and> unat q \<le> x div y + 1
    \<and> unat q < 65536"
  using assms(2-)
proof (induction "65536 - unat rhat" arbitrary: qhat rhat rule: less_induct)
  case less
  have v: "unat v1 < 65536" "unat v2 < 65536" "unat uj2 < 65536" "32768 \<le> unat v1"
    using K by (auto simp: knuth_def)
  have test: "v2 * qhat > COMBINE rhat uj2 \<longleftrightarrow> unat v2 * unat qhat > unat rhat * 65536 + unat uj2"
    using less.prems v by (simp add: word_less_nat_alt unat_mult_digit unat_COMBINE)
  show ?case
  proof (cases "unat v2 * unat qhat > unat rhat * 65536 + unat uj2")
    case False
    then show ?thesis
      using less.prems knuth_close [OF K less.prems(1)] test
      by (auto simp: qhat_loop.simps [of False _ _ _ qhat])
  next
    case True
    have big: "x div y < unat qhat" by (rule knuth_too_big [OF K less.prems(1) True])
    then have q: "unat (qhat - 1) = unat qhat - 1" by (intro unat_dec_u32) auto
    have r: "unat (rhat + v1) = unat rhat + unat v1"
      using less.prems v by (intro unat_plus_u32) simp
    have inv: "unat (qhat - 1) * unat v1 + unat (rhat + v1) = u0 * 65536 + u1"
      using big less.prems(1) unfolding q r
      by (simp add: diff_mult_distrib)
    show ?thesis
    proof (cases "rhat + v1 \<ge> B")
      case True
      have "unat v2 * unat (qhat - 1) \<le> 65536 * 65536"
        using v less.prems q by (intro mult_le_mono) simp_all
      then have "unat v2 * unat (qhat - 1) \<le> unat (rhat + v1) * 65536 + unat uj2"
        using True r by (simp add: word_le_nat_alt B_val)
      then have "unat (qhat - 1) \<le> x div y + 1"
        using knuth_close [OF K inv] less.prems q by simp
      then show ?thesis
        using True test \<open>unat v2 * unat qhat > _\<close> big q less.prems
        by (auto simp: qhat_loop.simps [of False _ _ _ qhat] Let_def)
    next
      case False
      have "\<exists>q. qhat_loop False v1 v2 uj2 (qhat - 1) (rhat + v1) = Some q \<and> x div y \<le> unat q \<and>
          unat q \<le> x div y + 1 \<and> unat q < 65536"
        using False r v q big less.prems
        by (intro less.hyps inv) (simp_all add: word_le_nat_alt B_val)
      then show ?thesis
        using False test \<open>unat v2 * unat qhat > _\<close>
        by (simp add: qhat_loop.simps [of False _ _ _ qhat] Let_def)
    qed
  qed
qed

lemma qhat_of_ok:
  assumes K: "knuth (unat uj0) (unat uj1) (unat uj2) (unat v1) (unat v2) p x y"
  shows "\<exists>q. qhat_of v1 v2 uj0 uj1 uj2 = Some q \<and> x div y \<le> unat q \<and> unat q \<le> x div y + 1
    \<and> unat q < 65536"
proof -
  have v: "32768 \<le> unat v1" using K by (simp add: knuth_def)
  have y: "0 < y" by (rule knuth_bounds(5) [OF K])
  have xy: "x div y < 65536" using K y by (simp add: knuth_def div_less_iff_less_mult mult.commute)
  have K': "knuth (unat uj0) (unat uj1) (unat (up uj2)) (unat (up v1)) (unat (up v2)) p x y"
    using K by simp
  show ?thesis
  proof (cases "uj0 = v1")
    case True
    have q: "unat (B - 1) = 65535" by (simp add: B_val)
    have r: "unat (up uj1 + up v1) = unat uj1 + unat v1"
      using unat_plus_u32 [of "up uj1" "up v1"] unat_digit_lt [of uj1] unat_digit_lt [of v1]
      by (simp del: unat_digit_lt)
    have inv: "unat (B - 1) * unat (up v1) + unat (up uj1 + up v1) = unat uj0 * 65536 + unat uj1"
      using True unfolding q r by simp
    show ?thesis
    proof (cases "up uj1 + up v1 \<ge> B")
      case big: True
      have "unat v2 * 65535 \<le> 65536 * 65536"
        using unat_digit_lt [of v2] by (simp del: unat_digit_lt)
      then have "unat (up v2) * unat (B - 1) \<le> unat (up uj1 + up v1) * 65536 + unat (up uj2)"
        using big r q by (simp add: word_le_nat_alt B_val)
      from knuth_close [OF K' inv this] show ?thesis
        using big True xy q by (auto simp: qhat_of_def qhat_loop.simps [of True] Let_def)
    next
      case False
      have "\<exists>q. qhat_loop False (up v1) (up v2) (up uj2) (B - 1) (up uj1 + up v1) = Some q \<and>
          x div y \<le> unat q \<and> unat q \<le> x div y + 1 \<and> unat q < 65536"
        using False xy q r by (intro qhat_loop_ok [OF K' inv]) (simp_all add: word_le_nat_alt B_val)
      then show ?thesis
        using False True by (simp add: qhat_of_def qhat_loop.simps [of True] Let_def)
    qed
  next
    case False
    let ?nn = "COMBINE (up uj0) (up uj1)"
    have nn: "unat ?nn = unat uj0 * 65536 + unat uj1" by (simp add: unat_COMBINE)
    have "unat uj0 < unat v1"
      using knuth_lead_le [OF K] False by (simp add: le_less word_unat_eq_iff)
    then have "(unat uj0 + 1) * 65536 \<le> unat v1 * 65536" by (intro mult_le_mono1) simp
    then have "unat uj0 * 65536 + unat uj1 < 65536 * unat v1"
      using unat_digit_lt [of uj1] by (simp del: unat_digit_lt)
    then have q: "unat (?nn div up v1) < 65536"
      using v by (simp add: unat_div nn div_less_iff_less_mult)
    have inv: "unat (?nn div up v1) * unat (up v1) + unat (?nn mod up v1) = unat uj0 * 65536 + unat uj1"
      by (simp add: unat_div unat_mod nn)
    have r: "unat (?nn mod up v1) < unat v1" using v by (simp add: unat_mod)
    have "x div y \<le> unat (?nn div up v1)"
      using knuth_start [OF K] by (simp add: unat_div nn)
    then have "\<exists>q. qhat_loop False (up v1) (up v2) (up uj2) (?nn div up v1) (?nn mod up v1) = Some q \<and>
        x div y \<le> unat q \<and> unat q \<le> x div y + 1 \<and> unat q < 65536"
      using r q unat_digit_lt [of v1]
      by (intro qhat_loop_ok [OF K' inv]) (simp_all del: unat_digit_lt)
    then show ?thesis using False by (simp add: qhat_of_def Let_def)
  qed
qed

section \<open>Multiply and subtract, add back\<close>

lemma borrow_arith:
  fixes u v q t n :: nat
  assumes "v < 65536" and "q < 65536" and "t < 65536" and "u < 65536"
    and n: "int n = (int u - int v * int q - int t) mod 2 ^ 32"
  shows "int (n mod 65536) - int ((65536 - n div 65536) mod 65536) * 65536 = int u - int v * int q - int t"
proof -
  define w where "w = int u - int v * int q - int t"
  have "v * q \<le> 65535 * 65535" using assms by (intro mult_le_mono) simp_all
  then have "int v * int q \<le> 65535 * 65535" by (simp flip: of_nat_mult)
  then have w: "- (65535 * 65536) \<le> w" "w < 65536"
    using assms mult_nonneg_nonneg [of "int v" "int q"] unfolding w_def by linarith+
  have "int (n mod 65536) - int ((65536 - n div 65536) mod 65536) * 65536 = w"
  proof (cases "0 \<le> w")
    case True
    then have "int n = w" using n w unfolding w_def by simp
    then have "n < 65536" using w by linarith
    then show ?thesis using \<open>int n = w\<close> by simp
  next
    case False
    have "(w + 2 ^ 32) mod 2 ^ 32 = w + 2 ^ 32"
      using False w by (intro mod_pos_pos_trivial) simp_all
    then have nw: "int n = w + 2 ^ 32" using n unfolding w_def by simp
    then have "65536 \<le> n" "n < 2 ^ 32" using w False by auto
    then have "1 \<le> n div 65536" "n div 65536 < 65536"
      by (simp_all add: less_eq_div_iff_mult_less_eq div_less_iff_less_mult)
    then have "(65536 - n div 65536) mod 65536 = 65536 - n div 65536" by simp
    moreover have "int n = int (n div 65536) * 65536 + int (n mod 65536)"
      by (subst (1) div_mult_mod_eq [of n 65536, symmetric])
        (simp only: of_nat_add of_nat_mult of_nat_numeral)
    ultimately show ?thesis
      using nw \<open>n div 65536 < 65536\<close> by (simp add: of_nat_diff algebra_simps)
  qed
  then show ?thesis unfolding w_def .
qed

text \<open>One digit of D4: the new digit and the borrow.\<close>

lemma unat_borrow: "unat ((B - HHALF t) AND (B - 1)) = (65536 - unat t div 65536) mod 65536"
proof -
  have "(B - HHALF t) AND (B - 1) = take_bit 16 (B - HHALF t)"
    by (simp add: take_bit_eq_mask mask_eq_exp_minus_1 B_val)
  moreover have "unat (B - HHALF t) = 65536 - unat t div 65536"
    using halves_lt(1) [of t] by (subst unat_sub) (simp_all add: word_le_nat_alt B_val unat_HHALF)
  ultimately show ?thesis by (simp only: unsigned_take_bit_eq) (simp add: take_bit_eq_mod)
qed

lemma sub_digit:
  fixes u v qhat t :: u32
  assumes "unat v < 65536" and "unat qhat < 65536" and "unat t < 65536" and "unat u < 65536"
    and t': "t' = u - v * qhat - t"
  shows "int (unat (dn (LHALF t'))) - int (unat ((B - HHALF t') AND (B - 1))) * 65536 =
      int (unat u) - int (unat v) * int (unat qhat) - int (unat t)"
proof -
  have "t' = of_int (int (unat u) - int (unat v) * int (unat qhat) - int (unat t))"
    by (simp add: t')
  then have "uint t' = (int (unat u) - int (unat v) * int (unat qhat) - int (unat t)) mod 2 ^ 32"
    by (simp only: unsigned_of_int take_bit_eq_mod) simp
  then have "int (unat t') = (int (unat u) - int (unat v) * int (unat qhat) - int (unat t)) mod 2 ^ 32"
    by simp
  from borrow_arith [OF assms(1-4) this] show ?thesis
    unfolding unat_LHALF_dn unat_borrow .
qed

text \<open>D4 on all digits: the difference modulo the borrow.\<close>

lemma mulsub_ok:
  assumes "length u = 5" and "length v = 5" and "a + i < 5" and "vo + i < 5"
    and "unat qhat < 65536" and "unat t < 65536"
  shows "\<exists>t' u'. mulsub a vo v qhat i t u = Some (t', u') \<and> length u' = 5 \<and> unat t' < 65536 \<and>
    (\<forall>k. k \<le> a \<or> a + i < k \<longrightarrow> u' ! k = u ! k) \<and>
    int (dv u' (a + 1) i) - int (unat t') * 65536 ^ i =
      int (dv u (a + 1) i) - int (dv v (vo + 1) i) * int (unat qhat) - int (unat t)"
  using assms
proof (induction i arbitrary: t u)
  case (Suc i)
  let ?t = "up (u ! (a + Suc i)) - up (v ! (vo + Suc i)) * qhat - t"
  let ?b = "(B - HHALF ?t) AND (B - 1)"
  let ?u = "u[a + Suc i := dn (LHALF ?t)]"
  have d: "int (unat (dn (LHALF ?t))) - int (unat ?b) * 65536 =
      int (unat (u ! (a + Suc i))) - int (unat (v ! (vo + Suc i))) * int (unat qhat) - int (unat t)"
    using sub_digit [of "up (v ! (vo + Suc i))" qhat t "up (u ! (a + Suc i))" ?t] Suc.prems by simp
  have "unat ?b < 65536" by (simp add: unat_borrow)
  then obtain t' u' where r: "mulsub a vo v qhat i ?b ?u = Some (t', u')" "length u' = 5" "unat t' < 65536"
    and same: "\<forall>k. k \<le> a \<or> a + i < k \<longrightarrow> u' ! k = ?u ! k"
    and eq: "int (dv u' (a + 1) i) - int (unat t') * 65536 ^ i =
      int (dv ?u (a + 1) i) - int (dv v (vo + 1) i) * int (unat qhat) - int (unat ?b)"
    using Suc.IH [of ?u ?b] Suc.prems by auto
  have up: "dv ?u (a + 1) i = dv u (a + 1) i" by (rule dv_update_out) simp
  have "u' ! (a + Suc i) = dn (LHALF ?t)" using same Suc.prems by simp
  then have "int (dv u' (a + 1) (Suc i)) - int (unat t') * 65536 ^ Suc i =
      (int (dv u' (a + 1) i) - int (unat t') * 65536 ^ i) * 65536 + int (unat (dn (LHALF ?t)))"
    by (simp add: algebra_simps)
  also have "\<dots> = (int (dv u (a + 1) i) - int (dv v (vo + 1) i) * int (unat qhat)) * 65536 +
      (int (unat (dn (LHALF ?t))) - int (unat ?b) * 65536)"
    unfolding eq up by (simp only: algebra_simps)
  also have "\<dots> = int (dv u (a + 1) (Suc i)) - int (dv v (vo + 1) (Suc i)) * int (unat qhat) - int (unat t)"
    unfolding d by (simp add: algebra_simps)
  finally have "int (dv u' (a + 1) (Suc i)) - int (unat t') * 65536 ^ Suc i =
    int (dv u (a + 1) (Suc i)) - int (dv v (vo + 1) (Suc i)) * int (unat qhat) - int (unat t)" .
  then show ?case using r same Suc.prems by (auto simp: Let_def)
qed auto

lemma addback_ok:
  assumes "length u = 5" and "length v = 5" and "a + i < 5" and "vo + i < 5" and "unat t \<le> 1"
  shows "\<exists>t' u'. addback a vo v i t u = Some (t', u') \<and> length u' = 5 \<and> unat t' \<le> 1 \<and>
    (\<forall>k. k \<le> a \<or> a + i < k \<longrightarrow> u' ! k = u ! k) \<and>
    dv u' (a + 1) i + unat t' * 65536 ^ i = dv u (a + 1) i + dv v (vo + 1) i + unat t"
  using assms
proof (induction i arbitrary: t u)
  case (Suc i)
  let ?t = "t + (up (u ! (a + Suc i)) + up (v ! (vo + Suc i)))"
  let ?u = "u[a + Suc i := dn (LHALF ?t)]"
  have t: "unat ?t = unat t + unat (u ! (a + Suc i)) + unat (v ! (vo + Suc i))"
    using unat_digit_lt [of "u ! (a + Suc i)"] unat_digit_lt [of "v ! (vo + Suc i)"] Suc.prems(5)
    by (subst unat_plus_u32; subst unat_plus_u32) (simp_all del: unat_digit_lt)
  have "unat ?t < 2 * 65536"
    unfolding t using unat_digit_lt [of "u ! (a + Suc i)"] unat_digit_lt [of "v ! (vo + Suc i)"] Suc.prems(5)
    by linarith
  then have h: "unat (HHALF ?t) \<le> 1" unfolding unat_HHALF by simp
  obtain t' u' where r: "addback a vo v i (HHALF ?t) ?u = Some (t', u')" "length u' = 5" "unat t' \<le> 1"
    and same: "\<forall>k. k \<le> a \<or> a + i < k \<longrightarrow> u' ! k = ?u ! k"
    and eq: "dv u' (a + 1) i + unat t' * 65536 ^ i = dv ?u (a + 1) i + dv v (vo + 1) i + unat (HHALF ?t)"
    using Suc.IH [of ?u "HHALF ?t"] Suc.prems h by auto
  have up: "dv ?u (a + 1) i = dv u (a + 1) i" by (rule dv_update_out) simp
  have "u' ! (a + Suc i) = dn (LHALF ?t)" using same Suc.prems by simp
  then have "dv u' (a + 1) (Suc i) + unat t' * 65536 ^ Suc i =
      (dv u' (a + 1) i + unat t' * 65536 ^ i) * 65536 + unat ?t mod 65536"
    by (simp add: algebra_simps unat_LHALF_dn)
  also have "\<dots> = (dv u (a + 1) i + dv v (vo + 1) i) * 65536 + (unat ?t div 65536 * 65536 + unat ?t mod 65536)"
    unfolding eq up unat_HHALF by (simp add: algebra_simps)
  also have "\<dots> = dv u (a + 1) (Suc i) + dv v (vo + 1) (Suc i) + unat t"
    unfolding div_mult_mod_eq t by (simp add: algebra_simps)
  finally show ?case using r same Suc.prems by (auto simp: Let_def)
qed auto

lemma mod_digits:
  fixes k l P c :: nat
  assumes "l < P"
  shows "(k * P + l) mod (P * c) = (k mod c) * P + l"
  using assms by (simp add: mod_mult2_eq)

lemma add_back_ok:
  assumes "length u = 5" and "length v = 5" and "a + n < 5" and "vo + n < 5"
  shows "\<exists>u'. add_back_all a vo v n u = Some u' \<and> length u' = 5 \<and>
    (\<forall>k. k < a \<or> a + n < k \<longrightarrow> u' ! k = u ! k) \<and>
    dv u' a (Suc n) = (dv u a (Suc n) + dv v (vo + 1) n) mod (65536 ^ n * 65536)"
proof -
  let ?y = "dv v (vo + 1) n"
  obtain c u3 where ab: "addback a vo v n 0 u = Some (c, u3)" "length u3 = 5" "unat c \<le> 1"
    and same3: "\<forall>k. k \<le> a \<or> a + n < k \<longrightarrow> u3 ! k = u ! k"
    and eq3: "dv u3 (a + 1) n + unat c * 65536 ^ n = dv u (a + 1) n + ?y"
    using addback_ok [of u v a n vo 0] assms by auto
  let ?u4 = "u3[a := dn (LHALF (up (u3 ! a) + c))]"
  have s: "unat (up (u3 ! a) + c) = unat (u ! a) + unat c"
    using ab same3 unat_digit_lt [of "u3 ! a"] by (subst unat_plus_u32) (simp_all del: unat_digit_lt)
  have "dv ?u4 (a + 1) n = dv u3 (a + 1) n" by (rule dv_update_out) simp
  then have "dv ?u4 a (Suc n) = (unat (u ! a) + unat c) mod 65536 * 65536 ^ n + dv u3 (a + 1) n"
    using ab assms by (simp only: dv_head) (simp add: unat_LHALF_dn s)
  also have "\<dots> = ((unat (u ! a) + unat c) * 65536 ^ n + dv u3 (a + 1) n) mod (65536 ^ n * 65536)"
    by (rule mod_digits [symmetric]) (rule dv_lt)
  also have "(unat (u ! a) + unat c) * 65536 ^ n + dv u3 (a + 1) n = dv u a (Suc n) + ?y"
    unfolding dv_head using eq3 by (simp add: algebra_simps)
  finally show ?thesis
    using ab same3 assms by (auto simp: add_back_all_def simp del: dv.simps)
qed

section \<open>One quotient digit\<close>

lemma unat_sub_borrow:
  assumes "unat (x :: u32) < 65536" and "unat t < 65536"
  shows "int (unat (x - t) mod 65536) = int (unat x) - int (unat t) + (if unat x < unat t then 65536 else 0)"
    and "HHALF (x - t) \<noteq> 0 \<longleftrightarrow> unat x < unat t"
proof -
  define n where "n = unat (x - t)"
  have n: "n + unat t = unat x + (if unat x < unat t then 65536 * 65536 else 0)"
    using unat_sum_u32 [of "x - t" t] by (simp add: n_def word_less_nat_alt)
  have H: "HHALF (x - t) = 0 \<longleftrightarrow> n div 65536 = 0"
    by (simp add: n_def word_unat_eq_iff unat_HHALF)
  show "int (unat (x - t) mod 65536) = int (unat x) - int (unat t) + (if unat x < unat t then 65536 else 0)"
  proof (cases "unat x < unat t")
    case True
    then have "n = 65535 * 65536 + (65536 + unat x - unat t)" using n assms by simp
    then have "n mod 65536 = (65536 + unat x - unat t) mod 65536"
      by (simp only: mod_mult_self3)
    then show ?thesis using True assms by (simp add: n_def of_nat_diff)
  next
    case False
    then have "n mod 65536 = unat x - unat t" using n assms by simp
    then show ?thesis using False unfolding n_def [symmetric] by (simp only: of_nat_diff) simp
  qed
  show "HHALF (x - t) \<noteq> 0 \<longleftrightarrow> unat x < unat t"
    unfolding H using n assms by (auto split: if_splits)
qed

lemma exact_digit:
  fixes x y q r :: nat
  assumes "int r = int x - int y * int q" and "x div y \<le> q" and "0 < y"
  shows "q = x div y" and "r = x mod y"
proof -
  have "x = r + y * q" using assms(1) by (simp flip: of_nat_mult)
  then have "q \<le> x div y" using assms(3) by (simp add: less_eq_div_iff_mult_less_eq mult.commute)
  then show q: "q = x div y" using assms(2) by simp
  have "x = y * (x div y) + x mod y" by simp
  then show "r = x mod y" using \<open>x = r + y * q\<close> unfolding q by linarith
qed

lemma corrected_digit:
  fixes x y q r b :: nat
  assumes "int r = int x - int y * int q + int b" and "r < b" and "q \<le> x div y + 1" and "0 < y" and "y \<le> b"
  shows "q = x div y + 1" and "(r + y) mod b = x mod y"
proof -
  have e: "x + b = r + y * q" using assms(1) by (simp flip: of_nat_mult)
  then have "x < q * y" using assms(2) by (simp add: mult.commute)
  then have "x div y < q" using assms(4) by (simp add: div_less_iff_less_mult)
  then show q: "q = x div y + 1" using assms(3) by simp
  have "x = y * (x div y) + x mod y" by simp
  then have "r + y = b + x mod y" using e [unfolded q distrib_left mult_1_right] by linarith
  moreover have "x mod y < b" using assms(4,5) by (meson less_le_trans mod_less_divisor)
  ultimately show "(r + y) mod b = x mod y" by simp
qed

lemma dv_prefix2: "2 \<le> k \<Longrightarrow> dv xs a k div 65536 ^ (k - 2) = unat (xs ! a) * 65536 + unat (xs ! (a + 1))"
proof -
  assume k: "2 \<le> k"
  then have "2 + (k - 2) = k" by simp
  from dv_append [of xs a 2 "k - 2", unfolded this] show ?thesis using dv_lt [of xs "a + 2" "k - 2"] by (simp add: numeral_2_eq_2)
qed

lemma dv_prefix3:
  assumes "2 \<le> k"
  shows "dv xs a (Suc k) div 65536 ^ (k - 2) =
    (unat (xs ! a) * 65536 + unat (xs ! (a + 1))) * 65536 + unat (xs ! (a + 2))"
proof -
  have "3 + (k - 2) = Suc k" using assms by simp
  from dv_append [of xs a 3 "k - 2", unfolded this] show ?thesis using dv_lt [of xs "a + 3" "k - 2"] by (simp add: numeral_3_eq_3)
qed

lemma knuth_digits:
  assumes "2 \<le> n" and "v1 = v ! (vo + 1)" and "v2 = v ! (vo + 2)" and "32768 \<le> unat v1"
    and "dv u a (Suc n) < dv v (vo + 1) n * 65536"
  shows "knuth (unat (u ! a)) (unat (u ! (a + 1))) (unat (u ! (a + 2))) (unat v1) (unat v2) (65536 ^ (n - 2))
    (dv u a (Suc n)) (dv v (vo + 1) n)"
  using assms dv_prefix2 [OF assms(1), of v "vo + 1"] dv_prefix3 [OF assms(1), of u a]
  by (simp add: knuth_def del: dv.simps)

text \<open>The digits under the divisor are replaced by the remainder, and the quotient digit is exact.\<close>

lemma d_step_ok:
  assumes "length u = 5" and "length v = 5" and "a + n < 5" and "vo + n < 5" and n: "2 \<le> n"
    and v: "v1 = v ! (vo + 1)" "v2 = v ! (vo + 2)" "32768 \<le> unat v1"
    and small: "dv u a (Suc n) < dv v (vo + 1) n * 65536"
  shows "\<exists>q u'. d_step vo v n v1 v2 a u = Some (q, u') \<and> length u' = 5 \<and>
    unat q = dv u a (Suc n) div dv v (vo + 1) n \<and> unat q < 65536 \<and>
    dv u' a (Suc n) = dv u a (Suc n) mod dv v (vo + 1) n \<and> (\<forall>k. k < a \<or> a + n < k \<longrightarrow> u' ! k = u ! k)"
proof -
  let ?x = "dv u a (Suc n)" and ?y = "dv v (vo + 1) n"
  have K: "knuth (unat (u ! a)) (unat (u ! (a + 1))) (unat (u ! (a + 2))) (unat v1) (unat v2) (65536 ^ (n - 2)) ?x ?y"
    using n v small by (rule knuth_digits)
  obtain q where q: "qhat_of v1 v2 (u ! a) (u ! (a + 1)) (u ! (a + 2)) = Some q"
    "?x div ?y \<le> unat q" "unat q \<le> ?x div ?y + 1" "unat q < 65536"
    using qhat_of_ok [OF K] by blast
  have ypos: "0 < ?y" by (rule knuth_bounds(5) [OF K])
  obtain t u1 where m: "mulsub a vo v q n 0 u = Some (t, u1)" "length u1 = 5" "unat t < 65536"
    and same1: "\<forall>k. k \<le> a \<or> a + n < k \<longrightarrow> u1 ! k = u ! k"
    and eq1: "int (dv u1 (a + 1) n) - int (unat t) * 65536 ^ n = int (dv u (a + 1) n) - int ?y * int (unat q)"
    using mulsub_ok [of u v a n vo q 0] assms q by auto
  let ?t = "up (u ! a) - t"
  let ?u2 = "u1[a := dn (LHALF ?t)]"
  have top: "int (unat (dn (LHALF ?t))) = int (unat (u ! a)) - int (unat t) + (if unat (u ! a) < unat t then 65536 else 0)"
    and bor: "HHALF ?t \<noteq> 0 \<longleftrightarrow> unat (u ! a) < unat t"
    using unat_sub_borrow [of "up (u ! a)" t] m by (simp_all add: unat_LHALF_dn)
  have u2: "int (dv ?u2 a (Suc n)) = int ?x - int ?y * int (unat q) + (if unat (u ! a) < unat t then 65536 ^ Suc n else 0)"
  proof -
    have "dv ?u2 (a + 1) n = dv u1 (a + 1) n" by (rule dv_update_out) simp
    then have "int (dv ?u2 a (Suc n)) = int (unat (dn (LHALF ?t))) * 65536 ^ n + int (dv u1 (a + 1) n)"
      using m assms by (simp only: dv_head) simp
    also have "\<dots> = int (unat (u ! a)) * 65536 ^ n + (int (dv u1 (a + 1) n) - int (unat t) * 65536 ^ n)
        + (if unat (u ! a) < unat t then 65536 ^ Suc n else 0)"
      unfolding top by (simp add: algebra_simps)
    finally show ?thesis unfolding eq1 by (simp only: dv_head) simp
  qed
  have u2r: "length ?u2 = 5" "\<forall>k. k < a \<or> a + n < k \<longrightarrow> ?u2 ! k = u ! k"
    using m same1 by auto
  have run: "d_step vo v n v1 v2 a u = (if HHALF ?t \<noteq> 0 then do { u \<leftarrow> add_back_all a vo v n ?u2; Some (q - 1, u) }
     else Some (q, ?u2))"
    using assms m same1 q by (simp add: d_step_def Let_def)
  show ?thesis
  proof (cases "unat (u ! a) < unat t")
    case False
    then have e: "int (dv ?u2 a (Suc n)) = int ?x - int ?y * int (unat q)" using u2 by simp
    then show ?thesis
      using run bor False u2r q exact_digit [OF e q(2) ypos] by (simp del: dv.simps)
  next
    case True
    obtain u4 where ab: "add_back_all a vo v n ?u2 = Some u4" "length u4 = 5"
      "\<forall>k. k < a \<or> a + n < k \<longrightarrow> u4 ! k = ?u2 ! k"
      and u4: "dv u4 a (Suc n) = (dv ?u2 a (Suc n) + ?y) mod (65536 ^ n * 65536)"
      using add_back_ok [of ?u2 v a n vo] assms u2r by blast
    have "int (dv ?u2 a (Suc n)) = int ?x - int ?y * int (unat q) + int (65536 ^ n * 65536)"
      using u2 True by (simp only: if_True) simp
    moreover have "dv ?u2 a (Suc n) < 65536 ^ n * 65536" using dv_lt [of ?u2 a "Suc n"] by (simp del: dv.simps)
    moreover have "?y \<le> 65536 ^ n * 65536" using dv_lt [of v "vo + 1" n] by simp
    ultimately have fin: "unat q = ?x div ?y + 1" "dv u4 a (Suc n) = ?x mod ?y"
      using corrected_digit [OF _ _ q(3) ypos] unfolding u4 by blast+
    then have "unat (q - 1) = ?x div ?y" by (subst unat_dec_u32) auto
    then show ?thesis
      using run bor True ab fin q u2r by (simp del: dv.simps)
  qed
qed

section \<open>All quotient digits\<close>

text \<open>Schoolbook long division: the first \<open>n + 1\<close> digits, then the rest.\<close>

lemma long_division:
  fixes h l V P :: nat
  assumes "l < P" and "0 < V"
  shows "(h * P + l) div V = h div V * P + (h mod V * P + l) div V"
    and "(h * P + l) mod V = (h mod V * P + l) mod V" and "h mod V * P + l < V * P"
proof -
  have "h * P + l = (h div V * V + h mod V) * P + l" by simp
  also have "\<dots> = V * (h div V * P) + (h mod V * P + l)" by (simp only: algebra_simps)
  finally have e: "h * P + l = V * (h div V * P) + (h mod V * P + l)" .
  show "(h * P + l) div V = h div V * P + (h mod V * P + l) div V"
    unfolding e using assms(2) by (simp only: div_mult_self2 div_mult_self4)
  show "(h * P + l) mod V = (h mod V * P + l) mod V"
    unfolding e by simp
  have "(h mod V + 1) * P \<le> V * P" using assms(2) by (intro mult_le_mono1) (simp add: Suc_leI)
  then show "h mod V * P + l < V * P" using assms(1) by simp
qed

lemma d_loop_ok:
  assumes "length v = 5" and "vo + n < 5" and "2 \<le> n"
    and v: "v1 = v ! (vo + 1)" "v2 = v ! (vo + 2)" "32768 \<le> unat v1"
    and "length u = 5" and "length q = 5" and "a + n + k = 5" and "b + k = 5"
    and "dv u a (n + k) < dv v (vo + 1) n * 65536 ^ k"
  shows "\<exists>u' q'. d_loop vo v n v1 v2 k a b u q = Some (u', q') \<and> length u' = 5 \<and> length q' = 5 \<and>
    dv q' b k = dv u a (n + k) div dv v (vo + 1) n \<and> (\<forall>i < b. q' ! i = q ! i) \<and>
    dv u' a (n + k) = dv u a (n + k) mod dv v (vo + 1) n \<and> (\<forall>i < a. u' ! i = u ! i)"
  using assms(7-)
proof (induction k arbitrary: a b u q)
  case 0
  then show ?case by simp
next
  case (Suc k)
  let ?V = "dv v (vo + 1) n" and ?h = "dv u a (Suc n)" and ?l = "dv u (a + Suc n) k" and ?P = "65536 ^ k :: nat"
  have X: "dv u a (n + Suc k) = ?h * ?P + ?l"
    using dv_append [of u a "Suc n" k] by (simp del: dv.simps)
  have "?h * ?P < ?V * 65536 * ?P" using Suc.prems(5) X by (simp only: power_Suc ac_simps)
  then have small: "?h < ?V * 65536" by simp
  then have V: "0 < ?V" by (cases "?V = 0") auto
  obtain qh u1 where st: "d_step vo v n v1 v2 a u = Some (qh, u1)" "length u1 = 5"
    "unat qh = ?h div ?V" "unat qh < 65536" "dv u1 a (Suc n) = ?h mod ?V"
    and same: "\<forall>k. k < a \<or> a + n < k \<longrightarrow> u1 ! k = u ! k"
    using d_step_ok [OF Suc.prems(1) assms(1) _ assms(2,3) v small] Suc.prems(3) by auto
  note ld = long_division [OF dv_lt [of u "a + Suc n" k] V, of ?h]
  have l1: "dv u1 (a + Suc n) k = ?l" using same by (intro dv_cong) auto
  have "?h mod ?V < 65536 ^ n" using V dv_lt [of v "vo + 1" n] by (meson less_trans mod_less_divisor)
  then have top: "u1 ! a = 0" "dv u1 (a + 1) n = ?h mod ?V"
    using dv_small_head [of u1 a n] st by simp_all
  have X1: "dv u1 (a + 1) (n + k) = ?h mod ?V * ?P + ?l"
    using dv_append [of u1 "a + 1" n k] top l1 by simp
  obtain u' q' where IH: "d_loop vo v n v1 v2 k (a + 1) (b + 1) u1 (q[b := dn qh]) = Some (u', q')"
    "length u' = 5" "length q' = 5" "dv q' (b + 1) k = dv u1 (a + 1) (n + k) div ?V"
    "\<forall>i < b + 1. q' ! i = q[b := dn qh] ! i"
    "dv u' (a + 1) (n + k) = dv u1 (a + 1) (n + k) mod ?V" "\<forall>i < a + 1. u' ! i = u1 ! i"
    using Suc.IH [of u1 "q[b := dn qh]" "a + 1" "b + 1"] Suc.prems st ld(3) unfolding X1 by auto
  have qh: "unat (q' ! b) = ?h div ?V"
    using st IH(5) Suc.prems by (simp add: unsigned_ucast_eq take_bit_nat_eq_self del: dv.simps)
  have "dv q' b (Suc k) = dv u a (n + Suc k) div ?V"
    unfolding dv_head [of q'] X ld(1) qh IH(4) X1 ..
  moreover have "dv u' a (n + Suc k) = dv u a (n + Suc k) mod ?V"
    using IH top dv_head [of u' a "n + k"] unfolding X X1 ld(2) by simp
  ultimately show ?case
    using IH st same Suc.prems by (simp del: dv.simps)
qed

section \<open>Shifting\<close>

lemma unat_push_up:
  assumes "sh \<le> 16"
  shows "unat (push_bit sh (up a)) = unat a * 2 ^ sh"
proof -
  have "unat a * 2 ^ sh < 65536 * 2 ^ sh" by simp
  also have "\<dots> \<le> 65536 * 2 ^ 16" using assms by (intro mult_le_mono2 power_increasing) simp_all
  finally show ?thesis
    by (simp only: unsigned_push_bit_eq unat_up) (simp add: push_bit_eq_mult take_bit_nat_eq_self)
qed

lemma unat_drop_up: "unat (drop_bit k (up b)) = unat b div 2 ^ k"
  by (simp only: unat_drop_bit_eq) (simp add: drop_bit_eq_div)

text \<open>The two halves of a shifted digit do not overlap.\<close>

lemma unat_dn: "unat x < 65536 \<Longrightarrow> unat (dn x) = unat x"
  by (simp add: unsigned_ucast_eq take_bit_nat_eq_self)

lemma join_disjoint:
  assumes "sh \<le> 16"
  shows "LHALF (push_bit sh (up a)) OR drop_bit (16 - sh) (up b) =
    LHALF (push_bit sh (up a)) + drop_bit (16 - sh) (up b)"
proof (rule disjunctive_add [symmetric])
  fix n
  show "\<not> bit (LHALF (push_bit sh (up a))) n \<or> \<not> bit (drop_bit (16 - sh) (up b)) n"
  proof (cases "n < sh")
    case True
    then show ?thesis by (simp add: LHALF_mask bit_take_bit_iff bit_push_bit_iff)
  next
    case False
    then have "\<not> bit b (16 - sh + n)" using assms bit_imp_le_length [of b "16 - sh + n"] by auto
    then show ?thesis by (simp add: bit_drop_bit_eq bit_ucast_iff)
  qed
qed

lemma digit_split: "sh \<le> 16 \<Longrightarrow> (65536 :: nat) = 2 ^ (16 - sh) * 2 ^ sh"
  using power_add [of "2 :: nat" "16 - sh" sh] by simp

lemma join_digit:
  assumes "sh \<le> 16"
  shows "unat (dn (LHALF (push_bit sh (up a)) OR drop_bit (16 - sh) (up b))) =
    unat a * 2 ^ sh mod 65536 + unat b div 2 ^ (16 - sh)"
proof -
  have m: "unat a * 2 ^ sh mod 65536 = unat a mod 2 ^ (16 - sh) * 2 ^ sh"
    unfolding digit_split [OF assms] by (rule mult_mod_left [symmetric])
  have "unat a mod 2 ^ (16 - sh) + 1 \<le> 2 ^ (16 - sh)" by (simp add: Suc_leI)
  then have "(unat a mod 2 ^ (16 - sh) + 1) * 2 ^ sh \<le> 65536"
    unfolding digit_split [OF assms] by (rule mult_le_mono1)
  moreover have l: "unat b div 2 ^ (16 - sh) < 2 ^ sh"
    using unat_digit_lt [of b] unfolding digit_split [OF assms]
    by (simp add: less_mult_imp_div_less mult.commute del: unat_digit_lt)
  ultimately have lt: "unat a * 2 ^ sh mod 65536 + unat b div 2 ^ (16 - sh) < 65536"
    unfolding m by simp
  have h: "unat (LHALF (push_bit sh (up a))) = unat a * 2 ^ sh mod 65536"
    using assms by (simp add: unat_LHALF unat_push_up)
  have "unat (LHALF (push_bit sh (up a)) + drop_bit (16 - sh) (up b)) =
      unat a * 2 ^ sh mod 65536 + unat b div 2 ^ (16 - sh)"
    using lt by (subst unat_plus_u32) (simp_all only: h unat_drop_up, simp)
  then show ?thesis
    unfolding join_disjoint [OF assms] using lt by (simp add: unat_dn)
qed

lemma shl_loop_ok:
  assumes "sh \<le> 16" and "i + k < length p"
  shows "\<exists>p'. shl_loop i k sh p = Some p' \<and> length p' = length p \<and>
    (\<forall>t. t < i \<or> i + k \<le> t \<longrightarrow> p' ! t = p ! t) \<and>
    (\<forall>t. i \<le> t \<and> t < i + k \<longrightarrow> unat (p' ! t) = unat (p ! t) * 2 ^ sh mod 65536 + unat (p ! (t + 1)) div 2 ^ (16 - sh))"
  using assms(2)
proof (induction k arbitrary: i p)
  case (Suc k)
  let ?d = "dn (LHALF (push_bit sh (up (p ! i))) OR drop_bit (16 - sh) (up (p ! (i + 1))))"
  obtain p' where r: "shl_loop (i + 1) k sh (p[i := ?d]) = Some p'" "length p' = length p"
    and same: "\<forall>t. t < i + 1 \<or> i + 1 + k \<le> t \<longrightarrow> p' ! t = p[i := ?d] ! t"
    and new: "\<forall>t. i + 1 \<le> t \<and> t < i + 1 + k \<longrightarrow> unat (p' ! t) =
      unat (p[i := ?d] ! t) * 2 ^ sh mod 65536 + unat (p[i := ?d] ! (t + 1)) div 2 ^ (16 - sh)"
    using Suc.IH [of "i + 1" "p[i := ?d]"] Suc.prems by auto
  have "unat (p' ! i) = unat (p ! i) * 2 ^ sh mod 65536 + unat (p ! (i + 1)) div 2 ^ (16 - sh)"
    using same Suc.prems join_digit [OF assms(1), of "p ! i" "p ! (i + 1)"] by simp
  then have "unat (p' ! t) = unat (p ! t) * 2 ^ sh mod 65536 + unat (p ! (t + 1)) div 2 ^ (16 - sh)"
    if "i \<le> t" "t < i + Suc k" for t
    using new that by (cases "t = i") auto
  moreover have "p' ! t = p ! t" if "t < i \<or> i + Suc k \<le> t" for t
    using same that by auto
  ultimately show ?case using r Suc.prems by (simp add: HALF_BITS_def)
qed simp

text \<open>The digits of a number times \<open>2 ^ sh\<close>, with the carry into the digit before the first.\<close>

lemma dv_shift:
  assumes "sh \<le> 16"
    and "\<And>t. a \<le> t \<Longrightarrow> t < a + k \<Longrightarrow> unat (p' ! t) = unat (p ! t) * 2 ^ sh mod 65536 + unat (p ! (t + 1)) div 2 ^ (16 - sh)"
  shows "dv p' a k + unat (p ! a) div 2 ^ (16 - sh) * 65536 ^ k = dv p a k * 2 ^ sh + unat (p ! (a + k)) div 2 ^ (16 - sh)"
  using assms(2)
proof (induction k)
  case (Suc k)
  let ?x = "unat (p ! (a + k))" and ?c = "unat (p ! (a + Suc k)) div 2 ^ (16 - sh)"
  have "?x div 2 ^ (16 - sh) = ?x * 2 ^ sh div 65536"
    unfolding digit_split [OF assms(1)] by simp
  then have x: "?x div 2 ^ (16 - sh) * 65536 + ?x * 2 ^ sh mod 65536 = ?x * 2 ^ sh" by simp
  have "dv p' a (Suc k) + unat (p ! a) div 2 ^ (16 - sh) * 65536 ^ Suc k =
      (dv p' a k + unat (p ! a) div 2 ^ (16 - sh) * 65536 ^ k) * 65536 + (?x * 2 ^ sh mod 65536 + ?c)"
    using Suc.prems [of "a + k"] by (simp add: algebra_simps)
  also have "\<dots> = dv p a k * 2 ^ sh * 65536 + (?x div 2 ^ (16 - sh) * 65536 + ?x * 2 ^ sh mod 65536) + ?c"
    using Suc.IH Suc.prems by (simp add: algebra_simps)
  also have "\<dots> = dv p a (Suc k) * 2 ^ sh + ?c" unfolding x by (simp add: algebra_simps)
  finally show ?case .
qed simp

lemma shl_ok:
  assumes "sh \<le> 16" and "base + len < length p" and "unat (p ! base) < 2 ^ (16 - sh)"
  shows "\<exists>p'. shl base len sh p = Some p' \<and> length p' = length p \<and>
    dv p' base (Suc len) = dv p base (Suc len) * 2 ^ sh \<and> (\<forall>t < base. p' ! t = p ! t)"
proof -
  obtain p1 where r: "shl_loop base len sh p = Some p1" "length p1 = length p"
    and same: "\<forall>t. t < base \<or> base + len \<le> t \<longrightarrow> p1 ! t = p ! t"
    and new: "\<forall>t. base \<le> t \<and> t < base + len \<longrightarrow>
      unat (p1 ! t) = unat (p ! t) * 2 ^ sh mod 65536 + unat (p ! (t + 1)) div 2 ^ (16 - sh)"
    using shl_loop_ok [OF assms(1,2)] by blast
  let ?l = "p ! (base + len)"
  let ?p' = "p1[base + len := dn (LHALF (push_bit sh (up ?l)))]"
  have "dv ?p' base len = dv p1 base len" by (rule dv_update_out) simp
  also have "\<dots> = dv p base len * 2 ^ sh + unat ?l div 2 ^ (16 - sh)"
    using dv_shift [OF assms(1), of base len p1 p] new assms(3) by simp
  finally have hi: "dv ?p' base len = dv p base len * 2 ^ sh + unat ?l div 2 ^ (16 - sh)" .
  have lo: "unat (?p' ! (base + len)) = unat ?l * 2 ^ sh mod 65536"
    using assms r by (simp add: unat_LHALF_dn unat_push_up)
  have "unat ?l div 2 ^ (16 - sh) = unat ?l * 2 ^ sh div 65536"
    unfolding digit_split [OF assms(1)] by simp
  then have "unat ?l div 2 ^ (16 - sh) * 65536 + unat ?l * 2 ^ sh mod 65536 = unat ?l * 2 ^ sh" by simp
  then have "dv ?p' base (Suc len) = dv p base (Suc len) * 2 ^ sh"
    using hi lo by (simp add: algebra_simps)
  then show ?thesis
    using r same assms by (auto simp: shl_def simp del: dv.simps)
qed

lemma rem_loop_ok:
  assumes "d \<le> 16" and "a + n < length u"
  shows "\<exists>u'. rem_loop a d n u = Some u' \<and> length u' = length u \<and> (\<forall>t. t \<le> a \<or> a + n < t \<longrightarrow> u' ! t = u ! t) \<and>
    (\<forall>t. t < n \<longrightarrow> unat (u' ! (a + Suc t)) =
      unat (u ! (a + t)) * 2 ^ (16 - d) mod 65536 + unat (u ! (a + Suc t)) div 2 ^ d)"
  using assms(2)
proof (induction n arbitrary: u)
  case (Suc n)
  let ?d = "dn (drop_bit d (up (u ! (a + Suc n))) OR LHALF (push_bit (16 - d) (up (u ! (a + n)))))"
  let ?u = "u[a + Suc n := ?d]"
  obtain u' where r: "rem_loop a d n ?u = Some u'" "length u' = length u"
    and same: "\<forall>t. t \<le> a \<or> a + n < t \<longrightarrow> u' ! t = ?u ! t"
    and new: "\<forall>t. t < n \<longrightarrow> unat (u' ! (a + Suc t)) =
      unat (?u ! (a + t)) * 2 ^ (16 - d) mod 65536 + unat (?u ! (a + Suc t)) div 2 ^ d"
    using Suc.IH [of ?u] Suc.prems by auto
  have "unat ?d = unat (u ! (a + n)) * 2 ^ (16 - d) mod 65536 + unat (u ! (a + Suc n)) div 2 ^ d"
    using join_digit [of "16 - d" "u ! (a + n)" "u ! (a + Suc n)"] assms(1) by (simp add: or.commute)
  then have "unat (u' ! (a + Suc t)) = unat (u ! (a + t)) * 2 ^ (16 - d) mod 65536 + unat (u ! (a + Suc t)) div 2 ^ d"
    if "t < Suc n" for t
    using that new same Suc.prems by (cases "t = n") auto
  then show ?case using r same Suc.prems by (simp add: HALF_BITS_def)
qed simp

lemma dv_unshift:
  assumes "d \<le> 16" and "unat (u ! a) < 2 ^ d"
    and "\<And>t. t < k \<Longrightarrow> unat (u' ! (a + Suc t)) =
      unat (u ! (a + t)) * 2 ^ (16 - d) mod 65536 + unat (u ! (a + Suc t)) div 2 ^ d"
  shows "dv u' (a + 1) k = dv u a (Suc k) div 2 ^ d"
  using assms(3)
proof (induction k)
  case (Suc k)
  let ?D = "dv u a (Suc k)" and ?x = "unat (u ! (a + Suc k))" and ?y = "unat (u ! (a + k))"
  have B: "(65536 :: nat) = 2 ^ (16 - d) * 2 ^ d" by (rule digit_split [OF assms(1)])
  have "?D mod 2 ^ d = ?y mod 2 ^ d"
    unfolding dv.simps B by (simp add: mod_add_left_eq [symmetric] mult.assoc [symmetric])
  then have y: "?y * 2 ^ (16 - d) mod 65536 = ?D mod 2 ^ d * 2 ^ (16 - d)"
    unfolding B mult.commute [of "2 ^ (16 - d)"] by (simp add: mult_mod_left)
  have "?D = ?D div 2 ^ d * 2 ^ d + ?D mod 2 ^ d" by (simp only: div_mult_mod_eq)
  then have "?D * 2 ^ (16 - d) = (?D div 2 ^ d * 2 ^ d + ?D mod 2 ^ d) * 2 ^ (16 - d)" by (rule arg_cong)
  also have "\<dots> = ?D div 2 ^ d * 65536 + ?D mod 2 ^ d * 2 ^ (16 - d)"
    unfolding B distrib_right by (simp only: ac_simps)
  finally have D: "?D * 2 ^ (16 - d) = ?D div 2 ^ d * 65536 + ?D mod 2 ^ d * 2 ^ (16 - d)" .
  have "dv u a (Suc (Suc k)) div 2 ^ d = (?x + (?D * 2 ^ (16 - d)) * 2 ^ d) div 2 ^ d"
    unfolding dv.simps(2) [of u a "Suc k"] B by (simp only: ac_simps)
  also have "\<dots> = ?D * 2 ^ (16 - d) + ?x div 2 ^ d" by simp
  also have "\<dots> = dv u' (a + 1) k * 65536 + unat (u' ! (a + Suc k))"
    using Suc.IH Suc.prems [of k] Suc.prems unfolding D y by simp
  finally show ?case by simp
qed (use assms(2) in simp)

section \<open>Normalising and splitting\<close>

lemma norm_loop_ok:
  assumes "0 < unat t" and "unat t < 65536"
  shows "\<exists>k. norm_loop t d = Some (d + k) \<and> 32768 \<le> unat t * 2 ^ k \<and> unat t * 2 ^ k < 65536"
  using assms
proof (induction "65536 - unat t" arbitrary: t d rule: less_induct)
  case less
  have half: "t < B div 2 \<longleftrightarrow> unat t < 32768" by (simp add: word_less_nat_alt B_val)
  show ?case
  proof (cases "unat t < 32768")
    case True
    then have dbl: "unat (push_bit 1 t) = unat t * 2"
      by (simp add: push_bit_eq_mult unat_word_ariths)
    have "65536 - unat (push_bit 1 t) < 65536 - unat t"
      unfolding dbl using True less.prems by linarith
    from less.hyps [OF this, of "d + 1"] obtain k where "norm_loop (push_bit 1 t) (d + 1) = Some (d + 1 + k)"
      "32768 \<le> unat t * 2 * 2 ^ k" "unat t * 2 * 2 ^ k < 65536"
      using True less.prems unfolding dbl by auto
    then show ?thesis
      using True half by (intro exI [of _ "Suc k"]) (simp add: norm_loop.simps [of t])
  next
    case False
    then show ?thesis
      using half less.prems by (intro exI [of _ 0]) (simp add: norm_loop.simps [of t])
  qed
qed

lemma vskip_4:
  assumes "length v = 5"
  shows "vskip 4 0 v = Some (if v ! 1 \<noteq> 0 then Inr (4, 0) else if v ! 2 \<noteq> 0 then Inr (3, 1)
    else if v ! 3 \<noteq> 0 then Inr (2, 2) else Inl 2)"
  using assms by (simp add: eval_nat_numeral)

lemma uskip_ok:
  assumes "uo < i" and "i < length u" and "u ! i \<noteq> 0"
  shows "\<exists>k. uskip m uo u = Some (m - int k, uo + k) \<and> uo + k < i \<and> u ! (uo + k + 1) \<noteq> 0 \<and>
    (\<forall>j. uo < j \<and> j \<le> uo + k \<longrightarrow> u ! j = 0)"
  using assms
proof (induction "i - uo" arbitrary: uo m)
  case (Suc n)
  show ?case
  proof (cases "u ! (uo + 1) = 0")
    case True
    then have "uo + 1 < i" using Suc.prems by (metis Suc_eq_plus1 Suc_leI le_neq_implies_less)
    moreover have "n = i - (uo + 1)" using Suc.hyps(2) by simp
    ultimately obtain k where "uskip (m - 1) (uo + 1) u = Some (m - 1 - int k, uo + 1 + k)" "uo + 1 + k < i"
      "u ! (uo + 1 + k + 1) \<noteq> 0" and z: "\<forall>j. uo + 1 < j \<and> j \<le> uo + 1 + k \<longrightarrow> u ! j = 0"
      using Suc.hyps(1) [of "uo + 1" "m - 1"] Suc.prems by auto
    moreover have "u ! j = 0" if "uo < j" "j \<le> uo + Suc k" for j
      using z True that by (cases "j = uo + 1") auto
    ultimately show ?thesis
      using True Suc.prems by (intro exI [of _ "Suc k"]) (simp add: uskip.simps [of m])
  next
    case False
    then show ?thesis
      using Suc.prems by (intro exI [of _ 0]) (auto simp: uskip.simps [of m])
  qed
qed simp

lemma qzero_ok:
  "i \<le> length q \<Longrightarrow>
    \<exists>q'. qzero i q = Some q' \<and> length q' = length q \<and> (\<forall>j < i. q' ! j = 0) \<and> (\<forall>j \<ge> i. q' ! j = q ! j)"
proof (induction i arbitrary: q)
  case (Suc i)
  then obtain q' where q': "qzero i (q[i := 0]) = Some q'" "length q' = length q" "\<forall>j < i. q' ! j = 0"
    "\<forall>j \<ge> i. q' ! j = q[i := 0] ! j"
    using Suc.IH [of "q[i := 0]"] by auto
  then have "q' ! j = 0" if "j < Suc i" for j
    using that Suc.prems by (cases "j = i") auto
  then show ?case using q' Suc.prems by auto
qed simp

lemma dv_zeros: "(\<And>i. i < k \<Longrightarrow> xs ! (a + i) = 0) \<Longrightarrow> dv xs a (k + l) = dv xs (a + k) l"
proof -
  assume z: "\<And>i. i < k \<Longrightarrow> xs ! (a + i) = 0"
  have "dv xs a k = 0" using z by (induction k) auto
  then show ?thesis by (simp add: dv_append)
qed

lemma dv_small:
  assumes "dv xs a (k + l) < 65536 ^ l"
  shows "dv xs (a + k) l = dv xs a (k + l)" and "i < k \<Longrightarrow> xs ! (a + i) = 0"
proof -
  have "dv xs a k * 65536 ^ l < 1 * 65536 ^ l"
    using assms unfolding dv_append by (simp only: mult_1)
  then have z: "dv xs a k = 0" by (simp only: mult_less_cancel2) simp
  then show "dv xs (a + k) l = dv xs a (k + l)" unfolding dv_append by simp
  show "xs ! (a + i) = 0" if "i < k"
    using z that by (induction k) (auto simp: less_Suc_eq word_unat_eq_iff)
qed

lemma COMBINE_digits: "unat (COMBINE (up a) (up b)) = unat a * 65536 + unat b"
  by (simp add: unat_COMBINE)

lemma dv_4: "dv xs 1 4 = (unat (xs ! 1) * 65536 + unat (xs ! 2)) * 2 ^ 32 + (unat (xs ! 3) * 65536 + unat (xs ! 4))"
proof -
  have 4: "(4 :: nat) = Suc (Suc (Suc (Suc 0)))" "1 + Suc 0 = (2 :: nat)" "1 + Suc (Suc 0) = (3 :: nat)"
    "1 + Suc (Suc (Suc 0)) = (4 :: nat)" by simp_all
  have "dv xs 1 (Suc (Suc (Suc (Suc 0)))) =
      ((unat (xs ! 1) * 65536 + unat (xs ! 2)) * 65536 + unat (xs ! 3)) * 65536 + unat (xs ! 4)"
    by (simp only: dv.simps 4(2-) add_0_right mult_0 add_0_left)
  then show ?thesis by (subst 4(1)) simp
qed

lemma quad_ok:
  assumes "length s = 5"
  shows "\<exists>w. quad s = Some w \<and> unat w = dv s 1 4"
  unfolding dv_4 using assms by (simp add: quad_def unat_uu COMBINE_digits)

lemma digits_of_u64:
  assumes "x = [d, dn (HHALF (ui_H w)), dn (LHALF (ui_H w)), dn (HHALF (ui_L w)), dn (LHALF (ui_L w))]"
  shows "dv x 1 4 = unat w"
proof -
  have "dv x 1 4 = (unat (ui_H w) div 65536 * 65536 + unat (ui_H w) mod 65536) * 2 ^ 32
      + (unat (ui_L w) div 65536 * 65536 + unat (ui_L w) mod 65536)"
    unfolding assms dv_4 by (simp add: unat_HHALF_dn unat_LHALF_dn)
  then show ?thesis by (simp only: div_mult_mod_eq) (simp add: unat_halves [of w])
qed

section \<open>The division by one digit\<close>

text \<open>One step: the digit \<open>q\<close> and the remainder \<open>r\<close> of \<open>r0 * B + u\<close>.\<close>

lemma short_step:
  fixes r0 t :: u32 and u :: digit
  assumes "unat r0 < unat (t :: u32)" and "unat t < 65536"
    and x_def: "x = COMBINE r0 (up u)"
  shows "unat (dn (x div t)) = (unat r0 * 65536 + unat u) div unat t"
    and "unat (x mod t) = (unat r0 * 65536 + unat u) mod unat t" and "unat (x mod t) < unat t"
proof -
  have x: "unat x = unat r0 * 65536 + unat u"
    using assms unfolding x_def by (subst unat_COMBINE) simp_all
  have "(unat r0 + 1) * 65536 \<le> unat t * 65536" using assms by (intro mult_le_mono1) simp
  then have "unat r0 * 65536 + unat u < 65536 * unat t"
    using unat_digit_lt [of u] by (simp del: unat_digit_lt)
  then show "unat (dn (x div t)) = (unat r0 * 65536 + unat u) div unat t"
    using assms(1,2) by (subst unat_dn) (simp_all add: unat_div x div_less_iff_less_mult)
  show "unat (x mod t) = (unat r0 * 65536 + unat u) mod unat t" by (simp add: unat_mod x)
  then show "unat (x mod t) < unat t" using assms(1,2) by simp
qed

lemma short_div_ok:
  assumes "length u = 5" and "0 < unat t" and "unat t < 65536"
  shows "\<exists>q r. short_div u t = Some (q, r) \<and> unat q = dv u 1 4 div unat t \<and> unat r = dv u 1 4 mod unat t"
proof -
  have z: "unat (0 :: u32) < unat t" using assms by simp
  let ?r1 = "up (u ! 1) mod t"
  let ?x2 = "COMBINE ?r1 (up (u ! 2))"
  let ?x3 = "COMBINE (?x2 mod t) (up (u ! 3))"
  let ?x4 = "COMBINE (?x3 mod t) (up (u ! 4))"
  have c0: "COMBINE 0 (up (u ! 1)) = up (u ! 1)" by (simp add: COMBINE_def)
  note s1 = short_step [OF z assms(3), of _ "u ! 1", OF c0 [symmetric]]
  note s2 = short_step [OF s1(3) assms(3) refl, of "u ! 2"]
  note s3 = short_step [OF s2(3) assms(3) refl, of "u ! 3"]
  note s4 = short_step [OF s3(3) assms(3) refl, of "u ! 4"]
  have ld: "(h * 65536 + unat d) div unat t = h div unat t * 65536 + (h mod unat t * 65536 + unat d) div unat t"
    "(h * 65536 + unat d) mod unat t = (h mod unat t * 65536 + unat d) mod unat t" for h and d :: digit
    using long_division [of "unat d" 65536 "unat t" h] assms by simp_all
  let ?q = "uu (COMBINE (up (dn (up (u ! 1) div t))) (up (dn (?x2 div t))))
    (COMBINE (up (dn (?x3 div t))) (up (dn (?x4 div t))))"
  have run: "short_div u t = Some (?q, ucast (?x4 mod t))"
    using assms by (simp add: short_div_def Let_def)
  define h2 where "h2 = unat (u ! 1) * 65536 + unat (u ! 2)"
  define h3 where "h3 = h2 * 65536 + unat (u ! 3)"
  have X: "dv u 1 4 = h3 * 65536 + unat (u ! 4)" unfolding dv_4 h2_def h3_def by simp
  have r1: "unat ?r1 = unat (u ! 1) mod unat t" using s1(2) by simp
  have q2: "h2 div unat t = unat (dn (up (u ! 1) div t)) * 65536 + unat (dn (?x2 div t))"
    and r2: "unat (?x2 mod t) = h2 mod unat t"
    unfolding h2_def ld [of "unat (u ! 1)"] s2(1,2) r1 using s1(1) by simp_all
  have q3: "h3 div unat t = h2 div unat t * 65536 + unat (dn (?x3 div t))"
    and r3: "unat (?x3 mod t) = h3 mod unat t"
    unfolding h3_def ld [of h2] s3(1,2) r2 by (rule refl)+
  have q4: "dv u 1 4 div unat t = h3 div unat t * 65536 + unat (dn (?x4 div t))"
    and r4: "unat (?x4 mod t) = dv u 1 4 mod unat t"
    unfolding X ld [of h3] s4(1,2) r3 by (rule refl)+
  have "unat ?q = dv u 1 4 div unat t"
    unfolding unat_uu COMBINE_digits q4 q3 q2 by simp
  moreover have "unat (ucast (?x4 mod t) :: u64) = dv u 1 4 mod unat t"
    unfolding r4 [symmetric] by (simp only: unsigned_ucast_eq) (simp add: take_bit_nat_eq_self less_trans [OF unat_u32_lt])
  ultimately show ?thesis using run by blast
qed

section \<open>The whole routine\<close>

lemma shl_if_ok:
  assumes "d \<le> 16" and "base + len < length p" and "unat (p ! base) < 2 ^ (16 - d)"
  shows "\<exists>p'. shl_if base len d p = Some p' \<and> length p' = length p \<and>
    dv p' base (Suc len) = dv p base (Suc len) * 2 ^ d \<and> (\<forall>t < base. p' ! t = p ! t)"
  using shl_ok [OF assms] by (cases "d > 0") (auto simp: shl_if_def)

lemma rem_if_ok:
  assumes "d \<le> 16" and "a + n < length u" and "u ! a = 0"
  shows "\<exists>u'. rem_if a d n u = Some u' \<and> length u' = length u \<and> (\<forall>t \<le> a. u' ! t = u ! t) \<and>
    dv u' (a + 1) n = dv u a (Suc n) div 2 ^ d"
proof (cases "d = 0")
  case True
  then show ?thesis using assms(3) by (auto simp: rem_if_def dv_head simp del: dv.simps)
next
  case False
  obtain u1 where r: "rem_loop a d n u = Some u1" "length u1 = length u"
    "\<forall>t. t \<le> a \<or> a + n < t \<longrightarrow> u1 ! t = u ! t"
    "\<forall>t. t < n \<longrightarrow> unat (u1 ! (a + Suc t)) =
      unat (u ! (a + t)) * 2 ^ (16 - d) mod 65536 + unat (u ! (a + Suc t)) div 2 ^ d"
    using rem_loop_ok [OF assms(1,2)] by blast
  have "dv u1 (a + 1) n = dv u a (Suc n) div 2 ^ d"
    using dv_unshift [OF assms(1), of u a n u1] r(4) assms(3) by simp
  moreover have "dv (u1[a := 0]) (a + 1) n = dv u1 (a + 1) n" by (rule dv_update_out) simp
  ultimately show ?thesis
    using r False assms by (auto simp: rem_if_def nth_list_update simp del: dv.simps)
qed

text \<open>The leading digits of a dividend that is not smaller than the divisor.\<close>

lemma uskip_from_divisor:
  assumes "length u = 5" and "u ! 0 = 0" and "2 \<le> n" and "n \<le> 4" and "65536 ^ (n - 1) \<le> dv u 1 4"
  shows "\<exists>uo. uskip (4 - int n) 0 u = Some (4 - int n - int uo, uo) \<and> uo + n \<le> 4 \<and>
    (\<forall>j \<le> uo. u ! j = 0)"
proof -
  have "\<exists>i. 0 < i \<and> i < 6 - n \<and> u ! i \<noteq> 0"
  proof (rule ccontr)
    assume none: "\<not> ?thesis"
    have "u ! (1 + i) = 0" if "i < 5 - n" for i
    proof -
      have "0 < 1 + i" "1 + i < 6 - n" using that by simp_all
      then show ?thesis using none by blast
    qed
    then have "dv u 1 ((5 - n) + (n - 1)) = dv u (1 + (5 - n)) (n - 1)" by (rule dv_zeros)
    then have "dv u 1 4 < 65536 ^ (n - 1)"
      using dv_lt [of u "1 + (5 - n)" "n - 1"] assms(3,4) by simp
    then show False using assms(5) by simp
  qed
  then obtain i where i: "0 < i" "i < 6 - n" "u ! i \<noteq> 0" by blast
  then have "i < length u" using assms(1,3) by simp
  obtain k where "uskip (4 - int n) 0 u = Some (4 - int n - int k, 0 + k)" "0 + k < i"
    "\<forall>j. 0 < j \<and> j \<le> 0 + k \<longrightarrow> u ! j = 0"
    using uskip_ok [of 0 i u "4 - int n"] i \<open>i < length u\<close> by blast
  moreover from this(3) have "\<forall>j \<le> k. u ! j = 0" using assms(2) by (metis add_0 gr0I)
  ultimately show ?thesis using i by (intro exI [of _ k]) simp
qed

lemma mult_pow_mod: "(x * 2 ^ d) mod (y * 2 ^ d) = x mod y * (2 ^ d :: nat)"
  by (simp add: mult_mod_left)

text \<open>Normalising keeps the quotient and makes the leading digit large.\<close>

lemma normalised_divisor:
  assumes "length v = 5" and "vo + n = 4" and "1 \<le> n" and "0 < unat (v ! (vo + 1))"
  shows "\<exists>d v'. norm_loop (up (v ! (vo + 1))) 0 = Some d \<and> d \<le> 16 \<and> shl_if (vo + 1) (n - 1) d v = Some v' \<and>
    length v' = 5 \<and> dv v' (vo + 1) n = dv v (vo + 1) n * 2 ^ d \<and> 32768 \<le> unat (v' ! (vo + 1))"
proof -
  let ?t = "unat (v ! (vo + 1))"
  obtain d where d: "norm_loop (up (v ! (vo + 1))) 0 = Some d" "32768 \<le> ?t * 2 ^ d" "?t * 2 ^ d < 65536"
    using norm_loop_ok [of "up (v ! (vo + 1))" 0] assms by auto
  have "(2 :: nat) ^ d \<le> ?t * 2 ^ d" using assms(4) by simp
  then have "(2 :: nat) ^ d < 65536" using d(3) by (rule le_less_trans)
  then have "(2 :: nat) ^ d < 2 ^ 16" by simp
  then have d16: "d < 16" by (rule power_less_imp_less_exp [rotated]) simp
  have "?t * 2 ^ d < 2 ^ (16 - d) * 2 ^ d" using d(3) digit_split [of d] d16 by linarith
  then have top: "?t < 2 ^ (16 - d)" by (simp only: mult_less_cancel2)
  have n: "Suc (n - 1) = n" using assms by simp
  obtain v' where v': "shl_if (vo + 1) (n - 1) d v = Some v'" "length v' = 5"
    "dv v' (vo + 1) n = dv v (vo + 1) n * 2 ^ d"
    using shl_if_ok [of d "vo + 1" "n - 1" v] d16 top assms n by auto
  have "32768 * 65536 ^ (n - 1) \<le> ?t * 2 ^ d * 65536 ^ (n - 1)" using d(2) by (rule mult_le_mono1)
  also have "\<dots> \<le> dv v (vo + 1) n * 2 ^ d"
    using dv_head [of v "vo + 1" "n - 1"] unfolding n by (simp add: algebra_simps)
  also have "\<dots> = dv v' (vo + 1) n" using v' by simp
  also have "\<dots> < (unat (v' ! (vo + 1)) + 1) * 65536 ^ (n - 1)"
    using dv_head [of v' "vo + 1" "n - 1"] dv_lt [of v' "vo + 1 + 1" "n - 1"] unfolding n by simp
  finally have "32768 < unat (v' ! (vo + 1)) + 1" by (simp only: mult_less_cancel2)
  then show ?thesis using d v' d16 by auto
qed

text \<open>The quotient digits written by the loop, and what it leaves of the dividend.\<close>

lemma quotient_read:
  assumes "length q = 5" and "m \<le> 3" and "\<forall>i < 4 - m. q ! i = 0" and "dv q (4 - m) (m + 1) = x"
  shows "\<exists>w. quad q = Some w \<and> unat w = x"
proof -
  have "dv q 1 ((3 - m) + (m + 1)) = dv q (1 + (3 - m)) (m + 1)"
    using assms(3) by (intro dv_zeros) auto
  moreover have "1 + (3 - m) = 4 - m" "(3 - m) + (m + 1) = 4" using assms(2) by simp_all
  ultimately have "dv q 1 4 = x" using assms(4) by simp
  then show ?thesis using quad_ok [OF assms(1)] by simp
qed

lemma remainder_read:
  assumes "length u = 5" and "uo + m + n = 4" and "d \<le> 16" and "\<forall>i < uo. u ! i = 0"
    and "dv u uo (n + (m + 1)) = x * 2 ^ d" and small: "x * 2 ^ d < 65536 ^ n"
  shows "\<exists>u' w. rem_if (uo + m) d n u = Some u' \<and> quad u' = Some w \<and> unat w = x"
proof -
  have s: "dv u uo ((m + 1) + n) < 65536 ^ n" using assms(5) small by (simp only: ac_simps)
  have z: "u ! t = 0" if "t \<le> uo + m" for t
    using dv_small(2) [OF s, of "t - uo"] that assms(4) by (cases "t < uo") auto
  have "dv u (uo + m) (Suc n) = x * 2 ^ d"
    using dv_small(1) [OF s] assms(5) z [of "uo + m"] by (simp only: dv_head) (simp add: ac_simps)
  then obtain u' where u': "rem_if (uo + m) d n u = Some u'" "length u' = 5" "\<forall>t \<le> uo + m. u' ! t = u ! t"
    "dv u' (uo + m + 1) n = x"
    using rem_if_ok [OF assms(3), of "uo + m" n u] assms(1,2) z by auto
  have "dv u' 1 ((uo + m) + n) = dv u' (1 + (uo + m)) n"
    using u'(3) z by (intro dv_zeros) auto
  then have "dv u' 1 4 = x" using u'(4) assms(2) by simp
  then show ?thesis using u' quad_ok [OF u'(2)] by auto
qed

lemma dividend_digits:
  assumes "uo + k = 4" and "\<forall>j \<le> uo. u ! j = 0"
  shows "dv u uo (Suc k) = dv u 1 4" and "dv u 1 4 < 65536 ^ k"
proof -
  have "dv u 1 (uo + k) = dv u (1 + uo) k" using assms(2) by (intro dv_zeros) auto
  then have e: "dv u 1 4 = dv u (uo + 1) k" using assms(1) by simp
  then show "dv u 1 4 < 65536 ^ k" by (simp only: dv_lt)
  show "dv u uo (Suc k) = dv u 1 4" unfolding dv_head e using assms(2) by simp
qed

lemma long_div_ok:
  assumes "length u = 5" and "u ! 0 = 0" and "length v = 5" and "length q = 5"
    and "vo + n = 4" and "2 \<le> n" and v1: "v ! (vo + 1) \<noteq> 0" and le: "dv v (vo + 1) n \<le> dv u 1 4"
  shows "\<exists>quot r. long_div arq n vo u v q = Some (quot, if arq then Some r else None) \<and>
    unat quot = dv u 1 4 div dv v (vo + 1) n \<and> unat r = dv u 1 4 mod dv v (vo + 1) n"
proof -
  let ?U = "dv u 1 4" and ?V = "dv v (vo + 1) n"
  have n: "Suc (n - 1) = n" using assms by simp
  have t: "0 < unat (v ! (vo + 1))" using v1 by (simp add: unat_gt_0)
  then have "1 * 65536 ^ (n - 1) \<le> unat (v ! (vo + 1)) * 65536 ^ (n - 1)" by (intro mult_le_mono1) simp
  then have Vlow: "65536 ^ (n - 1) \<le> ?V"
    using dv_head [of v "vo + 1" "n - 1"] unfolding n mult_1 by linarith
  obtain uo where uo: "uskip (4 - int n) 0 u = Some (4 - int n - int uo, uo)" "uo + n \<le> 4" "\<forall>j \<le> uo. u ! j = 0"
    using uskip_from_divisor [OF assms(1,2,6)] assms(5) le_trans [OF Vlow le] by auto
  define m where "m = 4 - n - uo"
  have m: "uo + m + n = 4" "uo + (m + n) = 4" "nat (4 - int n - int uo) = m" "\<not> 4 - int n - int uo < 0" "m \<le> 3"
    using uo(2) assms(6) by (auto simp: m_def)
  obtain d v' where d: "norm_loop (up (v ! (vo + 1))) 0 = Some d" "d \<le> 16"
    and v': "shl_if (vo + 1) (n - 1) d v = Some v'" "length v' = 5" "dv v' (vo + 1) n = ?V * 2 ^ d"
      "32768 \<le> unat (v' ! (vo + 1))"
    using normalised_divisor [OF assms(3,5) _ t] assms(6) by auto
  note Us = dividend_digits [OF m(2) uo(3)]
  obtain u' where u': "shl_if uo (m + n) d u = Some u'" "length u' = 5"
    "dv u' uo (Suc (m + n)) = ?U * 2 ^ d" "\<forall>t < uo. u' ! t = u ! t"
    using shl_if_ok [OF d(2), of uo "m + n" u] m assms(1) uo(3) unfolding Us(1) by auto
  have "4 - m \<le> length q" using assms(4) by linarith
  from qzero_ok [OF this] obtain q0 where q0: "qzero (4 - m) q = Some q0" "length q0 = 5" "\<forall>j < 4 - m. q0 ! j = 0"
    using assms(4) by auto
  have "m + n = (n - 1) + (m + 1)" using n by simp
  then have "(65536 :: nat) ^ (m + n) = 65536 ^ (n - 1) * 65536 ^ (m + 1)" by (simp only: power_add)
  then have "?U < ?V * 65536 ^ (m + 1)" using Us(2) mult_le_mono1 [OF Vlow, of "65536 ^ (m + 1)"] by linarith
  then have "?U * 2 ^ d < ?V * 65536 ^ (m + 1) * 2 ^ d" by (simp only: mult_less_cancel2) simp
  then have small: "dv u' uo (n + (m + 1)) < dv v' (vo + 1) n * 65536 ^ (m + 1)"
    using u'(3) v'(3) by (simp add: ac_simps del: dv.simps)
  have ix: "vo + n < 5" "uo + n + (m + 1) = 5" "(4 - m) + (m + 1) = 5" using m(1,5) assms(5) by simp_all
  obtain u2 q2 where L: "d_loop vo v' n (v' ! (vo + 1)) (v' ! (vo + 2)) (m + 1) uo (4 - m) u' q0 = Some (u2, q2)"
    "length u2 = 5" "length q2 = 5" "dv q2 (4 - m) (m + 1) = dv u' uo (n + (m + 1)) div dv v' (vo + 1) n"
    "\<forall>i < 4 - m. q2 ! i = q0 ! i"
    "dv u2 uo (n + (m + 1)) = dv u' uo (n + (m + 1)) mod dv v' (vo + 1) n" "\<forall>i < uo. u2 ! i = u' ! i"
    using d_loop_ok [OF v'(2) ix(1) assms(6) refl refl v'(4) u'(2) q0(2) ix(2,3) small] by blast
  have V': "?V * 2 ^ d < 65536 ^ n" using dv_lt [of v' "vo + 1" n] v'(3) by simp
  have U': "dv u' uo (n + (m + 1)) = ?U * 2 ^ d" using u'(3) by (simp add: ac_simps del: dv.simps)
  have "0 < ?V" using Vlow by (rule less_le_trans [rotated]) simp
  then have "?U mod ?V * 2 ^ d \<le> ?V * 2 ^ d" by (intro mult_le_mono1 less_imp_le mod_less_divisor)
  then have R': "?U mod ?V * 2 ^ d < 65536 ^ n" using V' by (rule le_less_trans)
  have z2: "\<forall>i < uo. u2 ! i = 0" using L(7) u'(4) uo(3) by simp
  obtain u3 r where r: "rem_if (uo + m) d n u2 = Some u3" "quad u3 = Some r" "unat r = ?U mod ?V"
    using remainder_read [OF L(2) m(1) d(2) z2 L(6) [unfolded U' v'(3) mult_pow_mod] R'] by blast
  obtain w where w: "quad q2 = Some w" "unat w = ?U div ?V"
    using quotient_read [OF L(3) m(5) _ L(4) [unfolded U' v'(3)]] L(5) q0(3) by auto
  have "long_div arq n vo u v q = Some (w, if arq then Some r else None)"
    using uo(1) m q0(1) d(1) u'(1) v'(1,2) L(1) r(1,2) w(1) assms
    by (cases arq) (simp_all add: long_div_def Let_def del: d_loop.simps)
  then show ?thesis using w r by blast
qed

lemma vskip_ok:
  assumes "length v = 5" and "dv v 1 4 \<noteq> 0"
  shows "vskip 4 0 v = Some (Inl 2) \<and> dv v 1 4 = unat (v ! 4) \<or>
    (\<exists>n vo. vskip 4 0 v = Some (Inr (n, vo)) \<and> vo + n = 4 \<and> 2 \<le> n \<and> v ! (vo + 1) \<noteq> 0 \<and>
      dv v (vo + 1) n = dv v 1 4)"
proof -
  have head: "dv v 1 4 = dv v (vo + 1) n" if "vo + n = 4" "\<And>i. i < vo \<Longrightarrow> v ! (1 + i) = 0" for vo n
    using dv_zeros [of vo v 1 n] that by (simp add: add.commute)
  consider "v ! 1 \<noteq> 0" | "v ! 1 = 0" "v ! 2 \<noteq> 0" | "v ! 1 = 0" "v ! 2 = 0" "v ! 3 \<noteq> 0"
    | "v ! 1 = 0" "v ! 2 = 0" "v ! 3 = 0" by blast
  then show ?thesis
  proof cases
    case 1
    then show ?thesis using vskip_4 [OF assms(1)] by auto
  next
    case 2
    then show ?thesis using vskip_4 [OF assms(1)] head [of 1 3] by (simp add: numeral_2_eq_2)
  next
    case 3
    then have "v ! (1 + i) = 0" if "i < 2" for i using that
      by (auto simp: less_Suc_eq numeral_2_eq_2 numeral_3_eq_3)
    then have "dv v 1 4 = dv v (2 + 1) 2" by (intro head) simp_all
    then show ?thesis using 3 vskip_4 [OF assms(1)] by (auto simp del: dv.simps)
  next
    case 4
    then show ?thesis using vskip_4 [OF assms(1)] unfolding dv_4 by simp
  qed
qed

text \<open>
  Division returns the quotient and the remainder, for all operands with a divisor that is not
  zero and whatever the stack held.
\<close>

lemma qdivrem_eq:
  assumes "vll \<noteq> 0" and "length q = 5"
  shows "qdivrem v0 q arq ull vll = Some (ull div vll, if arq then Some (ull mod vll) else None)"
proof (cases "ull < vll")
  case True
  then show ?thesis
    using assms by (simp add: qdivrem_def word_less_nat_alt word_unat_eq_iff unat_div unat_mod)
next
  case False
  let ?u = "[0, dn (HHALF (ui_H ull)), dn (LHALF (ui_H ull)), dn (HHALF (ui_L ull)), dn (LHALF (ui_L ull))]"
  let ?v = "[v0, dn (HHALF (ui_H vll)), dn (LHALF (ui_H vll)), dn (HHALF (ui_L vll)), dn (LHALF (ui_L vll))]"
  have U: "dv ?u 1 4 = unat ull" and V: "dv ?v 1 4 = unat vll" by (rule digits_of_u64, rule refl)+
  have Vpos: "dv ?v 1 4 \<noteq> 0" unfolding V using assms(1) by (simp add: unat_eq_zero)
  have fin: "Some (a, if arq then Some b else None) = Some (ull div vll, if arq then Some (ull mod vll) else None)"
    if "unat a = unat ull div unat vll" "unat b = unat ull mod unat vll" for a b :: u64
    using that by (simp add: word_unat_eq_iff unat_div unat_mod)
  have run: "qdivrem v0 q arq ull vll = do {
      plan \<leftarrow> vskip 4 0 ?v;
      case plan of
        Inl vo \<Rightarrow> do {
          t \<leftarrow> get_at ?v (vo + 2);
          (quot, r) \<leftarrow> short_div ?u (up t);
          Some (quot, if arq then Some r else None) }
      | Inr (n, vo) \<Rightarrow> long_div arq n vo ?u ?v q }"
    using False assms(1) by (simp only: qdivrem_def if_False Let_def)
  from vskip_ok [OF _ Vpos] consider
    "vskip 4 0 ?v = Some (Inl 2)" "dv ?v 1 4 = unat (?v ! 4)"
    | n vo where "vskip 4 0 ?v = Some (Inr (n, vo))" "vo + n = 4" "2 \<le> n" "?v ! (vo + 1) \<noteq> 0"
      "dv ?v (vo + 1) n = dv ?v 1 4" by force
  then show ?thesis
  proof cases
    case 1
    then have "0 < unat (up (?v ! 4))" "unat (up (?v ! 4)) < 65536" using Vpos by simp_all
    from short_div_ok [OF _ this, of ?u] obtain a b where
      "short_div ?u (up (?v ! 4)) = Some (a, b)" "unat a = unat ull div unat vll" "unat b = unat ull mod unat vll"
      unfolding U using 1 V by auto
    then show ?thesis unfolding run 1(1) using fin by simp
  next
    case (2 n vo)
    have le: "dv ?v (vo + 1) n \<le> dv ?u 1 4"
      unfolding 2(5) U V using False by (simp add: word_less_nat_alt)
    from long_div_ok [OF _ _ _ assms(2) 2(2,3,4) le, of arq] obtain a b where
      "long_div arq n vo ?u ?v q = Some (a, if arq then Some b else None)"
      "unat a = unat ull div unat vll" "unat b = unat ull mod unat vll"
      unfolding 2(5) U V by auto
    then show ?thesis unfolding run 2(1) using fin by simp
  qed
qed

section \<open>Signed division\<close>

lemma uint_abs: "uint (if sint x < 0 then - x else x) = \<bar>sint x\<bar>" for x :: u64
proof -
  have "uint x < 2 ^ 64" using uint_lt2p [of x] by simp
  moreover have "uint (- x) = (if x = 0 then 0 else 2 ^ 64 - uint x)"
    using calculation by (auto simp: uint_word_ariths zmod_zminus1_eq_if unsigned_eq_0_iff)
  ultimately show ?thesis by (auto simp: sint_cases)
qed

lemma divdi3_eq:
  assumes "b \<noteq> 0" and "length q = 5"
  shows "divdi3 v0 q a b = Some (word_of_int (sint a sdiv sint b))"
proof -
  define ua where "ua = (if sint a < 0 then - a else a)"
  define ub where "ub = (if sint b < 0 then - b else b)"
  have "ub \<noteq> 0" using assms(1) by (simp add: ub_def)
  then have run: "divdi3 v0 q a b = Some (if (sint a < 0) = (sint b < 0) then ua div ub else - (ua div ub))"
    using assms(2) by (auto simp: divdi3_def Let_def qdivrem_eq ua_def ub_def)
  have "ua div ub = word_of_int (\<bar>sint a\<bar> div \<bar>sint b\<bar>)"
    unfolding uint_abs [symmetric] ua_def ub_def by (simp only: word_div_def)
  moreover have "sint b \<noteq> 0" using assms(1) by (simp only: signed_eq_0_iff) simp
  then have "sint a sdiv sint b = (if (sint a < 0) = (sint b < 0) then \<bar>sint a\<bar> div \<bar>sint b\<bar> else - (\<bar>sint a\<bar> div \<bar>sint b\<bar>))"
    by (auto simp: signed_divide_int_def sgn_if)
  ultimately show ?thesis unfolding run by simp
qed

lemma moddi3_eq:
  assumes "b \<noteq> 0" and "length q = 5"
  shows "moddi3 v0 q a b = Some (word_of_int (sint a smod sint b))"
proof -
  define ua where "ua = (if sint a < 0 then - a else a)"
  define ub where "ub = (if sint b < 0 then - b else b)"
  have "ub \<noteq> 0" using assms(1) by (simp add: ub_def)
  then have run: "moddi3 v0 q a b = Some (if sint a < 0 then - (ua mod ub) else ua mod ub)"
    using assms(2) by (auto simp: moddi3_def Let_def qdivrem_eq ua_def ub_def)
  have "ua mod ub = word_of_int (\<bar>sint a\<bar> mod \<bar>sint b\<bar>)"
    unfolding uint_abs [symmetric] ua_def ub_def by (simp only: word_mod_def)
  moreover have "sint a smod sint b = (if sint a < 0 then - (\<bar>sint a\<bar> mod \<bar>sint b\<bar>) else \<bar>sint a\<bar> mod \<bar>sint b\<bar>)"
    using assms(1) by (auto simp: signed_modulo_int_def signed_divide_int_def sgn_if abs_if)
  ultimately show ?thesis unfolding run by simp
qed

section \<open>Properties\<close>

text \<open>
  C12. Algorithm D is correct: for every dividend, every divisor other than zero and whatever the
  stack slots held before the call, the routine ends without an access outside its arrays and
  returns the quotient and, if asked, the remainder of the two unsigned 64-bit numbers; the
  unsigned routines return these.
\<close>

theorem qdivrem_correct:
  assumes "vll \<noteq> 0" and "length qspace = 5"
  shows "qdivrem v0 qspace arq ull vll = Some (ull div vll, if arq then Some (ull mod vll) else None) \<and>
    udivdi3 v0 qspace ull vll = Some (ull div vll) \<and> umoddi3 v0 qspace ull vll = Some (ull mod vll)"
  using qdivrem_eq [OF assms] by (simp add: udivdi3_def umoddi3_def)

theorem qdivrem_correct_witness:
  "qdivrem 0 [1, 2, 3, 4, 5] True 0xfffffffffffffffe 0x8000000000000001 =
     Some (0xfffffffffffffffe div 0x8000000000000001, Some (0xfffffffffffffffe mod 0x8000000000000001))"
  using qdivrem_correct [of "0x8000000000000001" "[1, 2, 3, 4, 5]" 0 True "0xfffffffffffffffe"] by simp

text \<open>
  C13. Signed division truncates towards zero and the remainder has the sign of the dividend; the
  one quotient that does not fit, that of the least number by minus one, wraps around.
\<close>

theorem signed_division_truncates:
  assumes "b \<noteq> 0" and "length qspace = 5"
  shows "divdi3 v0 qspace a b = Some (word_of_int (sint a sdiv sint b)) \<and>
    moddi3 v0 qspace a b = Some (word_of_int (sint a smod sint b))"
  using divdi3_eq [OF assms] moddi3_eq [OF assms] by blast

theorem signed_division_truncates_witness:
  "divdi3 0 [0, 0, 0, 0, 0] (- 7) 2 = Some (- 3) \<and> moddi3 0 [0, 0, 0, 0, 0] (- 7) 2 = Some (- 1)"
  using signed_division_truncates [of 2 "[0, 0, 0, 0, 0]" 0 "- 7"]
  by (simp add: signed_divide_int_def signed_modulo_int_def)

end
