(* ===== verification/Bitmap.thy ===== *)
theory Bitmap
  imports Prelude
begin

text \<open>
  \<open>kern/lib/bitmap.c\<close>: fixed-size arrays of bits, kept in bytes. The set of bits in use is the
  abstraction; the invariant says that the bytes match the number of bits and that the bits
  left over in the last byte are marked, which the search of \<open>bitmap_alloc\<close> relies on. The
  locale states what an allocator of numbered resources promises, and the bitmap implements it.
\<close>

unbundle bit_operations_syntax

section \<open>The operations\<close>

definition BITS_PER_WORD :: u32 where "BITS_PER_WORD = 8"

definition WORD_ALLBITS :: u8 where "WORD_ALLBITS = 0xff"

record bitmap =
  nbits :: u32
  v :: "u8 list"

text \<open>\<open>(WORD_TYPE)1 << offset\<close>.\<close>

definition mask_at :: "nat \<Rightarrow> u8" where "mask_at offset = push_bit offset 1"

fun mark_leftover :: "nat \<Rightarrow> nat \<Rightarrow> nat \<Rightarrow> u8 list \<Rightarrow> u8 list option" where
  "mark_leftover ix j 0 w = Some w"
| "mark_leftover ix j (Suc k) w = do {
     x \<leftarrow> get_at w ix;
     w \<leftarrow> put_at ix (x OR mask_at j) w;
     mark_leftover ix (j + 1) k w }"

text \<open>\<open>bitmap_create\<close>: the arguments say whether each of the two allocations succeeds.\<close>

definition bitmap_create :: "bool \<Rightarrow> bool \<Rightarrow> u32 \<Rightarrow> bitmap option option" where
  "bitmap_create mem1 mem2 n =
    (let words = DIVROUNDUP n BITS_PER_WORD
     in if \<not> mem1 then Some None
        else if \<not> mem2 then Some None
        else do {
          let w = replicate (unat words) 0;
          w \<leftarrow> (if words > n div BITS_PER_WORD then do {
              let ix = words - 1;
              let overbits = n - ix * BITS_PER_WORD;
              kassert (n div BITS_PER_WORD = words - 1);
              kassert (overbits > 0 \<and> overbits < BITS_PER_WORD);
              mark_leftover (unat ix) (unat overbits) (8 - unat overbits) w }
            else Some w);
          Some (Some \<lparr>nbits = n, v = w\<rparr>) })"

definition bitmap_getdata :: "bitmap \<Rightarrow> u8 list" where "bitmap_getdata b = v b"

text \<open>
  \<open>bitmap_alloc\<close>: the inner loop looks for a clear bit of a byte, the outer one for a byte that
  is not full; running off the end of a byte that is not full fails an assertion.
\<close>

fun alloc_bit :: "u8 \<Rightarrow> nat \<Rightarrow> nat \<Rightarrow> nat option" where
  "alloc_bit x offset 0 = None"
| "alloc_bit x offset (Suc k) =
    (if x AND mask_at offset = 0 then Some offset else alloc_bit x (offset + 1) k)"

fun alloc_word :: "bitmap \<Rightarrow> u32 \<Rightarrow> nat \<Rightarrow> ((errno + u32) \<times> bitmap) option" where
  "alloc_word b ix 0 = Some (Inl ENOSPC, b)"
| "alloc_word b ix (Suc k) = do {
     x \<leftarrow> get_at (v b) (unat ix);
     if x \<noteq> WORD_ALLBITS then do {
       offset \<leftarrow> alloc_bit x 0 8;
       w \<leftarrow> put_at (unat ix) (x OR mask_at offset) (v b);
       let b = b\<lparr>v := w\<rparr>;
       let index = ix * BITS_PER_WORD + of_nat offset;
       kassert (index < nbits b);
       Some (Inr index, b) }
     else alloc_word b (ix + 1) k }"

definition bitmap_alloc :: "bitmap \<Rightarrow> ((errno + u32) \<times> bitmap) option" where
  "bitmap_alloc b = alloc_word b 0 (unat (DIVROUNDUP (nbits b) BITS_PER_WORD))"

definition bitmap_translate :: "u32 \<Rightarrow> u32 \<times> u8" where
  "bitmap_translate bitno = (bitno div BITS_PER_WORD, mask_at (unat (bitno mod BITS_PER_WORD)))"

definition bitmap_mark :: "u32 \<Rightarrow> bitmap \<Rightarrow> bitmap option" where
  "bitmap_mark index b = do {
     kassert (index < nbits b);
     let (ix, mask) = bitmap_translate index;
     x \<leftarrow> get_at (v b) (unat ix);
     kassert (x AND mask = 0);
     w \<leftarrow> put_at (unat ix) (x OR mask) (v b);
     Some (b\<lparr>v := w\<rparr>) }"

definition bitmap_unmark :: "u32 \<Rightarrow> bitmap \<Rightarrow> bitmap option" where
  "bitmap_unmark index b = do {
     kassert (index < nbits b);
     let (ix, mask) = bitmap_translate index;
     x \<leftarrow> get_at (v b) (unat ix);
     kassert (x AND mask \<noteq> 0);
     w \<leftarrow> put_at (unat ix) (x AND NOT mask) (v b);
     Some (b\<lparr>v := w\<rparr>) }"

definition bitmap_isset :: "bitmap \<Rightarrow> u32 \<Rightarrow> bool option" where
  "bitmap_isset b index = do {
     let (ix, mask) = bitmap_translate index;
     x \<leftarrow> get_at (v b) (unat ix);
     Some (x AND mask \<noteq> 0) }"

section \<open>The bits in use\<close>

definition bm_used :: "bitmap \<Rightarrow> nat \<Rightarrow> bool" where
  "bm_used b i \<longleftrightarrow> bit (v b ! (i div 8)) (i mod 8)"

definition bm_inv :: "bitmap \<Rightarrow> bool" where
  "bm_inv b \<longleftrightarrow> unat (nbits b) \<le> 2 ^ 32 - 8 \<and> length (v b) = (unat (nbits b) + 7) div 8 \<and>
     (\<forall>i. unat (nbits b) \<le> i \<and> i < 8 * length (v b) \<longrightarrow> bm_used b i)"

lemma mask_test: "x AND mask_at k = 0 \<longleftrightarrow> \<not> bit x k" if "k < 8" for x :: u8
proof -
  have "x AND mask_at k = (if bit x k then mask_at k else 0)"
    by (rule bit_word_eqI) (use that in \<open>auto simp: mask_at_def bit_simps\<close>)
  moreover have "bit (mask_at k) k" using that by (simp add: mask_at_def bit_simps)
  ultimately show ?thesis by auto
qed

lemma mask_or: "k < 8 \<Longrightarrow> bit (x OR mask_at k) j \<longleftrightarrow> bit x j \<or> j = k" for x :: u8
  by (auto simp: mask_at_def bit_simps)

lemma mask_and_not: "k < 8 \<Longrightarrow> bit (x AND NOT (mask_at k)) j \<longleftrightarrow> bit x j \<and> j \<noteq> k" for x :: u8
  by (auto simp: mask_at_def bit_simps dest: bit_imp_le_length)

lemma unat_translate:
  "bitmap_translate i = (ix, mk) \<Longrightarrow> unat ix = unat i div 8 \<and> mk = mask_at (unat i mod 8)"
  by (auto simp: bitmap_translate_def BITS_PER_WORD_def unat_div unat_mod)

text \<open>Setting or clearing a bit of a byte changes that bit of the map only.\<close>

lemma used_update:
  assumes "i < 8 * length (v b)" and "bit y (i mod 8) = c"
    and "\<And>j. j < 8 \<Longrightarrow> j \<noteq> i mod 8 \<Longrightarrow> bit y j = bit (v b ! (i div 8)) j"
  shows "bm_used (b\<lparr>v := (v b)[i div 8 := y]\<rparr>) = (bm_used b)(i := c)"
proof
  fix k
  have "i div 8 < length (v b)" using assms(1) by (simp add: less_mult_imp_div_less mult.commute)
  moreover have "k = i \<longleftrightarrow> k div 8 = i div 8 \<and> k mod 8 = i mod 8" by (metis div_mult_mod_eq)
  ultimately show "bm_used (b\<lparr>v := (v b)[i div 8 := y]\<rparr>) k = ((bm_used b)(i := c)) k"
    using assms(2,3) by (cases "k div 8 = i div 8") (auto simp: bm_used_def)
qed

lemma inv_index: "bm_inv b \<Longrightarrow> i < unat (nbits b) \<Longrightarrow> i < 8 * length (v b)"
  by (simp add: bm_inv_def)

lemma inv_update:
  assumes "bm_inv b" and "i < unat (nbits b)" and "bm_used (b\<lparr>v := w\<rparr>) = (bm_used b)(i := c)"
    and "length w = length (v b)"
  shows "bm_inv (b\<lparr>v := w\<rparr>)"
  using assms by (auto simp: bm_inv_def)

lemma bitmap_mark_ok:
  assumes "bm_inv b" and "index < nbits b" and "\<not> bm_used b (unat index)"
  shows "\<exists>b'. bitmap_mark index b = Some b' \<and> nbits b' = nbits b \<and> bm_inv b' \<and>
    bm_used b' = (bm_used b)(unat index := True)"
proof -
  let ?i = "unat index"
  obtain ix mk where t: "bitmap_translate index = (ix, mk)" by fastforce
  have i: "?i < unat (nbits b)" using assms(2) by (simp add: word_less_nat_alt)
  have lt: "?i < 8 * length (v b)" by (rule inv_index [OF assms(1) i])
  then have ix: "?i div 8 < length (v b)" by (simp add: less_mult_imp_div_less mult.commute)
  let ?y = "v b ! (?i div 8) OR mask_at (?i mod 8)"
  have u: "bm_used (b\<lparr>v := (v b)[?i div 8 := ?y]\<rparr>) = (bm_used b)(?i := True)"
    by (rule used_update [OF lt]) (simp_all add: mask_or)
  have "bitmap_mark index b = Some (b\<lparr>v := (v b)[?i div 8 := ?y]\<rparr>)"
    using assms(2,3) unat_translate [OF t] ix
    by (simp add: bitmap_mark_def t mask_test bm_used_def)
  then show ?thesis using u inv_update [OF assms(1) i u] by simp
qed

lemma bitmap_unmark_ok:
  assumes "bm_inv b" and "index < nbits b" and "bm_used b (unat index)"
  shows "\<exists>b'. bitmap_unmark index b = Some b' \<and> nbits b' = nbits b \<and> bm_inv b' \<and>
    bm_used b' = (bm_used b)(unat index := False)"
proof -
  let ?i = "unat index"
  obtain ix mk where t: "bitmap_translate index = (ix, mk)" by fastforce
  have i: "?i < unat (nbits b)" using assms(2) by (simp add: word_less_nat_alt)
  have lt: "?i < 8 * length (v b)" by (rule inv_index [OF assms(1) i])
  then have ix: "?i div 8 < length (v b)" by (simp add: less_mult_imp_div_less mult.commute)
  let ?y = "v b ! (?i div 8) AND NOT (mask_at (?i mod 8))"
  have u: "bm_used (b\<lparr>v := (v b)[?i div 8 := ?y]\<rparr>) = (bm_used b)(?i := False)"
    by (rule used_update [OF lt]) (simp_all add: mask_and_not)
  have "bitmap_unmark index b = Some (b\<lparr>v := (v b)[?i div 8 := ?y]\<rparr>)"
    using assms(2,3) unat_translate [OF t] ix
    by (simp add: bitmap_unmark_def t mask_test bm_used_def)
  then show ?thesis using u inv_update [OF assms(1) i u] by simp
qed

lemma bitmap_isset_ok:
  assumes "bm_inv b" and "index < nbits b"
  shows "bitmap_isset b index = Some (bm_used b (unat index))"
proof -
  let ?i = "unat index"
  obtain ix mk where t: "bitmap_translate index = (ix, mk)" by fastforce
  have "?i < 8 * length (v b)"
    using inv_index [OF assms(1)] assms(2) by (simp add: word_less_nat_alt)
  then have ix: "?i div 8 < length (v b)" by (simp add: less_mult_imp_div_less mult.commute)
  then show ?thesis
    using unat_translate [OF t] by (simp add: bitmap_isset_def t mask_test bm_used_def)
qed

section \<open>Creating\<close>

lemma mark_leftover_ok:
  assumes "ix < length w" and "j + k \<le> 8"
  shows "\<exists>y. mark_leftover ix j k w = Some (w[ix := y]) \<and> (\<forall>i < 8. bit y i \<longleftrightarrow> bit (w ! ix) i \<or> j \<le> i \<and> i < j + k)"
  using assms
proof (induction k arbitrary: j w)
  case (Suc k)
  let ?x = "w ! ix OR mask_at j"
  obtain y where "mark_leftover ix (j + 1) k (w[ix := ?x]) = Some (w[ix := ?x, ix := y])"
    "\<forall>i < 8. bit y i \<longleftrightarrow> bit (w[ix := ?x] ! ix) i \<or> j + 1 \<le> i \<and> i < j + 1 + k"
    using Suc.IH [of "w[ix := ?x]" "j + 1"] Suc.prems by auto
  then show ?case using Suc.prems by (intro exI [of _ y]) (auto simp: mask_or)
qed (metis list_update_id mark_leftover.simps(1) add_0_right not_le)

lemma unat_DIVROUNDUP_8:
  "unat n \<le> 2 ^ 32 - 8 \<Longrightarrow> unat (DIVROUNDUP n BITS_PER_WORD) = (unat n + 7) div 8"
  by (subst unat_DIVROUNDUP) (simp_all add: BITS_PER_WORD_def)

lemma roundup_8: "(n + 7) div 8 = n div 8 + (if n mod 8 = 0 then 0 else 1)" for n :: nat
proof -
  have "(r + 7) div 8 = 1" if "0 < r" "r < 8" for r :: nat using that by (simp add: div_nat_eqI)
  then have "(n mod 8 + 7) div 8 = (if n mod 8 = 0 then 0 else 1)" by simp
  then show ?thesis using div_add1_eq [of n 7 8] by simp
qed

lemma unat_8: "unat BITS_PER_WORD = 8"
  by (simp add: BITS_PER_WORD_def)

lemma bitmap_create_ok:
  assumes n: "unat n \<le> 2 ^ 32 - 8"
  shows "\<exists>b. bitmap_create True True n = Some (Some b) \<and> nbits b = n \<and> bm_inv b \<and>
    (\<forall>i < unat n. \<not> bm_used b i)"
proof -
  define words where "words = DIVROUNDUP n BITS_PER_WORD"
  have w: "unat words = (unat n + 7) div 8" unfolding words_def by (rule unat_DIVROUNDUP_8 [OF n])
  have d: "unat (n div BITS_PER_WORD) = unat n div 8" by (simp add: BITS_PER_WORD_def unat_div)
  show ?thesis
  proof (cases "words > n div BITS_PER_WORD")
    case False
    then have "unat n mod 8 = 0" using w d
      by (simp add: word_less_nat_alt roundup_8 split: if_splits)
    then show ?thesis
      using False n w by (auto simp: bitmap_create_def words_def [symmetric] bm_inv_def bm_used_def)
  next
    case True
    then have m: "unat n mod 8 \<noteq> 0" "unat words = unat n div 8 + 1"
      using w d by (simp_all add: word_less_nat_alt roundup_8 split: if_splits)
    let ?ix = "words - 1" and ?over = "n - (words - 1) * BITS_PER_WORD"
    have ix: "unat ?ix = unat n div 8" using m(2) by (subst unat_dec_u32) auto
    have "unat (?ix * BITS_PER_WORD) = (unat n div 8 * 8) mod 2 ^ 32"
      unfolding unat_word_ariths(2) ix by (simp add: BITS_PER_WORD_def)
    then have "unat (?ix * BITS_PER_WORD) = unat n div 8 * 8"
      using unat_u32_lt [of n] div_times_less_eq_dividend [of "unat n" 8] by simp
    then have over: "unat ?over = unat n mod 8"
      by (subst unat_sub) (simp_all only: word_le_nat_alt minus_div_mult_eq_mod div_times_less_eq_dividend)
    define W where "W = replicate (unat words) (0 :: u8)"
    have W: "length W = unat n div 8 + 1" "\<And>i. i \<le> unat n div 8 \<Longrightarrow> W ! i = 0"
      using m(2) by (simp_all add: W_def del: replicate_Suc)
    obtain y where y: "mark_leftover (unat n div 8) (unat n mod 8) (8 - unat n mod 8) W = Some (W[unat n div 8 := y])"
      "\<forall>i < 8. bit y i \<longleftrightarrow> unat n mod 8 \<le> i"
      using mark_leftover_ok [of "unat n div 8" W "unat n mod 8" "8 - unat n mod 8"] W by auto
    let ?b = "\<lparr>nbits = n, v = W[unat n div 8 := y]\<rparr>"
    have used: "bm_used ?b i \<longleftrightarrow> unat n \<le> i" if "i < 8 * unat words" for i
    proof (cases "i div 8 = unat n div 8")
      case True
      then have "unat n mod 8 \<le> i mod 8 \<longleftrightarrow> unat n \<le> i"
        by (metis add_le_cancel_left div_mult_mod_eq)
      then show ?thesis using True y(2) W by (simp add: bm_used_def)
    next
      case False
      then have "i div 8 < unat n div 8" using that m(2) by (simp add: less_mult_imp_div_less)
      then show ?thesis using W(2) [of "i div 8"] by (simp add: bm_used_def)
    qed
    have "bitmap_create True True n = Some (Some ?b)"
      using True y(1) m over d ix
      by (simp add: bitmap_create_def words_def [symmetric] W_def [unfolded m(2) Suc_eq_plus1 [symmetric], symmetric]
          Let_def word_less_nat_alt word_unat_eq_iff unat_8 del: replicate_Suc)
    moreover have "bm_inv ?b" using used m n w W by (auto simp: bm_inv_def)
    ultimately show ?thesis using used m by auto
  qed
qed

section \<open>Allocating\<close>

lemma alloc_bit_ok:
  assumes "\<exists>j. offset \<le> j \<and> j < offset + k \<and> \<not> bit x j" and "offset + k \<le> 8"
  shows "\<exists>r. alloc_bit x offset k = Some r \<and> offset \<le> r \<and> r < offset + k \<and> \<not> bit x r \<and>
    (\<forall>j. offset \<le> j \<and> j < r \<longrightarrow> bit x j)"
  using assms
proof (induction k arbitrary: offset)
  case (Suc k)
  show ?case
  proof (cases "bit x offset")
    case True
    obtain j where "offset \<le> j" "j < offset + Suc k" "\<not> bit x j" using Suc.prems(1) by blast
    then have "\<exists>j. offset + 1 \<le> j \<and> j < offset + 1 + k \<and> \<not> bit x j"
      using True by (intro exI [of _ j]) (cases "j = offset", auto)
    from Suc.IH [OF this] Suc.prems(2) obtain r where "alloc_bit x (offset + 1) k = Some r" "offset + 1 \<le> r"
      "r < offset + 1 + k" "\<not> bit x r" and b: "\<forall>j. offset + 1 \<le> j \<and> j < r \<longrightarrow> bit x j" by auto
    moreover have "bit x j" if "offset \<le> j" "j < r" for j
      using b True that by (cases "j = offset") auto
    ultimately show ?thesis using True Suc.prems by (auto simp: mask_test)
  qed (use Suc.prems in \<open>auto simp: mask_test\<close>)
qed auto

lemma not_allbits: "x \<noteq> WORD_ALLBITS \<longleftrightarrow> (\<exists>j < 8. \<not> bit x j)"
proof -
  have "bit (0xff :: u8) j" if "j < 8" for j
  proof -
    have ff: "(0xff :: u8) = mask 8" by (simp add: mask_eq_exp_minus_1)
    show ?thesis unfolding ff using that by (simp add: bit_mask_iff)
  qed
  then have "x = 0xff \<longleftrightarrow> (\<forall>j < 8. bit x j)" by (auto intro!: bit_word_eqI)
  then show ?thesis by (auto simp: WORD_ALLBITS_def)
qed

text \<open>The search from byte \<open>ix\<close> on, when all bytes before it are full.\<close>

lemma alloc_word_ok:
  assumes "bm_inv b" and "unat ix + k = length (v b)" and "\<forall>i < 8 * unat ix. bm_used b i"
  shows "(\<forall>i < 8 * length (v b). bm_used b i) \<and> alloc_word b ix k = Some (Inl ENOSPC, b) \<or>
    (\<exists>index b'. alloc_word b ix k = Some (Inr index, b') \<and> index < nbits b \<and> \<not> bm_used b (unat index) \<and>
      (\<forall>i < unat index. bm_used b i) \<and> nbits b' = nbits b \<and> bm_inv b' \<and>
      bm_used b' = (bm_used b)(unat index := True))"
  using assms(2,3)
proof (induction k arbitrary: ix)
  case 0
  then show ?case by simp
next
  case (Suc k)
  let ?x = "v b ! unat ix"
  have len: "length (v b) \<le> (2 ^ 32 - 1) div 8"
    using assms(1) div_le_mono [of "unat (nbits b) + 7" "2 ^ 32 - 1" 8] by (simp add: bm_inv_def)
  show ?case
  proof (cases "?x = WORD_ALLBITS")
    case True
    have n: "unat (ix + 1) = unat ix + 1" using Suc.prems(1) len by (subst unat_inc_u32) simp_all
    have "bm_used b i" if "i < 8 * unat (ix + 1)" for i
    proof (cases "i < 8 * unat ix")
      case False
      then have "i div 8 = unat ix" using that n by simp
      then show ?thesis using not_allbits [of ?x] True by (auto simp: bm_used_def)
    qed (use Suc.prems in auto)
    then show ?thesis using Suc.IH [of "ix + 1"] n True Suc.prems by simp
  next
    case False
    then obtain offset where o: "alloc_bit ?x 0 8 = Some offset" "offset < 8" "\<not> bit ?x offset" "\<forall>j < offset. bit ?x j"
      using alloc_bit_ok [of 0 8 ?x] by (auto simp: not_allbits)
    define i where "i = unat ix * 8 + offset"
    have id: "i div 8 = unat ix" "i mod 8 = offset" using o(2) by (simp_all add: i_def)
    have free: "\<not> bm_used b i" using o(3) id by (simp add: bm_used_def)
    have lt: "i < 8 * length (v b)" using Suc.prems(1) o(2) by (simp add: i_def)
    then have nb: "i < unat (nbits b)" using assms(1) free by (auto simp: bm_inv_def not_less [symmetric])
    have least: "bm_used b j" if "j < i" for j
    proof (cases "j < 8 * unat ix")
      case False
      then obtain r where "j = 8 * unat ix + r" using le_Suc_ex not_less by blast
      then have "j div 8 = unat ix" "j mod 8 < offset" using that o(2) unfolding i_def by simp_all
      then show ?thesis using o(4) by (simp add: bm_used_def)
    qed (use Suc.prems in auto)
    let ?index = "ix * BITS_PER_WORD + of_nat offset"
    have "?index = of_nat i" by (simp add: i_def BITS_PER_WORD_def)
    then have index: "unat ?index = i"
      using nb unat_u32_lt [of "nbits b"] by (simp add: unat_of_nat_u32 del: unat_u32_lt)
    have u: "bm_used (b\<lparr>v := (v b)[i div 8 := ?x OR mask_at offset]\<rparr>) = (bm_used b)(i := True)"
      using o(2) id by (intro used_update [OF lt]) (simp_all add: mask_or)
    show ?thesis
      using False o Suc.prems index nb free least id u inv_update [OF assms(1) nb u]
      by (auto simp: word_less_nat_alt Let_def)
  qed
qed

lemma bitmap_alloc_ok:
  assumes "bm_inv b"
  shows "(\<forall>i < unat (nbits b). bm_used b i) \<and> bitmap_alloc b = Some (Inl ENOSPC, b) \<or>
    (\<exists>index b'. bitmap_alloc b = Some (Inr index, b') \<and> index < nbits b \<and> \<not> bm_used b (unat index) \<and>
      (\<forall>i < unat index. bm_used b i) \<and> nbits b' = nbits b \<and> bm_inv b' \<and>
      bm_used b' = (bm_used b)(unat index := True))"
proof -
  have "unat (0 :: u32) + unat (DIVROUNDUP (nbits b) BITS_PER_WORD) = length (v b)"
    using assms by (simp add: bm_inv_def unat_DIVROUNDUP_8)
  from alloc_word_ok [OF assms this] show ?thesis
    using inv_index [OF assms] by (auto simp: bitmap_alloc_def)
qed

section \<open>What an allocator promises\<close>

text \<open>A sequence of allocations.\<close>

fun alloc_many :: "('b \<Rightarrow> ((errno + u32) \<times> 'b) option) \<Rightarrow> nat \<Rightarrow> 'b \<Rightarrow> (u32 list \<times> 'b) option" where
  "alloc_many alloc 0 b = Some ([], b)"
| "alloc_many alloc (Suc k) b = do {
     (r, b) \<leftarrow> alloc b;
     case r of Inl e \<Rightarrow> None
     | Inr i \<Rightarrow> do { (is, b) \<leftarrow> alloc_many alloc k b; Some (i # is, b) } }"

locale allocator =
  fixes size_of :: "'b \<Rightarrow> u32" and used :: "'b \<Rightarrow> nat \<Rightarrow> bool" and inv :: "'b \<Rightarrow> bool"
    and alloc :: "'b \<Rightarrow> ((errno + u32) \<times> 'b) option" and release :: "u32 \<Rightarrow> 'b \<Rightarrow> 'b option"
  assumes alloc_law: "inv b \<Longrightarrow>
      (\<forall>i < unat (size_of b). used b i) \<and> alloc b = Some (Inl ENOSPC, b) \<or>
      (\<exists>i b'. alloc b = Some (Inr i, b') \<and> i < size_of b \<and> \<not> used b (unat i) \<and> (\<forall>j < unat i. used b j) \<and>
        size_of b' = size_of b \<and> inv b' \<and> used b' = (used b)(unat i := True))"
    and release_law: "inv b \<Longrightarrow> i < size_of b \<Longrightarrow> used b (unat i) \<Longrightarrow>
      \<exists>b'. release i b = Some b' \<and> size_of b' = size_of b \<and> inv b' \<and> used b' = (used b)(unat i := False)"
begin

definition free_count :: "'b \<Rightarrow> nat" where
  "free_count b = card {i. i < unat (size_of b) \<and> \<not> used b i}"

lemma free_count_alloc:
  assumes "inv b" and "alloc b = Some (Inr i, b')"
  shows "free_count b = Suc (free_count b')"
proof -
  have a: "i < size_of b" "\<not> used b (unat i)" "size_of b' = size_of b" "used b' = (used b)(unat i := True)"
    using alloc_law [OF assms(1)] assms(2) by auto
  then have "{i. i < unat (size_of b) \<and> \<not> used b i} = insert (unat i) {i. i < unat (size_of b') \<and> \<not> used b' i}"
    by (auto simp: word_less_nat_alt)
  moreover have "unat i \<notin> {i. i < unat (size_of b') \<and> \<not> used b' i}" using a by simp
  ultimately show ?thesis by (simp add: free_count_def)
qed

lemma alloc_iff_free: "inv b \<Longrightarrow> (\<exists>i b'. alloc b = Some (Inr i, b')) \<longleftrightarrow> 0 < free_count b"
proof
  assume "inv b" and "\<exists>i b'. alloc b = Some (Inr i, b')"
  then show "0 < free_count b" using free_count_alloc by fastforce
next
  assume "inv b" and "0 < free_count b"
  then obtain i where "i < unat (size_of b)" "\<not> used b i"
    unfolding free_count_def card_gt_0_iff by blast
  then show "\<exists>i b'. alloc b = Some (Inr i, b')" using alloc_law [OF \<open>inv b\<close>] by blast
qed

lemma alloc_release:
  assumes "inv b" and "alloc b = Some (Inr i, b')"
  shows "\<exists>b''. release i b' = Some b'' \<and> size_of b'' = size_of b \<and> inv b'' \<and> used b'' = used b"
proof -
  have a: "i < size_of b" "\<not> used b (unat i)" "size_of b' = size_of b" "inv b'" "used b' = (used b)(unat i := True)"
    using alloc_law [OF assms(1)] assms(2) by auto
  then obtain b'' where "release i b' = Some b''" "size_of b'' = size_of b'" "inv b''"
    "used b'' = (used b')(unat i := False)"
    using release_law [of b' i] by auto
  moreover have "(used b')(unat i := False) = used b" using a by (auto simp: fun_eq_iff)
  ultimately show ?thesis using a by simp
qed

lemma alloc_many_law:
  assumes "inv b" and "k \<le> free_count b"
  shows "\<exists>is b'. alloc_many alloc k b = Some (is, b') \<and> length is = k \<and> sorted_wrt (<) is \<and>
    (\<forall>i \<in> set is. i < size_of b \<and> \<not> used b (unat i)) \<and> inv b' \<and> size_of b' = size_of b \<and>
    free_count b = free_count b' + k \<and> (\<forall>j. used b' j \<longleftrightarrow> used b j \<or> j \<in> unat ` set is)"
  using assms
proof (induction k arbitrary: b)
  case (Suc k)
  then obtain i b1 where a: "alloc b = Some (Inr i, b1)" using alloc_iff_free [of b] by auto
  then have l: "i < size_of b" "\<not> used b (unat i)" "\<forall>j < unat i. used b j" "size_of b1 = size_of b" "inv b1"
    "used b1 = (used b)(unat i := True)"
    using alloc_law [OF Suc.prems(1)] by auto
  have "free_count b = Suc (free_count b1)" by (rule free_count_alloc [OF Suc.prems(1) a])
  then obtain js b' where r: "alloc_many alloc k b1 = Some (js, b')" "length js = k" "sorted_wrt (<) js"
    "\<forall>j \<in> set js. j < size_of b1 \<and> \<not> used b1 (unat j)" "inv b'" "size_of b' = size_of b1"
    "free_count b1 = free_count b' + k" "\<forall>j. used b' j \<longleftrightarrow> used b1 j \<or> j \<in> unat ` set js"
    using Suc.IH [of b1] Suc.prems l by auto
  have above: "i < j" if "j \<in> set js" for j
  proof -
    have "\<not> used b1 (unat j)" using r(4) that by blast
    then have "unat j \<noteq> unat i" "\<not> used b (unat j)" using l(6) by (auto split: if_splits)
    then show ?thesis using l(3) by (metis linorder_neqE_nat word_less_nat_alt)
  qed
  then show ?case
    using a l r \<open>free_count b = Suc (free_count b1)\<close>
    by (auto simp: fun_upd_def split: if_splits)
qed (auto simp: free_count_def)

end

interpretation bm: allocator nbits bm_used bm_inv bitmap_alloc bitmap_unmark
  by unfold_locales (rule bitmap_alloc_ok, assumption, rule bitmap_unmark_ok)

section \<open>Properties\<close>

lemma alloc_many_in_order:
  assumes "bm_inv b" and "\<forall>i < unat (nbits b). bm_used b i \<longleftrightarrow> i < j" and "j + k \<le> unat (nbits b)"
  shows "\<exists>b'. alloc_many bitmap_alloc k b = Some (map of_nat [j..<j + k], b') \<and> bm_inv b' \<and> nbits b' = nbits b \<and>
    (\<forall>i < unat (nbits b). bm_used b' i \<longleftrightarrow> i < j + k)"
  using assms
proof (induction k arbitrary: b j)
  case (Suc k)
  then have "\<not> bm_used b j" "j < unat (nbits b)" by simp_all
  then obtain index b1 where a: "bitmap_alloc b = Some (Inr index, b1)" "index < nbits b" "\<not> bm_used b (unat index)"
    "\<forall>i < unat index. bm_used b i" "nbits b1 = nbits b" "bm_inv b1" "bm_used b1 = (bm_used b)(unat index := True)"
    using bm.alloc_law [OF Suc.prems(1)] by blast
  then have "unat index = j"
    using Suc.prems(2) \<open>\<not> bm_used b j\<close> by (metis linorder_neqE_nat word_less_nat_alt)
  then have i: "index = of_nat j" by auto
  have "\<forall>i < unat (nbits b1). bm_used b1 i \<longleftrightarrow> i < Suc j"
    using Suc.prems(2) a \<open>unat index = j\<close> by auto
  then obtain b' where "alloc_many bitmap_alloc k b1 = Some (map of_nat [Suc j..<Suc j + k], b')" "bm_inv b'"
    "nbits b' = nbits b1" "\<forall>i < unat (nbits b1). bm_used b' i \<longleftrightarrow> i < Suc j + k"
    using Suc.IH [of b1 "Suc j"] a Suc.prems(3) by auto
  moreover have "[j..<j + Suc k] = j # [Suc j..<Suc j + k]" by (simp add: upt_conv_Cons del: upt_Suc)
  ultimately show ?case using a i by (simp del: upt_Suc)
qed simp

text \<open>
  C16. A new bitmap of \<open>n\<close> bits hands out the indices 0, 1, 2 and so on, each of them once, and
  after \<open>n\<close> allocations the next one fails with \<open>ENOSPC\<close>; the bits that fill up the last byte
  are never handed out.
\<close>

theorem bitmap_allocates_in_order:
  assumes "unat n \<le> 2 ^ 32 - 8" and "k \<le> unat n"
  shows "\<exists>b b'. bitmap_create True True n = Some (Some b) \<and>
    alloc_many bitmap_alloc k b = Some (map of_nat [0..<k], b') \<and>
    (k = unat n \<longrightarrow> bitmap_alloc b' = Some (Inl ENOSPC, b'))"
proof -
  obtain b where b: "bitmap_create True True n = Some (Some b)" "nbits b = n" "bm_inv b" "\<forall>i < unat n. \<not> bm_used b i"
    using bitmap_create_ok [OF assms(1)] by blast
  then obtain b' where r: "alloc_many bitmap_alloc k b = Some (map of_nat [0..<k], b')" "bm_inv b'" "nbits b' = n"
    "\<forall>i < unat n. bm_used b' i \<longleftrightarrow> i < k"
    using alloc_many_in_order [of b 0 k] assms(2) by auto
  have "bitmap_alloc b' = Some (Inl ENOSPC, b')" if "k = unat n"
    using bm.alloc_law [OF r(2)] r(3,4) that by (auto simp: word_less_nat_alt)
  then show ?thesis using b r by blast
qed

theorem bitmap_allocates_in_order_witness:
  "\<exists>b b'. bitmap_create True True 11 = Some (Some b) \<and>
    alloc_many bitmap_alloc 11 b = Some (map of_nat [0..<11], b') \<and> bitmap_alloc b' = Some (Inl ENOSPC, b')"
  using bitmap_allocates_in_order [of 11 11] by auto

text \<open>
  Allocating an index and unmarking it again leaves exactly the bits in use that there were,
  so that no bit is lost or gained.
\<close>

theorem bitmap_alloc_unmark_roundtrip:
  assumes "bm_inv b" and "bitmap_alloc b = Some (Inr index, b')"
  shows "bitmap_isset b index = Some False \<and> bitmap_isset b' index = Some True \<and>
    (\<exists>b''. bitmap_unmark index b' = Some b'' \<and> bm_inv b'' \<and> bm_used b'' = bm_used b)"
proof -
  have a: "index < nbits b" "\<not> bm_used b (unat index)" "nbits b' = nbits b" "bm_inv b'" "bm_used b' (unat index)"
    using bm.alloc_law [OF assms(1)] assms(2) by auto
  then show ?thesis
    using bitmap_isset_ok [OF assms(1)] bitmap_isset_ok [of b' index] bm.alloc_release [OF assms] by auto
qed

theorem bitmap_alloc_unmark_roundtrip_witness:
  "bitmap_isset \<lparr>nbits = 8, v = [1]\<rparr> 1 = Some False \<and> bitmap_isset \<lparr>nbits = 8, v = [3]\<rparr> 1 = Some True \<and>
    (\<exists>b''. bitmap_unmark 1 \<lparr>nbits = 8, v = [3]\<rparr> = Some b'' \<and> bm_inv b'' \<and>
      bm_used b'' = bm_used \<lparr>nbits = 8, v = [1]\<rparr>)"
proof (rule bitmap_alloc_unmark_roundtrip)
  show "bm_inv \<lparr>nbits = 8, v = [1]\<rparr>" by (auto simp: bm_inv_def)
  show "bitmap_alloc \<lparr>nbits = 8, v = [1]\<rparr> = Some (Inr 1, \<lparr>nbits = 8, v = [3]\<rparr>)"
    by code_simp
qed

text \<open>
  The number of bytes wraps around for the seven largest sizes: such a bitmap is created without
  any storage.
\<close>

lemma bitmap_create_wraps:
  assumes "2 ^ 32 - 8 < unat n"
  shows "bitmap_create True True n = Some (Some \<lparr>nbits = n, v = []\<rparr>)"
proof -
  have "unat (7 + n) = (7 + unat n) mod 2 ^ 32" by (simp add: unat_word_ariths)
  also have "\<dots> = 7 + unat n - 2 ^ 32"
    using assms unat_u32_lt [of n] by (simp add: le_mod_geq del: unat_u32_lt)
  finally have "unat (7 + n) < 8" using unat_u32_lt [of n] by (simp del: unat_u32_lt)
  then have "unat (DIVROUNDUP n BITS_PER_WORD) = 0"
    by (simp add: DIVROUNDUP_def BITS_PER_WORD_def unat_div)
  then have "DIVROUNDUP n BITS_PER_WORD = 0" by (simp add: unat_eq_zero)
  then show ?thesis by (simp add: bitmap_create_def)
qed

end
