(* ===== verification/Cstring.thy ===== *)
theory Cstring
  imports Prelude
begin

text \<open>
  \<open>common/libc/string\<close> and \<open>common/libc/stdlib/atoi.c\<close>: the memory and string functions shared by
  the kernel and user programs. Memory is a function from 32-bit addresses to bytes and a
  pointer is an address, so that overlapping buffers are overlapping addresses; a \<open>long\<close> has
  four bytes, the most significant first. A loop that runs until it sees a null byte may not
  end: it is a partial function, \<open>None\<close> if it does not.
\<close>

unbundle bit_operations_syntax

type_synonym mem = "u32 \<Rightarrow> u8"
type_synonym ptr = u32

section \<open>Blocks of memory\<close>

definition join4 :: "u8 \<Rightarrow> u8 \<Rightarrow> u8 \<Rightarrow> u8 \<Rightarrow> u32" where
  "join4 a b c d = push_bit 24 (ucast a) OR push_bit 16 (ucast b) OR push_bit 8 (ucast c) OR ucast d"

definition load_long :: "mem \<Rightarrow> ptr \<Rightarrow> u32" where
  "load_long m a = join4 (m a) (m (a + 1)) (m (a + 2)) (m (a + 3))"

definition store_long :: "mem \<Rightarrow> ptr \<Rightarrow> u32 \<Rightarrow> mem" where
  "store_long m a w = m(a := ucast (drop_bit 24 w), a + 1 := ucast (drop_bit 16 w),
     a + 2 := ucast (drop_bit 8 w), a + 3 := ucast w)"

fun copy_longs :: "mem \<Rightarrow> ptr \<Rightarrow> ptr \<Rightarrow> nat \<Rightarrow> nat \<Rightarrow> mem" where
  "copy_longs m d s i 0 = m"
| "copy_longs m d s i (Suc k) =
     copy_longs (store_long m (d + 4 * of_nat i) (load_long m (s + 4 * of_nat i))) d s (i + 1) k"

fun copy_bytes :: "mem \<Rightarrow> ptr \<Rightarrow> ptr \<Rightarrow> nat \<Rightarrow> nat \<Rightarrow> mem" where
  "copy_bytes m d s i 0 = m"
| "copy_bytes m d s i (Suc k) = copy_bytes (m(d + of_nat i := m (s + of_nat i))) d s (i + 1) k"

definition aligned :: "u32 \<Rightarrow> bool" where "aligned x \<longleftrightarrow> unat x mod 4 = 0"

definition memcpy :: "ptr \<Rightarrow> ptr \<Rightarrow> u32 \<Rightarrow> mem \<Rightarrow> mem" where
  "memcpy dst src len m =
    (if aligned dst \<and> aligned src \<and> aligned len then copy_longs m dst src 0 (unat len div 4)
     else copy_bytes m dst src 0 (unat len))"

text \<open>The loops of \<open>memmove\<close> count \<open>i\<close> down and copy index \<open>i - 1\<close>.\<close>

fun copy_longs_down :: "mem \<Rightarrow> ptr \<Rightarrow> ptr \<Rightarrow> nat \<Rightarrow> mem" where
  "copy_longs_down m d s 0 = m"
| "copy_longs_down m d s (Suc i) =
     copy_longs_down (store_long m (d + 4 * of_nat i) (load_long m (s + 4 * of_nat i))) d s i"

fun copy_bytes_down :: "mem \<Rightarrow> ptr \<Rightarrow> ptr \<Rightarrow> nat \<Rightarrow> mem" where
  "copy_bytes_down m d s 0 = m"
| "copy_bytes_down m d s (Suc i) = copy_bytes_down (m(d + of_nat i := m (s + of_nat i))) d s i"

definition memmove :: "ptr \<Rightarrow> ptr \<Rightarrow> u32 \<Rightarrow> mem \<Rightarrow> mem" where
  "memmove dst src len m =
    (if dst < src then memcpy dst src len m
     else if aligned dst \<and> aligned src \<and> aligned len then copy_longs_down m dst src (unat len div 4)
     else copy_bytes_down m dst src (unat len))"

fun fill_bytes :: "mem \<Rightarrow> ptr \<Rightarrow> u8 \<Rightarrow> nat \<Rightarrow> nat \<Rightarrow> mem" where
  "fill_bytes m p ch i 0 = m"
| "fill_bytes m p ch i (Suc k) = fill_bytes (m(p + of_nat i := ch)) p ch (i + 1) k"

definition memset :: "ptr \<Rightarrow> u32 \<Rightarrow> u32 \<Rightarrow> mem \<Rightarrow> mem" where
  "memset p ch len m = fill_bytes m p (ucast ch) 0 (unat len)"

fun zero_longs :: "mem \<Rightarrow> ptr \<Rightarrow> nat \<Rightarrow> nat \<Rightarrow> mem" where
  "zero_longs m p i 0 = m"
| "zero_longs m p i (Suc k) = zero_longs (store_long m (p + 4 * of_nat i) 0) p (i + 1) k"

definition bzero :: "ptr \<Rightarrow> u32 \<Rightarrow> mem \<Rightarrow> mem" where
  "bzero block len m =
    (if aligned block \<and> aligned len then zero_longs m block 0 (unat len div 4)
     else fill_bytes m block 0 0 (unat len))"

section \<open>Strings\<close>

partial_function (option) strlen_loop :: "mem \<Rightarrow> ptr \<Rightarrow> u32 \<Rightarrow> u32 option" where
  "strlen_loop m str ret = (if m (str + ret) \<noteq> 0 then strlen_loop m str (ret + 1) else Some ret)"

definition strlen :: "mem \<Rightarrow> ptr \<Rightarrow> u32 option" where
  "strlen m str = strlen_loop m str 0"

partial_function (option) strcpy_loop :: "ptr \<Rightarrow> ptr \<Rightarrow> u32 \<Rightarrow> mem \<Rightarrow> mem option" where
  "strcpy_loop dest src i m =
    (if m (src + i) \<noteq> 0 then strcpy_loop dest src (i + 1) (m(dest + i := m (src + i)))
     else Some (m(dest + i := 0)))"

definition strcpy :: "ptr \<Rightarrow> ptr \<Rightarrow> mem \<Rightarrow> mem option" where
  "strcpy dest src m = strcpy_loop dest src 0 m"

definition strcat :: "ptr \<Rightarrow> ptr \<Rightarrow> mem \<Rightarrow> mem option" where
  "strcat dest src m = do {
     offset \<leftarrow> strlen m dest;
     strcpy (dest + offset) src m }"

partial_function (option) strcmp_loop :: "mem \<Rightarrow> ptr \<Rightarrow> ptr \<Rightarrow> u32 \<Rightarrow> int option" where
  "strcmp_loop m a b i =
    (if m (a + i) \<noteq> 0 \<and> m (a + i) = m (b + i) then strcmp_loop m a b (i + 1)
     else Some (if m (a + i) > m (b + i) then 1 else if m (a + i) = m (b + i) then 0 else - 1))"

definition strcmp :: "mem \<Rightarrow> ptr \<Rightarrow> ptr \<Rightarrow> int option" where
  "strcmp m a b = strcmp_loop m a b 0"

text \<open>A null pointer result is the address 0.\<close>

partial_function (option) strchr :: "mem \<Rightarrow> u8 \<Rightarrow> ptr \<Rightarrow> ptr option" where
  "strchr m ch s =
    (if m s \<noteq> 0 then if m s = ch then Some s else strchr m ch (s + 1)
     else if m s = ch then Some s else Some 0)"

fun strrchr_loop :: "mem \<Rightarrow> ptr \<Rightarrow> u8 \<Rightarrow> nat \<Rightarrow> ptr" where
  "strrchr_loop m s ch 0 = 0"
| "strrchr_loop m s ch (Suc i) =
    (if m (s + of_nat i) = ch then s + of_nat i else strrchr_loop m s ch i)"

definition strrchr :: "mem \<Rightarrow> u8 \<Rightarrow> ptr \<Rightarrow> ptr option" where
  "strrchr m ch s = do { l \<leftarrow> strlen m s; Some (strrchr_loop m s ch (unat (l + 1))) }"

partial_function (option) skip_seps :: "mem \<Rightarrow> ptr \<Rightarrow> ptr \<Rightarrow> ptr option" where
  "skip_seps m seps head =
    (if m head \<noteq> 0 then do {
       w \<leftarrow> strchr m (m head) seps;
       if w \<noteq> 0 then skip_seps m seps (head + 1) else Some head }
     else Some head)"

partial_function (option) skip_word :: "mem \<Rightarrow> ptr \<Rightarrow> ptr \<Rightarrow> ptr option" where
  "skip_word m seps tail =
    (if m tail \<noteq> 0 then do {
       w \<leftarrow> strchr m (m tail) seps;
       if w = 0 then skip_word m seps (tail + 1) else Some tail }
     else Some tail)"

text \<open>\<open>strtok_r\<close>: the result, the new context and the memory.\<close>

definition strtok_r :: "ptr \<Rightarrow> ptr \<Rightarrow> ptr \<Rightarrow> mem \<Rightarrow> (ptr \<times> ptr \<times> mem) option" where
  "strtok_r string seps context m = do {
     let context = (if string \<noteq> 0 then string else context);
     let head = context;
     if head = 0 then Some (0, context, m)
     else do {
       head \<leftarrow> skip_seps m seps head;
       if m head = 0 then Some (0, 0, m)
       else do {
         tail \<leftarrow> skip_word m seps head;
         if m tail = 0 then Some (head, 0, m)
         else Some (head, tail + 1, m(tail := 0)) } } }"

text \<open>
  \<open>atoi\<close>: the value of a digit is its index in the constant string of digits, found by
  \<open>strchr\<close>; the character looked up is never null.
\<close>

definition digits :: "u8 list" where
  "digits = [48, 49, 50, 51, 52, 53, 54, 55, 56, 57]"

fun digit_index :: "u8 \<Rightarrow> u8 list \<Rightarrow> u32 option" where
  "digit_index c [] = None"
| "digit_index c (x # xs) = (if x = c then Some 0 else map_option (\<lambda>i. i + 1) (digit_index c xs))"

partial_function (option) skip_space :: "mem \<Rightarrow> ptr \<Rightarrow> ptr option" where
  "skip_space m s = (if m s = 32 \<or> m s = 9 then skip_space m (s + 1) else Some s)"

partial_function (option) atoi_loop :: "mem \<Rightarrow> ptr \<Rightarrow> u32 \<Rightarrow> u32 option" where
  "atoi_loop m s val =
    (if m s \<noteq> 0 then
       (case digit_index (m s) digits of None \<Rightarrow> Some val | Some digit \<Rightarrow> atoi_loop m (s + 1) (val * 10 + digit))
     else Some val)"

definition atoi :: "mem \<Rightarrow> ptr \<Rightarrow> u32 option" where
  "atoi m s = do {
     s \<leftarrow> skip_space m s;
     let (neg, s) = (if m s = 45 then (True, s + 1) else if m s = 43 then (False, s + 1) else (False, s));
     val \<leftarrow> atoi_loop m s 0;
     Some (if neg then - val else val) }"

section \<open>Copying\<close>

lemma unat_ptr: "unat (p :: u32) + j < 2 ^ 32 \<Longrightarrow> unat (p + of_nat j) = unat p + j"
  by (subst unat_plus_u32) (simp_all add: unat_of_nat_u32)

lemma ptr_neq:
  assumes "unat (p :: u32) + j < 2 ^ 32" and "unat q + k < 2 ^ 32" and "unat p + j \<noteq> unat q + k"
  shows "p + of_nat j \<noteq> q + of_nat k"
  using assms unat_ptr [of p j] unat_ptr [of q k] by metis

text \<open>What a copy of the bytes from \<open>i\<close> to \<open>n\<close> does.\<close>

definition copied :: "mem \<Rightarrow> mem \<Rightarrow> ptr \<Rightarrow> ptr \<Rightarrow> nat \<Rightarrow> nat \<Rightarrow> bool" where
  "copied m m' d s i n \<longleftrightarrow>
     (\<forall>j. i \<le> j \<and> j < n \<longrightarrow> m' (d + of_nat j) = m (s + of_nat j)) \<and>
     (\<forall>a. (\<forall>j. i \<le> j \<and> j < n \<longrightarrow> a \<noteq> d + of_nat j) \<longrightarrow> m' a = m a)"

text \<open>Neither buffer wraps around the top of memory.\<close>

abbreviation fits :: "ptr \<Rightarrow> nat \<Rightarrow> bool" where
  "fits p n \<equiv> unat p + n \<le> 2 ^ 32"

lemma copied_step_up:
  assumes "fits d n" and "fits s n" and "unat d \<le> unat s \<or> unat s + n \<le> unat d" and "i < n"
    and "copied (m(d + of_nat i := m (s + of_nat i))) m' d s (i + 1) n"
  shows "copied m m' d s i n"
  unfolding copied_def
proof (intro conjI allI impI)
  fix j assume j: "i \<le> j \<and> j < n"
  show "m' (d + of_nat j) = m (s + of_nat j)"
  proof (cases "j = i")
    case True
    have "d + of_nat i \<noteq> d + of_nat k" if "i + 1 \<le> k" "k < n" for k
      using that assms(1,4) by (intro ptr_neq) simp_all
    then show ?thesis using assms(5) True by (simp add: copied_def)
  next
    case False
    then have "s + of_nat j \<noteq> d + of_nat i"
      using assms(1-4) j by (intro ptr_neq) auto
    then show ?thesis using assms(5) False j by (simp add: copied_def)
  qed
next
  fix a assume a: "\<forall>j. i \<le> j \<and> j < n \<longrightarrow> a \<noteq> d + of_nat j"
  then show "m' a = m a" using assms(4,5) by (simp add: copied_def)
qed

lemma copy_bytes_up:
  assumes "fits d (i + k)" and "fits s (i + k)" and "unat d \<le> unat s \<or> unat s + (i + k) \<le> unat d"
  shows "copied m (copy_bytes m d s i k) d s i (i + k)"
  using assms
proof (induction k arbitrary: i m)
  case (Suc k)
  let ?m = "m(d + of_nat i := m (s + of_nat i))"
  have e: "i + Suc k = i + 1 + k" by simp
  have "copied ?m (copy_bytes ?m d s (i + 1) k) d s (i + 1) (i + 1 + k)"
    using Suc.prems unfolding e by (rule Suc.IH)
  then show ?case
    using Suc.prems copied_step_up [of d "i + 1 + k" s i m] unfolding e copy_bytes.simps(2) by simp
qed (auto simp: copied_def)

lemma copied_step_down:
  assumes "fits d (i + 1)" and "fits s (i + 1)" and "unat s \<le> unat d"
    and "copied (m(d + of_nat i := m (s + of_nat i))) m' d s 0 i"
  shows "copied m m' d s 0 (i + 1)"
  unfolding copied_def
proof (intro conjI allI impI)
  let ?m = "m(d + of_nat i := m (s + of_nat i))"
  have new: "m' (d + of_nat j) = ?m (s + of_nat j)" if "j < i" for j
    using assms(4) that unfolding copied_def by simp
  have old: "m' a = ?m a" if "\<And>j. j < i \<Longrightarrow> a \<noteq> d + of_nat j" for a
    using assms(4) that unfolding copied_def by blast
  fix j assume j: "0 \<le> j \<and> j < i + 1"
  show "m' (d + of_nat j) = m (s + of_nat j)"
  proof (cases "j = i")
    case True
    have "d + of_nat i \<noteq> d + of_nat k" if "k < i" for k
      using that assms(1) by (intro ptr_neq) linarith+
    then have "m' (d + of_nat i) = ?m (d + of_nat i)" by (rule old)
    then show ?thesis unfolding True by simp
  next
    case False
    then have "s + of_nat j \<noteq> d + of_nat i"
      using assms(1-3) j by (intro ptr_neq) linarith+
    then show ?thesis using new [of j] False j by simp
  qed
next
  fix a assume a: "\<forall>j. 0 \<le> j \<and> j < i + 1 \<longrightarrow> a \<noteq> d + of_nat j"
  then have "m' a = (m(d + of_nat i := m (s + of_nat i))) a"
    using assms(4) unfolding copied_def by (meson less_SucI Suc_eq_plus1 trans_less_add1)
  moreover have "a \<noteq> d + of_nat i" using a by simp
  ultimately show "m' a = m a" by simp
qed

lemma copy_bytes_down:
  assumes "fits d n" and "fits s n" and "unat s \<le> unat d"
  shows "copied m (copy_bytes_down m d s n) d s 0 n"
  using assms
proof (induction n arbitrary: m)
  case (Suc n)
  let ?m = "m(d + of_nat n := m (s + of_nat n))"
  have "copied ?m (copy_bytes_down ?m d s n) d s 0 n"
    using Suc.prems by (intro Suc.IH) simp_all
  then have "copied m (copy_bytes_down ?m d s n) d s 0 (n + 1)"
    using Suc.prems copied_step_down [of d n s m] by simp
  then show ?case by simp
qed (simp add: copied_def)

text \<open>Copying a long copies its four bytes; for aligned buffers one after the other is the same.\<close>

lemma bit_u8_ge: "8 \<le> n \<Longrightarrow> \<not> bit (x :: u8) n"
  using bit_imp_le_length [of x n] by auto

lemma bit_join4: "n < 32 \<Longrightarrow> bit (join4 a b c d) n \<longleftrightarrow>
   (if n < 8 then bit d n else if n < 16 then bit c (n - 8) else if n < 24 then bit b (n - 16) else bit a (n - 24))"
  by (simp add: join4_def bit_or_iff bit_push_bit_iff bit_ucast_iff bit_u8_ge less_imp_diff_less)

lemma bytes_join4:
  "ucast (drop_bit 24 (join4 a b c d)) = a" "ucast (drop_bit 16 (join4 a b c d)) = b"
  "ucast (drop_bit 8 (join4 a b c d)) = c" "ucast (join4 a b c d) = d"
  by (rule bit_word_eqI, simp add: bit_ucast_iff bit_drop_bit_eq bit_join4)+

lemma join4_bytes: "join4 (ucast (drop_bit 24 w)) (ucast (drop_bit 16 w)) (ucast (drop_bit 8 w)) (ucast w) = (w :: u32)"
  by (rule bit_word_eqI) (auto simp: bit_join4 bit_ucast_iff bit_drop_bit_eq)

lemma load_store_same: "load_long (store_long m a x) a = x"
  by (simp add: load_long_def store_long_def join4_bytes)

text \<open>Two words whose distance is at least 4 do not meet.\<close>

lemma load_store_other:
  assumes "4 \<le> unat (b - a)" and "4 \<le> unat (a - b)"
  shows "load_long (store_long m a x) b = load_long m b"
proof -
  have "b + of_nat k \<noteq> a + of_nat l" if "k < 4" "l < 4" for k l
  proof
    assume "b + of_nat k = a + of_nat l"
    then have "b - a = of_nat l - of_nat k" "a - b = of_nat k - of_nat l" by (simp_all add: algebra_simps)
    then have d: "k \<le> l \<Longrightarrow> b - a = of_nat (l - k)" "l \<le> k \<Longrightarrow> a - b = of_nat (k - l)" by (simp_all add: of_nat_diff)
    show False
    proof (cases "k \<le> l")
      case True
      have "unat (b - a) = l - k" unfolding d(1) [OF True] using that by (intro unat_of_nat_u32) simp
      then show False using assms(1) that by simp
    next
      case False
      have "unat (a - b) = k - l" unfolding d(2) [OF less_imp_le [OF not_le_imp_less [OF False]]] using that by (intro unat_of_nat_u32) simp
      then show False using assms(2) that by simp
    qed
  qed
  note ne = this [of 0 0] this [of 0 1] this [of 0 2] this [of 0 3] this [of 1 0] this [of 1 1] this [of 1 2] this [of 1 3]
    this [of 2 0] this [of 2 1] this [of 2 2] this [of 2 3] this [of 3 0] this [of 3 1] this [of 3 2] this [of 3 3]
  show ?thesis using ne by (simp add: load_long_def store_long_def)
qed

lemma store_load:
  "store_long m d (load_long m' s) =
    m(d := m' s, d + 1 := m' (s + 1), d + 2 := m' (s + 2), d + 3 := m' (s + 3))"
  by (simp add: store_long_def load_long_def bytes_join4)

lemma aligned_offset:
  assumes "aligned s" and "aligned d" and "s + of_nat j = d + of_nat k" and "j < 4" and "k < 4"
  shows "j = k"
proof -
  have off: "unat (x + of_nat l) = unat x + l \<and> (unat x + l) mod 4 = l" if "aligned x" "l < 4" for x l
  proof -
    define q where "q = unat x div 4"
    have q: "unat x = 4 * q"
      using mult_div_mod_eq [of 4 "unat x"] that unfolding aligned_def q_def by linarith
    then have "unat x + l < 2 ^ 32" using unat_u32_lt [of x] that by (simp del: unat_u32_lt)
    then show ?thesis using unat_ptr [of x l] q that by simp
  qed
  show ?thesis using off [OF assms(1,4)] off [OF assms(2,5)] assms(3) by simp
qed

lemma four_bytes_apart:
  assumes "aligned s" and "aligned d"
  shows "s + 1 \<noteq> d" "s + 2 \<noteq> d" "s + 3 \<noteq> d" "s + 2 \<noteq> d + 1" "s + 3 \<noteq> d + 1" "s + 3 \<noteq> d + 2"
proof -
  have ne: "s + of_nat j \<noteq> d + of_nat k" if "j < 4" "k < 4" "j \<noteq> k" for j k
    using aligned_offset [OF assms _ that(1,2)] that(3) by blast
  show "s + 1 \<noteq> d" "s + 2 \<noteq> d" "s + 3 \<noteq> d" using ne [of 1 0] ne [of 2 0] ne [of 3 0] by simp_all
  show "s + 2 \<noteq> d + 1" "s + 3 \<noteq> d + 1" "s + 3 \<noteq> d + 2" using ne [of 2 1] ne [of 3 1] ne [of 3 2] by simp_all
qed

lemma aligned_add: "aligned x \<Longrightarrow> aligned (x + 4 * of_nat i)"
proof -
  assume "aligned x"
  then have "4 dvd unat x" by (simp add: aligned_def mod_eq_0_iff_dvd)
  have "unat (x + 4 * of_nat i) = (unat x + 4 * i mod 2 ^ 32) mod 2 ^ 32"
    by (simp add: unat_word_ariths unsigned_of_nat take_bit_eq_mod mod_simps)
  moreover have "(4 :: nat) dvd 2 ^ 32" by simp
  ultimately have "4 dvd unat (x + 4 * of_nat i)"
    using \<open>4 dvd unat x\<close> by (simp add: dvd_mod_iff)
  then show "aligned (x + 4 * of_nat i)" by (simp add: aligned_def)
qed

lemma store_load_up:
  assumes "aligned s" and "aligned d"
  shows "store_long m d (load_long m s) =
    (let m1 = m(d := m s); m2 = m1(d + 1 := m1 (s + 1)); m3 = m2(d + 2 := m2 (s + 2))
     in m3(d + 3 := m3 (s + 3)))"
  using four_bytes_apart [OF assms] by (simp add: store_load)

lemma store_load_down:
  assumes "aligned s" and "aligned d"
  shows "store_long m d (load_long m s) =
    (let m1 = m(d + 3 := m (s + 3)); m2 = m1(d + 2 := m1 (s + 2)); m3 = m2(d + 1 := m2 (s + 1))
     in m3(d := m3 s))"
proof -
  have rev: "m(d := x, d + 1 := y, d + 2 := z, d + 3 := w) = m(d + 3 := w, d + 2 := z, d + 1 := y, d := x)" for x y z w
    by (rule ext) (simp add: fun_upd_def)
  show ?thesis
    unfolding store_load rev Let_def using four_bytes_apart [OF assms(2,1)] four_bytes_apart [OF assms]
    by (metis (no_types, lifting) fun_upd_other)
qed

lemma copy_bytes_add: "copy_bytes m d s i (k + l) = copy_bytes (copy_bytes m d s i k) d s (i + k) l"
  by (induction k arbitrary: m i) simp_all

lemma copy_longs_bytes:
  assumes "aligned s" and "aligned d"
  shows "copy_longs m d s i k = copy_bytes m d s (4 * i) (4 * k)"
proof (induction k arbitrary: m i)
  case (Suc k)
  have 4: "4 * Suc k = Suc (Suc (Suc (Suc (4 * k))))" "4 * (i + 1) = 4 * i + 1 + 1 + 1 + 1" by simp_all
  have idx: "x + of_nat (4 * i) = x + 4 * of_nat i" "x + of_nat (4 * i + 1) = x + 4 * of_nat i + 1"
    "x + of_nat (4 * i + 1 + 1) = x + 4 * of_nat i + 2" "x + of_nat (4 * i + 1 + 1 + 1) = x + 4 * of_nat i + 3"
    for x :: u32 by simp_all
  show ?case
    unfolding copy_longs.simps store_load_up [OF assms [THEN aligned_add]] Suc.IH 4 copy_bytes.simps idx Let_def ..
qed simp

lemma copy_longs_down_bytes:
  assumes "aligned s" and "aligned d"
  shows "copy_longs_down m d s k = copy_bytes_down m d s (4 * k)"
proof (induction k arbitrary: m)
  case (Suc k)
  have 4: "4 * Suc k = Suc (Suc (Suc (Suc (4 * k))))" by simp
  have idx: "x + of_nat (4 * k) = x + 4 * of_nat k" "x + of_nat (Suc (4 * k)) = x + 4 * of_nat k + 1"
    "x + of_nat (Suc (Suc (4 * k))) = x + 4 * of_nat k + 2"
    "x + of_nat (Suc (Suc (Suc (4 * k)))) = x + 4 * of_nat k + 3" for x :: u32 by simp_all
  show ?case
    unfolding copy_longs_down.simps store_load_down [OF assms [THEN aligned_add]] Suc.IH 4 copy_bytes_down.simps idx Let_def ..
qed simp

lemma aligned_len: "aligned len \<Longrightarrow> 4 * (unat len div 4) = unat len"
  using mult_div_mod_eq [of 4 "unat len"] by (simp add: aligned_def)

lemma memcpy_copied:
  assumes "fits dst (unat len)" and "fits src (unat len)"
    and "unat dst \<le> unat src \<or> unat src + unat len \<le> unat dst"
  shows "copied m (memcpy dst src len m) dst src 0 (unat len)"
  using copy_bytes_up [of dst 0 "unat len" src m] assms
  by (simp add: memcpy_def copy_longs_bytes aligned_len)

lemma memmove_copied:
  assumes "fits dst (unat len)" and "fits src (unat len)"
  shows "copied m (memmove dst src len m) dst src 0 (unat len)"
  using memcpy_copied [of dst len src m] copy_bytes_down [of dst "unat len" src m] assms
  by (auto simp: memmove_def copy_longs_down_bytes aligned_len word_less_nat_alt)

section \<open>Filling\<close>

definition filled :: "mem \<Rightarrow> mem \<Rightarrow> ptr \<Rightarrow> u8 \<Rightarrow> nat \<Rightarrow> nat \<Rightarrow> bool" where
  "filled m m' p ch i n \<longleftrightarrow>
     (\<forall>j. i \<le> j \<and> j < n \<longrightarrow> m' (p + of_nat j) = ch) \<and>
     (\<forall>a. (\<forall>j. i \<le> j \<and> j < n \<longrightarrow> a \<noteq> p + of_nat j) \<longrightarrow> m' a = m a)"

lemma fill_bytes_filled: "filled m (fill_bytes m p ch i k) p ch i (i + k)"
proof (induction k arbitrary: i m)
  case (Suc k)
  let ?m = "m(p + of_nat i := ch)"
  have IH: "filled ?m (fill_bytes ?m p ch (i + 1) k) p ch (i + 1) (i + 1 + k)" by (rule Suc.IH)
  show ?case
    unfolding filled_def
  proof (intro conjI allI impI)
    fix j assume "i \<le> j \<and> j < i + Suc k"
    moreover have "fill_bytes ?m p ch (i + 1) k (p + of_nat i) = ch"
    proof (cases "\<exists>l. i + 1 \<le> l \<and> l < i + 1 + k \<and> p + of_nat i = p + of_nat l")
      case True
      then show ?thesis using IH unfolding filled_def by metis
    next
      case False
      then have "fill_bytes ?m p ch (i + 1) k (p + of_nat i) = ?m (p + of_nat i)"
        using IH unfolding filled_def by blast
      then show ?thesis by simp
    qed
    ultimately show "fill_bytes m p ch i (Suc k) (p + of_nat j) = ch"
      using IH unfolding filled_def by (cases "j = i") auto
  next
    fix a assume a: "\<forall>j. i \<le> j \<and> j < i + Suc k \<longrightarrow> a \<noteq> p + of_nat j"
    then have "fill_bytes ?m p ch (i + 1) k a = ?m a"
      using IH unfolding filled_def by (metis Suc_eq_plus1 add_Suc add_Suc_right Suc_leD)
    then show "fill_bytes m p ch i (Suc k) a = m a" using a by simp
  qed
qed (auto simp: filled_def)

lemma zero_longs_bytes: "zero_longs m p i k = fill_bytes m p 0 (4 * i) (4 * k)"
proof (induction k arbitrary: m i)
  case (Suc k)
  have 4: "4 * Suc k = Suc (Suc (Suc (Suc (4 * k))))" "4 * (i + 1) = 4 * i + 1 + 1 + 1 + 1" by simp_all
  have idx: "x + of_nat (4 * i) = x + 4 * of_nat i" "x + of_nat (4 * i + 1) = x + 4 * of_nat i + 1"
    "x + of_nat (4 * i + 1 + 1) = x + 4 * of_nat i + 2" "x + of_nat (4 * i + 1 + 1 + 1) = x + 4 * of_nat i + 3"
    for x :: u32 by simp_all
  have z: "store_long m a 0 = m(a := 0, a + 1 := 0, a + 2 := 0, a + 3 := 0)" for a
    by (simp add: store_long_def)
  show ?case
    unfolding zero_longs.simps z Suc.IH 4 fill_bytes.simps idx ..
qed simp

lemma memset_filled: "filled m (memset p ch len m) p (ucast ch) 0 (unat len)"
  using fill_bytes_filled [of m p "ucast ch" 0 "unat len"] by (simp add: memset_def)

lemma bzero_filled: "filled m (bzero p len m) p 0 0 (unat len)"
  using fill_bytes_filled [of m p 0 0 "unat len"] by (simp add: bzero_def zero_longs_bytes aligned_len)

section \<open>Strings in memory\<close>

text \<open>
  \<open>cstr m s p\<close>: the null-terminated string \<open>s\<close> stands at \<open>p\<close>, none of its bytes is at address
  0 and it does not run over the top of memory.
\<close>

primrec cstr :: "mem \<Rightarrow> u8 list \<Rightarrow> ptr \<Rightarrow> bool" where
  "cstr m [] p \<longleftrightarrow> p \<noteq> 0 \<and> m p = 0"
| "cstr m (c # cs) p \<longleftrightarrow> p \<noteq> 0 \<and> c \<noteq> 0 \<and> m p = c \<and> cstr m cs (p + 1)"

lemma cstr_not_null: "cstr m s p \<Longrightarrow> p \<noteq> 0"
  by (cases s) auto

lemma strlen_loop_cstr: "cstr m s (str + ret) \<Longrightarrow> strlen_loop m str ret = Some (ret + of_nat (length s))"
  by (induction s arbitrary: ret) (auto simp: strlen_loop.simps add.assoc)

lemma strlen_cstr: "cstr m s p \<Longrightarrow> strlen m p = Some (of_nat (length s))"
  using strlen_loop_cstr [of m s p 0] by (simp add: strlen_def)

text \<open>The order of \<open>strcmp\<close>: byte by byte, a prefix comes first.\<close>

fun order :: "u8 list \<Rightarrow> u8 list \<Rightarrow> int" where
  "order [] [] = 0"
| "order [] (y # ys) = - 1"
| "order (x # xs) [] = 1"
| "order (x # xs) (y # ys) = (if x = y then order xs ys else if x > y then 1 else - 1)"

lemma strcmp_loop_cstr:
  "cstr m s (a + i) \<Longrightarrow> cstr m t (b + i) \<Longrightarrow> strcmp_loop m a b i = Some (order s t)"
proof (induction s t arbitrary: i rule: order.induct)
  case (2 y ys)
  then show ?case by (simp add: strcmp_loop.simps word_greater_zero_iff)
next
  case (3 x xs)
  then show ?case by (simp add: strcmp_loop.simps word_greater_zero_iff)
next
  case (4 x xs y ys)
  then show ?case
    using "4.IH" [of "i + 1"] by (simp add: strcmp_loop.simps [of m a b i] add.assoc)
qed (simp add: strcmp_loop.simps)

lemma order_eq: "order s t = 0 \<longleftrightarrow> s = t"
  by (induction s t rule: order.induct) auto

lemma order_lex: "order s t = - 1 \<longleftrightarrow> (s, t) \<in> lexord {(x, y). x < y}"
  by (induction s t rule: order.induct) (auto simp: not_less)

lemma order_range: "order s t \<in> {- 1, 0, 1}"
  by (induction s t rule: order.induct) auto

lemma order_swap: "order t s = - order s t"
  by (induction s t rule: order.induct) auto

section \<open>Copying strings\<close>

text \<open>The addresses that a string of \<open>n\<close> bytes and its terminator take.\<close>

definition span :: "ptr \<Rightarrow> nat \<Rightarrow> ptr set" where
  "span p n = (\<lambda>j. p + of_nat j) ` {..n}"

lemma span_0 [simp]: "span p 0 = {p}"
  by (simp add: span_def)

lemma span_Suc: "span p (Suc n) = insert p (span (p + 1) n)"
proof -
  have "{..Suc n} = insert 0 (Suc ` {..n})" by (rule atMost_Suc_eq_insert_0)
  then show ?thesis by (simp add: span_def image_image add.assoc)
qed

lemma cstr_cong: "cstr m s p \<Longrightarrow> (\<And>a. a \<in> span p (length s) \<Longrightarrow> m' a = m a) \<Longrightarrow> cstr m' s p"
  by (induction s arbitrary: p) (auto simp: span_Suc)

lemma cstr_update: "cstr m s p \<Longrightarrow> a \<notin> span p (length s) \<Longrightarrow> cstr (m(a := x)) s p"
  by (erule cstr_cong) auto

text \<open>Room for a string of \<open>n\<close> bytes: not at the null pointer and below the top of memory.\<close>

definition room :: "ptr \<Rightarrow> nat \<Rightarrow> bool" where
  "room p n \<longleftrightarrow> p \<noteq> 0 \<and> unat p + n < 2 ^ 32"

lemma room_Suc:
  assumes "room p (Suc n)"
  shows "room (p + 1) n" and "p \<notin> span (p + 1) n"
proof -
  have u: "unat (p + 1) = unat p + 1" using assms unat_ptr [of p 1] by (simp add: room_def)
  then have "p + 1 \<noteq> 0" by auto
  then show "room (p + 1) n" using assms u by (simp add: room_def)
  show "p \<notin> span (p + 1) n"
  proof
    assume "p \<in> span (p + 1) n"
    then obtain j where j: "j \<le> n" "p = p + 1 + of_nat j" by (auto simp: span_def)
    have "unat (p + 1 + of_nat j) = unat p + 1 + j"
      using assms j u unat_ptr [of "p + 1" j] by (simp add: room_def)
    then show False using j(2) by simp
  qed
qed

lemma strcpy_loop_cstr:
  assumes "cstr m s (src + i)" and "span (src + i) (length s) \<inter> span (dest + i) (length s) = {}"
    and "room (dest + i) (length s)"
  shows "\<exists>m'. strcpy_loop dest src i m = Some m' \<and>
    (\<forall>a. a \<notin> span (dest + i) (length s) \<longrightarrow> m' a = m a) \<and> cstr m' s (dest + i)"
  using assms
proof (induction s arbitrary: i m)
  case Nil
  then show ?case by (auto simp: strcpy_loop.simps room_def)
next
  case (Cons c cs)
  define m1 where "m1 = m(dest + i := m (src + i))"
  have r: "room (dest + (i + 1)) (length cs)" "dest + i \<notin> span (dest + (i + 1)) (length cs)"
    using room_Suc [of "dest + i" "length cs"] Cons.prems(3) by (simp_all add: add.assoc)
  have sp: "span (x + i) (length (c # cs)) = insert (x + i) (span (x + (i + 1)) (length cs))" for x
    using span_Suc [of "x + i" "length cs"] by (simp add: add.assoc)
  have "cstr m cs (src + (i + 1))" using Cons.prems(1) by (simp add: add.assoc)
  then have "cstr m1 cs (src + (i + 1))"
    using Cons.prems(2) unfolding sp m1_def by (intro cstr_update) auto
  then obtain m' where m': "strcpy_loop dest src (i + 1) m1 = Some m'"
    "\<forall>a. a \<notin> span (dest + (i + 1)) (length cs) \<longrightarrow> m' a = m1 a" "cstr m' cs (dest + (i + 1))"
    using Cons.IH [of m1 "i + 1"] Cons.prems(2) r(1) unfolding sp by blast
  have "m' (dest + i) = m1 (dest + i)" using m'(2) r(2) by blast
  then have "m' (dest + i) = c" using Cons.prems(1) by (simp add: m1_def)
  moreover have "strcpy_loop dest src i m = Some m'"
    using m'(1) Cons.prems(1) unfolding m1_def by (simp add: strcpy_loop.simps [of dest src i])
  moreover have "dest + i \<noteq> 0" "c \<noteq> 0" using Cons.prems(1,3) by (simp_all add: room_def)
  ultimately show ?case
    using m'(2,3) unfolding sp by (intro exI [of _ m']) (simp add: m1_def add.assoc)
qed

lemma strcpy_cstr:
  assumes "cstr m s src" and "span src (length s) \<inter> span dest (length s) = {}" and "room dest (length s)"
  shows "\<exists>m'. strcpy dest src m = Some m' \<and> cstr m' s dest \<and> cstr m' s src \<and>
    (\<forall>a. a \<notin> span dest (length s) \<longrightarrow> m' a = m a)"
proof -
  obtain m' where m': "strcpy dest src m = Some m'" "\<forall>a. a \<notin> span dest (length s) \<longrightarrow> m' a = m a" "cstr m' s dest"
    using strcpy_loop_cstr [of m s src 0 dest] assms unfolding strcpy_def add_0_right by blast
  moreover have "cstr m' s src" by (rule cstr_cong [OF assms(1)]) (use assms(2) m'(2) in blast)
  ultimately show ?thesis by blast
qed

text \<open>A string in two parts.\<close>

lemma cstr_append:
  "cstr m (xs @ ys) p \<longleftrightarrow> (\<forall>i < length xs. p + of_nat i \<noteq> 0 \<and> xs ! i \<noteq> 0 \<and> m (p + of_nat i) = xs ! i) \<and>
     cstr m ys (p + of_nat (length xs))"
proof (induction xs arbitrary: p)
  case (Cons x xs)
  have "(\<forall>i < length (x # xs). Q i) \<longleftrightarrow> Q 0 \<and> (\<forall>i < length xs. Q (Suc i))" for Q
    by (auto simp: less_Suc_eq_0_disj)
  then show ?case using Cons.IH [of "p + 1"] by (simp add: add.assoc)
qed simp

lemma span_append: "span p (k + n) = (\<lambda>j. p + of_nat j) ` {..<k} \<union> span (p + of_nat k) n"
proof -
  have "{..k + n} = {..<k} \<union> (\<lambda>j. k + j) ` {..n}"
  proof -
    have "x \<in> (\<lambda>j. k + j) ` {..n}" if "x \<le> k + n" "\<not> x < k" for x
      using that by (intro image_eqI [of _ _ "x - k"]) auto
    then show ?thesis by auto
  qed
  then show ?thesis by (simp add: span_def image_Un image_image add.assoc)
qed

lemma strcat_cstr:
  assumes "cstr m s src" and "cstr m d dest" and "span src (length s) \<inter> span dest (length d + length s) = {}"
    and "room dest (length d + length s)"
  shows "\<exists>m'. strcat dest src m = Some m' \<and> cstr m' (d @ s) dest \<and>
    (\<forall>a. a \<notin> span dest (length d + length s) \<longrightarrow> m' a = m a)"
proof -
  let ?e = "dest + of_nat (length d)"
  have e: "unat ?e = unat dest + length d" using assms(4) by (intro unat_ptr) (simp add: room_def)
  have r: "room ?e (length s)"
    using assms(4) e by (auto simp: room_def unat_eq_0 simp flip: unat_eq_0)
  obtain m' where m': "strcpy ?e src m = Some m'" "cstr m' s ?e" "\<forall>a. a \<notin> span ?e (length s) \<longrightarrow> m' a = m a"
    using strcpy_cstr [OF assms(1) _ r] assms(3) span_append [of dest "length d" "length s"] by auto
  have low: "dest + of_nat i \<notin> span ?e (length s)" if "i < length d" for i
  proof
    assume "dest + of_nat i \<in> span ?e (length s)"
    then obtain j where j: "j \<le> length s" "dest + of_nat i = ?e + of_nat j" by (auto simp: span_def)
    have "unat (dest + of_nat i) = unat dest + i" "unat (?e + of_nat j) = unat dest + length d + j"
      using assms(4) e j(1) that unat_ptr [of dest i] unat_ptr [of ?e j] by (auto simp: room_def)
    then show False using j(2) that by simp
  qed
  have "cstr m' (d @ s) dest"
    using assms(2) m'(2,3) low cstr_append [of m d "[]" dest] by (simp add: cstr_append)
  then show ?thesis
    using m' strlen_cstr [OF assms(2)] span_append [of dest "length d" "length s"]
    by (auto simp: strcat_def)
qed

section \<open>Searching\<close>

lemma strchr_cstr:
  "cstr m s p \<Longrightarrow> strchr m ch p = Some (if ch = 0 then p + of_nat (length s)
    else if ch \<in> set s then p + of_nat (length (takeWhile (\<lambda>x. x \<noteq> ch) s)) else 0)"
proof (induction s arbitrary: p)
  case (Cons c cs)
  then have "strchr m ch (p + 1) = Some (if ch = 0 then p + 1 + of_nat (length cs)
    else if ch \<in> set cs then p + 1 + of_nat (length (takeWhile (\<lambda>x. x \<noteq> ch) cs)) else 0)" by simp
  then show ?case using Cons.prems by (auto simp: strchr.simps [of m ch p] add.assoc)
qed (auto simp: strchr.simps)

lemma cstr_nonzero: "cstr m s p \<Longrightarrow> i \<le> length s \<Longrightarrow> p + of_nat i \<noteq> 0"
proof (induction s arbitrary: p i)
  case (Cons c cs)
  then show ?case using Cons.IH [of "p + 1" "i - 1"] by (cases i) (auto simp: add.assoc)
qed simp

lemma strchr_found:
  assumes "cstr m s p" and "ch \<noteq> 0"
  shows "\<exists>w. strchr m ch p = Some w \<and> (w \<noteq> 0 \<longleftrightarrow> ch \<in> set s)"
  using strchr_cstr [OF assms(1), of ch] assms(2) cstr_nonzero [OF assms(1) length_takeWhile_le] by auto

lemma strrchr_loop_last:
  "strrchr_loop m p ch i = 0 \<and> (\<forall>j < i. m (p + of_nat j) \<noteq> ch) \<or>
    (\<exists>k < i. strrchr_loop m p ch i = p + of_nat k \<and> m (p + of_nat k) = ch \<and>
      (\<forall>j. k < j \<and> j < i \<longrightarrow> m (p + of_nat j) \<noteq> ch))"
proof (induction i)
  case (Suc i)
  show ?case
  proof (cases "m (p + of_nat i) = ch")
    case True
    then show ?thesis by (intro disjI2 exI [of _ i]) auto
  next
    case False
    then have "strrchr_loop m p ch (Suc i) = strrchr_loop m p ch i" by simp
    then show ?thesis using Suc.IH False by (auto simp: less_Suc_eq)
  qed
qed simp

section \<open>Splitting into words\<close>

lemma skip_seps_cstr:
  assumes "cstr m seps sp"
  shows "cstr m s p \<Longrightarrow> skip_seps m sp p = Some (p + of_nat (length (takeWhile (\<lambda>x. x \<in> set seps) s)))"
proof (induction s arbitrary: p)
  case (Cons c cs)
  obtain w where "strchr m c sp = Some w" "w \<noteq> 0 \<longleftrightarrow> c \<in> set seps"
    using strchr_found [OF assms, of c] Cons.prems by auto
  then show ?case using Cons by (simp add: skip_seps.simps [of m sp p] add.assoc)
qed (simp add: skip_seps.simps)

lemma skip_word_cstr:
  assumes "cstr m seps sp"
  shows "cstr m s p \<Longrightarrow> skip_word m sp p = Some (p + of_nat (length (takeWhile (\<lambda>x. x \<notin> set seps) s)))"
proof (induction s arbitrary: p)
  case (Cons c cs)
  obtain w where "strchr m c sp = Some w" "w \<noteq> 0 \<longleftrightarrow> c \<in> set seps"
    using strchr_found [OF assms, of c] Cons.prems by auto
  then show ?case using Cons by (auto simp: skip_word.simps [of m sp p] add.assoc)
qed (simp add: skip_word.simps)

lemma cstr_room: "cstr m s p \<Longrightarrow> room p (length s)"
proof (induction s arbitrary: p)
  case (Cons c cs)
  then have r: "room (p + 1) (length cs)" by simp
  then have "unat (p + 1) = unat p + 1" by (intro unat_add1_u32) (simp add: room_def)
  then show ?case using Cons.prems r by (simp add: room_def)
qed (simp add: room_def)

text \<open>The words of a byte list, split at the bytes that satisfy \<open>P\<close>.\<close>

function words :: "(u8 \<Rightarrow> bool) \<Rightarrow> u8 list \<Rightarrow> u8 list list" where
  "words P s = (case dropWhile P s of [] \<Rightarrow> []
     | c # cs \<Rightarrow> takeWhile (Not \<circ> P) (c # cs) # words P (drop 1 (dropWhile (Not \<circ> P) (c # cs))))"
  by pat_completeness auto
termination
proof (relation "measure (length \<circ> snd)")
  fix P :: "u8 \<Rightarrow> bool" and s c cs
  assume d: "dropWhile P s = c # cs"
  then have "\<not> P c" by (metis hd_dropWhile list.discI list.sel(1))
  have "length (dropWhile P s) \<le> length s" by (rule length_dropWhile_le)
  moreover have "length (dropWhile (Not \<circ> P) cs) \<le> length cs" by (rule length_dropWhile_le)
  ultimately show "((P, drop 1 (dropWhile (Not \<circ> P) (c # cs))), P, s) \<in> measure (length \<circ> snd)"
    using d \<open>\<not> P c\<close> by simp
qed simp

declare words.simps [simp del]

lemma cstr_end: "cstr m s p \<Longrightarrow> m p = 0 \<longleftrightarrow> s = []"
  by (cases s) auto

lemma cstr_drop: "cstr m s p \<Longrightarrow> s = a @ b \<Longrightarrow> cstr m b (p + of_nat (length a))"
  by (simp add: cstr_append)

text \<open>One call on the string \<open>a @ w @ r\<close>, separators, a word and the rest, at the context.\<close>

lemma strtok_r_step:
  assumes "cstr m seps sp" and "cstr m (a @ w @ r) p" and ctx: "(if str \<noteq> 0 then str else ctx) = p"
    and a: "a = takeWhile (\<lambda>x. x \<in> set seps) (a @ w @ r)" and w: "w = takeWhile (\<lambda>x. x \<notin> set seps) (w @ r)"
  defines "head \<equiv> p + of_nat (length a)" and "tail \<equiv> p + of_nat (length a) + of_nat (length w)"
  shows "strtok_r str sp ctx m = Some (if w @ r = [] then (0, 0, m)
    else if r = [] then (head, 0, m) else (head, tail + 1, m(tail := 0)))"
proof -
  have p: "p \<noteq> 0" by (rule cstr_not_null [OF assms(2)])
  have h: "cstr m (w @ r) head" unfolding head_def by (rule cstr_drop [OF assms(2) refl])
  then have t: "cstr m r tail"
    using cstr_drop [OF h refl] by (simp add: head_def tail_def)
  have "skip_seps m sp p = Some head"
    using skip_seps_cstr [OF assms(1,2)] unfolding a [symmetric] head_def .
  moreover have "skip_word m sp head = Some tail"
    using skip_word_cstr [OF assms(1) h] unfolding w [symmetric] head_def tail_def .
  ultimately show ?thesis
    using p ctx cstr_end [OF h] cstr_end [OF t] by (simp add: strtok_r_def Let_def)
qed

text \<open>
  The loop of a caller that takes all words, as \<open>cmd_dispatch\<close> of \<open>kern/main/menu.c\<close> does.
\<close>

partial_function (option) strtok_all :: "ptr \<Rightarrow> ptr \<Rightarrow> ptr \<Rightarrow> mem \<Rightarrow> (ptr list \<times> mem) option" where
  "strtok_all str seps ctx m = do {
     (word, ctx, m) \<leftarrow> strtok_r str seps ctx m;
     if word = 0 then Some ([], m)
     else do {
       (ws, m) \<leftarrow> strtok_all 0 seps ctx m;
       Some (word # ws, m) } }"

lemma strtok_all_null: "strtok_all 0 seps 0 m = Some ([], m)"
  by (simp add: strtok_all.simps strtok_r_def)

lemma span_sub: "k + n \<le> l \<Longrightarrow> span (p + of_nat k) n \<subseteq> span p l"
  by (auto simp: span_def add.assoc image_iff intro!: bexI [of _ "k + _"])

lemma span_disjoint:
  assumes "room p l" and "i + n < j" and "j + k \<le> l"
  shows "span (p + of_nat i) n \<inter> span (p + of_nat j) k = {}"
proof -
  have "p + of_nat (i + x) \<noteq> p + of_nat (j + y)" if "x \<le> n" "y \<le> k" for x y
    using assms that by (intro ptr_neq) (auto simp: room_def)
  then show ?thesis by (auto simp: span_def add.assoc)
qed

lemma words_split:
  assumes "s = a @ w @ r" and "a = takeWhile P s" and "w = takeWhile (Not \<circ> P) (w @ r)" and "w \<noteq> []"
  shows "words P s = w # words P (drop 1 r)"
proof -
  have "dropWhile P s = w @ r"
    using assms(1,2) takeWhile_dropWhile_id [of P s] by (metis append.assoc same_append_eq)
  moreover have "dropWhile (Not \<circ> P) (w @ r) = r"
    using assms(3) takeWhile_dropWhile_id [of "Not \<circ> P" "w @ r"] by (metis same_append_eq)
  moreover obtain c cs where "w @ r = c # cs" using assms(4) by (cases w) auto
  ultimately show ?thesis using assms(3) words.simps [of P s] by (metis list.simps(5))
qed

text \<open>A word that is cut off by a null byte stands by itself.\<close>

lemma cut_word:
  assumes "cstr m (a @ w @ x # r) p"
  defines "tail \<equiv> p + of_nat (length a) + of_nat (length w)"
  shows "cstr (m(tail := 0)) w (p + of_nat (length a))" and "cstr (m(tail := 0)) r (tail + 1)"
    and "tail \<in> span p (length (a @ w @ x # r))"
proof -
  let ?h = "p + of_nat (length a)"
  have h: "cstr m (w @ x # r) ?h" by (rule cstr_drop [OF assms(1) refl])
  have t: "cstr m (x # r) tail" unfolding tail_def by (rule cstr_drop [OF h refl])
  have rh: "room ?h (length w)" using cstr_room [OF h] by (simp add: room_def)
  have "?h + of_nat i \<noteq> tail" if "i < length w" for i
    using that rh unfolding tail_def by (intro ptr_neq) (simp_all add: room_def)
  then show "cstr (m(tail := 0)) w ?h"
    using h t cstr_append [of m w "x # r" ?h] cstr_append [of "m(tail := 0)" w "[]" ?h]
    by (simp add: tail_def)
  have "room tail (Suc (length r))" using cstr_room [OF t] by simp
  then show "cstr (m(tail := 0)) r (tail + 1)"
    using t room_Suc(2) by (intro cstr_update) auto
  have "length a + length w \<in> {..length (a @ w @ x # r)}" by simp
  then have "p + of_nat (length a + length w) \<in> span p (length (a @ w @ x # r))"
    unfolding span_def by (rule imageI)
  then show "tail \<in> span p (length (a @ w @ x # r))" by (simp add: tail_def add.assoc)
qed

lemma strtok_all_words:
  assumes "cstr m seps sp" and "cstr m s p" and "span p (length s) \<inter> span sp (length seps) = {}"
    and "(if str \<noteq> 0 then str else ctx) = p"
  shows "\<exists>ps m'. strtok_all str sp ctx m = Some (ps, m') \<and>
    list_all2 (\<lambda>q w. cstr m' w q) ps (words (\<lambda>x. x \<in> set seps) s) \<and>
    (\<forall>a. a \<notin> span p (length s) \<longrightarrow> m' a = m a)"
  using assms
proof (induction "length s" arbitrary: s p m str ctx rule: less_induct)
  case less
  define P where "P = (\<lambda>x. x \<in> set seps)"
  define a where "a = takeWhile P s"
  define w where "w = takeWhile (Not \<circ> P) (dropWhile P s)"
  define r where "r = dropWhile (Not \<circ> P) (dropWhile P s)"
  have s: "s = a @ w @ r" by (simp add: a_def w_def r_def)
  have wr: "w @ r = dropWhile P s" by (simp add: w_def r_def)
  have "a @ w @ r = s" by (rule s [symmetric])
  then have a: "a = takeWhile (\<lambda>x. x \<in> set seps) (a @ w @ r)" by (simp add: a_def P_def)
  have w: "w = takeWhile (\<lambda>x. x \<notin> set seps) (w @ r)" unfolding wr by (simp add: w_def P_def comp_def)
  have w': "w = takeWhile (Not \<circ> P) (w @ r)" unfolding wr by (rule w_def)
  let ?head = "p + of_nat (length a)" and ?tail = "p + of_nat (length a) + of_nat (length w)"
  have step: "strtok_r str sp ctx m = Some (if w @ r = [] then (0, 0, m)
      else if r = [] then (?head, 0, m) else (?head, ?tail + 1, m(?tail := 0)))"
    by (rule strtok_r_step [OF less.prems(1) less.prems(2) [unfolded s] less.prems(4) a w])
  have h: "cstr m (w @ r) ?head" by (rule cstr_drop [OF less.prems(2) s])
  have ne: "w \<noteq> []" if nonempty: "w @ r \<noteq> []"
  proof -
    obtain c cs where c: "dropWhile P s = c # cs" using nonempty wr by (cases "dropWhile P s") auto
    then have "\<not> P c" by (metis hd_dropWhile list.discI list.sel(1))
    then show ?thesis by (simp add: w_def c)
  qed
  have split: "words P s = w # words P (drop 1 r)" if "w @ r \<noteq> []"
    by (rule words_split [OF s a_def w' ne [OF that]])
  have h0: "?head \<noteq> 0" using cstr_not_null [OF h] .
  consider (none) "w @ r = []" | (last) "w @ r \<noteq> []" "r = []" | (more) x r' where "w @ r \<noteq> []" "r = x # r'"
    by (cases r) auto
  then show ?case
  proof cases
    case none
    then have "dropWhile P s = []" using wr by simp
    then have "words P s = []" unfolding words.simps [of P s] by (simp only: list.case)
    then show ?thesis using step none by (simp add: strtok_all.simps [of str] P_def)
  next
    case last
    have "strtok_all str sp ctx m = Some ([?head], m)"
      unfolding strtok_all.simps [of str] step using last h0 by (simp add: strtok_all_null)
    moreover have "words P s = [w]" using split [OF last(1)] last(2) by (simp add: words.simps [of P "[]"])
    ultimately show ?thesis using h last(2) by (simp add: P_def)
  next
    case more
    define m1 where "m1 = m(?tail := 0)"
    have sx: "s = a @ w @ x # r'" using s unfolding more(2) .
    note cut = cut_word [OF less.prems(2) [unfolded sx], folded m1_def, folded sx]
    have sep: "cstr m1 seps sp"
      unfolding m1_def by (rule cstr_update [OF less.prems(1)]) (use less.prems(3) cut(3) in blast)
    have off: "?tail + 1 = p + of_nat (length a + length w + 1)" by simp
    have sub: "span (?tail + 1) (length r') \<subseteq> span p (length s)"
      unfolding off by (rule span_sub) (subst sx, simp)
    have dis: "span ?head (length w) \<inter> span (?tail + 1) (length r') = {}"
      unfolding off by (rule span_disjoint [OF cstr_room [OF less.prems(2)]]) (simp, subst sx, simp)
    have len: "length r' < length s" by (subst sx) simp
    have dis2: "span (?tail + 1) (length r') \<inter> span sp (length seps) = {}" using sub less.prems(3) by blast
    have ctx2: "(if (0 :: ptr) \<noteq> 0 then 0 else ?tail + 1) = ?tail + 1" by simp
    obtain ps m' where IH: "strtok_all 0 sp (?tail + 1) m1 = Some (ps, m')"
      "list_all2 (\<lambda>q w. cstr m' w q) ps (words P r')" "\<forall>a. a \<notin> span (?tail + 1) (length r') \<longrightarrow> m' a = m1 a"
      using less.hyps [OF len sep cut(2) dis2 ctx2] unfolding P_def by blast
    have "cstr m' w ?head" by (rule cstr_cong [OF cut(1)]) (use IH(3) dis in blast)
    moreover have "strtok_all str sp ctx m = Some (?head # ps, m')"
      unfolding strtok_all.simps [of str] step using more h0 IH(1) by (simp add: m1_def)
    moreover have "m' a = m a" if "a \<notin> span p (length s)" for a
    proof -
      have "m' a = m1 a" "a \<noteq> ?tail" using that IH(3) sub cut(3) by blast+
      then show ?thesis by (simp add: m1_def)
    qed
    moreover have "words P s = w # words P r'" using split [OF more(1)] unfolding more(2) by simp
    ultimately show ?thesis using IH(2) unfolding P_def by fastforce
  qed
qed

section \<open>Numbers\<close>

definition bytes_of :: "string \<Rightarrow> u8 list" where
  "bytes_of s = map (\<lambda>c. of_nat (of_char c)) s"

fun dec_vals :: "nat \<Rightarrow> nat list" where
  "dec_vals n = (if n < 10 then [n] else dec_vals (n div 10) @ [n mod 10])"

declare dec_vals.simps [simp del]

lemma dec_vals_digits: "bytes_of (dec_digits n) = map (\<lambda>d. of_nat (48 + d)) (dec_vals n)"
proof (induction n rule: dec_digits.induct)
  case (1 n)
  then show ?case
    by (auto simp: dec_digits.simps [of n] dec_vals.simps [of n] bytes_of_def)
qed

lemma dec_vals_lt: "d \<in> set (dec_vals n) \<Longrightarrow> d < 10"
proof (induction n rule: dec_vals.induct)
  case (1 n)
  then show ?case by (cases "n < 10") (auto simp: dec_vals.simps [of n])
qed

lemma dec_vals_sum: "foldl (\<lambda>v d. v * 10 + of_nat d) 0 (dec_vals n) = (of_nat n :: u32)"
proof (induction n rule: dec_vals.induct)
  case (1 n)
  show ?case
  proof (cases "n < 10")
    case False
    have "(of_nat n :: u32) = of_nat (n div 10 * 10 + n mod 10)" by simp
    also have "\<dots> = of_nat (n div 10) * 10 + of_nat (n mod 10)" by (simp only: of_nat_add of_nat_mult) simp
    finally show ?thesis using 1 False by (simp add: dec_vals.simps [of n])
  qed (simp add: dec_vals.simps [of n])
qed

lemma digit_cases:
  "d < (10 :: nat) \<Longrightarrow> d = 0 \<or> d = 1 \<or> d = 2 \<or> d = 3 \<or> d = 4 \<or> d = 5 \<or> d = 6 \<or> d = 7 \<or> d = 8 \<or> d = 9"
  by arith

lemma digit_index_digit: "d < 10 \<Longrightarrow> digit_index (of_nat (48 + d)) digits = Some (of_nat d)"
  by (drule digit_cases) (elim disjE; simp add: digits_def)

lemma atoi_loop_digits:
  "cstr m (map (\<lambda>d. of_nat (48 + d)) ds) p \<Longrightarrow> (\<And>d. d \<in> set ds \<Longrightarrow> d < 10) \<Longrightarrow>
    atoi_loop m p val = Some (foldl (\<lambda>v d. v * 10 + of_nat d) val ds)"
proof (induction ds arbitrary: p val)
  case (Cons d ds)
  then show ?case
    using digit_index_digit [of d] by (simp add: atoi_loop.simps [of m p val])
qed (simp add: atoi_loop.simps)

lemma digit_byte: "d < 10 \<Longrightarrow> (of_nat (48 + d) :: u8) \<notin> {32, 9, 45, 43}"
  by (drule digit_cases) (elim disjE; simp)

lemma dec_vals_cons: "\<exists>d ds. dec_vals n = d # ds \<and> d < 10"
proof -
  have "dec_vals n \<noteq> []" by (simp add: dec_vals.simps [of n])
  then show ?thesis using dec_vals_lt [of _ n] by (cases "dec_vals n") auto
qed

lemma atoi_digits:
  assumes "cstr m (bytes_of (dec_digits n)) p"
  shows "atoi m p = Some (of_nat n)"
proof -
  obtain d ds where d: "dec_vals n = d # ds" "d < 10" using dec_vals_cons by blast
  have c: "cstr m (map (\<lambda>d. of_nat (48 + d)) (dec_vals n)) p" using assms by (simp add: dec_vals_digits)
  have "m p = of_nat (48 + d)" using c d by simp
  then have first: "m p \<notin> {32, 9, 45, 43}" using digit_byte [OF d(2)] by simp
  have "atoi_loop m p 0 = Some (of_nat n)"
    using atoi_loop_digits [OF c] dec_vals_lt dec_vals_sum [of n] by simp
  then show ?thesis using first by (simp add: atoi_def skip_space.simps [of m p])
qed

lemma atoi_minus:
  assumes "cstr m (45 # bytes_of (dec_digits n)) p"
  shows "atoi m p = Some (- of_nat n)"
proof -
  have c: "cstr m (map (\<lambda>d. of_nat (48 + d)) (dec_vals n)) (p + 1)" and p: "m p = 45"
    using assms by (simp_all add: dec_vals_digits)
  have "atoi_loop m (p + 1) 0 = Some (of_nat n)"
    using atoi_loop_digits [OF c] dec_vals_lt dec_vals_sum [of n] by simp
  then show ?thesis using p by (simp add: atoi_def skip_space.simps [of m p])
qed

section \<open>Properties\<close>

text \<open>
  C17. \<open>memmove\<close> leaves in the destination what the source held before the call, however the two
  buffers overlap and are aligned, and changes no other byte, provided that neither buffer runs
  past the top of memory.
\<close>

theorem memmove_moves:
  assumes "fits dst (unat len)" and "fits src (unat len)"
  shows "(\<forall>j < unat len. memmove dst src len m (dst + of_nat j) = m (src + of_nat j)) \<and>
    (\<forall>a. (\<forall>j < unat len. a \<noteq> dst + of_nat j) \<longrightarrow> memmove dst src len m a = m a)"
  using memmove_copied [OF assms, of m] by (auto simp: copied_def)

theorem memmove_moves_witness:
  "memmove 0x1002 0x1001 4 ucast 0x1005 = 4 \<and> memmove 0x1004 0x1000 8 ucast 0x1009 = 5"
proof -
  have "memmove 0x1002 0x1001 4 ucast (0x1002 + of_nat 3) = (ucast (0x1001 + of_nat 3 :: u32) :: u8)"
    using memmove_moves [of "0x1002" 4 "0x1001" ucast] by (auto dest: spec [of _ 3])
  moreover have "memmove 0x1004 0x1000 8 ucast (0x1004 + of_nat 5) = (ucast (0x1000 + of_nat 5 :: u32) :: u8)"
    using memmove_moves [of "0x1004" 8 "0x1000" ucast] by (auto dest: spec [of _ 5])
  ultimately show ?thesis by simp
qed

text \<open>
  C18. On two strings \<open>strcmp\<close> ends and compares them as the lexicographic order of their bytes
  does: 0 exactly for equal strings, -1 exactly for the smaller one first and 1 exactly for the
  greater one first.
\<close>

theorem strcmp_lexicographic:
  assumes "cstr m s a" and "cstr m t b"
  shows "\<exists>r. strcmp m a b = Some r \<and> (r = 0 \<longleftrightarrow> s = t) \<and>
    (r = - 1 \<longleftrightarrow> (s, t) \<in> lexord {(x, y). x < y}) \<and> (r = 1 \<longleftrightarrow> (t, s) \<in> lexord {(x, y). x < y})"
proof -
  have "strcmp m a b = Some (order s t)" using strcmp_loop_cstr [of m s a 0 t b] assms by (simp add: strcmp_def)
  moreover have "order s t = 1 \<longleftrightarrow> order t s = - 1" using order_swap [of s t] by simp
  ultimately show ?thesis using order_eq [of s t] order_lex [of s t] order_lex [of t s] by simp
qed

theorem strcmp_lexicographic_witness:
  "strcmp ((\<lambda>_. 0)(16 := 97, 17 := 98, 32 := 97)) 16 32 = Some 1"
  using strcmp_lexicographic [of "(\<lambda>_. 0)(16 := 97, 17 := 98, 32 := 97)" "[97, 98]" 16 "[97]" 32] by simp

text \<open>
  C19. Calling \<open>strtok_r\<close> until it returns null ends, and yields exactly the words of the string
  between runs of separators, in order, each as a terminated string of its own. Memory outside
  the string is not touched.
\<close>

theorem strtok_splits:
  assumes "cstr m seps sp" and "cstr m s p" and "span p (length s) \<inter> span sp (length seps) = {}"
  shows "\<exists>ps m'. strtok_all p sp ctx m = Some (ps, m') \<and>
    list_all2 (\<lambda>q w. cstr m' w q) ps (words (\<lambda>x. x \<in> set seps) s) \<and>
    (\<forall>a. a \<notin> span p (length s) \<longrightarrow> m' a = m a)"
  using strtok_all_words [OF assms, of p] cstr_not_null [OF assms(2)] by auto

theorem strtok_splits_witness:
  "\<exists>ps m'. strtok_all 16 32 0 ((\<lambda>_. 0)(16 := 32, 17 := 97, 18 := 32, 19 := 98, 32 := 32)) = Some (ps, m') \<and>
    list_all2 (\<lambda>q w. cstr m' w q) ps [[97], [98]]"
proof -
  have "words (\<lambda>x. x \<in> set [32]) [32, 97, 32, 98] = [[97], [98]]" by (simp add: words.simps)
  then show ?thesis
    using strtok_splits [of "(\<lambda>_. 0)(16 := 32, 17 := 97, 18 := 32, 19 := 98, 32 := 32)" "[32]" 32 "[32, 97, 32, 98]" 16 0]
    by (auto simp: span_Suc)
qed

text \<open>
  \<open>atoi\<close> reads back the decimal digits of a number, modulo the word size, and the negated
  number after a minus sign.
\<close>

theorem atoi_reads_digits:
  assumes "cstr m (bytes_of (dec_digits n)) p" and "cstr m (45 # bytes_of (dec_digits n)) q"
  shows "atoi m p = Some (of_nat n) \<and> atoi m q = Some (- of_nat n)"
  using atoi_digits [OF assms(1)] atoi_minus [OF assms(2)] by simp

theorem atoi_reads_digits_witness:
  "atoi ((\<lambda>_. 0)(16 := 45, 17 := 52, 18 := 50)) 17 = Some 42 \<and>
   atoi ((\<lambda>_. 0)(16 := 45, 17 := 52, 18 := 50)) 16 = Some (- 42)"
  using atoi_reads_digits [of "(\<lambda>_. 0)(16 := 45, 17 := 52, 18 := 50)" 42 17 16]
  by (simp add: dec_vals_digits dec_vals.simps)

end
