(* ===== verification/Copyinout.thy ===== *)
theory Copyinout
  imports Cstring
begin

text \<open>
  \<open>kern/vm/copyinout.c\<close>: copying between user and kernel memory. User memory is the lower half of
  the address space and is accessed in place; what the current address space lets a program read
  and write are the two predicates of \<open>uspace\<close>, and an access to a user address that they refuse
  is a fault. With \<open>tm_badfaultfunc\<close> set, a fault ends the copy at that access, and the function
  returns \<open>EFAULT\<close>: the bytes copied until then stay copied.
\<close>

record uspace =
  readable :: "ptr \<Rightarrow> bool"
  writable :: "ptr \<Rightarrow> bool"

definition USERSPACETOP :: u32 where "USERSPACETOP = 0x80000000"

definition loads :: "uspace \<Rightarrow> ptr \<Rightarrow> bool" where
  "loads as a \<longleftrightarrow> USERSPACETOP \<le> a \<or> readable as a"

definition stores :: "uspace \<Rightarrow> ptr \<Rightarrow> bool" where
  "stores as a \<longleftrightarrow> USERSPACETOP \<le> a \<or> writable as a"

section \<open>Functions\<close>

text \<open>\<open>copycheck\<close> stores the length that can be copied through its last argument.\<close>

definition copycheck :: "ptr \<Rightarrow> u32 \<Rightarrow> errno + u32" where
  "copycheck userptr len =
    (let bot = userptr; top = bot + len - 1 in
     if top < bot then Inl EFAULT
     else if bot \<ge> USERSPACETOP then Inl EFAULT
     else if top \<ge> USERSPACETOP then Inr (USERSPACETOP - bot)
     else Inr len)"

text \<open>
  \<open>memcpy\<close> on memory that may fault: whether it came to its end, and the memory. An aligned long
  lies within one page, so that its first address decides.
\<close>

fun try_longs :: "uspace \<Rightarrow> mem \<Rightarrow> ptr \<Rightarrow> ptr \<Rightarrow> nat \<Rightarrow> nat \<Rightarrow> bool \<times> mem" where
  "try_longs as m d s i 0 = (True, m)"
| "try_longs as m d s i (Suc k) =
    (if loads as (s + 4 * of_nat i) \<and> stores as (d + 4 * of_nat i)
     then try_longs as (store_long m (d + 4 * of_nat i) (load_long m (s + 4 * of_nat i))) d s (i + 1) k
     else (False, m))"

fun try_bytes :: "uspace \<Rightarrow> mem \<Rightarrow> ptr \<Rightarrow> ptr \<Rightarrow> nat \<Rightarrow> nat \<Rightarrow> bool \<times> mem" where
  "try_bytes as m d s i 0 = (True, m)"
| "try_bytes as m d s i (Suc k) =
    (if loads as (s + of_nat i) \<and> stores as (d + of_nat i)
     then try_bytes as (m(d + of_nat i := m (s + of_nat i))) d s (i + 1) k
     else (False, m))"

definition try_memcpy :: "uspace \<Rightarrow> ptr \<Rightarrow> ptr \<Rightarrow> u32 \<Rightarrow> mem \<Rightarrow> bool \<times> mem" where
  "try_memcpy as dst src len m =
    (if aligned dst \<and> aligned src \<and> aligned len then try_longs as m dst src 0 (unat len div 4)
     else try_bytes as m dst src 0 (unat len))"

definition copyin :: "uspace \<Rightarrow> ptr \<Rightarrow> ptr \<Rightarrow> u32 \<Rightarrow> mem \<Rightarrow> (errno + unit) \<times> mem" where
  "copyin as usersrc dest len m = (case copycheck usersrc len of
       Inl e \<Rightarrow> (Inl e, m)
     | Inr stoplen \<Rightarrow>
         if stoplen \<noteq> len then (Inl EFAULT, m)
         else case try_memcpy as dest usersrc len m of
           (False, m) \<Rightarrow> (Inl EFAULT, m)
         | (True, m) \<Rightarrow> (Inr (), m))"

definition copyout :: "uspace \<Rightarrow> ptr \<Rightarrow> ptr \<Rightarrow> u32 \<Rightarrow> mem \<Rightarrow> (errno + unit) \<times> mem" where
  "copyout as src userdest len m = (case copycheck userdest len of
       Inl e \<Rightarrow> (Inl e, m)
     | Inr stoplen \<Rightarrow>
         if stoplen \<noteq> len then (Inl EFAULT, m)
         else case try_memcpy as userdest src len m of
           (False, m) \<Rightarrow> (Inl EFAULT, m)
         | (True, m) \<Rightarrow> (Inr (), m))"

text \<open>
  The loop of \<open>copystr\<close>, \<open>k\<close> rounds from its end: a fault, the length with the terminator, or
  nothing if there is no terminator.
\<close>

fun copystr_loop :: "uspace \<Rightarrow> ptr \<Rightarrow> ptr \<Rightarrow> nat \<Rightarrow> nat \<Rightarrow> mem \<Rightarrow> (errno + u32 option) \<times> mem" where
  "copystr_loop as dest src i 0 m = (Inr None, m)"
| "copystr_loop as dest src i (Suc k) m =
    (if loads as (src + of_nat i) \<and> stores as (dest + of_nat i) then
       let m = m(dest + of_nat i := m (src + of_nat i)) in
       if m (src + of_nat i) = 0 then (Inr (Some (of_nat i + 1)), m)
       else copystr_loop as dest src (i + 1) k m
     else (Inl EFAULT, m))"

definition copystr :: "uspace \<Rightarrow> ptr \<Rightarrow> ptr \<Rightarrow> u32 \<Rightarrow> u32 \<Rightarrow> mem \<Rightarrow> (errno + u32) \<times> mem" where
  "copystr as dest src maxlen stoplen m =
    (case copystr_loop as dest src 0 (unat (min maxlen stoplen)) m of
       (Inl e, m) \<Rightarrow> (Inl e, m)
     | (Inr (Some gotlen), m) \<Rightarrow> (Inr gotlen, m)
     | (Inr None, m) \<Rightarrow> (Inl (if stoplen < maxlen then EFAULT else ENAMETOOLONG), m))"

definition copyinstr :: "uspace \<Rightarrow> ptr \<Rightarrow> ptr \<Rightarrow> u32 \<Rightarrow> mem \<Rightarrow> (errno + u32) \<times> mem" where
  "copyinstr as usersrc dest len m = (case copycheck usersrc len of
       Inl e \<Rightarrow> (Inl e, m)
     | Inr stoplen \<Rightarrow> copystr as dest usersrc len stoplen m)"

definition copyoutstr :: "uspace \<Rightarrow> ptr \<Rightarrow> ptr \<Rightarrow> u32 \<Rightarrow> mem \<Rightarrow> (errno + u32) \<times> mem" where
  "copyoutstr as src userdest len m = (case copycheck userdest len of
       Inl e \<Rightarrow> (Inl e, m)
     | Inr stoplen \<Rightarrow> copystr as userdest src len stoplen m)"

section \<open>The region check\<close>

lemma le_USERSPACETOP: "USERSPACETOP \<le> a \<longleftrightarrow> 2 ^ 31 \<le> unat a"
  by (simp add: USERSPACETOP_def word_le_nat_alt)

lemma copycheck_zero: "copycheck u 0 = Inl EFAULT \<or> copycheck u 0 = Inr USERSPACETOP"
proof (cases "u = 0")
  case True
  then show ?thesis by (simp add: copycheck_def Let_def USERSPACETOP_def)
next
  case False
  then have "u - 1 < u" using unat_dec_u32 [of u] by (simp add: word_less_nat_alt unat_gt_0)
  then show ?thesis by (simp add: copycheck_def Let_def)
qed

lemma copycheck_pos:
  assumes "0 < unat len"
  shows "copycheck u len =
    (if 2 ^ 31 \<le> unat u \<or> 2 ^ 32 < unat u + unat len then Inl EFAULT
     else if 2 ^ 31 < unat u + unat len then Inr (USERSPACETOP - u) else Inr len)"
proof (cases "unat u + unat len \<le> 2 ^ 32")
  case True
  have l: "unat (len - 1) = unat len - 1" using assms by (intro unat_dec_u32) auto
  then have t: "unat (u + len - 1) = unat u + unat len - 1"
    using unat_plus_u32 [of u "len - 1"] True assms by (simp add: add_diff_eq)
  show ?thesis using True assms t by (auto simp: copycheck_def Let_def word_less_nat_alt le_USERSPACETOP)
next
  case False
  have l: "unat (len - 1) = unat len - 1" using assms by (intro unat_dec_u32) auto
  have "u + len - 1 < u"
  proof -
    have "unat (u + (len - 1)) = (unat u + (unat len - 1)) mod 2 ^ 32" by (simp add: unat_word_ariths l)
    also have "\<dots> = unat u + (unat len - 1) - 2 ^ 32"
      using False unat_u32_lt [of u] unat_u32_lt [of len] by (intro mod_if [THEN trans]) (simp del: unat_u32_lt add: mod_less)
    also have "\<dots> < unat u" using False unat_u32_lt [of len] by (simp del: unat_u32_lt)
    finally show ?thesis by (simp add: word_less_nat_alt add_diff_eq)
  qed
  then show ?thesis using False by (simp add: copycheck_def Let_def)
qed

text \<open>A copy goes ahead just when the block is not empty and inside user memory.\<close>

lemma copycheck_block: "copycheck u len = Inr len \<longleftrightarrow> 0 < unat len \<and> unat u + unat len \<le> 2 ^ 31"
proof (cases "unat len = 0")
  case True
  then have "len = 0" by (simp add: unat_eq_0)
  then show ?thesis using copycheck_zero [of u] by (auto simp: USERSPACETOP_def)
next
  case False
  then show ?thesis
  proof (cases "unat u < 2 ^ 31 \<and> 2 ^ 31 < unat u + unat len")
    case True
    have "unat (USERSPACETOP - u) = 2 ^ 31 - unat u"
      using True by (subst unat_sub) (simp_all add: word_le_nat_alt USERSPACETOP_def)
    then have "USERSPACETOP - u \<noteq> len" using True by auto
    then show ?thesis using copycheck_pos [of len u] False True by auto
  qed (use copycheck_pos [of len u] False in auto)
qed

section \<open>Copying blocks\<close>

text \<open>Access rights belong to pages of 4096 bytes.\<close>

definition paged :: "uspace \<Rightarrow> bool" where
  "paged as \<longleftrightarrow> (\<forall>a b. unat a div 4096 = unat b div 4096 \<longrightarrow> readable as a = readable as b \<and> writable as a = writable as b)"

lemma paged_long:
  assumes "paged as" and "aligned a" and "j < 4"
  shows "loads as (a + of_nat j) = loads as a" "stores as (a + of_nat j) = stores as a"
proof -
  define q where "q = unat a div 4"
  have q: "unat a = 4 * q" using mult_div_mod_eq [of 4 "unat a"] assms(2) unfolding aligned_def q_def by linarith
  then have u: "unat (a + of_nat j) = 4 * q + j"
    using unat_ptr [of a j] unat_u32_lt [of a] assms(3) by (simp del: unat_u32_lt)
  have "unat (a + of_nat j) div 4096 = unat a div 4096"
    unfolding u q using assms(3) by (simp add: div_mult2_eq [of _ 4 1024, simplified] div_plus_div_distrib_dvd_left)
  moreover have "USERSPACETOP \<le> a + of_nat j \<longleftrightarrow> USERSPACETOP \<le> a"
    unfolding le_USERSPACETOP u q using assms(3) by simp presburger
  ultimately show "loads as (a + of_nat j) = loads as a" "stores as (a + of_nat j) = stores as a"
    using assms(1) unfolding paged_def loads_def stores_def by metis+
qed

text \<open>The copy stops at the first byte that faults.\<close>

definition stops :: "uspace \<Rightarrow> ptr \<Rightarrow> ptr \<Rightarrow> nat \<Rightarrow> nat \<Rightarrow> nat \<Rightarrow> bool" where
  "stops as d s i n j \<longleftrightarrow> j \<le> n \<and> (\<forall>l. i \<le> l \<and> l < j \<longrightarrow> loads as (s + of_nat l) \<and> stores as (d + of_nat l)) \<and>
     (j < n \<longrightarrow> \<not> (loads as (s + of_nat j) \<and> stores as (d + of_nat j)))"

lemma try_bytes_stops:
  "\<exists>j. try_bytes as m d s i k = (j = k, copy_bytes m d s i j) \<and> stops as d s i (i + k) (i + j)"
proof (induction k arbitrary: i m)
  case (Suc k)
  show ?case
  proof (cases "loads as (s + of_nat i) \<and> stores as (d + of_nat i)")
    case True
    obtain j where j: "try_bytes as (m(d + of_nat i := m (s + of_nat i))) d s (i + 1) k =
        (j = k, copy_bytes (m(d + of_nat i := m (s + of_nat i))) d s (i + 1) j)"
      "stops as d s (i + 1) (i + 1 + k) (i + 1 + j)" using Suc by blast
    have "stops as d s i (i + Suc k) (i + Suc j)"
      using j(2) True unfolding stops_def by (metis Suc_eq_plus1 Suc_leI add.assoc add_Suc_right le_neq_implies_less add_Suc)
    then show ?thesis using j(1) True by (intro exI [of _ "Suc j"]) simp
  next
    case False
    then show ?thesis by (intro exI [of _ 0]) (auto simp: stops_def)
  qed
qed (auto simp: stops_def)

lemma try_longs_stops:
  assumes "paged as" and "aligned d" and "aligned s"
  shows "\<exists>j. try_longs as m d s i k = (j = 4 * k, copy_bytes m d s (4 * i) j) \<and> stops as d s (4 * i) (4 * i + 4 * k) (4 * i + j)"
proof (induction k arbitrary: i m)
  case (Suc k)
  have idx: "x + of_nat (4 * i + l) = x + 4 * of_nat i + of_nat l" for x :: u32 and l by simp
  note al = aligned_add [OF assms(2), of i] aligned_add [OF assms(3), of i]
  have long: "loads as (s + of_nat (4 * i + l)) = loads as (s + 4 * of_nat i)" "stores as (d + of_nat (4 * i + l)) = stores as (d + 4 * of_nat i)"
    if "l < 4" for l unfolding idx using paged_long [OF assms(1) _ that] al by blast+
  show ?case
  proof (cases "loads as (s + 4 * of_nat i) \<and> stores as (d + 4 * of_nat i)")
    case True
    let ?m = "store_long m (d + 4 * of_nat i) (load_long m (s + 4 * of_nat i))"
    obtain j where j: "try_longs as ?m d s (i + 1) k = (j = 4 * k, copy_bytes ?m d s (4 * (i + 1)) j)"
      "stops as d s (4 * (i + 1)) (4 * (i + 1) + 4 * k) (4 * (i + 1) + j)" using Suc by blast
    have "?m = copy_bytes m d s (4 * i) 4" using copy_longs_bytes [OF assms(3,2), of m i 1] by simp
    then have "copy_bytes ?m d s (4 * (i + 1)) j = copy_bytes m d s (4 * i) (4 + j)"
      using copy_bytes_add [of m d s "4 * i" 4 j] by (simp add: add.commute [of 4 "4 * i"])
    moreover have "stops as d s (4 * i) (4 * i + 4 * Suc k) (4 * i + (4 + j))"
    proof -
      have "loads as (s + of_nat l) \<and> stores as (d + of_nat l)" if "4 * i \<le> l" "l < 4 * (i + 1)" for l
        using long [of "l - 4 * i"] that True by simp
      moreover have "4 * (i + 1) + j = 4 * i + (4 + j)" "4 * (i + 1) + 4 * k = 4 * i + 4 * Suc k" by simp_all
      ultimately show ?thesis using j(2) unfolding stops_def by (metis not_le)
    qed
    ultimately show ?thesis using j(1) True by (intro exI [of _ "4 + j"]) auto
  next
    case False
    then show ?thesis using long [of 0] by (intro exI [of _ 0]) (auto simp: stops_def)
  qed
qed (auto simp: stops_def)

lemma try_memcpy_stops:
  assumes "paged as"
  shows "\<exists>j. try_memcpy as d s len m = (j = unat len, copy_bytes m d s 0 j) \<and> stops as d s 0 (unat len) j"
  using try_longs_stops [OF assms, of d s m 0 "unat len div 4"] try_bytes_stops [of as m d s 0 "unat len"]
  by (auto simp: try_memcpy_def aligned_len)

text \<open>Bytes that a copy up to \<open>n\<close> cannot reach.\<close>

definition outside :: "ptr \<Rightarrow> nat \<Rightarrow> ptr \<Rightarrow> bool" where
  "outside p n a \<longleftrightarrow> unat a < unat p \<or> unat p + n \<le> unat a"

lemma outside_neq: "outside p n a \<Longrightarrow> j < n \<Longrightarrow> unat p + n \<le> 2 ^ 32 \<Longrightarrow> a \<noteq> p + of_nat j"
  using unat_ptr [of p j] by (auto simp: outside_def)

lemma copied_outside: "copied m m' d s 0 j \<Longrightarrow> j \<le> n \<Longrightarrow> fits d n \<Longrightarrow> outside d n a \<Longrightarrow> m' a = m a"
  using outside_neq [of d n a] unfolding copied_def by (metis less_le_trans)

text \<open>The common part of \<open>copyin\<close> and \<open>copyout\<close>.\<close>

definition copy_block :: "uspace \<Rightarrow> ptr \<Rightarrow> ptr \<Rightarrow> ptr \<Rightarrow> u32 \<Rightarrow> mem \<Rightarrow> (errno + unit) \<times> mem" where
  "copy_block as u d s len m = (case copycheck u len of
       Inl e \<Rightarrow> (Inl e, m)
     | Inr stoplen \<Rightarrow>
         if stoplen \<noteq> len then (Inl EFAULT, m)
         else case try_memcpy as d s len m of
           (False, m) \<Rightarrow> (Inl EFAULT, m)
         | (True, m) \<Rightarrow> (Inr (), m))"

lemma copyin_block: "copyin as u k len m = copy_block as u k u len m"
  by (simp add: copyin_def copy_block_def)

lemma copyout_block: "copyout as k u len m = copy_block as u u k len m"
  by (simp add: copyout_def copy_block_def)

lemma copycheck_errno: "copycheck u len = Inl e \<Longrightarrow> e = EFAULT"
  by (auto simp: copycheck_def Let_def split: if_splits)

lemma copy_block_ok:
  assumes "paged as" and "fits d (unat len)" and "fits s (unat len)" and "unat d \<le> unat s \<or> unat s + unat len \<le> unat d"
    and "0 < unat len" and "unat u + unat len \<le> 2 ^ 31"
    and "\<And>j. j < unat len \<Longrightarrow> loads as (s + of_nat j) \<and> stores as (d + of_nat j)"
  shows "\<exists>m'. copy_block as u d s len m = (Inr (), m') \<and> copied m m' d s 0 (unat len)"
proof -
  obtain j where j: "try_memcpy as d s len m = (j = unat len, copy_bytes m d s 0 j)" "stops as d s 0 (unat len) j"
    using try_memcpy_stops [OF assms(1)] by blast
  have "j = unat len" using j(2) assms(7) unfolding stops_def by force
  then show ?thesis
    using j(1) copycheck_block [of u len] assms(5,6) copy_bytes_up [of d 0 "unat len" s m] assms(2-4)
    by (auto simp: copy_block_def)
qed

lemma copy_block_fails:
  assumes "paged as" and "fits d (unat len)" and "fits s (unat len)" and "unat d \<le> unat s \<or> unat s + unat len \<le> unat d"
    and "unat len = 0 \<or> 2 ^ 31 < unat u + unat len \<or> (\<exists>j < unat len. \<not> (loads as (s + of_nat j) \<and> stores as (d + of_nat j)))"
  shows "\<exists>m' j. copy_block as u d s len m = (Inl EFAULT, m') \<and> j \<le> unat len \<and> copied m m' d s 0 j \<and>
    (\<forall>l<j. stores as (d + of_nat l))"
proof (cases "copycheck u len = Inr len")
  case True
  then have f: "\<exists>j < unat len. \<not> (loads as (s + of_nat j) \<and> stores as (d + of_nat j))"
    using assms(5) copycheck_block [of u len] by auto
  obtain j where j: "try_memcpy as d s len m = (j = unat len, copy_bytes m d s 0 j)" "stops as d s 0 (unat len) j"
    using try_memcpy_stops [OF assms(1)] by blast
  have "j < unat len" using j(2) f unfolding stops_def by (metis le0 le_neq_implies_less)
  moreover have "copied m (copy_bytes m d s 0 j) d s 0 j"
    using copy_bytes_up [of d 0 j s m] assms(2-4) calculation by auto
  moreover have "\<forall>l<j. stores as (d + of_nat l)" using j(2) by (simp add: stops_def)
  moreover have "copy_block as u d s len m = (Inl EFAULT, copy_bytes m d s 0 j)"
    using j(1) True \<open>j < unat len\<close> by (simp add: copy_block_def)
  ultimately show ?thesis by (meson less_imp_le)
next
  case False
  moreover have "copied m m d s 0 0" by (simp add: copied_def)
  ultimately show ?thesis using copycheck_errno [of u len] by (cases "copycheck u len") (auto simp: copy_block_def)
qed

section \<open>Copying strings\<close>

text \<open>The user string of \<open>n\<close> bytes at \<open>u\<close> can be read with its terminator.\<close>

definition ustring :: "uspace \<Rightarrow> mem \<Rightarrow> ptr \<Rightarrow> nat \<Rightarrow> bool" where
  "ustring as m u n \<longleftrightarrow> unat u + n < 2 ^ 31 \<and> (\<forall>l\<le>n. readable as (u + of_nat l)) \<and>
     (\<forall>l<n. m (u + of_nat l) \<noteq> 0) \<and> m (u + of_nat n) = 0"

definition apart :: "ptr \<Rightarrow> ptr \<Rightarrow> nat \<Rightarrow> bool" where
  "apart d s n \<longleftrightarrow> (\<forall>j<n. \<forall>l<n. s + of_nat j \<noteq> d + of_nat l)"

lemma apartI:
  assumes "fits d n" and "fits s n" and "unat d + n \<le> unat s \<or> unat s + n \<le> unat d"
  shows "apart d s n"
  unfolding apart_def using assms by (intro allI impI ptr_neq) auto

lemma copystr_round:
  assumes "apart d s n" and "i < n" and "loads as (s + of_nat i) \<and> stores as (d + of_nat i)"
  shows "copystr_loop as d s i (Suc k) m = (let m' = m(d + of_nat i := m (s + of_nat i)) in
    if m (s + of_nat i) = 0 then (Inr (Some (of_nat i + 1)), m') else copystr_loop as d s (Suc i) k m')"
    and "l < n \<Longrightarrow> (m(d + of_nat i := m (s + of_nat i))) (s + of_nat l) = m (s + of_nat l)"
  using assms unfolding apart_def by (auto simp: Let_def)

lemma copystr_found:
  assumes "apart d s n" and "i + k \<le> n" and "i \<le> j" and "j < i + k"
    and "\<And>l. i \<le> l \<Longrightarrow> l \<le> j \<Longrightarrow> loads as (s + of_nat l) \<and> stores as (d + of_nat l)"
    and "\<And>l. i \<le> l \<Longrightarrow> l < j \<Longrightarrow> m (s + of_nat l) \<noteq> 0" and "m (s + of_nat j) = 0"
  shows "copystr_loop as d s i k m = (Inr (Some (of_nat j + 1)), copy_bytes m d s i (Suc j - i))"
  using assms(2-)
proof (induction k arbitrary: i m)
  case (Suc k)
  note rnd = copystr_round(1) [OF assms(1) _ Suc.prems(4) [of i], of k m] copystr_round(2) [OF assms(1) _ Suc.prems(4) [of i], of _ m]
  show ?case
  proof (cases "i = j")
    case True
    then show ?thesis using rnd(1) Suc.prems by (simp add: Let_def fun_upd_def)
  next
    case False
    let ?m = "m(d + of_nat i := m (s + of_nat i))"
    have "copystr_loop as d s (Suc i) k ?m = (Inr (Some (of_nat j + 1)), copy_bytes ?m d s (Suc i) (Suc j - Suc i))"
    proof (rule Suc.IH)
      show "?m (s + of_nat l) \<noteq> 0" if "Suc i \<le> l" "l < j" for l
        using rnd(2) [of l] Suc.prems(5) [of l] that Suc.prems(1-3) by simp
      show "?m (s + of_nat j) = 0" using rnd(2) [of j] Suc.prems by simp
    qed (use Suc.prems False in auto)
    moreover have "Suc j - i = Suc (Suc j - Suc i)" using Suc.prems(2) by simp
    ultimately show ?thesis using rnd(1) Suc.prems(1-3) Suc.prems(5) [of i] False by (simp add: Let_def)
  qed
qed simp

lemma copystr_stops:
  assumes "apart d s n" and "i + k \<le> n" and "i \<le> j" and "j \<le> i + k"
    and "\<And>l. i \<le> l \<Longrightarrow> l < j \<Longrightarrow> loads as (s + of_nat l) \<and> stores as (d + of_nat l)"
    and "\<And>l. i \<le> l \<Longrightarrow> l < j \<Longrightarrow> m (s + of_nat l) \<noteq> 0"
    and "j < i + k \<Longrightarrow> \<not> (loads as (s + of_nat j) \<and> stores as (d + of_nat j))"
  shows "copystr_loop as d s i k m = (if j < i + k then Inl EFAULT else Inr None, copy_bytes m d s i (j - i))"
  using assms(2-)
proof (induction k arbitrary: i m)
  case (Suc k)
  show ?case
  proof (cases "i = j")
    case True
    then show ?thesis using Suc.prems by auto
  next
    case False
    note rnd = copystr_round(1) [OF assms(1) _ Suc.prems(4) [of i], of k m] copystr_round(2) [OF assms(1) _ Suc.prems(4) [of i], of _ m]
    let ?m = "m(d + of_nat i := m (s + of_nat i))"
    have "copystr_loop as d s (Suc i) k ?m = (if j < Suc i + k then Inl EFAULT else Inr None, copy_bytes ?m d s (Suc i) (j - Suc i))"
    proof (rule Suc.IH)
      show "?m (s + of_nat l) \<noteq> 0" if "Suc i \<le> l" "l < j" for l
        using rnd(2) [of l] Suc.prems(5) [of l] that Suc.prems(1-3) by simp
    qed (use Suc.prems False in auto)
    moreover have "j - i = Suc (j - Suc i)" using Suc.prems(2) False by simp
    ultimately show ?thesis using rnd(1) Suc.prems(1-3) Suc.prems(5) [of i] False by (simp add: Let_def)
  qed
qed auto

lemma copycheck_stop:
  assumes "0 < unat len" and "unat u < 2 ^ 31" and "unat u + unat len \<le> 2 ^ 32"
  shows "\<exists>st. copycheck u len = Inr st \<and> unat (min len st) = min (unat len) (2 ^ 31 - unat u) \<and> (st < len \<longleftrightarrow> 2 ^ 31 < unat u + unat len)"
proof -
  have "unat (USERSPACETOP - u) = 2 ^ 31 - unat u"
    using assms(2) by (subst unat_sub) (simp_all add: word_le_nat_alt USERSPACETOP_def)
  then show ?thesis
    using copycheck_pos [OF assms(1), of u] assms
    by (cases "2 ^ 31 < unat u + unat len") (auto simp: min_def word_le_nat_alt word_less_nat_alt)
qed

lemma user_loads: "unat u + l < 2 ^ 31 \<Longrightarrow> loads as (u + of_nat l) = readable as (u + of_nat l)"
  using unat_ptr [of u l] by (simp add: loads_def le_USERSPACETOP)

lemma kernel_stores: "2 ^ 31 \<le> unat k \<Longrightarrow> fits k n \<Longrightarrow> l < n \<Longrightarrow> stores as (k + of_nat l) \<and> loads as (k + of_nat l)"
  using unat_ptr [of k l] by (simp add: stores_def loads_def le_USERSPACETOP)

lemma copyinstr_found:
  assumes "2 ^ 31 \<le> unat dest" and "fits dest (unat len)" and "n < unat len" and "ustring as m u n"
  shows "copyinstr as u dest len m = (Inr (of_nat n + 1), copy_bytes m dest u 0 (Suc n))"
proof -
  have u: "unat u + n < 2 ^ 31" using assms(4) by (simp add: ustring_def)
  obtain st where st: "copycheck u len = Inr st" "unat (min len st) = min (unat len) (2 ^ 31 - unat u)"
    using copycheck_stop [of len u] assms u by auto
  let ?k = "min (unat len) (2 ^ 31 - unat u)"
  have "copystr_loop as dest u 0 ?k m = (Inr (Some (of_nat n + 1)), copy_bytes m dest u 0 (Suc n - 0))"
  proof (rule copystr_found [where n = ?k])
    show "apart dest u ?k" using assms(1,2) u by (intro apartI) auto
    show "loads as (u + of_nat l) \<and> stores as (dest + of_nat l)" if "l \<le> n" for l
      using that user_loads [of u l as] kernel_stores [OF assms(1,2), of l as] assms(3,4) u by (auto simp: ustring_def)
  qed (use assms u in \<open>auto simp: ustring_def\<close>)
  then show ?thesis using st by (simp add: copyinstr_def copystr_def)
qed

lemma copyinstr_fails:
  assumes "2 ^ 31 \<le> unat dest" and "fits dest (unat len)" and "0 < unat len" and "\<not> (\<exists>n < unat len. ustring as m u n)"
  defines "long \<equiv> unat u + unat len \<le> 2 ^ 31 \<and> (\<forall>l < unat len. readable as (u + of_nat l) \<and> m (u + of_nat l) \<noteq> 0)"
  shows "\<exists>j \<le> unat len. copyinstr as u dest len m = (Inl (if long then ENAMETOOLONG else EFAULT), copy_bytes m dest u 0 j)"
proof (cases "unat u < 2 ^ 31")
  case True
  obtain st where st: "copycheck u len = Inr st" "unat (min len st) = min (unat len) (2 ^ 31 - unat u)" "st < len \<longleftrightarrow> 2 ^ 31 < unat u + unat len"
    using copycheck_stop [of len u] assms(1-3) True by auto
  define k where "k = min (unat len) (2 ^ 31 - unat u)"
  define j where "j = (LEAST l. k \<le> l \<or> \<not> readable as (u + of_nat l) \<or> m (u + of_nat l) = 0)"
  have j: "k \<le> j \<or> \<not> readable as (u + of_nat j) \<or> m (u + of_nat j) = 0" unfolding j_def by (rule LeastI [of _ k]) simp
  have jk: "j \<le> k" unfolding j_def by (rule Least_le) simp
  have below: "readable as (u + of_nat l) \<and> m (u + of_nat l) \<noteq> 0 \<and> l < k" if "l < j" for l
    using not_less_Least [OF that [unfolded j_def]] jk that by auto
  have stop: "\<not> readable as (u + of_nat j)" if "j < k"
  proof (rule ccontr)
    assume r: "\<not> \<not> readable as (u + of_nat j)"
    then have "ustring as m u j" using j that below by (auto simp: ustring_def k_def le_less)
    then show False using assms(4) that by (auto simp: k_def)
  qed
  have "copystr_loop as dest u 0 k m = (if j < 0 + k then Inl EFAULT else Inr None, copy_bytes m dest u 0 (j - 0))"
  proof (rule copystr_stops [where n = k])
    show "apart dest u k" using assms(1,2) True by (intro apartI) (auto simp: k_def)
    show "loads as (u + of_nat l) \<and> stores as (dest + of_nat l)" if "l < j" for l
      using user_loads [of u l as] kernel_stores [OF assms(1,2), of l as] below [OF that] by (auto simp: k_def)
    show "\<not> (loads as (u + of_nat j) \<and> stores as (dest + of_nat j))" if "j < 0 + k"
      using stop user_loads [of u j as] that unfolding k_def by (simp add: less_diff_conv add.commute)
  qed (use jk below in auto)
  moreover have "long \<longleftrightarrow> \<not> j < k \<and> \<not> st < len"
  proof (cases "st < len")
    case False
    then have k: "k = unat len" "unat u + unat len \<le> 2 ^ 31" using st(3) by (auto simp: k_def)
    show ?thesis
    proof (cases "j < k")
      case True
      then show ?thesis using stop k by (auto simp: long_def)
    next
      case False
      then have "j = k" using jk by simp
      then show ?thesis using below k \<open>\<not> st < len\<close> by (simp add: long_def)
    qed
  qed (use st(3) in \<open>auto simp: long_def\<close>)
  ultimately show ?thesis using st(1,2) jk by (intro exI [of _ j]) (auto simp: copyinstr_def copystr_def k_def)
next
  case False
  then show ?thesis using copycheck_pos [OF assms(3), of u] assms(3) by (intro exI [of _ 0]) (auto simp: copyinstr_def long_def)
qed

lemma copy_bytes_frame: "(\<And>j. i \<le> j \<Longrightarrow> j < i + k \<Longrightarrow> a \<noteq> d + of_nat j) \<Longrightarrow> copy_bytes m d s i k a = m a"
  by (induction k arbitrary: i m) force+

lemma copied_in:
  assumes "2 ^ 31 \<le> unat k" and "fits k l" and "unat u + j \<le> 2 ^ 31" and "j \<le> l"
  shows "copied m (copy_bytes m k u 0 j) k u 0 j"
  using copy_bytes_up [of k 0 j u m] assms by simp

lemma copyin_total:
  assumes "paged as" and "2 ^ 31 \<le> unat k" and "fits k (unat len)"
  shows "if 0 < unat len \<and> unat u + unat len \<le> 2 ^ 31 \<and> (\<forall>j < unat len. readable as (u + of_nat j))
      then \<exists>m'. copyin as u k len m = (Inr (), m') \<and> copied m m' k u 0 (unat len)
      else \<exists>m'. copyin as u k len m = (Inl EFAULT, m') \<and> (\<forall>a. outside k (unat len) a \<longrightarrow> m' a = m a)"
proof (cases "0 < unat len \<and> unat u + unat len \<le> 2 ^ 31")
  case blk: True
  then have l: "loads as (u + of_nat j) \<and> stores as (k + of_nat j) \<longleftrightarrow> readable as (u + of_nat j)" if "j < unat len" for j
    using that user_loads [of u j as] kernel_stores [OF assms(2,3) that, of as] by auto
  have u: "fits u (unat len)" "unat k \<le> unat u \<or> unat u + unat len \<le> unat k" using blk assms(2) by auto
  show ?thesis
  proof (cases "\<forall>j < unat len. readable as (u + of_nat j)")
    case True
    then show ?thesis using copy_block_ok [OF assms(1,3) u, of u m] blk l by (auto simp: copyin_block)
  next
    case False
    then obtain m' j where "copy_block as u k u len m = (Inl EFAULT, m')" "j \<le> unat len" "copied m m' k u 0 j"
      using copy_block_fails [OF assms(1,3) u, of u m] l by blast
    then show ?thesis using False copied_outside [of m m' k u j "unat len"] assms(3) by (auto simp: copyin_block)
  qed
next
  case False
  then have "copycheck u len \<noteq> Inr len" by (simp add: copycheck_block)
  then show ?thesis using False copycheck_errno [of u len] by (cases "copycheck u len") (auto simp: copyin_block copy_block_def)
qed

lemma copied_change:
  assumes "copied m m' u k 0 j" and "m' a \<noteq> m a" and "j \<le> n" and "unat u + n \<le> 2 ^ 31" and "\<And>l. l < j \<Longrightarrow> stores as (u + of_nat l)"
  shows "a < USERSPACETOP \<and> writable as a \<and> \<not> outside u n a"
proof -
  obtain l where l: "l < j" "a = u + of_nat l" using assms(1,2) by (auto simp: copied_def)
  then have "unat a = unat u + l" using unat_ptr [of u l] assms(3,4) by simp
  then have n: "\<not> outside u n a" and "\<not> USERSPACETOP \<le> a" using l(1) assms(3,4) by (auto simp: outside_def le_USERSPACETOP)
  then show ?thesis using assms(5) [OF l(1)] l(2) by (simp add: stores_def)
qed

lemma copyout_total:
  assumes "paged as" and "2 ^ 31 \<le> unat k" and "fits k (unat len)"
  shows "if 0 < unat len \<and> unat u + unat len \<le> 2 ^ 31 \<and> (\<forall>j < unat len. writable as (u + of_nat j))
      then \<exists>m'. copyout as k u len m = (Inr (), m') \<and> copied m m' u k 0 (unat len)
      else \<exists>m'. copyout as k u len m = (Inl EFAULT, m') \<and>
        (\<forall>a. m' a \<noteq> m a \<longrightarrow> a < USERSPACETOP \<and> writable as a \<and> \<not> outside u (unat len) a)"
proof (cases "0 < unat len \<and> unat u + unat len \<le> 2 ^ 31")
  case blk: True
  have l: "loads as (k + of_nat j) \<and> stores as (u + of_nat j) \<longleftrightarrow> writable as (u + of_nat j)" if "j < unat len" for j
    using that unat_ptr [of u j] blk kernel_stores [OF assms(2,3) that, of as] by (auto simp: stores_def le_USERSPACETOP)
  have u: "fits u (unat len)" "unat u \<le> unat k \<or> unat k + unat len \<le> unat u" using blk assms(2) by auto
  show ?thesis
  proof (cases "\<forall>j < unat len. writable as (u + of_nat j)")
    case True
    then show ?thesis using copy_block_ok [OF assms(1) u(1) assms(3) u(2), of u m] blk l by (auto simp: copyout_block)
  next
    case False
    then obtain m' j where "copy_block as u u k len m = (Inl EFAULT, m')" "j \<le> unat len" "copied m m' u k 0 j" "\<forall>l<j. stores as (u + of_nat l)"
      using copy_block_fails [OF assms(1) u(1) assms(3) u(2), of u m] l by blast
    then show ?thesis using False blk copied_change [of m m' u k j _ "unat len" as] by (auto simp: copyout_block)
  qed
next
  case False
  then have "copycheck u len \<noteq> Inr len" by (simp add: copycheck_block)
  then show ?thesis using False copycheck_errno [of u len] by (cases "copycheck u len") (auto simp: copyout_block copy_block_def)
qed

section \<open>Properties\<close>

text \<open>
  C26. \<open>copyin\<close> and \<open>copyout\<close> between a kernel buffer and user memory: they succeed just when the
  block is not empty, ends below \<open>USERSPACETOP\<close> without wrapping around, and each of its bytes
  can be accessed; then the bytes are copied and nothing else changes. In every other case,
  an empty block included, they return \<open>EFAULT\<close>; then \<open>copyin\<close> has changed nothing outside the
  kernel buffer, and \<open>copyout\<close> only user bytes of the block that the process may write.
\<close>

theorem copyinout_checked:
  assumes "paged as" and "2 ^ 31 \<le> unat k" and "unat k + unat len \<le> 2 ^ 32"
  shows "(if 0 < unat len \<and> unat u + unat len \<le> 2 ^ 31 \<and> (\<forall>j < unat len. readable as (u + of_nat j))
      then \<exists>m'. copyin as u k len m = (Inr (), m') \<and> copied m m' k u 0 (unat len)
      else \<exists>m'. copyin as u k len m = (Inl EFAULT, m') \<and> (\<forall>a. outside k (unat len) a \<longrightarrow> m' a = m a)) \<and>
    (if 0 < unat len \<and> unat u + unat len \<le> 2 ^ 31 \<and> (\<forall>j < unat len. writable as (u + of_nat j))
      then \<exists>m'. copyout as k u len m = (Inr (), m') \<and> copied m m' u k 0 (unat len)
      else \<exists>m'. copyout as k u len m = (Inl EFAULT, m') \<and>
        (\<forall>a. m' a \<noteq> m a \<longrightarrow> a < USERSPACETOP \<and> writable as a \<and> \<not> outside u (unat len) a))"
  using copyin_total [OF assms(1-3), of u m] copyout_total [OF assms(1-3), of u m] by blast

theorem copyinout_checked_witness:
  "fst (copyin \<lparr>readable = (\<lambda>_. True), writable = (\<lambda>_. True)\<rparr> 0x1000 0x80001000 2 (\<lambda>_. 7)) = Inr () \<and>
   fst (copyout \<lparr>readable = (\<lambda>_. True), writable = (\<lambda>_. False)\<rparr> 0x80001000 0x1000 2 (\<lambda>_. 7)) = Inl EFAULT \<and>
   fst (copyin \<lparr>readable = (\<lambda>_. True), writable = (\<lambda>_. True)\<rparr> 0x1000 0x80001000 0 (\<lambda>_. 7)) = Inl EFAULT"
  using copyinout_checked [of "\<lparr>readable = (\<lambda>_. True), writable = (\<lambda>_. True)\<rparr>" "0x80001000" 2 "0x1000" "\<lambda>_. 7"]
    copyinout_checked [of "\<lparr>readable = (\<lambda>_. True), writable = (\<lambda>_. False)\<rparr>" "0x80001000" 2 "0x1000" "\<lambda>_. 7"]
    copyinout_checked [of "\<lparr>readable = (\<lambda>_. True), writable = (\<lambda>_. True)\<rparr>" "0x80001000" 0 "0x1000" "\<lambda>_. 7"]
  by (auto simp: paged_def dest: spec [of _ 0] split: if_splits)

text \<open>
  C27. \<open>copyinstr\<close> into a kernel buffer of \<open>len\<close> bytes: a user string that fits with its
  terminator and can be read to its end is copied, and the length returned counts the
  terminator; \<open>ENAMETOOLONG\<close> is returned just when \<open>len\<close> bytes can be read and none of them is
  a terminator; every other case is \<open>EFAULT\<close>. Nothing outside the buffer changes.
\<close>

theorem copyinstr_classifies:
  assumes "2 ^ 31 \<le> unat dest" and "unat dest + unat len \<le> 2 ^ 32" and "0 < unat len"
  shows "(\<forall>a. outside dest (unat len) a \<longrightarrow> snd (copyinstr as u dest len m) a = m a) \<and>
    (case fst (copyinstr as u dest len m) of
       Inr got \<Rightarrow> \<exists>n < unat len. ustring as m u n \<and> unat got = n + 1 \<and>
         (\<forall>j\<le>n. snd (copyinstr as u dest len m) (dest + of_nat j) = m (u + of_nat j))
     | Inl e \<Rightarrow> \<not> (\<exists>n < unat len. ustring as m u n) \<and>
         e = (if unat u + unat len \<le> 2 ^ 31 \<and> (\<forall>l < unat len. readable as (u + of_nat l) \<and> m (u + of_nat l) \<noteq> 0)
              then ENAMETOOLONG else EFAULT))"
proof (cases "\<exists>n < unat len. ustring as m u n")
  case True
  then obtain n where n: "n < unat len" "ustring as m u n" by blast
  have c: "copied m (copy_bytes m dest u 0 (Suc n)) dest u 0 (Suc n)" using copied_in [OF assms(1,2), of u "Suc n" m] n by (simp add: ustring_def del: copy_bytes.simps)
  have "unat (of_nat n + 1 :: u32) = n + 1" using n(1) unat_u32_lt [of len] unat_of_nat_u32 [of "n + 1"] by (simp del: unat_u32_lt add: add.commute)
  then show ?thesis
    using copyinstr_found [OF assms(1,2) n] n c copied_outside [OF c, of "unat len"] assms(2) by (auto simp: copied_def less_Suc_eq_le)
next
  case False
  obtain j where j: "j \<le> unat len" "copyinstr as u dest len m = (Inl (if unat u + unat len \<le> 2 ^ 31 \<and>
      (\<forall>l < unat len. readable as (u + of_nat l) \<and> m (u + of_nat l) \<noteq> 0) then ENAMETOOLONG else EFAULT), copy_bytes m dest u 0 j)"
    using copyinstr_fails [OF assms False] by blast
  have "copy_bytes m dest u 0 j a = m a" if "outside dest (unat len) a" for a
    using copy_bytes_frame [of 0 j a dest m u] outside_neq [OF that] j(1) assms(2) by force
  then show ?thesis using j(2) False by auto
qed

theorem copyinstr_classifies_witness:
  "fst (copyinstr \<lparr>readable = (\<lambda>_. True), writable = (\<lambda>_. True)\<rparr> 0x1000 0x80001000 2 (\<lambda>_. 7)) = Inl ENAMETOOLONG"
  using copyinstr_classifies [of "0x80001000" 2 "\<lparr>readable = (\<lambda>_. True), writable = (\<lambda>_. True)\<rparr>" "0x1000" "\<lambda>_. 7"]
  by (auto simp: ustring_def split: sum.splits)

end
