(* ===== verification/Uio.thy ===== *)
theory Uio
  imports Copyinout
begin

text \<open>
  \<open>kern/lib/uio.c\<close>: moving data between a kernel buffer and the blocks of a \<open>struct uio\<close>. The
  \<open>iovec\<close>s that are left, \<open>uio_iov\<close> and \<open>uio_iovcnt\<close> in the source, are a list; the two pointers of the
  union in \<open>struct iovec\<close> are one field. What the functions take from their surroundings
  is the current address space: its pointer, as \<open>proc_getas\<close> returns it, and its access rights.
\<close>

datatype uio_rw = UIO_READ | UIO_WRITE

datatype uio_seg = UIO_USERISPACE | UIO_USERSPACE | UIO_SYSSPACE

record iovec =
  iov_base :: ptr
  iov_len :: u32

record uio =
  uio_iov :: "iovec list"
  uio_offset :: u64
  uio_resid :: u32
  uio_segflg :: uio_seg
  uio_rw :: uio_rw
  uio_space :: ptr

record curspace =
  cur_as :: ptr
  cur_rights :: uspace

section \<open>Functions\<close>

text \<open>One block: the \<open>switch\<close> of \<open>uiomove\<close>.\<close>

definition uio_block :: "curspace \<Rightarrow> uio \<Rightarrow> ptr \<Rightarrow> ptr \<Rightarrow> u32 \<Rightarrow> mem \<Rightarrow> (errno + unit) \<times> mem" where
  "uio_block c u p base sz m = (case uio_segflg u of
       UIO_SYSSPACE \<Rightarrow> (Inr (), if uio_rw u = UIO_READ then memmove base p sz m else memmove p base sz m)
     | _ \<Rightarrow> if uio_rw u = UIO_READ then copyout (cur_rights c) p base sz m else copyin (cur_rights c) base p sz m)"

definition uio_advance :: "iovec \<Rightarrow> iovec list \<Rightarrow> u32 \<Rightarrow> uio \<Rightarrow> uio" where
  "uio_advance v vs sz u = u\<lparr>uio_iov := v\<lparr>iov_base := iov_base v + sz, iov_len := iov_len v - sz\<rparr> # vs,
     uio_resid := uio_resid u - sz, uio_offset := uio_offset u + ucast sz\<rparr>"

function uiomove_loop :: "curspace \<Rightarrow> ptr \<Rightarrow> u32 \<Rightarrow> uio \<Rightarrow> mem \<Rightarrow> ((errno + unit) \<times> uio \<times> mem) option" where
  "uiomove_loop c p n u m =
    (if n > 0 \<and> uio_resid u > 0 then
       (case uio_iov u of
          [] \<Rightarrow> None
        | v # vs \<Rightarrow>
            let sz = (if iov_len v > n then n else iov_len v) in
            if sz = 0 then if vs = [] then None else uiomove_loop c p n (u\<lparr>uio_iov := vs\<rparr>) m
            else (case uio_block c u p (iov_base v) sz m of
                (Inl e, m) \<Rightarrow> Some (Inl e, u, m)
              | (Inr _, m) \<Rightarrow> uiomove_loop c (p + sz) (n - sz) (uio_advance v vs sz u) m))
     else Some (Inr (), u, m))"
  by pat_completeness auto
termination
proof (relation "measure (\<lambda>(c, p, n, u, m). length (uio_iov u) + unat n)", goal_cases)
  case 1 then show ?case by simp
next
  case (2 c p n u m v vs sz) then show ?case by simp
next
  case (3 c p n u m v vs sz)
  then have "sz \<le> n" "0 < sz" by (auto simp: word_gt_0)
  then have "unat (n - sz) < unat n" by (simp add: unat_sub word_less_nat_alt word_le_nat_alt)
  then show ?case using 3(2) by (simp add: uio_advance_def)
qed

declare uiomove_loop.simps [simp del]

definition uiomove :: "curspace \<Rightarrow> ptr \<Rightarrow> u32 \<Rightarrow> uio \<Rightarrow> mem \<Rightarrow> ((errno + unit) \<times> uio \<times> mem) option" where
  "uiomove c p n u m = do {
     kassert (if uio_segflg u = UIO_SYSSPACE then uio_space u = 0 else uio_space u = cur_as c);
     uiomove_loop c p n u m }"

text \<open>\<open>z\<close> is the address of the static array \<open>zeros\<close>.\<close>

function uiomovezeros_loop :: "curspace \<Rightarrow> ptr \<Rightarrow> u32 \<Rightarrow> uio \<Rightarrow> mem \<Rightarrow> ((errno + unit) \<times> uio \<times> mem) option" where
  "uiomovezeros_loop c z n u m =
    (if n > 0 then
       let amt = (if 16 > n then n else 16) in
       do { (r, u, m) \<leftarrow> uiomove c z amt u m;
            case r of Inl e \<Rightarrow> Some (Inl e, u, m) | Inr _ \<Rightarrow> uiomovezeros_loop c z (n - amt) u m }
     else Some (Inr (), u, m))"
  by pat_completeness auto
termination
proof (relation "measure (\<lambda>(c, z, n, u, m). unat n)", goal_cases)
  case 1 then show ?case by simp
next
  case (2 c z n u m amt)
  then have "amt \<le> n" "0 < amt" by (auto simp: word_gt_0)
  then show ?case by (simp add: unat_sub word_less_nat_alt word_le_nat_alt)
qed

declare uiomovezeros_loop.simps [simp del]

definition uiomovezeros :: "curspace \<Rightarrow> ptr \<Rightarrow> u32 \<Rightarrow> uio \<Rightarrow> mem \<Rightarrow> ((errno + unit) \<times> uio \<times> mem) option" where
  "uiomovezeros c z n u m = do { kassert (uio_rw u = UIO_READ); uiomovezeros_loop c z n u m }"

definition uio_kinit :: "ptr \<Rightarrow> u32 \<Rightarrow> u64 \<Rightarrow> uio_rw \<Rightarrow> uio" where
  "uio_kinit kbuf len pos rw = \<lparr>uio_iov = [\<lparr>iov_base = kbuf, iov_len = len\<rparr>], uio_offset = pos, uio_resid = len,
     uio_segflg = UIO_SYSSPACE, uio_rw = rw, uio_space = 0\<rparr>"

definition uio_uinit :: "curspace \<Rightarrow> ptr \<Rightarrow> u32 \<Rightarrow> u64 \<Rightarrow> uio_rw \<Rightarrow> uio" where
  "uio_uinit c buf len pos rw = \<lparr>uio_iov = [\<lparr>iov_base = buf, iov_len = len\<rparr>], uio_offset = pos, uio_resid = len,
     uio_segflg = UIO_USERSPACE, uio_rw = rw, uio_space = cur_as c\<rparr>"

section \<open>Transfers\<close>

text \<open>\<open>transfer m ds ss\<close>: the memory after the bytes at \<open>ss\<close> have been written to \<open>ds\<close>.\<close>

definition transfer :: "mem \<Rightarrow> ptr list \<Rightarrow> ptr list \<Rightarrow> mem" where
  "transfer m ds ss a = (case map_of (zip ds ss) a of Some b \<Rightarrow> m b | None \<Rightarrow> m a)"

definition addrs :: "ptr \<Rightarrow> nat \<Rightarrow> ptr list" where
  "addrs p n = map (\<lambda>j. p + of_nat j) [0..<n]"

lemma transfer_Nil [simp]: "transfer m [] ss = m" "transfer m ds [] = m"
  by (auto simp: transfer_def)

lemma transfer_other: "a \<notin> set ds \<Longrightarrow> transfer m ds ss a = m a"
  by (auto simp: transfer_def dest!: map_of_SomeD set_zip_leftD split: option.split)

lemma transfer_nth:
  assumes "distinct ds" and "j < length ds" and "length ss = length ds"
  shows "transfer m ds ss (ds ! j) = m (ss ! j)"
  using map_of_zip_nth [OF assms(3) [symmetric] assms(1), of j] assms(2,3) by (simp add: transfer_def)

lemma transfer_append:
  assumes "length ds = length ss" and "set ds \<inter> set ss' = {}" and "set ds \<inter> set ds' = {}"
  shows "transfer (transfer m ds ss) ds' ss' = transfer m (ds @ ds') (ss @ ss')"
proof
  fix a
  show "transfer (transfer m ds ss) ds' ss' a = transfer m (ds @ ds') (ss @ ss') a"
  proof (cases "map_of (zip ds' ss') a")
    case None
    then show ?thesis
      using assms(1) by (auto simp: transfer_def map_add_def dest: map_of_SomeD set_zip_leftD split: option.split)
  next
    case (Some b)
    then have "b \<in> set ss'" "a \<in> set ds'" by (auto dest!: map_of_SomeD dest: set_zip_leftD set_zip_rightD)
    then have "b \<notin> set ds" "a \<notin> set ds" using assms(2,3) by auto
    then have "map_of (zip (ds @ ds') (ss @ ss')) a = Some b"
      using Some assms(1) by (auto simp: map_add_def dest: map_of_SomeD set_zip_leftD split: option.split)
    then show ?thesis using Some transfer_other [OF \<open>b \<notin> set ds\<close>] by (simp add: transfer_def)
  qed
qed

lemma length_addrs [simp]: "length (addrs p n) = n"
  by (simp add: addrs_def)

lemma nth_addrs [simp]: "j < n \<Longrightarrow> addrs p n ! j = p + of_nat j"
  by (simp add: addrs_def)

lemma take_addrs: "take k (addrs p n) = addrs p (min k n)"
  by (simp add: addrs_def take_map min_def)

lemma addrs_split: "addrs p (k + l) = addrs p k @ addrs (p + of_nat k) l"
  by (rule nth_equalityI) (auto simp: nth_append add.assoc simp flip: of_nat_add)

lemma set_addrs: "a \<in> set (addrs p n) \<longleftrightarrow> (\<exists>j<n. a = p + of_nat j)"
  by (auto simp: addrs_def)

lemma ball_addrs: "(\<forall>a \<in> set (addrs p n). P a) \<longleftrightarrow> (\<forall>j<n. P (p + of_nat j))"
  by (auto simp: addrs_def)

lemma distinct_addrs: "fits p n \<Longrightarrow> distinct (addrs p n)"
  unfolding distinct_conv_nth using ptr_neq [of p _ p] by auto

lemma copied_transfer:
  assumes "copied m m' d s 0 n" and "fits d n"
  shows "m' = transfer m (addrs d n) (addrs s n)"
proof
  fix a
  show "m' a = transfer m (addrs d n) (addrs s n) a"
  proof (cases "\<exists>j<n. a = d + of_nat j")
    case True
    then obtain j where "j < n" "a = d + of_nat j" by blast
    then show ?thesis
      using assms(1) transfer_nth [OF distinct_addrs [OF assms(2)], of j "addrs s n" m] by (simp add: copied_def)
  next
    case False
    then show ?thesis using assms(1) transfer_other [of a "addrs d n"] by (auto simp: copied_def set_addrs)
  qed
qed

section \<open>The bytes of a uio\<close>

definition cells :: "iovec list \<Rightarrow> ptr list" where
  "cells vs = concat (map (\<lambda>v. addrs (iov_base v) (unat (iov_len v))) vs)"

lemma cells_simps [simp]: "cells [] = []" "cells (v # vs) = addrs (iov_base v) (unat (iov_len v)) @ cells vs"
  by (simp_all add: cells_def)

text \<open>
  A \<open>uio\<close> as \<open>uio.h\<close> asks for: \<open>uio_resid\<close> is the total length of the blocks. No block wraps around, and
  no two share a byte.
\<close>

definition uio_ok :: "uio \<Rightarrow> bool" where
  "uio_ok u \<longleftrightarrow> unat (uio_resid u) = length (cells (uio_iov u)) \<and> distinct (cells (uio_iov u)) \<and>
     (\<forall>v \<in> set (uio_iov u). fits (iov_base v) (unat (iov_len v)))"

text \<open>The \<open>uio\<close> after \<open>j\<close> bytes.\<close>

definition advanced :: "uio \<Rightarrow> nat \<Rightarrow> uio \<Rightarrow> bool" where
  "advanced u j u' \<longleftrightarrow> uio_ok u' \<and> cells (uio_iov u') = drop j (cells (uio_iov u)) \<and> j \<le> length (cells (uio_iov u)) \<and>
     uio_offset u' = uio_offset u + of_nat j \<and> uio_segflg u' = uio_segflg u \<and> uio_rw u' = uio_rw u \<and> uio_space u' = uio_space u"

lemma advanced_refl: "uio_ok u \<Longrightarrow> advanced u 0 u"
  by (simp add: advanced_def)

lemma advanced_trans: "advanced u i u' \<Longrightarrow> advanced u' j u'' \<Longrightarrow> advanced u (i + j) u''"
  by (auto simp: advanced_def add.commute)

lemma advanced_resid: "advanced u j u' \<Longrightarrow> unat (uio_resid u') = length (cells (uio_iov u)) - j"
  by (auto simp: advanced_def uio_ok_def)

lemma advance_step:
  assumes "uio_ok u" and "uio_iov u = v # vs" and "sz \<le> iov_len v"
  shows "advanced u (unat sz) (uio_advance v vs sz u)"
proof -
  have le: "unat sz \<le> unat (iov_len v)" using assms(3) by (simp add: word_le_nat_alt)
  have len: "unat (iov_len v - sz) = unat (iov_len v) - unat sz" using assms(3) by (simp add: unat_sub)
  have fit: "fits (iov_base v) (unat (iov_len v))" using assms(1,2) by (simp add: uio_ok_def)
  have c: "drop (unat sz) (cells (uio_iov u)) = cells (uio_iov (uio_advance v vs sz u))"
    using addrs_split [of "iov_base v" "unat sz" "unat (iov_len v) - unat sz"] le assms(2) by (simp add: uio_advance_def len)
  have r: "unat (uio_resid u - sz) = unat (uio_resid u) - unat sz"
    using assms(1,2) le by (intro unat_sub) (simp add: uio_ok_def word_le_nat_alt)
  have "unat (iov_base v + sz) + (unat (iov_len v) - unat sz) \<le> 2 ^ 32"
  proof (cases "unat (iov_base v) + unat sz < 2 ^ 32")
    case False
    then have "unat (iov_len v) - unat sz = 0" using fit by linarith
    then show ?thesis using unat_u32_lt [of "iov_base v + sz"] by (simp del: unat_u32_lt)
  next
    case True
    then show ?thesis using unat_plus_u32 [of "iov_base v" sz] fit le by linarith
  qed
  moreover have "unat (uio_resid u - sz) = length (cells (uio_iov (uio_advance v vs sz u)))"
    unfolding c [symmetric] r using assms(1) by (simp add: uio_ok_def)
  moreover have "distinct (cells (uio_iov (uio_advance v vs sz u)))"
    unfolding c [symmetric] using assms(1) by (simp add: uio_ok_def)
  ultimately have "uio_ok (uio_advance v vs sz u)"
    using assms(1,2) len unfolding uio_ok_def by (simp add: uio_advance_def)
  then show ?thesis
    using c assms(2) le by (simp add: advanced_def) (simp add: uio_advance_def)
qed

section \<open>One block\<close>

definition xfer :: "uio_rw \<Rightarrow> mem \<Rightarrow> ptr list \<Rightarrow> ptr list \<Rightarrow> mem" where
  "xfer rw m us ks = (case rw of UIO_READ \<Rightarrow> transfer m us ks | UIO_WRITE \<Rightarrow> transfer m ks us)"

text \<open>A byte of the \<open>uio\<close> that the current process may access in the direction of the transfer.\<close>

definition cell_ok :: "curspace \<Rightarrow> uio \<Rightarrow> ptr \<Rightarrow> bool" where
  "cell_ok c u a \<longleftrightarrow> uio_segflg u = UIO_SYSSPACE \<or>
     a < USERSPACETOP \<and> (case uio_rw u of UIO_READ \<Rightarrow> writable (cur_rights c) a | UIO_WRITE \<Rightarrow> readable (cur_rights c) a)"

lemma less_USERSPACETOP: "a < USERSPACETOP \<longleftrightarrow> unat a < 2 ^ 31"
  by (simp add: USERSPACETOP_def word_less_nat_alt)

lemma block_inside:
  assumes "fits base (unat sz)" and "0 < unat sz"
  shows "(\<forall>a \<in> set (addrs base (unat sz)). a < USERSPACETOP) \<longleftrightarrow> unat base + unat sz \<le> 2 ^ 31"
proof
  assume "\<forall>a \<in> set (addrs base (unat sz)). a < USERSPACETOP"
  then have cells: "base + of_nat j < USERSPACETOP" if "j < unat sz" for j unfolding ball_addrs using that by blast
  define l where "l = unat sz - 1"
  have l: "l < unat sz" "unat sz = l + 1" using assms(2) by (simp_all add: l_def)
  have "unat (base + of_nat l) < 2 ^ 31" using cells [OF l(1)] by (simp add: less_USERSPACETOP)
  then show "unat base + unat sz \<le> 2 ^ 31" using unat_ptr [of base l] assms(1) l(2) by simp
next
  assume le: "unat base + unat sz \<le> 2 ^ 31"
  show "\<forall>a \<in> set (addrs base (unat sz)). a < USERSPACETOP"
  proof
    fix a assume "a \<in> set (addrs base (unat sz))"
    then obtain j where "j < unat sz" "a = base + of_nat j" by (auto simp: set_addrs)
    then show "a < USERSPACETOP" using unat_ptr [of base j] le by (simp add: less_USERSPACETOP)
  qed
qed

text \<open>What a copy of a block between user and kernel memory comes to.\<close>

lemma copy_block_xfer:
  assumes "paged as" and "fits d (unat sz)" and "fits s (unat sz)" and "0 < unat sz"
    and "unat u + unat sz \<le> 2 ^ 31 \<Longrightarrow> unat d \<le> unat s \<or> unat s + unat sz \<le> unat d"
    and "unat u + unat sz \<le> 2 ^ 31 \<Longrightarrow> ok \<longleftrightarrow> (\<forall>j < unat sz. loads as (s + of_nat j) \<and> stores as (d + of_nat j))"
    and "ok \<Longrightarrow> unat u + unat sz \<le> 2 ^ 31"
  shows "\<exists>t \<le> unat sz. copy_block as u d s sz m = (if ok then Inr () else Inl EFAULT, transfer m (addrs d t) (addrs s t)) \<and> (ok \<longrightarrow> t = unat sz)"
proof (cases "unat u + unat sz \<le> 2 ^ 31")
  case True
  note ord = assms(5) [OF True]
  show ?thesis
  proof (cases ok)
    case ok: True
    then obtain m' where "copy_block as u d s sz m = (Inr (), m')" "copied m m' d s 0 (unat sz)"
      using copy_block_ok [OF assms(1-3) ord assms(4) True, of m] assms(6) [OF True] by blast
    then show ?thesis using copied_transfer [OF _ assms(2)] ok by auto
  next
    case False
    then obtain m' j where "copy_block as u d s sz m = (Inl EFAULT, m')" "j \<le> unat sz" "copied m m' d s 0 j"
      using copy_block_fails [OF assms(1-3) ord, of u m] assms(6) [OF True] by blast
    then show ?thesis using copied_transfer [of m m' d s j] assms(2) False by auto
  qed
next
  case False
  then have "copycheck u sz \<noteq> Inr sz" by (simp add: copycheck_block)
  then have "copy_block as u d s sz m = (Inl EFAULT, m)"
    using copycheck_errno [of u sz] by (cases "copycheck u sz") (auto simp: copy_block_def)
  then show ?thesis using False assms(7) by (intro exI [of _ 0]) (auto simp: addrs_def)
qed

lemma uio_block_xfer:
  assumes "paged (cur_rights c)" and "fits base (unat sz)" and "0 < unat sz" and "fits p (unat sz)"
    and "uio_segflg u \<noteq> UIO_SYSSPACE \<longrightarrow> 2 ^ 31 \<le> unat p"
  defines "ok \<equiv> \<forall>a \<in> set (addrs base (unat sz)). cell_ok c u a"
  shows "\<exists>t \<le> unat sz. uio_block c u p base sz m =
    (if ok then Inr () else Inl EFAULT, xfer (uio_rw u) m (addrs base t) (addrs p t)) \<and> (ok \<longrightarrow> t = unat sz)"
proof (cases "uio_segflg u = UIO_SYSSPACE")
  case True
  then show ?thesis
    using copied_transfer [OF memmove_copied [OF assms(2,4), of m] assms(2)] copied_transfer [OF memmove_copied [OF assms(4,2), of m] assms(4)]
    by (intro exI [of _ "unat sz"]) (simp add: uio_block_def ok_def cell_ok_def xfer_def split: uio_rw.split)
next
  case False
  let ?as = "cur_rights c"
  have k: "loads ?as (p + of_nat j) \<and> stores ?as (p + of_nat j)" if "j < unat sz" for j
    using kernel_stores [of p "unat sz" j ?as] assms(4,5) False that by simp
  have u: "base + of_nat j < USERSPACETOP \<and> \<not> USERSPACETOP \<le> base + of_nat j" if "unat base + unat sz \<le> 2 ^ 31" "j < unat sz" for j
    using that unat_ptr [of base j] by (simp add: less_USERSPACETOP le_USERSPACETOP)
  have inside: "ok \<Longrightarrow> unat base + unat sz \<le> 2 ^ 31"
    using block_inside [OF assms(2,3)] False by (auto simp: ok_def cell_ok_def)
  show ?thesis
  proof (cases "uio_rw u")
    case UIO_READ
    have "ok \<longleftrightarrow> (\<forall>j < unat sz. loads ?as (p + of_nat j) \<and> stores ?as (base + of_nat j))" if "unat base + unat sz \<le> 2 ^ 31"
      using False UIO_READ u [OF that] k unfolding ok_def ball_addrs by (simp add: cell_ok_def stores_def)
    from copy_block_xfer [OF assms(1,2,4,3) _ this inside, of m] show ?thesis
      using False UIO_READ assms(5) by (cases "uio_segflg u") (auto simp: uio_block_def copyout_block xfer_def)
  next
    case UIO_WRITE
    have "ok \<longleftrightarrow> (\<forall>j < unat sz. loads ?as (base + of_nat j) \<and> stores ?as (p + of_nat j))" if "unat base + unat sz \<le> 2 ^ 31"
      using False UIO_WRITE u [OF that] k unfolding ok_def ball_addrs by (simp add: cell_ok_def loads_def)
    from copy_block_xfer [OF assms(1,4,2,3) _ this inside, of m] show ?thesis
      using False UIO_WRITE assms(5) by (cases "uio_segflg u") (auto simp: uio_block_def copyin_block xfer_def)
  qed
qed

section \<open>The loop\<close>

text \<open>A kernel buffer that shares no byte with the \<open>uio\<close>.\<close>

definition kbuf :: "uio \<Rightarrow> ptr \<Rightarrow> nat \<Rightarrow> bool" where
  "kbuf u p n \<longleftrightarrow> n = 0 \<or> fits p n \<and> (uio_segflg u \<noteq> UIO_SYSSPACE \<longrightarrow> 2 ^ 31 \<le> unat p) \<and>
     set (cells (uio_iov u)) \<inter> set (addrs p n) = {}"

definition allowed :: "curspace \<Rightarrow> uio \<Rightarrow> nat \<Rightarrow> bool" where
  "allowed c u k \<longleftrightarrow> (\<forall>a \<in> set (take k (cells (uio_iov u))). cell_ok c u a)"

definition moves :: "curspace \<Rightarrow> ptr \<Rightarrow> nat \<Rightarrow> uio \<Rightarrow> mem \<Rightarrow> ((errno + unit) \<times> uio \<times> mem) option \<Rightarrow> bool" where
  "moves c p n u m r \<longleftrightarrow> (let k = min n (length (cells (uio_iov u))) in \<exists>j t u'.
     r = Some (if allowed c u k then Inr () else Inl EFAULT, u', xfer (uio_rw u) m (take t (cells (uio_iov u))) (addrs p t)) \<and>
     advanced u j u' \<and> allowed c u j \<and> j \<le> t \<and> t \<le> k \<and> (allowed c u k \<longrightarrow> j = k))"

lemma xfer_append:
  assumes "length us = length ks" and "set (us @ us') \<inter> set (ks @ ks') = {}" and "distinct (us @ us')" and "distinct (ks @ ks')"
  shows "xfer rw (xfer rw m us ks) us' ks' = xfer rw m (us @ us') (ks @ ks')"
proof (cases rw)
  case UIO_READ
  then show ?thesis using transfer_append [of us ks ks' us' m] assms by (auto simp: xfer_def)
next
  case UIO_WRITE
  then show ?thesis using transfer_append [of ks us us' ks' m] assms by (auto simp: xfer_def)
qed

lemma kbuf_advance:
  assumes "kbuf u p n" and "advanced u j u'" and "j \<le> n"
  shows "kbuf u' (p + of_nat j) (n - j)"
proof (cases "n - j = 0")
  case False
  then have f: "fits p n" "uio_segflg u \<noteq> UIO_SYSSPACE \<longrightarrow> 2 ^ 31 \<le> unat p" "set (cells (uio_iov u)) \<inter> set (addrs p n) = {}"
    using assms(1) by (auto simp: kbuf_def)
  have "unat (p + of_nat j) = unat p + j" using unat_ptr [of p j] f(1) False by simp
  moreover have "set (addrs (p + of_nat j) (n - j)) \<subseteq> set (addrs p n)" using addrs_split [of p j "n - j"] assms(3) by auto
  moreover have "set (cells (uio_iov u')) \<subseteq> set (cells (uio_iov u))" using assms(2) by (auto simp: advanced_def dest: in_set_dropD)
  ultimately show ?thesis using f assms(2) by (auto simp: kbuf_def advanced_def)
qed (simp add: kbuf_def)

lemma moves_none:
  assumes "uio_ok u" and "n = 0 \<or> uio_resid u = 0"
  shows "moves c p n u m (Some (Inr (), u, m))"
  using advanced_refl [OF assms(1)] assms unfolding moves_def Let_def
  by (intro exI [of _ 0] exI [of _ u]) (auto simp: allowed_def xfer_def uio_ok_def split: uio_rw.split)

lemma moves_step:
  assumes "uio_ok u" and "uio_iov u = v # vs" and "kbuf u p n" and "unat sz = min (unat (iov_len v)) n"
    and "\<forall>a \<in> set (addrs (iov_base v) (unat sz)). cell_ok c u a"
    and "moves c (p + sz) (n - unat sz) (uio_advance v vs sz u) (xfer (uio_rw u) m (addrs (iov_base v) (unat sz)) (addrs p (unat sz))) r"
  shows "moves c p n u m r"
proof -
  let ?u = "uio_advance v vs sz u" and ?s = "unat sz" and ?C = "cells (uio_iov u)"
  let ?k = "min n (length ?C)"
  have le: "sz \<le> iov_len v" "?s \<le> n" using assms(4) by (auto simp: word_le_nat_alt)
  note adv = advance_step [OF assms(1,2) le(1)]
  have C: "cells (uio_iov ?u) = drop ?s ?C" "?s \<le> length ?C" using adv by (auto simp: advanced_def)
  have k1: "min (n - ?s) (length (cells (uio_iov ?u))) = ?k - ?s" "?s \<le> ?k" using C le by auto
  have T: "take ?s ?C = addrs (iov_base v) ?s"
    using assms(2) addrs_split [of "iov_base v" ?s "unat (iov_len v) - ?s"] le(1) by (simp add: word_le_nat_alt)
  have tk: "take (?s + l) ?C = addrs (iov_base v) ?s @ take l (cells (uio_iov ?u))" for l unfolding C T [symmetric] by (rule take_add)
  have ok: "allowed c ?u (?k - ?s) = allowed c u ?k"
    using tk [of "?k - ?s"] k1(2) assms(5) by (auto simp: allowed_def cell_ok_def uio_advance_def)
  obtain j t u' where r: "r = Some (if allowed c u ?k then Inr () else Inl EFAULT, u',
      xfer (uio_rw u) (xfer (uio_rw u) m (addrs (iov_base v) ?s) (addrs p ?s)) (take t (cells (uio_iov ?u))) (addrs (p + sz) t))"
    "advanced ?u j u'" "j \<le> t" "t \<le> ?k - ?s" "allowed c u ?k \<longrightarrow> j = ?k - ?s" "allowed c ?u j"
    using assms(6) unfolding moves_def Let_def k1(1) ok by (auto simp: uio_advance_def)
  have sp: "addrs p (?s + t) = addrs p ?s @ addrs (p + sz) t" using addrs_split [of p ?s t] by simp
  have "xfer (uio_rw u) (xfer (uio_rw u) m (addrs (iov_base v) ?s) (addrs p ?s)) (take t (cells (uio_iov ?u))) (addrs (p + sz) t) =
      xfer (uio_rw u) m (take (?s + t) ?C) (addrs p (?s + t))"
    unfolding sp tk
  proof (rule xfer_append; (unfold sp [symmetric] tk [symmetric])?)
    show "distinct (take (?s + t) ?C)" using assms(1) by (simp add: uio_ok_def)
    have t: "?s + t \<le> n" using r(4) k1(2) by linarith
    show "set (take (?s + t) ?C) \<inter> set (addrs p (?s + t)) = {}"
    proof (cases "n = 0")
      case False
      then show ?thesis using assms(3) addrs_split [of p "?s + t" "n - (?s + t)"] t by (auto simp: kbuf_def dest: in_set_takeD)
    qed (use t in \<open>auto simp: addrs_def\<close>)
    show "distinct (addrs p (?s + t))" using assms(3) t distinct_addrs [of p "?s + t"] by (cases "n = 0") (auto simp: kbuf_def addrs_def)
  qed simp
  moreover have "advanced u (?s + j) u'" using advanced_trans [OF adv r(2)] .
  moreover have "allowed c u (?s + j)" using tk [of j] r(6) assms(5) by (auto simp: allowed_def cell_ok_def uio_advance_def)
  ultimately show ?thesis unfolding moves_def Let_def using r k1(2)
    by (intro exI [of _ "?s + j"] exI [of _ "?s + t"] exI [of _ u']) auto
qed

lemma moves_fault:
  assumes "uio_ok u" and "uio_iov u = v # vs" and "unat sz = min (unat (iov_len v)) n" and "t \<le> unat sz"
    and "\<not> (\<forall>a \<in> set (addrs (iov_base v) (unat sz)). cell_ok c u a)"
  shows "moves c p n u m (Some (Inl EFAULT, u, xfer (uio_rw u) m (addrs (iov_base v) t) (addrs p t)))"
proof -
  let ?C = "cells (uio_iov u)"
  have T: "take l ?C = addrs (iov_base v) l" if "l \<le> unat (iov_len v)" for l
    using assms(2) addrs_split [of "iov_base v" l "unat (iov_len v) - l"] that by simp
  have "set (take (unat sz) ?C) \<subseteq> set (take (min n (length ?C)) ?C)"
    using assms(2,3) by (intro set_take_subset_set_take) auto
  then have "\<not> allowed c u (min n (length ?C))" using T [of "unat sz"] assms(3,5) by (auto simp: allowed_def)
  then show ?thesis
    unfolding moves_def Let_def using T [of t] assms(2-4) advanced_refl [OF assms(1)]
    by (intro exI [of _ 0] exI [of _ t] exI [of _ u]) (auto simp: allowed_def)
qed

lemma moves_empty:
  assumes "uio_ok u" and "uio_iov u = v # vs" and "iov_len v = 0" and "moves c p n (u\<lparr>uio_iov := vs\<rparr>) m r"
  shows "moves c p n u m r"
proof -
  have C: "cells (uio_iov u) = cells vs" using assms(2,3) by (simp add: addrs_def)
  have "allowed c (u\<lparr>uio_iov := vs\<rparr>) k = allowed c u k" for k by (simp add: allowed_def C cell_ok_def)
  moreover have "advanced (u\<lparr>uio_iov := vs\<rparr>) j u' = advanced u j u'" for j u' by (simp add: advanced_def C)
  ultimately show ?thesis using assms(4) unfolding moves_def by (simp add: C)
qed

lemma uiomove_loop_moves:
  "paged (cur_rights c) \<Longrightarrow> uio_ok u \<Longrightarrow> kbuf u p (unat n) \<Longrightarrow> moves c p (unat n) u m (uiomove_loop c p n u m)"
proof (induction c p n u m rule: uiomove_loop.induct)
  case (1 c p n u m)
  note ok = 1(4) and step = uiomove_loop.simps [of c p n u m]
  show ?case
  proof (cases "n > 0 \<and> uio_resid u > 0")
    case False
    then show ?thesis using moves_none [OF ok] step by (auto simp: word_gt_0 unat_eq_0)
  next
    case True
    then have "unat (uio_resid u) \<noteq> 0" "unat n \<noteq> 0" by (auto simp: word_gt_0 unat_eq_0)
    then have ne: "cells (uio_iov u) \<noteq> []" using ok by (auto simp: uio_ok_def)
    then obtain v vs where v: "uio_iov u = v # vs" by (cases "uio_iov u") auto
    define sz where "sz = (if iov_len v > n then n else iov_len v)"
    have sz: "unat sz = min (unat (iov_len v)) (unat n)" by (auto simp: sz_def word_less_nat_alt)
    show ?thesis
    proof (cases "sz = 0")
      case e: True
      then have z: "iov_len v = 0" using True by (auto simp: sz_def split: if_splits)
      then have "vs \<noteq> []" using ne v by (auto simp: addrs_def)
      moreover have "uio_ok (u\<lparr>uio_iov := vs\<rparr>)" "kbuf (u\<lparr>uio_iov := vs\<rparr>) p (unat n)"
        using ok 1(5) v z by (auto simp: uio_ok_def kbuf_def addrs_def)
      ultimately have "moves c p (unat n) (u\<lparr>uio_iov := vs\<rparr>) m (uiomove_loop c p n (u\<lparr>uio_iov := vs\<rparr>) m)"
        using 1(1) [OF True v sz_def e] 1(3) by blast
      then show ?thesis using moves_empty [OF ok v z] step True v e \<open>vs \<noteq> []\<close> by (simp flip: sz_def)
    next
      case pos: False
      have kb: "fits p (unat n)" "uio_segflg u \<noteq> UIO_SYSSPACE \<longrightarrow> 2 ^ 31 \<le> unat p" using 1(5) \<open>unat n \<noteq> 0\<close> by (auto simp: kbuf_def)
      have "fits (iov_base v) (unat (iov_len v))" "0 < unat sz" using ok v pos by (auto simp: uio_ok_def unat_gt_0)
      then have "fits (iov_base v) (unat sz)" "0 < unat sz" "fits p (unat sz)" "sz \<le> n" "sz \<le> iov_len v"
        using sz kb(1) by (auto simp: word_le_nat_alt)
      note le = this
      let ?ok = "\<forall>a \<in> set (addrs (iov_base v) (unat sz)). cell_ok c u a"
      obtain t where t: "t \<le> unat sz" "uio_block c u p (iov_base v) sz m =
          (if ?ok then Inr () else Inl EFAULT, xfer (uio_rw u) m (addrs (iov_base v) t) (addrs p t))" "?ok \<longrightarrow> t = unat sz"
        using uio_block_xfer [OF 1(3) le(1-3) kb(2), of m] by blast
      show ?thesis
      proof (cases ?ok)
        case ok': True
        note adv = advance_step [OF ok v le(5)]
        have n: "unat (n - sz) = unat n - unat sz" using le(4) by (simp add: unat_sub)
        have "kbuf (uio_advance v vs sz u) (p + sz) (unat (n - sz))" using kbuf_advance [OF 1(5) adv] le(4) by (simp add: n word_le_nat_alt)
        moreover have "uio_ok (uio_advance v vs sz u)" using adv by (simp add: advanced_def)
        ultimately have "moves c (p + sz) (unat n - unat sz) (uio_advance v vs sz u) (xfer (uio_rw u) m (addrs (iov_base v) t) (addrs p t))
            (uiomove_loop c (p + sz) (n - sz) (uio_advance v vs sz u) (xfer (uio_rw u) m (addrs (iov_base v) t) (addrs p t)))"
          using 1(2) [OF True v sz_def pos t(2) [unfolded if_P [OF ok'], symmetric] refl] 1(3) unfolding n by blast
        then show ?thesis using moves_step [OF ok v 1(5) sz ok'] t(2,3) ok' step True v pos by (simp flip: sz_def)
      next
        case False
        then show ?thesis using moves_fault [OF ok v sz t(1) False, of p m] t(2) [unfolded if_not_P [OF False]] step True v pos by (simp flip: sz_def)
      qed
    qed
  qed
qed

lemma uiomove_moves:
  assumes "paged (cur_rights c)" and "uio_ok u" and "kbuf u p (unat n)"
    and "uio_space u = (if uio_segflg u = UIO_SYSSPACE then 0 else cur_as c)"
  shows "moves c p (unat n) u m (uiomove c p n u m)"
  using uiomove_loop_moves [OF assms(1-3), of m] assms(4) by (simp add: uiomove_def)

lemma moves_allowed:
  assumes "moves c p n u m r" and "k = min n (length (cells (uio_iov u)))" and "allowed c u k"
  obtains u' where "r = Some (Inr (), u', xfer (uio_rw u) m (take k (cells (uio_iov u))) (addrs p k))" and "advanced u k u'"
proof -
  obtain j t u' where r: "r = Some (Inr (), u', xfer (uio_rw u) m (take t (cells (uio_iov u))) (addrs p t))"
      "advanced u j u'" "j \<le> t" "t \<le> k" "j = k"
    using assms unfolding moves_def Let_def by auto
  then have "t = k" by simp
  then show thesis using r that by blast
qed

section \<open>Zeros\<close>

definition zeroed :: "mem \<Rightarrow> ptr list \<Rightarrow> mem" where
  "zeroed m as a = (if a \<in> set as then 0 else m a)"

lemma transfer_zeros:
  assumes "\<And>b. b \<in> set ss \<Longrightarrow> m b = 0" and "length ss = length ds"
  shows "transfer m ds ss = zeroed m ds"
proof
  fix a
  show "transfer m ds ss a = zeroed m ds a"
  proof (cases "map_of (zip ds ss) a")
    case None
    then show ?thesis using assms(2) by (simp add: zeroed_def transfer_other)
  next
    case (Some b)
    then have "b \<in> set ss" "a \<in> set ds" by (auto dest!: map_of_SomeD dest: set_zip_leftD set_zip_rightD)
    then show ?thesis using Some assms(1) by (simp add: transfer_def zeroed_def)
  qed
qed

lemma kbuf_less: "kbuf u p n \<Longrightarrow> k \<le> n \<Longrightarrow> kbuf u p k"
  using addrs_split [of p k "n - k"] by (auto simp: kbuf_def)

lemma allowed_advance:
  assumes "advanced u j u'" and "allowed c u k" and "j \<le> k"
  shows "allowed c u' (k - j)"
proof -
  have "take (k - j) (drop j xs) = drop j (take k xs)" for xs :: "ptr list" using assms(3) by (simp add: drop_take)
  then show ?thesis using assms(1,2) by (auto simp: allowed_def advanced_def cell_ok_def dest: in_set_dropD)
qed

lemma allowed_less: "allowed c u k \<Longrightarrow> j \<le> k \<Longrightarrow> allowed c u j"
  using set_take_subset_set_take [of j k "cells (uio_iov u)"] by (auto simp: allowed_def)

lemma min_split: "a \<le> n \<Longrightarrow> min a l + min (n - a) (l - min a l) = min n (l :: nat)"
  by (auto simp: min_def)

lemma uiomovezeros_loop_fills:
  assumes "paged (cur_rights c)" and "uio_rw u = UIO_READ" and "uio_ok u" and "kbuf u z 16"
    and "uio_space u = (if uio_segflg u = UIO_SYSSPACE then 0 else cur_as c)"
    and "\<And>b. b \<in> set (addrs z 16) \<Longrightarrow> m b = 0" and "allowed c u (unat n)"
  shows "\<exists>u'. uiomovezeros_loop c z n u m = Some (Inr (), u', zeroed m (take (unat n) (cells (uio_iov u)))) \<and>
    advanced u (min (unat n) (length (cells (uio_iov u)))) u'"
  using assms
proof (induction c z n u m rule: uiomovezeros_loop.induct)
  case (1 c z n u m)
  note step = uiomovezeros_loop.simps [of c z n u m]
  show ?case
  proof (cases "n > 0")
    case False
    then show ?thesis using step advanced_refl [OF 1(4)] by (auto simp: word_gt_0 zeroed_def)
  next
    case True
    define amt where "amt = (if 16 > n then n else 16)"
    have a: "unat amt = min 16 (unat n)" by (auto simp: amt_def word_less_nat_alt)
    then have le: "unat (n - amt) = unat n - unat amt" by (intro unat_sub) (simp add: word_le_nat_alt)
    let ?C = "cells (uio_iov u)" let ?k = "min (unat amt) (length ?C)"
    have al: "allowed c u ?k" using allowed_less [OF 1(8), of ?k] a by simp
    obtain u1 where u1: "uiomove c z amt u m = Some (Inr (), u1, transfer m (take ?k ?C) (addrs z ?k))" "advanced u ?k u1"
      using moves_allowed [OF uiomove_moves [OF 1(2,4) kbuf_less [OF 1(5)] 1(6), of amt m] refl al] a 1(3) by (auto simp: xfer_def)
    have m1: "transfer m (take ?k ?C) (addrs z ?k) = zeroed m (take ?k ?C)"
      using 1(7) addrs_split [of z ?k "16 - ?k"] a by (intro transfer_zeros) auto
    have "\<exists>u'. uiomovezeros_loop c z (n - amt) u1 (zeroed m (take ?k ?C)) =
        Some (Inr (), u', zeroed (zeroed m (take ?k ?C)) (take (unat (n - amt)) (cells (uio_iov u1)))) \<and>
        advanced u1 (min (unat (n - amt)) (length (cells (uio_iov u1)))) u'"
    proof (rule 1(1) [OF True amt_def u1(1) [unfolded m1] refl refl refl 1(2)])
      show "uio_rw u1 = UIO_READ" "uio_ok u1" "uio_space u1 = (if uio_segflg u1 = UIO_SYSSPACE then 0 else cur_as c)"
        using u1(2) 1(3,6) by (auto simp: advanced_def)
      show "kbuf u1 z 16" using 1(5) u1(2) by (auto simp: kbuf_def advanced_def dest: in_set_dropD)
      show "zeroed m (take ?k ?C) b = 0" if "b \<in> set (addrs z 16)" for b using 1(7) [OF that] by (simp add: zeroed_def)
      have "allowed c u1 (unat n - ?k)" using allowed_advance [OF u1(2) 1(8)] a by simp
      then show "allowed c u1 (unat (n - amt))" unfolding le by (rule allowed_less) simp
    qed
    then obtain u' where u': "uiomovezeros_loop c z (n - amt) u1 (zeroed m (take ?k ?C)) =
        Some (Inr (), u', zeroed (zeroed m (take ?k ?C)) (take (unat (n - amt)) (cells (uio_iov u1))))"
      "advanced u1 (min (unat (n - amt)) (length (cells (uio_iov u1)))) u'" by blast
    have C1: "cells (uio_iov u1) = drop ?k ?C" using u1(2) by (simp add: advanced_def)
    have "take (unat n) ?C = take ?k ?C @ take (unat (n - amt)) (cells (uio_iov u1))"
    proof (cases "unat amt \<le> length ?C")
      case True
      then show ?thesis using take_add [of "unat amt" "unat n - unat amt" ?C] a unfolding C1 le by (simp add: min_absorb1)
    qed (use a in \<open>simp add: C1\<close>)
    then have "zeroed (zeroed m (take ?k ?C)) (take (unat (n - amt)) (cells (uio_iov u1))) = zeroed m (take (unat n) ?C)"
      by (auto simp: zeroed_def)
    moreover have "?k + min (unat (n - amt)) (length (cells (uio_iov u1))) = min (unat n) (length ?C)"
      unfolding le C1 length_drop using a by (intro min_split) simp
    ultimately show ?thesis
      using u' u1 True step advanced_trans [OF u1(2) u'(2)] by (simp add: m1 flip: amt_def)
  qed
qed

section \<open>Properties\<close>

text \<open>
  C28. \<open>uiomove\<close> always returns, and never panics, on a \<open>uio\<close> that is set up as \<open>uio.h\<close> asks. If each of
  the first \<open>k\<close> bytes of the \<open>uio\<close> may be accessed, where \<open>k\<close> is the smaller of the length of the buffer and
  \<open>uio_resid\<close>, then exactly these bytes are moved, in order and whatever the blocks
  they are in; otherwise \<open>EFAULT\<close> is returned. In both cases \<open>uio_offset\<close> has grown and
  \<open>uio_resid\<close> has shrunk by the same amount, the remaining blocks are the rest of the \<open>uio\<close>, and the
  bytes accounted for have been moved; on a fault some more may have been.
\<close>

theorem uiomove_transfers:
  assumes "paged (cur_rights c)" and "uio_ok u" and "kbuf u p (unat n)"
    and "uio_space u = (if uio_segflg u = UIO_SYSSPACE then 0 else cur_as c)"
  shows "\<exists>r u' j t. let k = min (unat n) (unat (uio_resid u)) in
    uiomove c p n u m = Some (r, u', xfer (uio_rw u) m (take t (cells (uio_iov u))) (addrs p t)) \<and>
    r = (if \<forall>a \<in> set (take k (cells (uio_iov u))). cell_ok c u a then Inr () else Inl EFAULT) \<and>
    j \<le> t \<and> t \<le> k \<and> (r = Inr () \<longrightarrow> j = k) \<and>
    uio_ok u' \<and> cells (uio_iov u') = drop j (cells (uio_iov u)) \<and> uio_offset u' = uio_offset u + of_nat j \<and>
    unat (uio_resid u') = unat (uio_resid u) - j"
proof -
  have len: "length (cells (uio_iov u)) = unat (uio_resid u)" using assms(2) by (simp add: uio_ok_def)
  obtain j t u' where "uiomove c p n u m = Some (if allowed c u (min (unat n) (unat (uio_resid u))) then Inr () else Inl EFAULT, u',
        xfer (uio_rw u) m (take t (cells (uio_iov u))) (addrs p t))"
      "advanced u j u'" "j \<le> t" "t \<le> min (unat n) (unat (uio_resid u))"
      "allowed c u (min (unat n) (unat (uio_resid u))) \<longrightarrow> j = min (unat n) (unat (uio_resid u))"
    using uiomove_moves [OF assms, of m] unfolding moves_def Let_def len by auto
  then show ?thesis
    using advanced_resid [of u j u'] len unfolding Let_def allowed_def [symmetric] by (intro exI conjI) (auto simp: advanced_def)
qed

definition two_blocks :: uio where
  "two_blocks = \<lparr>uio_iov = [\<lparr>iov_base = 100, iov_len = 1\<rparr>, \<lparr>iov_base = 200, iov_len = 2\<rparr>], uio_offset = 5, uio_resid = 3,
     uio_segflg = UIO_USERSPACE, uio_rw = UIO_READ, uio_space = 9\<rparr>"

theorem uiomove_transfers_witness:
  "\<exists>u'. uiomove \<lparr>cur_as = 9, cur_rights = \<lparr>readable = (\<lambda>_. True), writable = (\<lambda>_. True)\<rparr>\<rparr> 0x80000000 2 two_blocks (\<lambda>_. 7) =
      Some (Inr (), u', xfer UIO_READ (\<lambda>_. 7) [100, 200] [0x80000000, 0x80000001]) \<and> uio_offset u' = 7 \<and> unat (uio_resid u') = 1"
proof -
  let ?c = "\<lparr>cur_as = 9, cur_rights = \<lparr>readable = (\<lambda>_. True), writable = (\<lambda>_. True)\<rparr>\<rparr>"
  have C: "cells (uio_iov two_blocks) = [100, 200, 201]" by (simp add: two_blocks_def addrs_def upt_rec)
  have f: "uio_resid two_blocks = 3" "uio_offset two_blocks = 5" "uio_rw two_blocks = UIO_READ" "uio_segflg two_blocks = UIO_USERSPACE"
    "uio_space two_blocks = 9" by (simp_all add: two_blocks_def)
  have A: "addrs 0x80000000 2 = [0x80000000, 0x80000001]" by (simp add: addrs_def upt_rec)
  have "uio_ok two_blocks" unfolding uio_ok_def C f by (simp add: two_blocks_def)
  moreover have "kbuf two_blocks 0x80000000 (unat (2 :: u32))" unfolding kbuf_def C by (simp add: A)
  moreover have "cell_ok ?c two_blocks a" if "a \<in> {100, 200, 201}" for a using that by (auto simp: cell_ok_def f USERSPACETOP_def)
  ultimately obtain u' j t where u': "uiomove ?c 0x80000000 2 two_blocks (\<lambda>_. 7) = Some (Inr (), u', xfer UIO_READ (\<lambda>_. 7) (take t [100, 200, 201]) (addrs 0x80000000 t))"
      "j \<le> t" "t \<le> 2" "j = 2" "uio_offset u' = 5 + of_nat j" "unat (uio_resid u') = 3 - j"
    using uiomove_transfers [of ?c two_blocks "0x80000000" 2 "\<lambda>_. 7"] unfolding C f by (auto simp: paged_def Let_def)
  then have "t = 2" by simp
  then show ?thesis using u' A by auto
qed

end
