(* ===== verification/Console.thy ===== *)
theory Console
  imports Synch Uio
begin

text \<open>
  \<open>kern/dev/generic/console.c\<close>: the console driver. Characters that the device has received wait in a
  ring buffer until \<open>getch\<close> takes them; \<open>putch\<close> waits until the device can take a character; what
  is printed before there is a console waits in a buffer of its own. The two semaphores are counters
  with the operations of \<open>Synch\<close>.

  The device and the user in front of it are part of the state: \<open>typed\<close> holds the keys that are
  still to be pressed and \<open>shown\<close> what the device has been sent. A thread that waits for a
  character runs again when the next key is pressed, and one that waits for the device when it has sent the last
  character and its interrupt has called \<open>con_start\<close>.
\<close>

definition CONSOLE_INPUT_BUFFER_SIZE :: nat where "CONSOLE_INPUT_BUFFER_SIZE = 32"

definition DELAYBUFSIZE :: nat where "DELAYBUFSIZE = 1024"

record con_softc =
  cs_rsem :: u32
  cs_wsem :: u32
  cs_gotchars :: "u8 list"
  cs_gotchars_head :: nat
  cs_gotchars_tail :: nat
  typed :: "u8 list"
  shown :: "u8 list"

text \<open>The static variables of the driver; the two locks exist together.\<close>

record console =
  the_console :: "con_softc option"
  con_userlocks :: bool
  delayed_outbuf :: "u8 list"

section \<open>Characters\<close>

definition putch_delayed :: "u8 \<Rightarrow> console \<Rightarrow> console option" where
  "putch_delayed ch k = do {
     kassert (length (delayed_outbuf k) < DELAYBUFSIZE);
     Some (k\<lparr>delayed_outbuf := delayed_outbuf k @ [ch]\<rparr>) }"

definition putch_polled :: "u8 \<Rightarrow> con_softc \<Rightarrow> con_softc" where
  "putch_polled ch cs = cs\<lparr>shown := shown cs @ [ch]\<rparr>"

definition con_start :: "con_softc \<Rightarrow> con_softc option" where
  "con_start cs = do { c \<leftarrow> sem_up (cs_wsem cs); Some (cs\<lparr>cs_wsem := c\<rparr>) }"

definition putch_intr :: "u8 \<Rightarrow> con_softc \<Rightarrow> con_softc option" where
  "putch_intr ch cs = do {
     cs \<leftarrow> (if cs_wsem cs = 0 then con_start cs else Some cs);
     c \<leftarrow> sem_down (cs_wsem cs);
     Some (cs\<lparr>cs_wsem := c, shown := shown cs @ [ch]\<rparr>) }"

definition con_input :: "u8 \<Rightarrow> con_softc \<Rightarrow> con_softc option" where
  "con_input ch cs =
    (let nexthead = (cs_gotchars_head cs + 1) mod CONSOLE_INPUT_BUFFER_SIZE in
     if nexthead = cs_gotchars_tail cs then Some cs
     else do {
       chars \<leftarrow> put_at (cs_gotchars_head cs) ch (cs_gotchars cs);
       c \<leftarrow> sem_up (cs_rsem cs);
       Some (cs\<lparr>cs_gotchars := chars, cs_gotchars_head := nexthead, cs_rsem := c\<rparr>) })"

text \<open>\<open>getch_intr\<close>: what it does when the semaphore lets it pass.\<close>

definition getch_intr :: "con_softc \<Rightarrow> (u8 \<times> con_softc) option" where
  "getch_intr cs = do {
     c \<leftarrow> sem_down (cs_rsem cs);
     ret \<leftarrow> get_at (cs_gotchars cs) (cs_gotchars_tail cs);
     Some (ret, cs\<lparr>cs_rsem := c, cs_gotchars_tail := (cs_gotchars_tail cs + 1) mod CONSOLE_INPUT_BUFFER_SIZE\<rparr>) }"

text \<open>The next key is pressed.\<close>

definition press :: "con_softc \<Rightarrow> con_softc option" where
  "press cs = (case typed cs of [] \<Rightarrow> None | ch # chs \<Rightarrow> con_input ch (cs\<lparr>typed := chs\<rparr>))"

text \<open>\<open>putch\<close> in an interrupt handler, with interrupts off or with a spinlock held polls (\<open>polled\<close>).\<close>

definition putch :: "bool \<Rightarrow> u8 \<Rightarrow> console \<Rightarrow> console option" where
  "putch polled ch k = (case the_console k of
       None \<Rightarrow> putch_delayed ch k
     | Some cs \<Rightarrow>
         if polled then Some (k\<lparr>the_console := Some (putch_polled ch cs)\<rparr>)
         else do { cs \<leftarrow> putch_intr ch cs; Some (k\<lparr>the_console := Some cs\<rparr>) })"

definition getch :: "console \<Rightarrow> (u8 \<times> console) option" where
  "getch k = do {
     cs \<leftarrow> the_console k;
     cs \<leftarrow> (if cs_rsem cs = 0 then press cs else Some cs);
     (ret, cs) \<leftarrow> getch_intr cs;
     Some (ret, k\<lparr>the_console := Some cs\<rparr>) }"

fun putchs :: "bool \<Rightarrow> u8 list \<Rightarrow> console \<Rightarrow> console option" where
  "putchs polled [] k = Some k"
| "putchs polled (ch # chs) k = do { k \<leftarrow> putch polled ch k; putchs polled chs k }"

definition flush_delay_buf :: "bool \<Rightarrow> console \<Rightarrow> console option" where
  "flush_delay_buf polled k = do {
     k' \<leftarrow> putchs polled (delayed_outbuf k) k;
     Some (k'\<lparr>delayed_outbuf := []\<rparr>) }"

section \<open>Transfers\<close>

lemma uiomove_loop_one:
  "uiomove_loop c p n u m = Some (Inr (), u', m') \<Longrightarrow> n = 1 \<Longrightarrow> 0 < uio_resid u \<Longrightarrow> uio_resid u' = uio_resid u - 1"
proof (induction c p n u m rule: uiomove_loop.induct)
  case (1 c p n u m)
  note step = uiomove_loop.simps [of c p 1 u m]
  obtain v vs where v: "uio_iov u = v # vs" using 1(3-5) step by (cases "uio_iov u") auto
  define sz where "sz = (if iov_len v > n then n else iov_len v)"
  show ?case
  proof (cases "sz = 0")
    case True
    then have "uiomove_loop c p n (u\<lparr>uio_iov := vs\<rparr>) m = Some (Inr (), u', m')"
      using 1(3-5) step v by (auto simp: sz_def split: if_splits)
    then show ?thesis using 1(1) [OF _ v sz_def True] 1(3-5) step v True by (auto simp: sz_def split: if_splits)
  next
    case False
    then have "sz = 1"
      using 1(4) by (auto simp: sz_def word_less_nat_alt word_unat_eq_iff split: if_splits)
    then have "(if 1 < iov_len v then 1 else iov_len v) = 1" using 1(4) by (simp add: sz_def split: if_splits)
    then show ?thesis
      using 1(3-5) step v uiomove_loop.simps [of c "p + 1" 0 "uio_advance v vs 1 u"]
      by (auto simp: uio_advance_def split: prod.splits sum.splits)
  qed
qed

lemma uiomove_one:
  "uiomove c p 1 u m = Some (Inr (), u', m') \<Longrightarrow> 0 < uio_resid u \<Longrightarrow> unat (uio_resid u') < unat (uio_resid u)"
  using uiomove_loop_one [of c p 1 u m u' m'] unat_dec_u32 [of "uio_resid u"]
  by (auto simp: uiomove_def word_gt_0 unat_gt_0)

text \<open>\<open>con_io\<close>: \<open>chp\<close> is the address of the local variable \<open>ch\<close>, \<open>c\<close> the address space of the caller.\<close>

function con_io_loop :: "curspace \<Rightarrow> ptr \<Rightarrow> console \<Rightarrow> uio \<Rightarrow> mem \<Rightarrow> ((errno + unit) \<times> console \<times> uio \<times> mem) option" where
  "con_io_loop c chp k u m =
    (if uio_resid u > 0 then
       if uio_rw u = UIO_READ then do {
         (ch, k) \<leftarrow> getch k;
         let ch = (if ch = 13 then 10 else ch);
         (r, u, m) \<leftarrow> uiomove c chp 1 u (m(chp := ch));
         case r of Inl e \<Rightarrow> Some (Inl e, k, u, m)
         | Inr _ \<Rightarrow> if ch = 10 then Some (Inr (), k, u, m) else con_io_loop c chp k u m }
       else do {
         (r, u, m) \<leftarrow> uiomove c chp 1 u m;
         case r of Inl e \<Rightarrow> Some (Inl e, k, u, m)
         | Inr _ \<Rightarrow> do {
             k \<leftarrow> (if m chp = 10 then putch False 13 k else Some k);
             k \<leftarrow> putch False (m chp) k;
             con_io_loop c chp k u m } }
     else Some (Inr (), k, u, m))"
  by pat_completeness auto
termination
  by (relation "measure (\<lambda>(c, chp, k, u, m). unat (uio_resid u))") (auto dest: uiomove_one)

declare con_io_loop.simps [simp del]

definition con_io :: "curspace \<Rightarrow> ptr \<Rightarrow> console \<Rightarrow> uio \<Rightarrow> mem \<Rightarrow> ((errno + unit) \<times> console \<times> uio \<times> mem) option" where
  "con_io c chp k u m = do { kassert (con_userlocks k); con_io_loop c chp k u m }"

text \<open>\<open>config_con\<close>: whether each \<open>sem_create\<close> and \<open>lock_create\<close> succeeds is an argument.\<close>

definition config_con :: "nat \<Rightarrow> bool \<Rightarrow> bool \<Rightarrow> bool \<Rightarrow> bool \<Rightarrow> con_softc \<Rightarrow> console \<Rightarrow> ((errno + unit) \<times> console) option" where
  "config_con unit rsem wsem rlk wlk cs k =
    (if unit > 0 then do { kassert (the_console k \<noteq> None); Some (Inl ENODEV, k) }
     else do {
       kassert (the_console k = None);
       if \<not> rsem \<or> \<not> wsem \<or> \<not> rlk \<or> \<not> wlk then Some (Inl ENOMEM, k)
       else do {
         let cs = cs\<lparr>cs_rsem := 0, cs_wsem := 1, cs_gotchars_head := 0, cs_gotchars_tail := 0\<rparr>;
         k \<leftarrow> flush_delay_buf False (k\<lparr>the_console := Some cs, con_userlocks := True\<rparr>);
         Some (Inr (), k) } })"

section \<open>The ring buffer\<close>

text \<open>The characters that wait in the ring buffer, oldest first.\<close>

definition pending :: "con_softc \<Rightarrow> u8 list" where
  "pending cs = map (\<lambda>i. cs_gotchars cs ! ((cs_gotchars_tail cs + i) mod CONSOLE_INPUT_BUFFER_SIZE)) [0..<unat (cs_rsem cs)]"

definition ring_ok :: "con_softc \<Rightarrow> bool" where
  "ring_ok cs \<longleftrightarrow> length (cs_gotchars cs) = CONSOLE_INPUT_BUFFER_SIZE \<and> cs_gotchars_tail cs < CONSOLE_INPUT_BUFFER_SIZE \<and>
     unat (cs_rsem cs) < CONSOLE_INPUT_BUFFER_SIZE \<and>
     cs_gotchars_head cs = (cs_gotchars_tail cs + unat (cs_rsem cs)) mod CONSOLE_INPUT_BUFFER_SIZE"

lemma con_input_fifo:
  assumes "ring_ok cs"
  shows "\<exists>cs'. con_input ch cs = Some cs' \<and> ring_ok cs' \<and> shown cs' = shown cs \<and> cs_wsem cs' = cs_wsem cs \<and> typed cs' = typed cs \<and>
    pending cs' = (if length (pending cs) < 31 then pending cs @ [ch] else pending cs)"
proof -
  let ?n = "unat (cs_rsem cs)" and ?t = "cs_gotchars_tail cs"
  have n: "?n < 32" "?t < 32" "cs_gotchars_head cs = (?t + ?n) mod 32" "length (cs_gotchars cs) = 32"
    using assms by (simp_all add: ring_ok_def CONSOLE_INPUT_BUFFER_SIZE_def)
  have nh: "(cs_gotchars_head cs + 1) mod 32 = (?t + (?n + 1)) mod 32" using n(3) by (simp add: mod_simps)
  have full: "(?t + (?n + 1)) mod 32 = ?t \<longleftrightarrow> ?n = 31" using n(1,2) by (auto simp: mod_if)
  show ?thesis
  proof (cases "?n = 31")
    case True
    then show ?thesis using assms nh full by (auto simp: con_input_def Let_def CONSOLE_INPUT_BUFFER_SIZE_def pending_def)
  next
    case False
    have up: "sem_up (cs_rsem cs) = Some (cs_rsem cs + 1)" "unat (cs_rsem cs + 1) = ?n + 1"
      using unat_plus_u32 [of "cs_rsem cs" 1] n(1) by (auto simp: sem_up_def)
    have old: "(?t + i) mod 32 \<noteq> (?t + ?n) mod 32" if "i < ?n" for i
      using that n(1,2) by (auto simp: mod_if)
    have "(cs_gotchars cs)[(?t + ?n) mod 32 := ch] ! ((?t + i) mod 32) = cs_gotchars cs ! ((?t + i) mod 32)" if "i < ?n" for i
      using old [OF that] by (intro nth_list_update_neq) simp
    then show ?thesis
      using False n nh full up assms
      by (auto simp: con_input_def Let_def CONSOLE_INPUT_BUFFER_SIZE_def pending_def ring_ok_def)
  qed
qed

lemma getch_intr_fifo:
  assumes "ring_ok cs" and "pending cs = ch # chs"
  shows "\<exists>cs'. getch_intr cs = Some (ch, cs') \<and> ring_ok cs' \<and> pending cs' = chs \<and> shown cs' = shown cs \<and> cs_wsem cs' = cs_wsem cs \<and> typed cs' = typed cs"
proof -
  let ?n = "unat (cs_rsem cs)" and ?t = "cs_gotchars_tail cs"
  have n: "?n < 32" "?t < 32" "cs_gotchars_head cs = (?t + ?n) mod 32" "length (cs_gotchars cs) = 32"
    using assms by (simp_all add: ring_ok_def CONSOLE_INPUT_BUFFER_SIZE_def)
  have "?n = Suc (length chs)" using arg_cong [OF assms(2), of length] by (simp add: pending_def)
  then have "cs_rsem cs \<noteq> 0" by auto
  then have pos: "cs_rsem cs \<noteq> 0" "unat (cs_rsem cs - 1) = length chs"
    using unat_dec_u32 [of "cs_rsem cs"] \<open>?n = _\<close> by auto
  have "pending cs = cs_gotchars cs ! ?t # map (\<lambda>i. cs_gotchars cs ! ((?t + 1 + i) mod 32)) [0..<length chs]"
    using n(2) \<open>?n = _\<close> by (simp add: pending_def CONSOLE_INPUT_BUFFER_SIZE_def upt_conv_Cons map_Suc_upt [symmetric] del: upt_Suc)
  then show ?thesis
    using assms pos n \<open>?n = _\<close>
    by (auto simp: getch_intr_def sem_down_def CONSOLE_INPUT_BUFFER_SIZE_def ring_ok_def pending_def mod_simps)
qed

text \<open>The characters that \<open>getch\<close> will return, in order.\<close>

definition input :: "con_softc \<Rightarrow> u8 list" where
  "input cs = pending cs @ typed cs"

definition ready :: "console \<Rightarrow> bool" where
  "ready k \<longleftrightarrow> con_userlocks k \<and> (case the_console k of None \<Rightarrow> False | Some cs \<Rightarrow> ring_ok cs)"

definition con_input_of :: "console \<Rightarrow> u8 list" where
  "con_input_of k = (case the_console k of None \<Rightarrow> [] | Some cs \<Rightarrow> input cs)"

definition con_output_of :: "console \<Rightarrow> u8 list" where
  "con_output_of k = (case the_console k of None \<Rightarrow> [] | Some cs \<Rightarrow> shown cs)"

lemma getch_next:
  assumes "ready k" and "con_input_of k = ch # chs"
  shows "\<exists>k'. getch k = Some (ch, k') \<and> ready k' \<and> con_input_of k' = chs \<and> con_output_of k' = con_output_of k"
proof -
  obtain cs where cs: "the_console k = Some cs" "ring_ok cs" "con_userlocks k" using assms(1) by (auto simp: ready_def split: option.splits)
  have i: "pending cs @ typed cs = ch # chs" using assms(2) cs(1) by (simp add: con_input_of_def input_def)
  have empty: "cs_rsem cs = 0 \<longleftrightarrow> pending cs = []" by (simp add: pending_def unat_eq_0)
  obtain cs1 where cs1: "(if cs_rsem cs = 0 then press cs else Some cs) = Some cs1" "ring_ok cs1" "shown cs1 = shown cs"
    "pending cs1 @ typed cs1 = ch # chs" "pending cs1 \<noteq> []"
  proof (cases "pending cs = []")
    case True
    then have t: "typed cs = ch # chs" using i by simp
    have "ring_ok (cs\<lparr>typed := chs\<rparr>)" "pending (cs\<lparr>typed := chs\<rparr>) = []" using cs(2) True by (simp_all add: ring_ok_def pending_def)
    then obtain cs1 where "con_input ch (cs\<lparr>typed := chs\<rparr>) = Some cs1" "ring_ok cs1" "shown cs1 = shown cs" "typed cs1 = chs" "pending cs1 = [ch]"
      using con_input_fifo [of "cs\<lparr>typed := chs\<rparr>" ch] by auto
    then show thesis using that [of cs1] t True empty by (simp add: press_def)
  qed (use that [of cs] cs(2) i empty in auto)
  then obtain rest where p: "pending cs1 = ch # rest" "rest @ typed cs1 = chs" by (cases "pending cs1") auto
  obtain cs2 where "getch_intr cs1 = Some (ch, cs2)" "ring_ok cs2" "pending cs2 = rest" "shown cs2 = shown cs1" "typed cs2 = typed cs1"
    using getch_intr_fifo [OF cs1(2) p(1)] by blast
  then show ?thesis
    using cs cs1 p by (auto simp: getch_def ready_def con_input_of_def con_output_of_def input_def)
qed

lemma getch_waits: "ready k \<Longrightarrow> con_input_of k = [] \<Longrightarrow> getch k = None"
  by (auto simp: ready_def con_input_of_def input_def getch_def press_def pending_def unat_eq_0 split: option.splits)

lemma putch_shows:
  assumes "ready k"
  shows "\<exists>k'. putch polled ch k = Some k' \<and> ready k' \<and> con_input_of k' = con_input_of k \<and> con_output_of k' = con_output_of k @ [ch]"
  using assms
  by (auto simp: ready_def putch_def putch_intr_def putch_polled_def con_start_def sem_up_def sem_down_def con_input_of_def
      con_output_of_def input_def pending_def ring_ok_def split: option.splits)

section \<open>Input and output\<close>

definition crlf :: "u8 list \<Rightarrow> u8 list" where
  "crlf s = concat (map (\<lambda>ch. if ch = 10 then [13, 10] else [ch]) s)"

lemma crlf_Cons: "crlf (ch # s) = (if ch = 10 then [13, 10] else [ch]) @ crlf s"
  by (simp add: crlf_def)

text \<open>One byte out of and into the \<open>uio\<close>.\<close>

lemma addrs_1: "addrs p 1 = [p]"
  by (simp add: addrs_def)

lemma uiomove_byte:
  assumes "paged (cur_rights c)" and "uio_ok u" and "kbuf u chp 1"
    and "uio_space u = (if uio_segflg u = UIO_SYSSPACE then 0 else cur_as c)" and "cells (uio_iov u) = a # as"
  shows "if cell_ok c u a then \<exists>u'. uiomove c chp 1 u m = Some (Inr (), u', xfer (uio_rw u) m [a] [chp]) \<and> advanced u 1 u'
    else \<exists>u' m'. uiomove c chp 1 u m = Some (Inl EFAULT, u', m') \<and> advanced u 0 u' \<and> (\<exists>t\<le>1. m' = xfer (uio_rw u) m (take t [a]) (take t [chp]))"
proof -
  have mv: "moves c chp 1 u m (uiomove c chp 1 u m)" using uiomove_moves [OF assms(1,2) _ assms(4), of chp 1 m] assms(3) by simp
  have k: "min 1 (length (cells (uio_iov u))) = 1" using assms(5) by simp
  have al: "allowed c u 1 \<longleftrightarrow> cell_ok c u a" using assms(5) by (simp add: allowed_def)
  show ?thesis
  proof (cases "cell_ok c u a")
    case True
    then have "allowed c u 1" using al by simp
    then obtain u' where "uiomove c chp 1 u m = Some (Inr (), u', xfer (uio_rw u) m (take 1 (a # as)) (addrs chp 1))" "advanced u 1 u'"
      using moves_allowed [OF mv k [symmetric]] unfolding assms(5) by blast
    then show ?thesis using True by (simp add: addrs_1 [simplified])
  next
    case False
    obtain j t u' where r: "uiomove c chp 1 u m = Some (Inl EFAULT, u', xfer (uio_rw u) m (take t (a # as)) (addrs chp t))"
        "advanced u j u'" "allowed c u j" "j \<le> t" "t \<le> 1"
      using mv False al unfolding moves_def Let_def k assms(5) by auto
    have t: "t = 0 \<or> t = 1" and j: "j = 0 \<or> j = 1" using r(4,5) by linarith+
    have "j = 0" using j r(3) al False by blast
    moreover have "take t (a # as) = take t [a]" "addrs chp t = take t [chp]" using t addrs_1 [of chp] by (auto simp: addrs_def)
    ultimately show ?thesis unfolding if_not_P [OF False] using r(1,2,5) by metis
  qed
qed

lemma advanced_cell_ok: "advanced u j u' \<Longrightarrow> cell_ok c u' = cell_ok c u"
  by (rule ext) (simp add: advanced_def cell_ok_def)

lemma kbuf_advanced: "kbuf u p n \<Longrightarrow> advanced u j u' \<Longrightarrow> kbuf u' p n"
  by (auto simp: kbuf_def advanced_def dest: in_set_dropD)

lemma kbuf_notin: "kbuf u p 1 \<Longrightarrow> p \<notin> set (cells (uio_iov u))"
  by (auto simp: kbuf_def addrs_1 simp del: One_nat_def)

lemma transfer_one: "transfer m [d] [s] = m(d := m s)"
  by (rule ext) (simp add: transfer_def)

lemma con_io_write:
  assumes "paged (cur_rights c)"
  shows "uio_ok u \<Longrightarrow> uio_rw u = UIO_WRITE \<Longrightarrow> kbuf u chp 1 \<Longrightarrow> ready k \<Longrightarrow>
    uio_space u = (if uio_segflg u = UIO_SYSSPACE then 0 else cur_as c) \<Longrightarrow>
    \<exists>k' u' m'. con_io_loop c chp k u m = Some (if \<forall>a \<in> set (cells (uio_iov u)). cell_ok c u a then Inr () else Inl EFAULT, k', u', m') \<and>
      ready k' \<and> con_input_of k' = con_input_of k \<and>
      con_output_of k' = con_output_of k @ crlf (map m (takeWhile (cell_ok c u) (cells (uio_iov u)))) \<and>
      advanced u (length (takeWhile (cell_ok c u) (cells (uio_iov u)))) u' \<and> (\<forall>a. a \<noteq> chp \<longrightarrow> m' a = m a)"
proof (induction "cells (uio_iov u)" arbitrary: u k m)
  case Nil
  then have "uio_resid u = 0" by (simp add: uio_ok_def unat_eq_0)
  then show ?case using Nil advanced_refl [OF Nil(2)] con_io_loop.simps [of c chp k u m] by (simp add: crlf_def)
next
  case (Cons a as)
  note C = Cons.hyps(2) [symmetric]
  have pos: "uio_resid u > 0" using Cons.prems(1) C by (auto simp: uio_ok_def word_gt_0)
  note step = con_io_loop.simps [of c chp k u m]
  note byte = uiomove_byte [OF assms Cons.prems(1,3,5) C, of m]
  show ?case
  proof (cases "cell_ok c u a")
    case True
    obtain u1 where u1: "uiomove c chp 1 u m = Some (Inr (), u1, m(chp := m a))" "advanced u 1 u1"
      using byte True Cons.prems(2) by (auto simp: xfer_def transfer_one)
    let ?m = "m(chp := m a)"
    obtain k1 where k1: "(if ?m chp = 10 then putch False 13 k else Some k) = Some k1" "ready k1" "con_input_of k1 = con_input_of k"
        "con_output_of k1 = con_output_of k @ (if m a = 10 then [13] else [])"
      using putch_shows [OF Cons.prems(4), of False 13] Cons.prems(4) by (cases "m a = 10") auto
    obtain k2 where k2: "putch False (?m chp) k1 = Some k2" "ready k2" "con_input_of k2 = con_input_of k" "con_output_of k2 = con_output_of k @ crlf [m a]"
      using putch_shows [OF k1(2), of False "?m chp"] k1(3,4) by (auto simp: crlf_def)
    have C1: "as = cells (uio_iov u1)" using u1(2) C by (simp add: advanced_def)
    have ch: "chp \<notin> set (a # as)" using kbuf_notin [OF Cons.prems(3)] C by simp
    have mm: "map ?m (takeWhile (cell_ok c u) as) = map m (takeWhile (cell_ok c u) as)"
      using ch by (auto dest: set_takeWhileD)
    have "uio_ok u1" "uio_rw u1 = UIO_WRITE" "uio_space u1 = (if uio_segflg u1 = UIO_SYSSPACE then 0 else cur_as c)"
      using u1(2) Cons.prems(2,5) by (simp_all add: advanced_def)
    note ih = Cons.hyps(1) [OF C1 this(1,2) kbuf_advanced [OF Cons.prems(3) u1(2)] k2(2) this(3), of ?m,
        unfolded advanced_cell_ok [OF u1(2)] C1 [symmetric] mm k2(3,4)]
    obtain k3 u3 m3 where r: "con_io_loop c chp k2 u1 ?m = Some (if \<forall>a \<in> set as. cell_ok c u a then Inr () else Inl EFAULT, k3, u3, m3)"
        "ready k3" "con_input_of k3 = con_input_of k" "con_output_of k3 = (con_output_of k @ crlf [m a]) @ crlf (map m (takeWhile (cell_ok c u) as))"
        "advanced u1 (length (takeWhile (cell_ok c u) as)) u3" "\<forall>b. b \<noteq> chp \<longrightarrow> m3 b = ?m b"
      using ih by blast
    have "con_io_loop c chp k u m = con_io_loop c chp k2 u1 ?m"
      using step pos Cons.prems(2) u1(1) k1(1) k2(1) by simp
    moreover have "\<forall>b. b \<noteq> chp \<longrightarrow> m3 b = m b" using r(6) by simp
    ultimately show ?thesis
      using r(1-4) True advanced_trans [OF u1(2) r(5)] unfolding C
      by (intro exI [of _ k3] exI [of _ u3] exI [of _ m3]) (simp add: crlf_def)
  next
    case False
    then obtain u1 m1 t where u1: "uiomove c chp 1 u m = Some (Inl EFAULT, u1, m1)" "advanced u 0 u1" "m1 = transfer m (take t [chp]) (take t [a])"
      using byte Cons.prems(2) by (auto simp: xfer_def)
    have "m1 b = m b" if "b \<noteq> chp" for b unfolding u1(3) using that by (intro transfer_other) (auto dest: in_set_takeD)
    then show ?thesis
      using step pos Cons.prems(2,4) u1(1,2) False unfolding C
      by (intro exI [of _ k] exI [of _ u1] exI [of _ m1]) (simp add: crlf_def)
  qed
qed

text \<open>What a read of at most \<open>n\<close> characters takes from the input: a line, with carriage return for newline.\<close>

fun line :: "nat \<Rightarrow> u8 list \<Rightarrow> (u8 list \<times> u8 list) option" where
  "line 0 s = Some ([], s)"
| "line (Suc n) [] = None"
| "line (Suc n) (ch # s) =
    (if ch = 13 \<or> ch = 10 then Some ([10], s) else map_option (\<lambda>(l, r). (ch # l, r)) (line n s))"

lemma con_io_read:
  assumes "paged (cur_rights c)"
  shows "uio_ok u \<Longrightarrow> uio_rw u = UIO_READ \<Longrightarrow> kbuf u chp 1 \<Longrightarrow> ready k \<Longrightarrow>
    uio_space u = (if uio_segflg u = UIO_SYSSPACE then 0 else cur_as c) \<Longrightarrow> \<forall>a \<in> set (cells (uio_iov u)). cell_ok c u a \<Longrightarrow>
    line (length (cells (uio_iov u))) (con_input_of k) = Some (l, rest) \<Longrightarrow>
    \<exists>k' u' m'. con_io_loop c chp k u m = Some (Inr (), k', u', m') \<and> ready k' \<and> con_input_of k' = rest \<and> con_output_of k' = con_output_of k \<and>
      advanced u (length l) u' \<and> map m' (take (length l) (cells (uio_iov u))) = l \<and> length l \<le> length (cells (uio_iov u)) \<and>
      (\<forall>a. a \<noteq> chp \<and> a \<notin> set (take (length l) (cells (uio_iov u))) \<longrightarrow> m' a = m a)"
proof (induction "cells (uio_iov u)" arbitrary: u k m l)
  case Nil
  then have "uio_resid u = 0" by (simp add: uio_ok_def unat_eq_0)
  then show ?case using Nil advanced_refl [OF Nil(2)] con_io_loop.simps [of c chp k u m] by simp
next
  case (Cons a as)
  note C = Cons.hyps(2) [symmetric] and step = con_io_loop.simps [of c chp k u m]
  have pos: "uio_resid u > 0" using Cons.prems(1) C by (auto simp: uio_ok_def word_gt_0)
  obtain ch s where i: "con_input_of k = ch # s" using Cons.prems(7) C by (cases "con_input_of k") auto
  obtain k1 where k1: "getch k = Some (ch, k1)" "ready k1" "con_input_of k1 = s" "con_output_of k1 = con_output_of k"
    using getch_next [OF Cons.prems(4) i] by blast
  define b where "b = (if ch = 13 then 10 else ch)"
  have chp: "chp \<notin> set (a # as)" "a \<notin> set as" using kbuf_notin [OF Cons.prems(3)] Cons.prems(1) C by (auto simp: uio_ok_def)
  let ?m = "m(chp := b, a := b)"
  obtain u1 where u1: "uiomove c chp 1 u (m(chp := b)) = Some (Inr (), u1, ?m)" "advanced u 1 u1"
    using uiomove_byte [OF assms Cons.prems(1,3,5) C, of "m(chp := b)"] Cons.prems(2,6) C by (auto simp: xfer_def transfer_one)
  show ?case
  proof (cases "b = 10")
    case True
    then have "con_io_loop c chp k u m = Some (Inr (), k1, u1, ?m)" using step pos Cons.prems(2) k1(1) u1(1) by (simp add: b_def [symmetric] Let_def)
    moreover have "l = [10]" "rest = s" using Cons.prems(7) C i True by (auto simp: b_def split: if_splits)
    ultimately show ?thesis unfolding C using k1 u1(2) True by (intro exI [of _ k1] exI [of _ u1] exI [of _ ?m]) auto
  next
    case False
    then have ch: "ch \<noteq> 10" "ch \<noteq> 13" "b = ch" by (auto simp: b_def split: if_splits)
    have go: "con_io_loop c chp k u m = con_io_loop c chp k1 u1 ?m"
      using step pos Cons.prems(2) k1(1) u1(1) False by (simp add: b_def [symmetric] Let_def)
    obtain l' where l': "line (length as) (con_input_of k1) = Some (l', rest)" "l = ch # l'" using Cons.prems(7) C i k1(3) ch by auto
    have C1: "as = cells (uio_iov u1)" using u1(2) C by (simp add: advanced_def)
    have "uio_ok u1" "uio_rw u1 = UIO_READ" "uio_space u1 = (if uio_segflg u1 = UIO_SYSSPACE then 0 else cur_as c)"
      using u1(2) Cons.prems(2,5) by (simp_all add: advanced_def)
    moreover have "\<forall>a \<in> set as. cell_ok c u1 a" using Cons.prems(6) C by (simp add: advanced_cell_ok [OF u1(2)])
    ultimately obtain k' u' m' where r: "con_io_loop c chp k1 u1 ?m = Some (Inr (), k', u', m')" "ready k'" "con_input_of k' = rest"
        "con_output_of k' = con_output_of k" "advanced u1 (length l') u'" "map m' (take (length l') as) = l'" "length l' \<le> length as"
        "\<forall>b. b \<noteq> chp \<and> b \<notin> set (take (length l') as) \<longrightarrow> m' b = ?m b"
      using Cons.hyps(1) [OF C1 _ _ kbuf_advanced [OF Cons.prems(3) u1(2)] k1(2), of l' ?m, unfolded C1 [symmetric] k1(4)] l'(1) by blast
    have "m' a = ch" using r(8) chp ch(3) by (auto dest: in_set_takeD)
    moreover have "\<forall>x. x \<noteq> chp \<and> x \<notin> set (take (length l) (a # as)) \<longrightarrow> m' x = m x" using r(8) l'(2) by simp
    ultimately show ?thesis
      unfolding C go using r(1-7) l'(2) advanced_trans [OF u1(2) r(5)] by (intro exI [of _ k'] exI [of _ u'] exI [of _ m']) simp
  qed
qed

section \<open>Early output\<close>

text \<open>What was printed before the console was attached comes out when it is.\<close>

lemma putchs_shows:
  "ready k \<Longrightarrow> \<exists>k'. putchs polled s k = Some k' \<and> ready k' \<and> con_input_of k' = con_input_of k \<and> con_output_of k' = con_output_of k @ s"
proof (induction s arbitrary: k)
  case (Cons ch s)
  obtain k1 where k1: "putch polled ch k = Some k1" "ready k1" "con_input_of k1 = con_input_of k" "con_output_of k1 = con_output_of k @ [ch]"
    using putch_shows [OF Cons.prems] by blast
  then show ?case using Cons.IH [OF k1(2)] by auto
qed simp

lemma config_con_flushes:
  assumes "the_console k = None" and "length (cs_gotchars cs) = CONSOLE_INPUT_BUFFER_SIZE"
  shows "\<exists>k'. config_con 0 True True True True cs k = Some (Inr (), k') \<and> ready k' \<and> delayed_outbuf k' = [] \<and>
    con_input_of k' = typed cs \<and> con_output_of k' = shown cs @ delayed_outbuf k"
proof -
  let ?cs = "cs\<lparr>cs_rsem := 0, cs_wsem := 1, cs_gotchars_head := 0, cs_gotchars_tail := 0\<rparr>"
  let ?k = "k\<lparr>the_console := Some ?cs, con_userlocks := True\<rparr>"
  have "ready ?k" using assms(2) by (simp add: ready_def ring_ok_def CONSOLE_INPUT_BUFFER_SIZE_def)
  from putchs_shows [OF this, of False "delayed_outbuf k"] obtain k' where
    "putchs False (delayed_outbuf k) ?k = Some k'" "ready k'" "con_input_of k' = typed cs" "con_output_of k' = shown cs @ delayed_outbuf k"
    by (auto simp: con_input_of_def con_output_of_def input_def pending_def)
  then show ?thesis
    using assms(1) by (simp add: config_con_def flush_delay_buf_def Let_def) (simp add: ready_def con_input_of_def con_output_of_def)
qed

section \<open>Properties\<close>


definition fresh_console :: con_softc where
  "fresh_console = \<lparr>cs_rsem = 0, cs_wsem = 1, cs_gotchars = replicate 32 0, cs_gotchars_head = 0, cs_gotchars_tail = 0, typed = [65, 66], shown = []\<rparr>"


end
