(* ===== verification/Vnode.thy ===== *)
theory Vnode
  imports Console
begin

text \<open>
  \<open>kern/vfs/vnode.c\<close>, \<open>kern/vfs/device.c\<close>, \<open>kern/vfs/devnull.c\<close> and \<open>kern/vfs/vfsfail.c\<close>: vnodes with
  their reference counts, the vnode operations, and the devices. A vnode or device is named by its
  address. The table of functions that \<open>vn_ops\<close> points to is a value of a datatype; the operations of a vnode
  that belongs to a file system, and of device drivers other than the console and the null device, are
  parameters, the record \<open>fsops\<close>. The operations of the VFS run with the big lock held, so
  that the spinlock of a reference count is not part of the model.
\<close>

unbundle bit_operations_syntax

type_synonym path = "u8 list"

datatype vnode_ops = No_vnode_ops | Dev_vnode_ops | Fs_vnode_ops

record vnode =
  vn_refcount :: int
  vn_fs :: ptr
  vn_data :: ptr
  vn_ops :: vnode_ops

datatype device_ops = Null_devops | Console_devops | Driver_devops

record device =
  d_ops :: device_ops
  d_blocks :: u32
  d_blocksize :: u32
  d_devnumber :: u32

text \<open>\<open>SWAP_FS\<close> is the placeholder for devices used as swap.\<close>

datatype kd_fs = No_fs | SWAP_FS | Fs ptr

record knowndev =
  kd_name :: path
  kd_rawname :: "path option"
  kd_device :: ptr
  kd_vnode :: ptr
  kd_fs :: kd_fs

text \<open>The state of the VFS layer; \<open>fsys\<close> belongs to the file systems and drivers.\<close>

record 'f world =
  vnodes :: "ptr \<Rightarrow> vnode option"
  devices :: "ptr \<Rightarrow> device option"
  con :: console
  knowndevs :: "knowndev list"
  vfs_biglock_depth :: nat
  bootfs_vnode :: ptr
  p_cwd :: ptr
  fsys :: 'f

text \<open>Directory operations other than lookup.\<close>

datatype dirop = Op_remove path | Op_rmdir path | Op_mkdir path u32 | Op_symlink path path | Op_link path ptr | Op_rename path ptr path

type_synonym ('a, 'f) vfs_result = "((errno + 'a) \<times> 'f world) option"

record 'f fsops =
  fs_eachopen :: "ptr \<Rightarrow> u32 \<Rightarrow> 'f world \<Rightarrow> (unit, 'f) vfs_result"
  fs_reclaim :: "ptr \<Rightarrow> 'f world \<Rightarrow> (unit, 'f) vfs_result"
  fs_read :: "ptr \<Rightarrow> uio \<Rightarrow> mem \<Rightarrow> 'f world \<Rightarrow> ((errno + unit) \<times> uio \<times> mem \<times> 'f world) option"
  fs_write :: "ptr \<Rightarrow> uio \<Rightarrow> mem \<Rightarrow> 'f world \<Rightarrow> ((errno + unit) \<times> uio \<times> mem \<times> 'f world) option"
  fs_stat :: "ptr \<Rightarrow> 'f world \<Rightarrow> (u64, 'f) vfs_result"
  fs_gettype :: "ptr \<Rightarrow> 'f world \<Rightarrow> (u32, 'f) vfs_result"
  fs_isseekable :: "ptr \<Rightarrow> 'f world \<Rightarrow> bool"
  fs_truncate :: "ptr \<Rightarrow> u64 \<Rightarrow> 'f world \<Rightarrow> (unit, 'f) vfs_result"
  fs_creat :: "ptr \<Rightarrow> path \<Rightarrow> bool \<Rightarrow> u32 \<Rightarrow> 'f world \<Rightarrow> (ptr, 'f) vfs_result"
  fs_lookup :: "ptr \<Rightarrow> path \<Rightarrow> 'f world \<Rightarrow> (ptr, 'f) vfs_result"
  fs_lookparent :: "ptr \<Rightarrow> path \<Rightarrow> 'f world \<Rightarrow> (ptr \<times> path, 'f) vfs_result"
  fs_dirop :: "ptr \<Rightarrow> dirop \<Rightarrow> 'f world \<Rightarrow> (unit, 'f) vfs_result"
  fsop_getroot :: "ptr \<Rightarrow> 'f world \<Rightarrow> (ptr, 'f) vfs_result"
  fsop_getvolname :: "ptr \<Rightarrow> 'f world \<Rightarrow> path option"
  fsop_sync :: "ptr \<Rightarrow> 'f world \<Rightarrow> (unit, 'f) vfs_result"
  fsop_unmount :: "ptr \<Rightarrow> 'f world \<Rightarrow> (unit, 'f) vfs_result"
  drv_eachopen :: "ptr \<Rightarrow> u32 \<Rightarrow> 'f world \<Rightarrow> (unit, 'f) vfs_result"
  drv_io :: "ptr \<Rightarrow> uio \<Rightarrow> mem \<Rightarrow> 'f world \<Rightarrow> ((errno + unit) \<times> uio \<times> mem \<times> 'f world) option"

section \<open>Devices\<close>

text \<open>\<open>DEVOP_EACHOPEN\<close>, with \<open>nullopen\<close> and \<open>con_eachopen\<close>.\<close>

definition DEVOP_EACHOPEN :: "'f fsops \<Rightarrow> ptr \<Rightarrow> u32 \<Rightarrow> 'f world \<Rightarrow> (unit, 'f) vfs_result" where
  "DEVOP_EACHOPEN F d flags w = do {
     dev \<leftarrow> devices w d;
     case d_ops dev of Driver_devops \<Rightarrow> drv_eachopen F d flags w | _ \<Rightarrow> Some (Inr (), w) }"

definition nullio :: "uio \<Rightarrow> (errno + unit) \<times> uio" where
  "nullio u = (Inr (), if uio_rw u = UIO_WRITE then u\<lparr>uio_resid := 0\<rparr> else u)"

text \<open>\<open>DEVOP_IO\<close>: \<open>c\<close> is the address space of the caller, \<open>chp\<close> the address of the local variable of \<open>con_io\<close>.\<close>

definition DEVOP_IO :: "'f fsops \<Rightarrow> curspace \<Rightarrow> ptr \<Rightarrow> ptr \<Rightarrow> uio \<Rightarrow> mem \<Rightarrow> 'f world \<Rightarrow> ((errno + unit) \<times> uio \<times> mem \<times> 'f world) option" where
  "DEVOP_IO F c chp d u m w = do {
     dev \<leftarrow> devices w d;
     case d_ops dev of
       Null_devops \<Rightarrow> (case nullio u of (r, u) \<Rightarrow> Some (r, u, m, w))
     | Console_devops \<Rightarrow> do { (r, k, u, m) \<leftarrow> con_io c chp (con w) u m; Some (r, u, m, w\<lparr>con := k\<rparr>) }
     | Driver_devops \<Rightarrow> drv_io F d u m w }"

definition dev_eachopen :: "'f fsops \<Rightarrow> vnode \<Rightarrow> u32 \<Rightarrow> 'f world \<Rightarrow> (unit, 'f) vfs_result" where
  "dev_eachopen F n flags w =
    (if flags AND 60 \<noteq> 0 then Some (Inl EINVAL, w) else DEVOP_EACHOPEN F (vn_data n) flags w)"

definition dev_reclaim :: "vnode \<Rightarrow> 'f world \<Rightarrow> (unit, 'f) vfs_result" where
  "dev_reclaim n w = Some (Inr (), w)"

definition dev_tryseek :: "device \<Rightarrow> u64 \<Rightarrow> (errno + unit) option" where
  "dev_tryseek dev pos =
    (if d_blocks dev > 0 then
       if d_blocksize dev = 0 then None
       else if \<not> uint (d_blocksize dev) dvd sint pos then Some (Inl EINVAL)
       else if sint pos div uint (d_blocksize dev) \<ge> uint (d_blocks dev) then Some (Inl EINVAL)
       else Some (Inr ())
     else Some (Inr ()))"

definition dev_rw :: "uio_rw \<Rightarrow> 'f fsops \<Rightarrow> curspace \<Rightarrow> ptr \<Rightarrow> vnode \<Rightarrow> uio \<Rightarrow> mem \<Rightarrow> 'f world \<Rightarrow> ((errno + unit) \<times> uio \<times> mem \<times> 'f world) option" where
  "dev_rw rw F c chp n u m w = do {
     dev \<leftarrow> devices w (vn_data n);
     r \<leftarrow> dev_tryseek dev (uio_offset u);
     case r of Inl e \<Rightarrow> Some (Inl e, u, m, w)
     | Inr _ \<Rightarrow> do { kassert (uio_rw u = rw); DEVOP_IO F c chp (vn_data n) u m w } }"

definition dev_read :: "'f fsops \<Rightarrow> curspace \<Rightarrow> ptr \<Rightarrow> vnode \<Rightarrow> uio \<Rightarrow> mem \<Rightarrow> 'f world \<Rightarrow> ((errno + unit) \<times> uio \<times> mem \<times> 'f world) option" where
  "dev_read = dev_rw UIO_READ"

definition dev_write :: "'f fsops \<Rightarrow> curspace \<Rightarrow> ptr \<Rightarrow> vnode \<Rightarrow> uio \<Rightarrow> mem \<Rightarrow> 'f world \<Rightarrow> ((errno + unit) \<times> uio \<times> mem \<times> 'f world) option" where
  "dev_write = dev_rw UIO_WRITE"

text \<open>\<open>dev_stat\<close>: the size, a product of 32-bit numbers.\<close>

definition dev_stat :: "vnode \<Rightarrow> 'f world \<Rightarrow> (u64, 'f) vfs_result" where
  "dev_stat n w = do {
     dev \<leftarrow> devices w (vn_data n);
     Some (Inr (if d_blocks dev > 0 then ucast (d_blocks dev * d_blocksize dev) else 0), w) }"

definition S_IFDIR :: u32 where "S_IFDIR = 8192"
definition S_IFCHR :: u32 where "S_IFCHR = 24576"
definition S_IFBLK :: u32 where "S_IFBLK = 28672"

definition dev_gettype :: "vnode \<Rightarrow> 'f world \<Rightarrow> (u32, 'f) vfs_result" where
  "dev_gettype n w = do {
     dev \<leftarrow> devices w (vn_data n);
     Some (Inr (if d_blocks dev > 0 then S_IFBLK else S_IFCHR), w) }"

definition dev_isseekable :: "vnode \<Rightarrow> 'f world \<Rightarrow> bool option" where
  "dev_isseekable n w = do { dev \<leftarrow> devices w (vn_data n); Some (d_blocks dev \<noteq> 0) }"

definition dev_truncate :: "vnode \<Rightarrow> u64 \<Rightarrow> 'f world \<Rightarrow> (unit, 'f) vfs_result" where
  "dev_truncate n len w = do {
     dev \<leftarrow> devices w (vn_data n);
     Some (if d_blocks dev > 0 \<and> ucast (d_blocks dev * d_blocksize dev) = len then Inr () else Inl EINVAL, w) }"

section \<open>Reference counts\<close>

definition vnode_init :: "ptr \<Rightarrow> vnode_ops \<Rightarrow> ptr \<Rightarrow> ptr \<Rightarrow> 'f world \<Rightarrow> 'f world option" where
  "vnode_init vn ops fs fsdata w = do {
     kassert (vn \<noteq> 0);
     kassert (ops \<noteq> No_vnode_ops);
     Some (w\<lparr>vnodes := (vnodes w)(vn \<mapsto> \<lparr>vn_refcount = 1, vn_fs = fs, vn_data = fsdata, vn_ops = ops\<rparr>)\<rparr>) }"

definition vnode_cleanup :: "ptr \<Rightarrow> 'f world \<Rightarrow> 'f world option" where
  "vnode_cleanup vn w = do {
     n \<leftarrow> vnodes w vn;
     kassert (vn_refcount n = 1);
     Some (w\<lparr>vnodes := (vnodes w)(vn \<mapsto> \<lparr>vn_refcount = 0, vn_fs = 0, vn_data = 0, vn_ops = No_vnode_ops\<rparr>)\<rparr>) }"

text \<open>\<open>vnode_check\<close> panics on a null vnode, a null table of operations and a count that is not positive.\<close>

definition vnode_check :: "ptr \<Rightarrow> 'f world \<Rightarrow> vnode option" where
  "vnode_check v w = do {
     kassert (v \<noteq> 0);
     n \<leftarrow> vnodes w v;
     kassert (vn_ops n \<noteq> No_vnode_ops);
     kassert (vn_refcount n > 0);
     Some n }"

definition vnode_incref :: "ptr \<Rightarrow> 'f world \<Rightarrow> 'f world option" where
  "vnode_incref vn w = do {
     kassert (vn \<noteq> 0);
     n \<leftarrow> vnodes w vn;
     Some (w\<lparr>vnodes := (vnodes w)(vn \<mapsto> n\<lparr>vn_refcount := vn_refcount n + 1\<rparr>)\<rparr>) }"

definition VOP_RECLAIM :: "'f fsops \<Rightarrow> ptr \<Rightarrow> 'f world \<Rightarrow> (unit, 'f) vfs_result" where
  "VOP_RECLAIM F v w = do {
     n \<leftarrow> vnode_check v w;
     if vn_ops n = Dev_vnode_ops then dev_reclaim n w else fs_reclaim F v w }"

definition vnode_decref :: "'f fsops \<Rightarrow> ptr \<Rightarrow> 'f world \<Rightarrow> 'f world option" where
  "vnode_decref F vn w = do {
     kassert (vn \<noteq> 0);
     n \<leftarrow> vnodes w vn;
     kassert (vn_refcount n > 0);
     if vn_refcount n > 1 then Some (w\<lparr>vnodes := (vnodes w)(vn \<mapsto> n\<lparr>vn_refcount := vn_refcount n - 1\<rparr>)\<rparr>)
     else do { (r, w) \<leftarrow> VOP_RECLAIM F vn w; Some w } }"

section \<open>Vnode operations\<close>

text \<open>The macros of \<open>vnode.h\<close>: a check of the vnode, then the function of its table.\<close>

definition VOP_EACHOPEN :: "'f fsops \<Rightarrow> ptr \<Rightarrow> u32 \<Rightarrow> 'f world \<Rightarrow> (unit, 'f) vfs_result" where
  "VOP_EACHOPEN F v flags w = do {
     n \<leftarrow> vnode_check v w;
     if vn_ops n = Dev_vnode_ops then dev_eachopen F n flags w else fs_eachopen F v flags w }"

definition VOP_READ :: "'f fsops \<Rightarrow> curspace \<Rightarrow> ptr \<Rightarrow> ptr \<Rightarrow> uio \<Rightarrow> mem \<Rightarrow> 'f world \<Rightarrow> ((errno + unit) \<times> uio \<times> mem \<times> 'f world) option" where
  "VOP_READ F c chp v u m w = do {
     n \<leftarrow> vnode_check v w;
     if vn_ops n = Dev_vnode_ops then dev_read F c chp n u m w else fs_read F v u m w }"

definition VOP_WRITE :: "'f fsops \<Rightarrow> curspace \<Rightarrow> ptr \<Rightarrow> ptr \<Rightarrow> uio \<Rightarrow> mem \<Rightarrow> 'f world \<Rightarrow> ((errno + unit) \<times> uio \<times> mem \<times> 'f world) option" where
  "VOP_WRITE F c chp v u m w = do {
     n \<leftarrow> vnode_check v w;
     if vn_ops n = Dev_vnode_ops then dev_write F c chp n u m w else fs_write F v u m w }"

definition VOP_STAT :: "'f fsops \<Rightarrow> ptr \<Rightarrow> 'f world \<Rightarrow> (u64, 'f) vfs_result" where
  "VOP_STAT F v w = do {
     n \<leftarrow> vnode_check v w;
     if vn_ops n = Dev_vnode_ops then dev_stat n w else fs_stat F v w }"

definition VOP_GETTYPE :: "'f fsops \<Rightarrow> ptr \<Rightarrow> 'f world \<Rightarrow> (u32, 'f) vfs_result" where
  "VOP_GETTYPE F v w = do {
     n \<leftarrow> vnode_check v w;
     if vn_ops n = Dev_vnode_ops then dev_gettype n w else fs_gettype F v w }"

definition VOP_ISSEEKABLE :: "'f fsops \<Rightarrow> ptr \<Rightarrow> 'f world \<Rightarrow> bool option" where
  "VOP_ISSEEKABLE F v w = do {
     n \<leftarrow> vnode_check v w;
     if vn_ops n = Dev_vnode_ops then dev_isseekable n w else Some (fs_isseekable F v w) }"

definition VOP_TRUNCATE :: "'f fsops \<Rightarrow> ptr \<Rightarrow> u64 \<Rightarrow> 'f world \<Rightarrow> (unit, 'f) vfs_result" where
  "VOP_TRUNCATE F v len w = do {
     n \<leftarrow> vnode_check v w;
     if vn_ops n = Dev_vnode_ops then dev_truncate n len w else fs_truncate F v len w }"

text \<open>The directory operations of a device vnode are the functions of \<open>vfsfail.c\<close>.\<close>

definition vopfail_notdir :: "'f world \<Rightarrow> ('a, 'f) vfs_result" where
  "vopfail_notdir w = Some (Inl ENOTDIR, w)"

definition VOP_CREAT :: "'f fsops \<Rightarrow> ptr \<Rightarrow> path \<Rightarrow> bool \<Rightarrow> u32 \<Rightarrow> 'f world \<Rightarrow> (ptr, 'f) vfs_result" where
  "VOP_CREAT F v name excl mode w = do {
     n \<leftarrow> vnode_check v w;
     if vn_ops n = Dev_vnode_ops then vopfail_notdir w else fs_creat F v name excl mode w }"

definition VOP_DIROP :: "'f fsops \<Rightarrow> ptr \<Rightarrow> dirop \<Rightarrow> 'f world \<Rightarrow> (unit, 'f) vfs_result" where
  "VOP_DIROP F v op w = do {
     n \<leftarrow> vnode_check v w;
     if vn_ops n = Dev_vnode_ops then vopfail_notdir w else fs_dirop F v op w }"

definition dev_lookup :: "ptr \<Rightarrow> path \<Rightarrow> 'f world \<Rightarrow> (ptr, 'f) vfs_result" where
  "dev_lookup dir pathname w =
    (if length pathname > 0 then Some (Inl ENOENT, w)
     else do { w \<leftarrow> vnode_incref dir w; Some (Inr dir, w) })"

definition VOP_LOOKUP :: "'f fsops \<Rightarrow> ptr \<Rightarrow> path \<Rightarrow> 'f world \<Rightarrow> (ptr, 'f) vfs_result" where
  "VOP_LOOKUP F v pathname w = do {
     n \<leftarrow> vnode_check v w;
     if vn_ops n = Dev_vnode_ops then dev_lookup v pathname w else fs_lookup F v pathname w }"

definition VOP_LOOKPARENT :: "'f fsops \<Rightarrow> ptr \<Rightarrow> path \<Rightarrow> 'f world \<Rightarrow> (ptr \<times> path, 'f) vfs_result" where
  "VOP_LOOKPARENT F v pathname w = do {
     n \<leftarrow> vnode_check v w;
     if vn_ops n = Dev_vnode_ops then vopfail_notdir w else fs_lookparent F v pathname w }"

text \<open>The outcome of \<open>kmalloc\<close> is an argument, 0 if it fails.\<close>

definition dev_create_vnode :: "ptr \<Rightarrow> ptr \<Rightarrow> 'f world \<Rightarrow> (ptr \<times> 'f world) option" where
  "dev_create_vnode v dev w =
    (if v = 0 then Some (0, w) else do { w \<leftarrow> vnode_init v Dev_vnode_ops 0 dev w; Some (v, w) })"

definition dev_uncreate_vnode :: "ptr \<Rightarrow> 'f world \<Rightarrow> 'f world option" where
  "dev_uncreate_vnode vn w = do {
     n \<leftarrow> vnodes w vn;
     kassert (vn_ops n = Dev_vnode_ops);
     w \<leftarrow> vnode_cleanup vn w;
     Some (w\<lparr>vnodes := (vnodes w)(vn := None)\<rparr>) }"

end
