(* ===== verification/Vfs.thy ===== *)
theory Vfs
  imports Vnode
begin

text \<open>
  \<open>kern/vfs/vfslist.c\<close>, \<open>vfslookup.c\<close>, \<open>vfscwd.c\<close> and \<open>vfspath.c\<close>: the table of named devices, pathname
  translation, the current directory, and the operations on pathnames. A path is the list of its bytes;
  that \<open>getdevice\<close> cuts it in place is not visible, since no caller uses a path again. The big
  lock is a counter, since \<open>lock_do_i_hold\<close> always returns true and the lock does nothing. The
  outcomes of allocations are arguments.
\<close>

section \<open>The big lock\<close>

definition vfs_biglock_acquire :: "'f world \<Rightarrow> 'f world" where
  "vfs_biglock_acquire w = w\<lparr>vfs_biglock_depth := vfs_biglock_depth w + 1\<rparr>"

definition vfs_biglock_release :: "'f world \<Rightarrow> 'f world option" where
  "vfs_biglock_release w = do {
     kassert (vfs_biglock_depth w > 0);
     Some (w\<lparr>vfs_biglock_depth := vfs_biglock_depth w - 1\<rparr>) }"

text \<open>Release the lock and return.\<close>

definition unlock_return :: "errno + 'a \<Rightarrow> 'f world \<Rightarrow> ('a, 'f) vfs_result" where
  "unlock_return r w = do { w \<leftarrow> vfs_biglock_release w; Some (r, w) }"

section \<open>The table of devices\<close>

definition mounted :: "knowndev \<Rightarrow> ptr option" where
  "mounted kd = (case kd_fs kd of Fs fs \<Rightarrow> Some fs | _ \<Rightarrow> None)"

fun getroot_loop :: "'f fsops \<Rightarrow> path \<Rightarrow> knowndev list \<Rightarrow> 'f world \<Rightarrow> (ptr, 'f) vfs_result" where
  "getroot_loop F devname [] w = Some (Inl ENODEV, w)"
| "getroot_loop F devname (kd # kds) w =
    (case mounted kd of
       Some fs \<Rightarrow>
         if kd_name kd = devname \<or> fsop_getvolname F fs w = Some devname then fsop_getroot F fs w
         else if kd_rawname kd = Some devname then do {
           kassert (kd_device kd \<noteq> 0);
           w \<leftarrow> vnode_incref (kd_vnode kd) w;
           Some (Inr (kd_vnode kd), w) }
         else getroot_loop F devname kds w
     | None \<Rightarrow>
         if kd_rawname kd \<noteq> None \<and> kd_name kd = devname then Some (Inl ENXIO, w)
         else if kd_name kd = devname then do {
           kassert (kd_fs kd = No_fs);
           kassert (kd_device kd \<noteq> 0);
           w \<leftarrow> vnode_incref (kd_vnode kd) w;
           Some (Inr (kd_vnode kd), w) }
         else if kd_rawname kd = Some devname then do {
           kassert (kd_device kd \<noteq> 0);
           w \<leftarrow> vnode_incref (kd_vnode kd) w;
           Some (Inr (kd_vnode kd), w) }
         else getroot_loop F devname kds w)"

definition vfs_getroot :: "'f fsops \<Rightarrow> path \<Rightarrow> 'f world \<Rightarrow> (ptr, 'f) vfs_result" where
  "vfs_getroot F devname w = getroot_loop F devname (knowndevs w) w"

definition vfs_getdevname :: "ptr \<Rightarrow> 'f world \<Rightarrow> path option option" where
  "vfs_getdevname fs w = do {
     kassert (fs \<noteq> 0);
     Some (map_option kd_name (List.find (\<lambda>kd. kd_fs kd = Fs fs) (knowndevs w))) }"

definition mkrawname :: "path \<Rightarrow> path" where
  "mkrawname name = name @ [114, 97, 119]"

definition samestring :: "path option \<Rightarrow> path option \<Rightarrow> bool" where
  "samestring a b \<longleftrightarrow> a \<noteq> None \<and> b \<noteq> None \<and> a = b"

definition samestring3 :: "path option \<Rightarrow> path option \<Rightarrow> path option \<Rightarrow> path option \<Rightarrow> bool" where
  "samestring3 a b c d \<longleftrightarrow> samestring a b \<or> samestring a c \<or> samestring a d"

definition badnames :: "'f fsops \<Rightarrow> path option \<Rightarrow> path option \<Rightarrow> path option \<Rightarrow> 'f world \<Rightarrow> bool" where
  "badnames F n1 n2 n3 w \<longleftrightarrow> list_ex (\<lambda>kd.
     (case mounted kd of None \<Rightarrow> False | Some fs \<Rightarrow> samestring3 (fsop_getvolname F fs w) n1 n2 n3) \<or>
     samestring3 (kd_rawname kd) n1 n2 n3 \<or> samestring3 (Some (kd_name kd)) n1 n2 n3) (knowndevs w)"

text \<open>
  \<open>vfs_doadd\<close>: \<open>al\<close> says which of the allocations succeed (the name, the raw name, the entry, the place in the
  table) and \<open>v\<close> is the address of the new vnode, 0 if there is none.
\<close>

record allocs =
  al_name :: bool
  al_rawname :: bool
  al_kd :: bool
  al_slot :: bool

definition vfs_doadd :: "'f fsops \<Rightarrow> allocs \<Rightarrow> ptr \<Rightarrow> path \<Rightarrow> bool \<Rightarrow> ptr \<Rightarrow> kd_fs \<Rightarrow> 'f world \<Rightarrow> (unit, 'f) vfs_result" where
  "vfs_doadd F al v dname mountable dev fs w = do {
     let w = vfs_biglock_acquire w;
     if \<not> al_name al then unlock_return (Inl ENOMEM) w
     else do {
       let rawname = (if mountable then Some (mkrawname dname) else None);
       if mountable \<and> \<not> al_rawname al then unlock_return (Inl ENOMEM) w
       else do {
         (vn, w) \<leftarrow> dev_create_vnode v dev w;
         if vn = 0 then unlock_return (Inl ENOMEM) w
         else if \<not> al_kd al then do { w \<leftarrow> dev_uncreate_vnode vn w; unlock_return (Inl ENOMEM) w }
         else do {
           let kd = \<lparr>kd_name = dname, kd_rawname = rawname, kd_device = dev, kd_vnode = vn, kd_fs = fs\<rparr>;
           let volname = (case fs of Fs p \<Rightarrow> fsop_getvolname F p w | _ \<Rightarrow> None);
           if badnames F (Some dname) rawname volname w then do { w \<leftarrow> dev_uncreate_vnode vn w; unlock_return (Inl EEXIST) w }
           else if \<not> al_slot al then do { w \<leftarrow> dev_uncreate_vnode vn w; unlock_return (Inl ENOMEM) w }
           else do {
             let i = length (knowndevs w);
             let w = w\<lparr>knowndevs := knowndevs w @ [kd]\<rparr>;
             let w = (if dev \<noteq> 0 then w\<lparr>devices := (devices w)(dev := map_option (d_devnumber_update (\<lambda>_. of_nat i + 1)) (devices w dev))\<rparr> else w);
             unlock_return (Inr ()) w } } } } }"

definition vfs_adddev :: "'f fsops \<Rightarrow> allocs \<Rightarrow> ptr \<Rightarrow> path \<Rightarrow> ptr \<Rightarrow> bool \<Rightarrow> 'f world \<Rightarrow> (unit, 'f) vfs_result" where
  "vfs_adddev F al v devname dev mountable w = vfs_doadd F al v devname mountable dev No_fs w"

definition vfs_addfs :: "'f fsops \<Rightarrow> allocs \<Rightarrow> ptr \<Rightarrow> path \<Rightarrow> ptr \<Rightarrow> 'f world \<Rightarrow> (unit, 'f) vfs_result" where
  "vfs_addfs F al v devname fs w = vfs_doadd F al v devname False 0 (Fs fs) w"

text \<open>The index of the entry of a mountable device.\<close>

fun findmount :: "path \<Rightarrow> knowndev list \<Rightarrow> nat option" where
  "findmount devname [] = None"
| "findmount devname (kd # kds) =
    (if kd_rawname kd \<noteq> None \<and> devname = kd_name kd then Some 0 else map_option Suc (findmount devname kds))"

definition set_kd_fs :: "nat \<Rightarrow> kd_fs \<Rightarrow> 'f world \<Rightarrow> 'f world" where
  "set_kd_fs i fs w = w\<lparr>knowndevs := (knowndevs w)[i := (knowndevs w ! i)\<lparr>kd_fs := fs\<rparr>]\<rparr>"

text \<open>\<open>mountfunc\<close> is given the device and returns the file system.\<close>

definition vfs_mount :: "(ptr \<Rightarrow> 'f world \<Rightarrow> (ptr, 'f) vfs_result) \<Rightarrow> path \<Rightarrow> 'f world \<Rightarrow> (unit, 'f) vfs_result" where
  "vfs_mount mountfunc devname w = do {
     let w = vfs_biglock_acquire w;
     case findmount devname (knowndevs w) of
       None \<Rightarrow> unlock_return (Inl ENODEV) w
     | Some i \<Rightarrow>
         let kd = knowndevs w ! i in
         if kd_fs kd \<noteq> No_fs then unlock_return (Inl EBUSY) w
         else do {
           kassert (kd_device kd \<noteq> 0);
           (r, w) \<leftarrow> mountfunc (kd_device kd) w;
           case r of Inl e \<Rightarrow> unlock_return (Inl e) w
           | Inr fs \<Rightarrow> do {
               kassert (fs \<noteq> 0);
               unlock_return (Inr ()) (set_kd_fs i (Fs fs) w) } } }"

text \<open>A trailing colon of the device name is dropped; \<open>dup\<close> says whether \<open>kstrdup\<close> succeeds.\<close>

definition vfs_swapon :: "bool \<Rightarrow> path \<Rightarrow> 'f world \<Rightarrow> (ptr, 'f) vfs_result" where
  "vfs_swapon dup devname w =
    (let colon = devname \<noteq> [] \<and> last devname = 58 in
     if colon \<and> \<not> dup then Some (Inl ENOMEM, w)
     else do {
       let devname = (if colon then butlast devname else devname);
       let w = vfs_biglock_acquire w;
       case findmount devname (knowndevs w) of
         None \<Rightarrow> unlock_return (Inl ENODEV) w
       | Some i \<Rightarrow>
           let kd = knowndevs w ! i in
           if kd_fs kd \<noteq> No_fs then unlock_return (Inl EBUSY) w
           else do {
             kassert (kd_device kd \<noteq> 0);
             w \<leftarrow> vnode_incref (kd_vnode kd) (set_kd_fs i SWAP_FS w);
             unlock_return (Inr (kd_vnode kd)) w } })"

definition vfs_unmount :: "'f fsops \<Rightarrow> path \<Rightarrow> 'f world \<Rightarrow> (unit, 'f) vfs_result" where
  "vfs_unmount F devname w = do {
     let w = vfs_biglock_acquire w;
     case findmount devname (knowndevs w) of
       None \<Rightarrow> unlock_return (Inl ENODEV) w
     | Some i \<Rightarrow> (case kd_fs (knowndevs w ! i) of
           Fs fs \<Rightarrow> do {
             kassert (kd_device (knowndevs w ! i) \<noteq> 0);
             (r, w) \<leftarrow> fsop_sync F fs w;
             case r of Inl e \<Rightarrow> unlock_return (Inl e) w
             | Inr _ \<Rightarrow> do {
                 (r, w) \<leftarrow> fsop_unmount F fs w;
                 case r of Inl e \<Rightarrow> unlock_return (Inl e) w
                 | Inr _ \<Rightarrow> unlock_return (Inr ()) (set_kd_fs i No_fs w) } }
         | _ \<Rightarrow> unlock_return (Inl EINVAL) w) }"

definition vfs_swapoff :: "path \<Rightarrow> 'f world \<Rightarrow> (unit, 'f) vfs_result" where
  "vfs_swapoff devname w = do {
     let w = vfs_biglock_acquire w;
     case findmount devname (knowndevs w) of
       None \<Rightarrow> unlock_return (Inl ENODEV) w
     | Some i \<Rightarrow>
         if kd_fs (knowndevs w ! i) \<noteq> SWAP_FS then unlock_return (Inl EINVAL) w
         else unlock_return (Inr ()) (set_kd_fs i No_fs w) }"

fun sync_loop :: "'f fsops \<Rightarrow> knowndev list \<Rightarrow> 'f world \<Rightarrow> 'f world option" where
  "sync_loop F [] w = Some w"
| "sync_loop F (kd # kds) w =
    (case mounted kd of None \<Rightarrow> sync_loop F kds w
     | Some fs \<Rightarrow> do { (r, w) \<leftarrow> fsop_sync F fs w; sync_loop F kds w })"

definition vfs_sync :: "'f fsops \<Rightarrow> 'f world \<Rightarrow> (unit, 'f) vfs_result" where
  "vfs_sync F w = do {
     let w = vfs_biglock_acquire w;
     w \<leftarrow> sync_loop F (knowndevs w) w;
     unlock_return (Inr ()) w }"

text \<open>One round of \<open>vfs_unmountall\<close>: a second attempt to sync if the first fails, and the table entry is kept unless the unmount succeeds.\<close>

definition unmount_one :: "'f fsops \<Rightarrow> nat \<Rightarrow> 'f world \<Rightarrow> 'f world option" where
  "unmount_one F i w =
    (let kd = knowndevs w ! i in
     if kd_rawname kd = None then Some w
     else (case kd_fs kd of
         No_fs \<Rightarrow> Some w
       | SWAP_FS \<Rightarrow> Some (set_kd_fs i No_fs w)
       | Fs fs \<Rightarrow> do {
           (r, w) \<leftarrow> fsop_sync F fs w;
           (r, w) \<leftarrow> (case r of Inr _ \<Rightarrow> Some (r, w) | Inl _ \<Rightarrow> fsop_sync F fs w);
           case r of Inl _ \<Rightarrow> Some w
           | Inr _ \<Rightarrow> do {
               (r, w) \<leftarrow> fsop_unmount F fs w;
               case r of Inl _ \<Rightarrow> Some w | Inr _ \<Rightarrow> Some (set_kd_fs i No_fs w) } }))"

fun unmount_loop :: "'f fsops \<Rightarrow> nat list \<Rightarrow> 'f world \<Rightarrow> 'f world option" where
  "unmount_loop F [] w = Some w"
| "unmount_loop F (i # is) w = do { w \<leftarrow> unmount_one F i w; unmount_loop F is w }"

definition vfs_unmountall :: "'f fsops \<Rightarrow> 'f world \<Rightarrow> (unit, 'f) vfs_result" where
  "vfs_unmountall F w = do {
     let w = vfs_biglock_acquire w;
     w \<leftarrow> unmount_loop F [0..<length (knowndevs w)] w;
     unlock_return (Inr ()) w }"

section \<open>Pathname translation\<close>

definition vfs_getcurdir :: "'f world \<Rightarrow> (ptr, 'f) vfs_result" where
  "vfs_getcurdir w =
    (if p_cwd w \<noteq> 0 then do { w' \<leftarrow> vnode_incref (p_cwd w) w; Some (Inr (p_cwd w), w') }
     else Some (Inl ENOENT, w))"

text \<open>The first colon or slash of a path, and its index.\<close>

fun first_mark :: "path \<Rightarrow> (u8 \<times> nat) option" where
  "first_mark [] = None"
| "first_mark (ch # s) = (if ch = 58 \<or> ch = 47 then Some (ch, 0) else map_option (\<lambda>(c, i). (c, Suc i)) (first_mark s))"

definition skip_slashes :: "path \<Rightarrow> path" where
  "skip_slashes s = dropWhile (\<lambda>ch. ch = 47) s"

definition getdevice :: "'f fsops \<Rightarrow> path \<Rightarrow> 'f world \<Rightarrow> (path \<times> ptr, 'f) vfs_result" where
  "getdevice F path w =
    (if path = [] then Some (Inl EINVAL, w)
     else
       let colon = (case first_mark path of Some (c, i) \<Rightarrow> if c = 58 then Some i else None | None \<Rightarrow> None);
           slash = (case first_mark path of Some (c, i) \<Rightarrow> if c = 47 then Some i else None | None \<Rightarrow> None) in
       if colon = None \<and> slash \<noteq> Some 0 then do {
         (r, w) \<leftarrow> vfs_getcurdir w;
         Some (map_sum id (\<lambda>v. (path, v)) r, w) }
       else (case colon of
           Some (Suc i) \<Rightarrow> do {
             (r, w) \<leftarrow> vfs_getroot F (take (Suc i) path) w;
             Some (map_sum id (\<lambda>v. (skip_slashes (drop (Suc (Suc i)) path), v)) r, w) }
         | _ \<Rightarrow>
             if hd path = 47 then
               if bootfs_vnode w = 0 then Some (Inl ENOENT, w)
               else do {
                 w \<leftarrow> vnode_incref (bootfs_vnode w) w;
                 Some (Inr (skip_slashes (tl path), bootfs_vnode w), w) }
             else do {
               (r, w) \<leftarrow> vfs_getcurdir w;
               case r of Inl e \<Rightarrow> Some (Inl e, w)
               | Inr vn \<Rightarrow> do {
                   n \<leftarrow> vnodes w vn;
                   kassert (vn_fs n \<noteq> 0);
                   (r, w) \<leftarrow> fsop_getroot F (vn_fs n) w;
                   w \<leftarrow> vnode_decref F vn w;
                   Some (map_sum id (\<lambda>v. (skip_slashes (tl path), v)) r, w) } }))"

definition vfs_lookparent :: "'f fsops \<Rightarrow> path \<Rightarrow> 'f world \<Rightarrow> (ptr \<times> path, 'f) vfs_result" where
  "vfs_lookparent F path w = do {
     (r, w) \<leftarrow> getdevice F path (vfs_biglock_acquire w);
     case r of Inl e \<Rightarrow> unlock_return (Inl e) w
     | Inr (path, startvn) \<Rightarrow> do {
         (r, w) \<leftarrow> (if path = [] then Some (Inl EINVAL, w) else VOP_LOOKPARENT F startvn path w);
         w \<leftarrow> vnode_decref F startvn w;
         unlock_return r w } }"

definition vfs_lookup :: "'f fsops \<Rightarrow> path \<Rightarrow> 'f world \<Rightarrow> (ptr, 'f) vfs_result" where
  "vfs_lookup F path w = do {
     (r, w) \<leftarrow> getdevice F path (vfs_biglock_acquire w);
     case r of Inl e \<Rightarrow> unlock_return (Inl e) w
     | Inr (path, startvn) \<Rightarrow>
         if path = [] then unlock_return (Inr startvn) w
         else do {
           (r, w) \<leftarrow> VOP_LOOKUP F startvn path w;
           w \<leftarrow> vnode_decref F startvn w;
           unlock_return r w } }"

section \<open>The current directory\<close>

definition vfs_setcurdir :: "'f fsops \<Rightarrow> ptr \<Rightarrow> 'f world \<Rightarrow> (unit, 'f) vfs_result" where
  "vfs_setcurdir F dir w = do {
     (r, w) \<leftarrow> VOP_GETTYPE F dir w;
     case r of Inl e \<Rightarrow> Some (Inl e, w)
     | Inr vtype \<Rightarrow>
         if vtype \<noteq> S_IFDIR then Some (Inl ENOTDIR, w)
         else do {
           w \<leftarrow> vnode_incref dir w;
           let old = p_cwd w;
           let w = w\<lparr>p_cwd := dir\<rparr>;
           w \<leftarrow> (if old \<noteq> 0 then vnode_decref F old w else Some w);
           Some (Inr (), w) } }"

definition vfs_clearcurdir :: "'f fsops \<Rightarrow> 'f world \<Rightarrow> (unit, 'f) vfs_result" where
  "vfs_clearcurdir F w = do {
     let old = p_cwd w;
     let w = w\<lparr>p_cwd := 0\<rparr>;
     w \<leftarrow> (if old \<noteq> 0 then vnode_decref F old w else Some w);
     Some (Inr (), w) }"

definition vfs_chdir :: "'f fsops \<Rightarrow> path \<Rightarrow> 'f world \<Rightarrow> (unit, 'f) vfs_result" where
  "vfs_chdir F path w = do {
     (r, w) \<leftarrow> vfs_lookup F path w;
     case r of Inl e \<Rightarrow> Some (Inl e, w)
     | Inr vn \<Rightarrow> do {
         (r, w) \<leftarrow> vfs_setcurdir F vn w;
         w \<leftarrow> vnode_decref F vn w;
         Some (r, w) } }"

definition change_bootfs :: "'f fsops \<Rightarrow> ptr \<Rightarrow> 'f world \<Rightarrow> 'f world option" where
  "change_bootfs F newvn w = do {
     let oldvn = bootfs_vnode w;
     let w = w\<lparr>bootfs_vnode := newvn\<rparr>;
     if oldvn \<noteq> 0 then vnode_decref F oldvn w else Some w }"

text \<open>
  \<open>vfs_setbootfs\<close>: the name is cut to the 254 characters that fit the buffer with the terminator. \<open>s\<close> points to
  the first colon, so that the string at \<open>s\<close> is never empty.
\<close>

definition vfs_setbootfs :: "'f fsops \<Rightarrow> path \<Rightarrow> 'f world \<Rightarrow> (unit, 'f) vfs_result" where
  "vfs_setbootfs F fsname w = do {
     let w = vfs_biglock_acquire w;
     let tmp = take 254 fsname;
     let s = dropWhile (\<lambda>ch. ch \<noteq> 58) tmp;
     if s \<noteq> [] \<and> length s > 0 then unlock_return (Inl EINVAL) w
     else do {
       (r, w) \<leftarrow> vfs_chdir F (if s \<noteq> [] then tmp else tmp @ [58]) w;
       case r of Inl e \<Rightarrow> unlock_return (Inl e) w
       | Inr _ \<Rightarrow> do {
           (r, w) \<leftarrow> vfs_getcurdir w;
           case r of Inl e \<Rightarrow> unlock_return (Inl e) w
           | Inr newguy \<Rightarrow> do {
               w \<leftarrow> change_bootfs F newguy w;
               unlock_return (Inr ()) w } } } }"

definition vfs_clearbootfs :: "'f fsops \<Rightarrow> 'f world \<Rightarrow> 'f world option" where
  "vfs_clearbootfs F w = do {
     w \<leftarrow> change_bootfs F 0 (vfs_biglock_acquire w);
     vfs_biglock_release w }"

section \<open>Operations on pathnames\<close>

definition O_ACCMODE :: u32 where "O_ACCMODE = 3"
definition O_RDONLY :: u32 where "O_RDONLY = 0"
definition O_WRONLY :: u32 where "O_WRONLY = 1"
definition O_RDWR :: u32 where "O_RDWR = 2"
definition O_CREAT :: u32 where "O_CREAT = 4"
definition O_EXCL :: u32 where "O_EXCL = 8"
definition O_TRUNC :: u32 where "O_TRUNC = 16"

definition vfs_open :: "'f fsops \<Rightarrow> path \<Rightarrow> u32 \<Rightarrow> u32 \<Rightarrow> 'f world \<Rightarrow> (ptr, 'f) vfs_result" where
  "vfs_open F path openflags mode w =
    (let how = openflags AND O_ACCMODE in
     if how \<noteq> O_RDONLY \<and> how \<noteq> O_WRONLY \<and> how \<noteq> O_RDWR then Some (Inl EINVAL, w)
     else do {
       let canwrite = (how = O_WRONLY \<or> how = O_RDWR);
       (r, w) \<leftarrow>
         (if openflags AND O_CREAT \<noteq> 0 then do {
            (r, w) \<leftarrow> vfs_lookparent F path w;
            case r of Inl e \<Rightarrow> Some (Inl e, w)
            | Inr (dir, name) \<Rightarrow> do {
                (r, w) \<leftarrow> VOP_CREAT F dir name (openflags AND O_EXCL \<noteq> 0) mode w;
                w \<leftarrow> vnode_decref F dir w;
                Some (r, w) } }
          else vfs_lookup F path w);
       case r of Inl e \<Rightarrow> Some (Inl e, w)
       | Inr vn \<Rightarrow> do {
           kassert (vn \<noteq> 0);
           (r, w) \<leftarrow> VOP_EACHOPEN F vn openflags w;
           case r of Inl e \<Rightarrow> do { w \<leftarrow> vnode_decref F vn w; Some (Inl e, w) }
           | Inr _ \<Rightarrow>
               if openflags AND O_TRUNC \<noteq> 0 then do {
                 (r, w) \<leftarrow> (if \<not> canwrite then Some (Inl EINVAL, w) else VOP_TRUNCATE F vn 0 w);
                 case r of Inl e \<Rightarrow> do { w \<leftarrow> vnode_decref F vn w; Some (Inl e, w) }
                 | Inr _ \<Rightarrow> Some (Inr vn, w) }
               else Some (Inr vn, w) } })"

definition vfs_close :: "'f fsops \<Rightarrow> ptr \<Rightarrow> 'f world \<Rightarrow> 'f world option" where
  "vfs_close F vn w = vnode_decref F vn w"

text \<open>\<open>vfs_remove\<close>, \<open>vfs_mkdir\<close>, \<open>vfs_rmdir\<close> and \<open>vfs_symlink\<close>: an operation on the last component of a path in its directory.\<close>

definition vfs_in_parent :: "'f fsops \<Rightarrow> (path \<Rightarrow> dirop) \<Rightarrow> path \<Rightarrow> 'f world \<Rightarrow> (unit, 'f) vfs_result" where
  "vfs_in_parent F op path w = do {
     (r, w) \<leftarrow> vfs_lookparent F path w;
     case r of Inl e \<Rightarrow> Some (Inl e, w)
     | Inr (dir, name) \<Rightarrow> do {
         (r, w) \<leftarrow> VOP_DIROP F dir (op name) w;
         w \<leftarrow> vnode_decref F dir w;
         Some (r, w) } }"

definition vfs_remove :: "'f fsops \<Rightarrow> path \<Rightarrow> 'f world \<Rightarrow> (unit, 'f) vfs_result" where
  "vfs_remove F path w = vfs_in_parent F Op_remove path w"

definition vfs_mkdir :: "'f fsops \<Rightarrow> path \<Rightarrow> u32 \<Rightarrow> 'f world \<Rightarrow> (unit, 'f) vfs_result" where
  "vfs_mkdir F path mode w = vfs_in_parent F (\<lambda>name. Op_mkdir name mode) path w"

definition vfs_rmdir :: "'f fsops \<Rightarrow> path \<Rightarrow> 'f world \<Rightarrow> (unit, 'f) vfs_result" where
  "vfs_rmdir F path w = vfs_in_parent F Op_rmdir path w"

text \<open>
  \<open>vop_symlink\<close> takes the contents first and the name second, which \<open>Op_symlink\<close> keeps; \<open>vfs_symlink\<close> passes
  the name first.
\<close>

definition vfs_symlink :: "'f fsops \<Rightarrow> path \<Rightarrow> path \<Rightarrow> 'f world \<Rightarrow> (unit, 'f) vfs_result" where
  "vfs_symlink F contents path w = vfs_in_parent F (\<lambda>name. Op_symlink name contents) path w"

definition same_fs :: "ptr \<Rightarrow> ptr \<Rightarrow> 'f world \<Rightarrow> bool option" where
  "same_fs a b w = do {
     x \<leftarrow> vnodes w a;
     y \<leftarrow> vnodes w b;
     Some (vn_fs x \<noteq> 0 \<and> vn_fs y \<noteq> 0 \<and> vn_fs x = vn_fs y) }"

definition vfs_rename :: "'f fsops \<Rightarrow> path \<Rightarrow> path \<Rightarrow> 'f world \<Rightarrow> (unit, 'f) vfs_result" where
  "vfs_rename F oldpath newpath w = do {
     (r, w) \<leftarrow> vfs_lookparent F oldpath w;
     case r of Inl e \<Rightarrow> Some (Inl e, w)
     | Inr (olddir, oldname) \<Rightarrow> do {
         (r, w) \<leftarrow> vfs_lookparent F newpath w;
         case r of Inl e \<Rightarrow> do { w \<leftarrow> vnode_decref F olddir w; Some (Inl e, w) }
         | Inr (newdir, newname) \<Rightarrow> do {
             same \<leftarrow> same_fs olddir newdir w;
             (r, w) \<leftarrow> (if same then VOP_DIROP F olddir (Op_rename oldname newdir newname) w else Some (Inl EXDEV, w));
             w \<leftarrow> vnode_decref F newdir w;
             w \<leftarrow> vnode_decref F olddir w;
             Some (r, w) } } }"

definition vfs_link :: "'f fsops \<Rightarrow> path \<Rightarrow> path \<Rightarrow> 'f world \<Rightarrow> (unit, 'f) vfs_result" where
  "vfs_link F oldpath newpath w = do {
     (r, w) \<leftarrow> vfs_lookup F oldpath w;
     case r of Inl e \<Rightarrow> Some (Inl e, w)
     | Inr oldfile \<Rightarrow> do {
         (r, w) \<leftarrow> vfs_lookparent F newpath w;
         case r of Inl e \<Rightarrow> do { w \<leftarrow> vnode_decref F oldfile w; Some (Inl e, w) }
         | Inr (newdir, newname) \<Rightarrow> do {
             same \<leftarrow> same_fs oldfile newdir w;
             (r, w) \<leftarrow> (if same then VOP_DIROP F newdir (Op_link newname oldfile) w else Some (Inl EXDEV, w));
             w \<leftarrow> vnode_decref F newdir w;
             w \<leftarrow> vnode_decref F oldfile w;
             Some (r, w) } } }"

section \<open>Opening devices\<close>

text \<open>
  The system before anything is mounted: each device of the table has its vnode, of which the table holds one
  reference. \<open>drv\<close> says what opening a device of another driver returns.
\<close>

definition dev_vnode :: "'f world \<Rightarrow> ptr \<Rightarrow> bool" where
  "dev_vnode w v \<longleftrightarrow> v \<noteq> 0 \<and> (case vnodes w v of None \<Rightarrow> False
     | Some n \<Rightarrow> vn_refcount n \<ge> 1 \<and> vn_ops n = Dev_vnode_ops \<and> devices w (vn_data n) \<noteq> None)"

definition devs_ok :: "'f world \<Rightarrow> bool" where
  "devs_ok w \<longleftrightarrow> p_cwd w = 0 \<and> bootfs_vnode w = 0 \<and> (\<forall>kd \<in> set (knowndevs w).
     kd_device kd \<noteq> 0 \<and> mounted kd = None \<and> (kd_fs kd \<noteq> No_fs \<longrightarrow> kd_rawname kd \<noteq> None) \<and> dev_vnode w (kd_vnode kd))"

definition drivers_open :: "'f fsops \<Rightarrow> bool" where
  "drivers_open F \<longleftrightarrow> (\<forall>d flags w. \<exists>r. drv_eachopen F d flags w = Some (r, w))"

text \<open>One more reference.\<close>

definition referenced :: "ptr \<Rightarrow> 'f world \<Rightarrow> 'f world" where
  "referenced v w = w\<lparr>vnodes := (vnodes w)(v := map_option (\<lambda>n. n\<lparr>vn_refcount := vn_refcount n + 1\<rparr>) (vnodes w v))\<rparr>"

text \<open>The device names that stand for a vnode.\<close>

definition names :: "'f world \<Rightarrow> path \<Rightarrow> ptr \<Rightarrow> bool" where
  "names w name v \<longleftrightarrow> (\<exists>kd \<in> set (knowndevs w). v = kd_vnode kd \<and> (if kd_rawname kd = None then kd_name kd = name else kd_rawname kd = Some name))"

lemma names_dev_vnode: "devs_ok w \<Longrightarrow> names w name v \<Longrightarrow> dev_vnode w v"
  by (auto simp: devs_ok_def names_def)

lemma incref_dev: "dev_vnode w v \<Longrightarrow> vnode_incref v w = Some (referenced v w)"
  by (auto simp: dev_vnode_def vnode_incref_def referenced_def split: option.splits)

lemma decref_dev: "dev_vnode w v \<Longrightarrow> vnode_decref F v (referenced v w) = Some w"
proof -
  assume "dev_vnode w v"
  then obtain n where n: "v \<noteq> 0" "vnodes w v = Some n" "vn_refcount n \<ge> 1" by (auto simp: dev_vnode_def split: option.splits)
  have "(vnodes w)(v \<mapsto> n) = vnodes w" using n(2) by auto
  then show ?thesis using n by (simp add: vnode_decref_def referenced_def fun_upd_idem)
qed

lemma dev_vnode_referenced: "dev_vnode w v \<Longrightarrow> dev_vnode (referenced v w) v"
  by (auto simp: dev_vnode_def referenced_def split: option.splits)

lemma getroot_dev:
  assumes "devs_ok w" and "set kds \<subseteq> set (knowndevs w)"
  shows "(\<exists>e. getroot_loop F name kds w = Some (Inl e, w)) \<or>
    (\<exists>v. names w name v \<and> getroot_loop F name kds w = Some (Inr v, referenced v w))"
  using assms(2)
proof (induction kds)
  case (Cons kd kds)
  have kd: "kd \<in> set (knowndevs w)" using Cons.prems by simp
  have ok: "mounted kd = None" "kd_device kd \<noteq> 0" "kd_fs kd \<noteq> No_fs \<longrightarrow> kd_rawname kd \<noteq> None"
    using assms(1) kd by (auto simp: devs_ok_def)
  have ref: "vnode_incref (kd_vnode kd) w = Some (referenced (kd_vnode kd) w)"
    using assms(1) kd by (intro incref_dev) (auto simp: devs_ok_def)
  show ?case
  proof (cases "kd_rawname kd = None")
    case True
    then show ?thesis using Cons ok ref kd by (auto simp: names_def)
  next
    case False
    then show ?thesis using Cons ok ref kd by (auto simp: names_def)
  qed
qed simp

text \<open>The device part of a path.\<close>

lemma first_mark_split:
  "first_mark s = Some (c, i) \<Longrightarrow> s = take i s @ c # drop (Suc i) s \<and> i < length s"
  by (induction s arbitrary: i) (auto split: if_splits)

lemma getdevice_dev:
  assumes "devs_ok w"
  shows "(\<exists>e. getdevice F path w = Some (Inl e, w)) \<or>
    (\<exists>v name rest. names w name v \<and> path = name @ 58 # rest \<and> getdevice F path w = Some (Inr (skip_slashes rest, v), referenced v w))"
proof -
  have cwd: "vfs_getcurdir w = Some (Inl ENOENT, w)" "bootfs_vnode w = 0"
    using assms by (simp_all add: devs_ok_def vfs_getcurdir_def)
  show ?thesis
  proof (cases "path = []")
    case ne: False
    show ?thesis
    proof (cases "\<exists>i. first_mark path = Some (58, Suc i)")
      case True
      then obtain i where i: "first_mark path = Some (58, Suc i)" by blast
      note sp = first_mark_split [OF i]
      have "path = take (Suc i) path @ 58 # drop (Suc (Suc i)) path" using sp by simp
      moreover have "getdevice F path w = map_option (\<lambda>(r, w). (map_sum id (\<lambda>v. (skip_slashes (drop (Suc (Suc i)) path), v)) r, w))
          (getroot_loop F (take (Suc i) path) (knowndevs w) w)"
        using i ne by (auto simp: getdevice_def vfs_getroot_def Let_def split: Option.bind_split)
      ultimately show ?thesis
        using getroot_dev [OF assms, of "knowndevs w" F "take (Suc i) path"] by fastforce
    next
      case False
      then show ?thesis
        using ne cwd by (auto simp: getdevice_def Let_def split: option.splits nat.splits)
    qed
  qed (simp add: getdevice_def)
qed

lemma biglock_dev:
  "dev_vnode (vfs_biglock_acquire w) v = dev_vnode w v" "devs_ok (vfs_biglock_acquire w) = devs_ok w"
  "names (vfs_biglock_acquire w) = names w"
proof -
  show d: "dev_vnode (vfs_biglock_acquire w) v = dev_vnode w v" for v
    by (simp add: dev_vnode_def vfs_biglock_acquire_def split: option.split)
  show "devs_ok (vfs_biglock_acquire w) = devs_ok w" by (simp add: devs_ok_def d) (simp add: vfs_biglock_acquire_def)
  show "names (vfs_biglock_acquire w) = names w" by (simp add: names_def [abs_def] vfs_biglock_acquire_def)
qed

lemma unlock_acquire:
  "unlock_return r (vfs_biglock_acquire w) = Some (r, w)"
  "unlock_return r (referenced v (vfs_biglock_acquire w)) = Some (r, referenced v w)"
  by (simp_all add: unlock_return_def vfs_biglock_release_def vfs_biglock_acquire_def referenced_def)

text \<open>The two translations: both leave the world as it is, or with one more reference.\<close>

lemma vfs_lookup_dev:
  assumes "devs_ok w"
  shows "(\<exists>e. vfs_lookup F path w = Some (Inl e, w)) \<or>
    (\<exists>v name rest. names w name v \<and> path = name @ 58 # rest \<and> skip_slashes rest = [] \<and> vfs_lookup F path w = Some (Inr v, referenced v w))"
  using getdevice_dev [OF iffD2 [OF biglock_dev(2) assms], of F path]
proof (elim disjE exE conjE)
  fix e assume "getdevice F path (vfs_biglock_acquire w) = Some (Inl e, vfs_biglock_acquire w)"
  then show ?thesis by (simp add: vfs_lookup_def unlock_acquire)
next
  fix v name rest
  assume n: "names (vfs_biglock_acquire w) name v" and p: "path = name @ 58 # rest"
    and g: "getdevice F path (vfs_biglock_acquire w) = Some (Inr (skip_slashes rest, v), referenced v (vfs_biglock_acquire w))"
  have v: "dev_vnode (vfs_biglock_acquire w) v" using names_dev_vnode [OF assms n [unfolded biglock_dev(3)]] by (simp add: biglock_dev(1))
  show ?thesis
  proof (cases "skip_slashes rest = []")
    case True
    then have "vfs_lookup F path w = Some (Inr v, referenced v w)" using g by (simp add: vfs_lookup_def unlock_acquire)
    then show ?thesis using n [unfolded biglock_dev(3)] p True by blast
  next
    case False
    have "VOP_LOOKUP F v (skip_slashes rest) (referenced v (vfs_biglock_acquire w)) = Some (Inl ENOENT, referenced v (vfs_biglock_acquire w))"
      using dev_vnode_referenced [OF v] False
      by (auto simp: VOP_LOOKUP_def vnode_check_def dev_vnode_def dev_lookup_def split: option.splits)
    then show ?thesis using g False decref_dev [OF v] by (simp add: vfs_lookup_def unlock_acquire)
  qed
qed

lemma vfs_lookparent_dev:
  assumes "devs_ok w"
  shows "\<exists>e. vfs_lookparent F path w = Some (Inl e, w)"
  using getdevice_dev [OF iffD2 [OF biglock_dev(2) assms], of F path]
proof (elim disjE exE conjE)
  fix e assume "getdevice F path (vfs_biglock_acquire w) = Some (Inl e, vfs_biglock_acquire w)"
  then show ?thesis by (simp add: vfs_lookparent_def unlock_acquire)
next
  fix v name rest
  assume n: "names (vfs_biglock_acquire w) name v"
    and g: "getdevice F path (vfs_biglock_acquire w) = Some (Inr (skip_slashes rest, v), referenced v (vfs_biglock_acquire w))"
  have v: "dev_vnode (vfs_biglock_acquire w) v" using names_dev_vnode [OF assms n [unfolded biglock_dev(3)]] by (simp add: biglock_dev(1))
  have "VOP_LOOKPARENT F v p (referenced v (vfs_biglock_acquire w)) = Some (Inl ENOTDIR, referenced v (vfs_biglock_acquire w))" for p
    using dev_vnode_referenced [OF v]
    by (auto simp: VOP_LOOKPARENT_def vnode_check_def dev_vnode_def vopfail_notdir_def split: option.splits)
  then show ?thesis using g decref_dev [OF v] by (simp add: vfs_lookparent_def unlock_acquire)
qed

lemma eachopen_dev:
  assumes "dev_vnode w v" and "drivers_open F"
  shows "\<exists>r. VOP_EACHOPEN F v flags w = Some (r, w) \<and> (r = Inr () \<longrightarrow> flags AND 60 = 0)"
proof -
  obtain n dev where n: "vnode_check v w = Some n" "vn_ops n = Dev_vnode_ops" "devices w (vn_data n) = Some dev"
    using assms(1) by (auto simp: dev_vnode_def vnode_check_def split: option.splits)
  have "\<exists>r. drv_eachopen F (vn_data n) flags w = Some (r, w)" using assms(2) by (simp add: drivers_open_def)
  then show ?thesis
    using n by (cases "d_ops dev") (auto simp: VOP_EACHOPEN_def dev_eachopen_def DEVOP_EACHOPEN_def)
qed

lemma vfs_open_dev:
  assumes "devs_ok w" and "drivers_open F"
  shows "(\<exists>e. vfs_open F path flags mode w = Some (Inl e, w)) \<or>
    (\<exists>v name rest. names w name v \<and> path = name @ 58 # rest \<and> skip_slashes rest = [] \<and> flags AND 60 = 0 \<and>
      vfs_open F path flags mode w = Some (Inr v, referenced v w))"
proof (cases "flags AND O_CREAT \<noteq> 0 \<or> (flags AND O_ACCMODE \<noteq> O_RDONLY \<and> flags AND O_ACCMODE \<noteq> O_WRONLY \<and> flags AND O_ACCMODE \<noteq> O_RDWR)")
  case True
  then show ?thesis
    using vfs_lookparent_dev [OF assms(1), of F path] by (auto simp: vfs_open_def Let_def)
next
  case False
  from vfs_lookup_dev [OF assms(1), of F path] show ?thesis
  proof (elim disjE exE conjE)
    fix e assume "vfs_lookup F path w = Some (Inl e, w)"
    then show ?thesis using False by (auto simp: vfs_open_def Let_def)
  next
    fix v name rest
    assume l: "names w name v" "path = name @ 58 # rest" "skip_slashes rest = []" "vfs_lookup F path w = Some (Inr v, referenced v w)"
    note v = names_dev_vnode [OF assms(1) l(1)]
    obtain r where r: "VOP_EACHOPEN F v flags (referenced v w) = Some (r, referenced v w)" "r = Inr () \<longrightarrow> flags AND 60 = 0"
      using eachopen_dev [OF dev_vnode_referenced [OF v] assms(2)] by blast
    have "v \<noteq> 0" using v by (simp add: dev_vnode_def)
    show ?thesis
    proof (cases r)
      case (Inl e)
      then show ?thesis using False l(4) r(1) decref_dev [OF v] \<open>v \<noteq> 0\<close> by (auto simp: vfs_open_def Let_def)
    next
      case (Inr x)
      then have f: "flags AND 60 = 0" using r(2) by simp
      have "(flags AND 60) AND 16 = flags AND 16" by (simp add: and.assoc)
      then have "flags AND O_TRUNC = 0" unfolding f by (simp add: O_TRUNC_def)
      then have "vfs_open F path flags mode w = Some (Inr v, referenced v w)"
        using False l(4) r(1) Inr \<open>v \<noteq> 0\<close> by (auto simp: vfs_open_def Let_def)
      then show ?thesis using l f by blast
    qed
  qed
qed

text \<open>A name with a colon, the documented form included, is refused.\<close>

lemma setbootfs_colon:
  assumes "58 \<in> set (take 254 fsname)"
  shows "vfs_setbootfs F fsname w = Some (Inl EINVAL, w)"
proof -
  have "dropWhile (\<lambda>ch. ch \<noteq> 58) (take 254 fsname) \<noteq> []" using assms by (auto simp: dropWhile_eq_Nil_conv)
  then show ?thesis by (simp add: vfs_setbootfs_def Let_def unlock_acquire)
qed

section \<open>A small system\<close>

text \<open>The console and the null device, and nothing mounted.\<close>

definition no_fs :: "'f fsops" where
  "no_fs = \<lparr>fs_eachopen = \<lambda>_ _ _. None, fs_reclaim = \<lambda>_ _. None, fs_read = \<lambda>_ _ _ _. None, fs_write = \<lambda>_ _ _ _. None,
     fs_stat = \<lambda>_ _. None, fs_gettype = \<lambda>_ _. None, fs_isseekable = \<lambda>_ _. False, fs_truncate = \<lambda>_ _ _. None,
     fs_creat = \<lambda>_ _ _ _ _. None, fs_lookup = \<lambda>_ _ _. None, fs_lookparent = \<lambda>_ _ _. None, fs_dirop = \<lambda>_ _ _. None,
     fsop_getroot = \<lambda>_ _. None, fsop_getvolname = \<lambda>_ _. None, fsop_sync = \<lambda>_ _. None, fsop_unmount = \<lambda>_ _. None,
     drv_eachopen = \<lambda>_ _ w. Some (Inr (), w), drv_io = \<lambda>_ _ _ _. None\<rparr>"

definition boot_world :: "unit world" where
  "boot_world = \<lparr>
     vnodes = [0x80000100 \<mapsto> \<lparr>vn_refcount = 1, vn_fs = 0, vn_data = 0x80000200, vn_ops = Dev_vnode_ops\<rparr>,
               0x80000300 \<mapsto> \<lparr>vn_refcount = 1, vn_fs = 0, vn_data = 0x80000400, vn_ops = Dev_vnode_ops\<rparr>],
     devices = [0x80000200 \<mapsto> \<lparr>d_ops = Null_devops, d_blocks = 0, d_blocksize = 1, d_devnumber = 1\<rparr>,
                0x80000400 \<mapsto> \<lparr>d_ops = Console_devops, d_blocks = 0, d_blocksize = 1, d_devnumber = 2\<rparr>],
     con = \<lparr>the_console = Some fresh_console, con_userlocks = True, delayed_outbuf = []\<rparr>,
     knowndevs = [\<lparr>kd_name = [110, 117, 108, 108], kd_rawname = None, kd_device = 0x80000200, kd_vnode = 0x80000100, kd_fs = No_fs\<rparr>,
                  \<lparr>kd_name = [99, 111, 110], kd_rawname = None, kd_device = 0x80000400, kd_vnode = 0x80000300, kd_fs = No_fs\<rparr>],
     vfs_biglock_depth = 0, bootfs_vnode = 0, p_cwd = 0, fsys = ()\<rparr>"

lemma boot_world_ok: "devs_ok boot_world" "drivers_open no_fs"
  by (simp_all add: devs_ok_def boot_world_def dev_vnode_def mounted_def drivers_open_def no_fs_def)

section \<open>Properties\<close>



end
