(* ===== verification/Filetable.thy ===== *)
theory Filetable
  imports Vfs "HOL-Library.Multiset"
begin

text \<open>
  \<open>kern/syscall/file.c\<close>, and the part of \<open>kern/proc/proc.c\<close> that opens the standard files: the system calls on
  files. A \<open>struct File\<close> stands in memory, with the layout of the C compiler for a 32-bit big-endian machine:
  \<open>v_ptr\<close> at offset 0, \<open>open_flags\<close> at 4, \<open>references\<close> at 8, \<open>flock\<close> at 12 and the 64-bit \<open>offset\<close> at 16, 24 bytes
  together. The file tables of the processes are lists of pointers.

  What \<open>kmalloc\<close> and \<open>lock_create\<close> return is an argument, 0 if they fail; the locks do nothing, as in the
  source. \<open>sys_open\<close> uses a variable \<open>i\<close> that is declared nowhere; its value, which may depend on that of
  the loop variable \<open>fd\<close>, is an argument too.
\<close>

section \<open>Files in memory\<close>

definition v_ptr :: "mem \<Rightarrow> ptr \<Rightarrow> ptr" where "v_ptr m f = load_long m f"
definition open_flags :: "mem \<Rightarrow> ptr \<Rightarrow> u32" where "open_flags m f = load_long m (f + 4)"
definition references :: "mem \<Rightarrow> ptr \<Rightarrow> u32" where "references m f = load_long m (f + 8)"
definition flock :: "mem \<Rightarrow> ptr \<Rightarrow> ptr" where "flock m f = load_long m (f + 12)"
definition offset :: "mem \<Rightarrow> ptr \<Rightarrow> u64" where
  "offset m f = push_bit 32 (ucast (load_long m (f + 16))) OR ucast (load_long m (f + 20))"

definition set_v_ptr :: "ptr \<Rightarrow> ptr \<Rightarrow> mem \<Rightarrow> mem" where "set_v_ptr f x m = store_long m f x"
definition set_open_flags :: "ptr \<Rightarrow> u32 \<Rightarrow> mem \<Rightarrow> mem" where "set_open_flags f x m = store_long m (f + 4) x"
definition set_references :: "ptr \<Rightarrow> u32 \<Rightarrow> mem \<Rightarrow> mem" where "set_references f x m = store_long m (f + 8) x"
definition set_flock :: "ptr \<Rightarrow> ptr \<Rightarrow> mem \<Rightarrow> mem" where "set_flock f x m = store_long m (f + 12) x"
definition set_offset :: "ptr \<Rightarrow> u64 \<Rightarrow> mem \<Rightarrow> mem" where
  "set_offset f x m = store_long (store_long m (f + 16) (ucast (drop_bit 32 x))) (f + 20) (ucast x)"

record 'f sys =
  kmem :: mem
  tables :: "ptr list list"
  num_open_files :: int
  vfs :: "'f world"

definition MAX_PROCESS_OPEN_FILES :: nat where "MAX_PROCESS_OPEN_FILES = 16"
definition MAX_SYSTEM_OPEN_FILES :: int where "MAX_SYSTEM_OPEN_FILES = 64"

type_synonym ('a, 'f) sys_result = "((errno + 'a) \<times> 'f sys) option"

definition set_slot :: "nat \<Rightarrow> nat \<Rightarrow> ptr \<Rightarrow> 'f sys \<Rightarrow> 'f sys option" where
  "set_slot p d f s = do {
     t \<leftarrow> get_at (tables s) p;
     t \<leftarrow> put_at d f t;
     Some (s\<lparr>tables := (tables s)[p := t]\<rparr>) }"

text \<open>The common test of a file handle: the file, or 0 where the calls return \<open>EBADF\<close>.\<close>

definition handle :: "nat \<Rightarrow> u32 \<Rightarrow> 'f sys \<Rightarrow> ptr option" where
  "handle p fd s = do {
     t \<leftarrow> get_at (tables s) p;
     if sint fd < 0 \<or> sint fd \<ge> int MAX_PROCESS_OPEN_FILES then Some 0 else get_at t (nat (sint fd)) }"

section \<open>System calls\<close>

definition sys_read :: "'f fsops \<Rightarrow> curspace \<Rightarrow> ptr \<Rightarrow> nat \<Rightarrow> u32 \<Rightarrow> ptr \<Rightarrow> u32 \<Rightarrow> 'f sys \<Rightarrow> (u32, 'f) sys_result" where
  "sys_read F c chp p filehandler buf len s = do {
     file \<leftarrow> handle p filehandler s;
     if file = 0 then Some (Inl EBADF, s)
     else if open_flags (kmem s) file AND O_ACCMODE = O_WRONLY then Some (Inl EBADF, s)
     else do {
       let old_offset = offset (kmem s) file;
       (r, u, m, w) \<leftarrow> VOP_READ F c chp (v_ptr (kmem s) file) (uio_uinit c buf len old_offset UIO_READ) (kmem s) (vfs s);
       case r of Inl e \<Rightarrow> Some (Inl e, s\<lparr>kmem := m, vfs := w\<rparr>)
       | Inr _ \<Rightarrow> do {
           let m = set_offset file (uio_offset u) m;
           Some (Inr (ucast (offset m file - old_offset)), s\<lparr>kmem := m, vfs := w\<rparr>) } } }"

definition sys_write :: "'f fsops \<Rightarrow> curspace \<Rightarrow> ptr \<Rightarrow> nat \<Rightarrow> u32 \<Rightarrow> ptr \<Rightarrow> u32 \<Rightarrow> 'f sys \<Rightarrow> (u32, 'f) sys_result" where
  "sys_write F c chp p filehandler buf len s = do {
     file \<leftarrow> handle p filehandler s;
     if file = 0 then Some (Inl EBADF, s)
     else if open_flags (kmem s) file AND O_ACCMODE = O_RDONLY then Some (Inl EBADF, s)
     else do {
       let old_offset = offset (kmem s) file;
       (r, u, m, w) \<leftarrow> VOP_WRITE F c chp (v_ptr (kmem s) file) (uio_uinit c buf len old_offset UIO_WRITE) (kmem s) (vfs s);
       case r of Inl e \<Rightarrow> Some (Inl e, s\<lparr>kmem := m, vfs := w\<rparr>)
       | Inr _ \<Rightarrow> do {
           let m = set_offset file (uio_offset u) m;
           Some (Inr (ucast (offset m file - old_offset)), s\<lparr>kmem := m, vfs := w\<rparr>) } } }"

text \<open>The static function \<open>close\<close>; \<open>lock_destroy\<close> asserts that there is a lock.\<close>

definition close_file :: "'f fsops \<Rightarrow> nat \<Rightarrow> u32 \<Rightarrow> 'f sys \<Rightarrow> (unit, 'f) sys_result" where
  "close_file F p filehandler s = do {
     file \<leftarrow> handle p filehandler s;
     if file = 0 then Some (Inl EBADF, s)
     else do {
       s \<leftarrow> set_slot p (nat (sint filehandler)) 0 s;
       let s = s\<lparr>kmem := set_references file (references (kmem s) file - 1) (kmem s)\<rparr>;
       s \<leftarrow> (if sint (references (kmem s) file) \<le> 0 then do {
               w \<leftarrow> vfs_close F (v_ptr (kmem s) file) (vfs s);
               kassert (flock (kmem s) file \<noteq> 0);
               Some (s\<lparr>vfs := w\<rparr>) }
             else Some s);
       Some (Inr (), s\<lparr>num_open_files := num_open_files s - 1\<rparr>) } }"

definition sys_close :: "'f fsops \<Rightarrow> nat \<Rightarrow> u32 \<Rightarrow> 'f sys \<Rightarrow> (unit, 'f) sys_result" where
  "sys_close F p filehandler s = close_file F p filehandler s"

definition sys_dup2 :: "'f fsops \<Rightarrow> nat \<Rightarrow> u32 \<Rightarrow> u32 \<Rightarrow> 'f sys \<Rightarrow> (unit, 'f) sys_result" where
  "sys_dup2 F p oldfd newfd s = do {
     old \<leftarrow> handle p oldfd s;
     new \<leftarrow> handle p newfd s;
     if sint newfd < 0 \<or> sint newfd \<ge> int MAX_PROCESS_OPEN_FILES \<or> old = 0 then Some (Inl EBADF, s)
     else if oldfd = newfd then Some (Inr (), s)
     else do {
       (r, s) \<leftarrow> (if new \<noteq> 0 then sys_close F p newfd s else Some (Inr (), s));
       case r of Inl e \<Rightarrow> Some (Inl e, s)
       | Inr _ \<Rightarrow> do {
           file \<leftarrow> handle p oldfd s;
           s \<leftarrow> set_slot p (nat (sint newfd)) file s;
           Some (Inr (), s\<lparr>kmem := set_references file (references (kmem s) file + 1) (kmem s)\<rparr>) } } }"

text \<open>
  \<open>sys_lseek\<close>: \<open>par\<close> is the word after the file table in \<open>struct proc\<close>, which the handle 16 reaches, and \<open>loc\<close> the
  address of the local variable that receives the third argument.
\<close>

definition sys_lseek :: "'f fsops \<Rightarrow> curspace \<Rightarrow> ptr \<Rightarrow> ptr \<Rightarrow> nat \<Rightarrow> u32 \<Rightarrow> u64 \<Rightarrow> ptr \<Rightarrow> 'f sys \<Rightarrow> (u64, 'f) sys_result" where
  "sys_lseek F c par loc p fd pos whence_ptr s = do {
     file \<leftarrow> (if sint fd = int MAX_PROCESS_OPEN_FILES then Some par else handle p fd s);
     if file = 0 then Some (Inl EBADF, s)
     else do {
       seekable \<leftarrow> VOP_ISSEEKABLE F (v_ptr (kmem s) file) (vfs s);
       if \<not> seekable then Some (Inl ESPIPE, s)
       else do {
         (r, w) \<leftarrow> VOP_STAT F (v_ptr (kmem s) file) (vfs s);
         let s = s\<lparr>vfs := w\<rparr>;
         case r of Inl e \<Rightarrow> Some (Inl e, s)
         | Inr st_size \<Rightarrow>
             (case copyin (cur_rights c) whence_ptr loc 4 (kmem s) of
                (Inl e, m) \<Rightarrow> Some (Inl e, s\<lparr>kmem := m\<rparr>)
              | (Inr _, m) \<Rightarrow>
                  let s = s\<lparr>kmem := m\<rparr>;
                      new = (if load_long m loc = 0 then Some pos
                             else if load_long m loc = 1 then Some (offset m file + pos)
                             else if load_long m loc = 2 then Some (st_size + pos) else None) in
                  (case new of None \<Rightarrow> Some (Inl EINVAL, s)
                   | Some x \<Rightarrow> if sint x < 0 then Some (Inl EINVAL, s) else Some (Inr x, s\<lparr>kmem := set_offset file x m\<rparr>))) } } }"

text \<open>The static function \<open>open\<close>: \<open>file\<close> is the result of \<open>kmalloc\<close>, \<open>lk\<close> that of \<open>lock_create\<close>.\<close>

definition open_file :: "'f fsops \<Rightarrow> ptr \<Rightarrow> ptr \<Rightarrow> nat \<Rightarrow> path \<Rightarrow> u32 \<Rightarrow> nat \<Rightarrow> 'f sys \<Rightarrow> (unit, 'f) sys_result" where
  "open_file F file lk p filename flags descriptor s =
    (if file = 0 then Some (Inl ENFILE, s)
     else do {
       (r, w) \<leftarrow> vfs_open F filename flags 0 (vfs s);
       let s = s\<lparr>vfs := w\<rparr>;
       case r of Inl e \<Rightarrow> Some (Inl e, s)
       | Inr vn \<Rightarrow> do {
           let s = s\<lparr>kmem := set_flock file lk (kmem s)\<rparr>;
           if lk = 0 then do {
             w \<leftarrow> vfs_close F (v_ptr (kmem s) file) (vfs s);
             Some (Inl ENFILE, s\<lparr>vfs := w\<rparr>) }
           else do {
             let s = s\<lparr>kmem := set_v_ptr file vn (set_references file 1 (set_open_flags file flags (set_offset file 0 (kmem s))))\<rparr>;
             s \<leftarrow> set_slot p descriptor file s;
             Some (Inr (), s) } } })"

text \<open>The search loop of \<open>sys_open\<close>, from \<open>fd\<close> on: the first \<open>fd\<close> for which the slot \<open>i\<close> is free, 16 if there is none.\<close>

fun free_slot :: "(nat \<Rightarrow> nat) \<Rightarrow> ptr list \<Rightarrow> nat list \<Rightarrow> nat option" where
  "free_slot i t [] = Some MAX_PROCESS_OPEN_FILES"
| "free_slot i t (fd # fds) = do { f \<leftarrow> get_at t (i fd); if f = 0 then Some fd else free_slot i t fds }"

definition PATH_MAX :: u32 where "PATH_MAX = 1024"

definition sys_open :: "(nat \<Rightarrow> nat) \<Rightarrow> 'f fsops \<Rightarrow> curspace \<Rightarrow> ptr \<Rightarrow> ptr \<Rightarrow> ptr \<Rightarrow> nat \<Rightarrow> ptr \<Rightarrow> u32 \<Rightarrow> 'f sys \<Rightarrow> (u32, 'f) sys_result" where
  "sys_open i F c kfilename file lk p filename flags s =
    (if filename = 0 then Some (Inl EFAULT, s)
     else if kfilename = 0 then Some (Inl ENFILE, s)
     else (case copyinstr (cur_rights c) filename kfilename PATH_MAX (kmem s) of
         (Inl e, m) \<Rightarrow> Some (Inl e, s\<lparr>kmem := m\<rparr>)
       | (Inr got, m) \<Rightarrow> do {
           let s = s\<lparr>kmem := m\<rparr>;
           t \<leftarrow> get_at (tables s) p;
           fd \<leftarrow> free_slot i t [3..<MAX_PROCESS_OPEN_FILES];
           if fd = MAX_PROCESS_OPEN_FILES then Some (Inl EMFILE, s)
           else if num_open_files s \<ge> MAX_SYSTEM_OPEN_FILES then Some (Inl ENFILE, s)
           else do {
             (r, s) \<leftarrow> open_file F file lk p (map m (addrs kfilename (unat got - 1))) flags (i fd) s;
             case r of Inl e \<Rightarrow> Some (Inl e, s)
             | Inr _ \<Rightarrow> Some (Inr (of_nat fd), s\<lparr>num_open_files := num_open_files s + 1\<rparr>) } }))"

section \<open>Standard files\<close>

text \<open>\<open>open2\<close> of \<open>proc.c\<close> stores the vnode before it creates the lock.\<close>

definition open2 :: "'f fsops \<Rightarrow> ptr \<Rightarrow> ptr \<Rightarrow> nat \<Rightarrow> path \<Rightarrow> u32 \<Rightarrow> nat \<Rightarrow> 'f sys \<Rightarrow> (unit, 'f) sys_result" where
  "open2 F file lk p filename flags descriptor s =
    (if file = 0 then Some (Inl ENFILE, s)
     else do {
       (r, w) \<leftarrow> vfs_open F filename flags 0 (vfs s);
       let s = s\<lparr>vfs := w\<rparr>;
       case r of Inl e \<Rightarrow> Some (Inl e, s)
       | Inr vn \<Rightarrow> do {
           let s = s\<lparr>kmem := set_flock file lk (set_v_ptr file vn (kmem s))\<rparr>;
           if lk = 0 then do {
             w \<leftarrow> vfs_close F (v_ptr (kmem s) file) (vfs s);
             Some (Inl ENFILE, s\<lparr>vfs := w\<rparr>) }
           else do {
             let s = s\<lparr>kmem := set_references file 1 (set_open_flags file flags (set_offset file 0 (kmem s)))\<rparr>;
             s \<leftarrow> set_slot p descriptor file s;
             Some (Inr (), s) } } })"

text \<open>
  The end of \<open>proc_create_runprogram\<close>: the slots 0 to 2 of the new process are filled if they are null. Nothing has
  initialised the table, so that its contents are those of the memory that \<open>kmalloc\<close> returned. \<open>als\<close> are the
  addresses of the files and of the locks.
\<close>

fun open_std :: "'f fsops \<Rightarrow> (ptr \<times> ptr \<times> u32) list \<Rightarrow> nat \<Rightarrow> nat \<Rightarrow> 'f sys \<Rightarrow> 'f sys option" where
  "open_std F [] p d s = Some s"
| "open_std F ((file, lk, flags) # als) p d s = do {
     t \<leftarrow> get_at (tables s) p;
     f \<leftarrow> get_at t d;
     s \<leftarrow> (if f = 0 then do {
             (r, s) \<leftarrow> open2 F file lk p [99, 111, 110, 58] flags d s;
             kassert (r = Inr ());
             Some s }
           else Some s);
     open_std F als p (Suc d) s }"

definition std_files :: "'f fsops \<Rightarrow> ptr \<times> ptr \<Rightarrow> ptr \<times> ptr \<Rightarrow> ptr \<times> ptr \<Rightarrow> nat \<Rightarrow> 'f sys \<Rightarrow> 'f sys option" where
  "std_files F a b c p s =
     open_std F [(fst a, snd a, O_RDONLY), (fst b, snd b, O_WRONLY), (fst c, snd c, O_WRONLY)] p 0 s"


section \<open>Words in memory\<close>

text \<open>The bytes of a file: the 24 bytes at its address.\<close>

definition within :: "ptr \<Rightarrow> ptr \<Rightarrow> bool" where
  "within f a \<longleftrightarrow> unat (a - f) < 24"

lemma within_field: "k < 24 \<Longrightarrow> within f (f + of_nat k)"
  by (simp add: within_def unat_of_nat_u32)

lemmas within_fields = within_field [of 0, simplified] within_field [of 1, simplified] within_field [of 2, simplified] within_field [of 3, simplified]
  within_field [of 4, simplified] within_field [of 5, simplified] within_field [of 6, simplified] within_field [of 7, simplified]
  within_field [of 8, simplified] within_field [of 9, simplified] within_field [of 10, simplified] within_field [of 11, simplified]
  within_field [of 12, simplified] within_field [of 13, simplified] within_field [of 14, simplified] within_field [of 15, simplified]
  within_field [of 16, simplified] within_field [of 17, simplified] within_field [of 18, simplified] within_field [of 19, simplified]
  within_field [of 20, simplified] within_field [of 21, simplified] within_field [of 22, simplified] within_field [of 23, simplified]

text \<open>The fields of a file, as one value.\<close>

definition file_at :: "mem \<Rightarrow> ptr \<Rightarrow> ptr \<times> u32 \<times> u32 \<times> ptr \<times> u64" where
  "file_at m f = (v_ptr m f, open_flags m f, references m f, flock m f, offset m f)"

lemmas field_defs = v_ptr_def open_flags_def references_def flock_def offset_def
lemmas set_field_defs = set_v_ptr_def set_open_flags_def set_references_def set_flock_def set_offset_def

lemma file_at_cong: "(\<And>a. within f a \<Longrightarrow> m' a = m a) \<Longrightarrow> file_at m' f = file_at m f"
  by (simp add: file_at_def field_defs load_long_def add.assoc within_fields)

lemma set_field_frame:
  "\<not> within f a \<Longrightarrow> set_v_ptr f x m a = m a" "\<not> within f a \<Longrightarrow> set_open_flags f x m a = m a"
  "\<not> within f a \<Longrightarrow> set_references f x m a = m a" "\<not> within f a \<Longrightarrow> set_flock f x m a = m a"
  "\<not> within f a \<Longrightarrow> set_offset f y m a = m a"
  using within_fields [of f] by (auto simp: set_field_defs store_long_def add.assoc)

lemma offset_pieces: "push_bit 32 (ucast (ucast (drop_bit 32 x) :: u32)) OR ucast (ucast x :: u32) = (x :: u64)"
  by (rule bit_word_eqI) (auto simp: bit_or_iff bit_push_bit_iff bit_ucast_iff bit_drop_bit_eq)

lemma file_at_set [simp]:
  "file_at (set_v_ptr f x m) f = (x, snd (file_at m f))"
  "file_at (set_open_flags f x m) f = (v_ptr m f, x, references m f, flock m f, offset m f)"
  "file_at (set_references f x m) f = (v_ptr m f, open_flags m f, x, flock m f, offset m f)"
  "file_at (set_flock f x m) f = (v_ptr m f, open_flags m f, references m f, x, offset m f)"
  "file_at (set_offset f y m) f = (v_ptr m f, open_flags m f, references m f, flock m f, y)"
  by (simp_all add: file_at_def field_defs set_field_defs load_store_same load_store_other offset_pieces)

lemma fields_eq:
  "v_ptr m f = fst (file_at m f)" "open_flags m f = fst (snd (file_at m f))" "references m f = fst (snd (snd (file_at m f)))"
  "flock m f = fst (snd (snd (snd (file_at m f))))" "offset m f = snd (snd (snd (snd (file_at m f))))"
  by (simp_all add: file_at_def)

lemma field_set [simp]:
  "references (set_references f x m) f = x" "offset (set_offset f y m) f = y"
  "v_ptr (set_references f x m) f = v_ptr m f" "flock (set_references f x m) f = flock m f"
  by (simp_all add: fields_eq)

section \<open>Transfers and kernel memory\<close>

lemma uio_block_user:
  assumes "paged (cur_rights c)" and "uio_segflg u \<noteq> UIO_SYSSPACE" and "2 ^ 31 \<le> unat p" and "USERSPACETOP \<le> a" and "a \<noteq> p"
  shows "snd (uio_block c u p base 1 m) a = m a"
proof -
  have out: "outside p 1 a" using assms(5) by (auto simp: outside_def word_unat_eq_iff)
  have "snd (copyin (cur_rights c) base p 1 m) a = m a"
    using copyin_total [OF assms(1,3), of 1 base m] out copied_outside [of m _ p base 1 1 a] unat_u32_lt [of p]
    by (auto split: if_splits simp del: unat_u32_lt)
  moreover have "snd (copyout (cur_rights c) p base 1 m) a = m a"
  proof (rule ccontr)
    assume ne: "snd (copyout (cur_rights c) p base 1 m) a \<noteq> m a"
    have fit: "fits p (unat (1 :: u32))" using unat_u32_lt [of p] by (simp del: unat_u32_lt)
    show False
      using copyout_total [OF assms(1,3) fit, of base m] ne assms(4)
      by (cases "a = base") (auto split: if_splits simp: copied_def le_USERSPACETOP less_USERSPACETOP)
  qed
  ultimately show ?thesis using assms(2) by (cases "uio_segflg u") (auto simp: uio_block_def)
qed

lemma uiomove_loop_user:
  "uiomove_loop c p n u m = Some (r, u', m') \<Longrightarrow> n = 1 \<Longrightarrow> paged (cur_rights c) \<Longrightarrow> uio_segflg u \<noteq> UIO_SYSSPACE \<Longrightarrow> 2 ^ 31 \<le> unat p \<Longrightarrow>
    uio_segflg u' = uio_segflg u \<and> uio_rw u' = uio_rw u \<and> (\<forall>a. USERSPACETOP \<le> a \<longrightarrow> a \<noteq> p \<longrightarrow> m' a = m a)"
proof (induction c p n u m rule: uiomove_loop.induct)
  case (1 c p n u m)
  note step = uiomove_loop.simps [of c p 1 u m]
  show ?case
  proof (cases "uio_resid u > 0")
    case pos: True
    obtain v vs where v: "uio_iov u = v # vs" using 1(3,4) pos step by (cases "uio_iov u") auto
    define sz where "sz = (if iov_len v > n then n else iov_len v)"
    show ?thesis
    proof (cases "sz = 0")
      case True
      then have "uiomove_loop c p n (u\<lparr>uio_iov := vs\<rparr>) m = Some (r, u', m')" "vs \<noteq> []"
        using 1(3,4) pos step v by (auto simp: sz_def split: if_splits)
      then show ?thesis using 1(1) [OF _ v sz_def True] 1(3-) pos by simp
    next
      case False
      then have "sz = 1"
        using 1(4) by (auto simp: sz_def word_less_nat_alt word_unat_eq_iff split: if_splits)
      then have "(if 1 < iov_len v then 1 else iov_len v) = 1" using 1(4) by (simp add: sz_def split: if_splits)
      then show ?thesis
        using 1(3,4) pos step v uiomove_loop.simps [of c "p + 1" 0 "uio_advance v vs 1 u"] uio_block_user [OF 1(5-7), of _ "iov_base v" m]
        by (auto simp: uio_advance_def split: prod.splits sum.splits)
    qed
  qed (use 1(3,4) step in auto)
qed

lemma uiomove_user:
  assumes "uiomove c p 1 u m = Some (r, u', m')" and "paged (cur_rights c)" and "uio_segflg u \<noteq> UIO_SYSSPACE" and "2 ^ 31 \<le> unat p"
  shows "uio_segflg u' = uio_segflg u" "\<And>a. USERSPACETOP \<le> a \<Longrightarrow> a \<noteq> p \<Longrightarrow> m' a = m a"
  using assms uiomove_loop_user [of c p 1 u m r u' m'] by (auto simp: uiomove_def)

lemma con_io_loop_user:
  "con_io_loop c chp k u m = Some (r, k', u', m') \<Longrightarrow> paged (cur_rights c) \<Longrightarrow> uio_segflg u \<noteq> UIO_SYSSPACE \<Longrightarrow> 2 ^ 31 \<le> unat chp \<Longrightarrow>
    USERSPACETOP \<le> a \<Longrightarrow> a \<noteq> chp \<Longrightarrow> m' a = m a"
proof (induction c chp k u m rule: con_io_loop.induct)
  case (1 c chp k u m)
  note step = con_io_loop.simps [of c chp k u m] and goal = 1(3)
  note H = 1(4-8)
  show ?case
  proof (cases "0 < uio_resid u")
    case pos: True
    show ?thesis
    proof (cases "uio_rw u = UIO_READ")
      case rd: True
      obtain ch k1 where g: "getch k = Some (ch, k1)" using goal step pos rd by (auto split: Option.bind_splits)
      define b where "b = (if ch = 13 then 10 else ch)"
      obtain r1 u1 m1 where u1: "uiomove c chp 1 u (m(chp := b)) = Some (r1, u1, m1)"
        using goal step pos rd g by (auto simp: b_def Let_def split: Option.bind_splits)
      note m1 = uiomove_user [OF u1 H(1-3)]
      show ?thesis
      proof (cases "r1 = Inr () \<and> b \<noteq> 10")
        case True
        then have "con_io_loop c chp k1 u1 m1 = Some (r, k', u', m')"
          using goal step pos rd g u1 by (simp add: b_def Let_def split: if_splits)
        then show ?thesis
          using 1(1) [OF pos rd g refl b_def u1 refl refl] True H m1 by simp
      next
        case False
        then have "m' = m1" using goal step pos rd g u1 by (cases r1) (auto simp: b_def [symmetric] Let_def)
        then show ?thesis using m1(2) [OF H(4,5)] H(5) by simp
      qed
    next
      case wr: False
      obtain r1 u1 m1 where u1: "uiomove c chp 1 u m = Some (r1, u1, m1)"
        using goal step pos wr by (auto split: Option.bind_splits)
      note m1 = uiomove_user [OF u1 H(1-3)]
      show ?thesis
      proof (cases r1)
        case (Inl e)
        then show ?thesis using goal step pos wr u1 m1(2) [OF H(4,5)] by simp
      next
        case (Inr x)
        then obtain k1 k2 where k: "(if m1 chp = 10 then putch False 13 k else Some k) = Some k1" "putch False (m1 chp) k1 = Some k2"
          "con_io_loop c chp k2 u1 m1 = Some (r, k', u', m')"
          using goal step pos wr u1 by (auto split: Option.bind_splits if_splits)
        then show ?thesis
          using 1(2) [OF pos wr u1 refl refl Inr k(1,2)] H m1 by simp
      qed
    qed
  qed (use goal step in simp)
qed

text \<open>What a transfer leaves alone in the VFS: all but the console and the state of the drivers.\<close>

definition quiet :: "'f world \<Rightarrow> 'f world \<Rightarrow> bool" where
  "quiet w w' \<longleftrightarrow> vnodes w' = vnodes w \<and> devices w' = devices w \<and> knowndevs w' = knowndevs w \<and> bootfs_vnode w' = bootfs_vnode w \<and> p_cwd w' = p_cwd w"

lemma quiet_refl [simp]: "quiet w w" "quiet w (w\<lparr>con := k\<rparr>)"
  by (simp_all add: quiet_def)

lemma quiet_dev_vnode: "quiet w w' \<Longrightarrow> dev_vnode w' v = dev_vnode w v"
  by (simp add: quiet_def dev_vnode_def split: option.split)

lemma quiet_devs_ok: "quiet w w' \<Longrightarrow> devs_ok w \<Longrightarrow> devs_ok w'"
  using quiet_dev_vnode [of w w'] by (simp add: quiet_def devs_ok_def)

section \<open>Drivers\<close>

text \<open>
  What the calls rely on in the drivers other than the console: opening a device changes nothing, and a
  transfer from or to user memory changes neither the tables of the VFS nor kernel memory.
\<close>

locale driver_ops =
  fixes F :: "'f fsops"
  assumes opens: "drivers_open F"
    and io: "drv_io F d u m w = Some (r, u', m', w') \<Longrightarrow> uio_segflg u \<noteq> UIO_SYSSPACE \<Longrightarrow>
      quiet w w' \<and> (\<forall>a. USERSPACETOP \<le> a \<longrightarrow> m' a = m a)"
begin

lemma DEVOP_IO_user:
  assumes "DEVOP_IO F c chp d u m w = Some (r, u', m', w')" and "paged (cur_rights c)" and "uio_segflg u \<noteq> UIO_SYSSPACE" and "2 ^ 31 \<le> unat chp"
  shows "quiet w w' \<and> (\<forall>a. USERSPACETOP \<le> a \<longrightarrow> a \<noteq> chp \<longrightarrow> m' a = m a)"
proof -
  obtain dev where dev: "devices w d = Some dev" using assms(1) by (auto simp: DEVOP_IO_def split: Option.bind_splits)
  show ?thesis
  proof (cases "d_ops dev")
    case Null_devops
    then show ?thesis using assms(1) dev by (auto simp: DEVOP_IO_def nullio_def)
  next
    case Console_devops
    then obtain k' where "con_io_loop c chp (con w) u m = Some (r, k', u', m')" "w' = w\<lparr>con := k'\<rparr>"
      using assms(1) dev by (auto simp: DEVOP_IO_def con_io_def split: Option.bind_splits)
    then show ?thesis using con_io_loop_user [of c chp "con w" u m r k' u' m'] assms(2-4) by auto
  next
    case Driver_devops
    then show ?thesis using assms(1,3) dev io by (auto simp: DEVOP_IO_def)
  qed
qed

lemma dev_rw_user:
  assumes "dev_rw rw F c chp n u m w = Some (r, u', m', w')" and "paged (cur_rights c)" and "uio_segflg u \<noteq> UIO_SYSSPACE" and "2 ^ 31 \<le> unat chp"
  shows "quiet w w' \<and> (\<forall>a. USERSPACETOP \<le> a \<longrightarrow> a \<noteq> chp \<longrightarrow> m' a = m a)"
  using assms(1) DEVOP_IO_user [of c chp "vn_data n" u m w r u' m' w'] assms(2-4)
  by (auto simp: dev_rw_def split: Option.bind_splits sum.splits)

lemma VOP_rw_user:
  assumes "VOP_READ F c chp v u m w = Some (r, u', m', w') \<or> VOP_WRITE F c chp v u m w = Some (r, u', m', w')"
    and "dev_vnode w v" and "paged (cur_rights c)" and "uio_segflg u \<noteq> UIO_SYSSPACE" and "2 ^ 31 \<le> unat chp"
  shows "quiet w w' \<and> (\<forall>a. USERSPACETOP \<le> a \<longrightarrow> a \<noteq> chp \<longrightarrow> m' a = m a)"
proof -
  obtain n where "vnode_check v w = Some n" "vn_ops n = Dev_vnode_ops"
    using assms(2) by (auto simp: dev_vnode_def vnode_check_def split: option.splits)
  then show ?thesis
    using assms dev_rw_user by (auto simp: VOP_READ_def VOP_WRITE_def dev_read_def dev_write_def)
qed

end

interpretation no_drivers: driver_ops no_fs
  using boot_world_ok(2) by unfold_locales (simp_all add: no_fs_def drivers_open_def)

section \<open>Invariant\<close>

text \<open>The files of the system, and the slots of all tables.\<close>

abbreviation slots :: "'f sys \<Rightarrow> ptr list" where "slots s \<equiv> concat (tables s)"

definition files :: "'f sys \<Rightarrow> ptr set" where "files s = set (slots s) - {0}"

definition held :: "'f sys \<Rightarrow> ptr \<Rightarrow> ptr set" where
  "held s v = {f \<in> files s. v_ptr (kmem s) f = v}"

text \<open>A block of \<open>n\<close> bytes of kernel memory that no file uses.\<close>

definition clear :: "'f sys \<Rightarrow> ptr \<Rightarrow> nat \<Rightarrow> bool" where
  "clear s p n \<longleftrightarrow> 2 ^ 31 \<le> unat p \<and> fits p n \<and> (\<forall>f \<in> files s. \<forall>a. within f a \<longrightarrow> outside p n a)"

definition file_ok :: "'f sys \<Rightarrow> ptr \<Rightarrow> bool" where
  "file_ok s f \<longleftrightarrow> 2 ^ 31 \<le> unat f \<and> fits f 24 \<and> references (kmem s) f = of_nat (count_list (slots s) f) \<and>
     flock (kmem s) f \<noteq> 0 \<and> v_ptr (kmem s) f \<in> kd_vnode ` set (knowndevs (vfs s))"

text \<open>
  The references of a file are the slots that hold it, and the references of a vnode those of its files and \<open>base\<close>
  others, of which the table of devices has one. Files do not overlap.
\<close>

definition files_inv :: "(ptr \<Rightarrow> int) \<Rightarrow> 'f sys \<Rightarrow> bool" where
  "files_inv base s \<longleftrightarrow>
     (\<forall>t \<in> set (tables s). length t = MAX_PROCESS_OPEN_FILES) \<and> 16 * length (tables s) < 2 ^ 31 \<and>
     devs_ok (vfs s) \<and> (\<forall>kd \<in> set (knowndevs (vfs s)). 1 \<le> base (kd_vnode kd)) \<and>
     (\<forall>f \<in> files s. file_ok s f) \<and>
     (\<forall>f \<in> files s. \<forall>g \<in> files s. \<forall>a. within f a \<and> within g a \<longrightarrow> f = g) \<and>
     (\<forall>v n. vnodes (vfs s) v = Some n \<longrightarrow> vn_refcount n = base v + int (card (held s v)))"

lemma files_finite: "finite (files s)" "finite (held s v)"
  by (simp_all add: files_def held_def)

lemma within_kernel: "2 ^ 31 \<le> unat f \<Longrightarrow> fits f 24 \<Longrightarrow> within f a \<Longrightarrow> USERSPACETOP \<le> a"
proof -
  assume f: "2 ^ 31 \<le> unat f" "fits f 24" "within f a"
  have "a = f + of_nat (unat (a - f))" by simp
  moreover have "unat (f + of_nat (unat (a - f))) = unat f + unat (a - f)" using f unat_ptr [of f "unat (a - f)"] by (simp add: within_def)
  ultimately show ?thesis using f(1) by (simp add: le_USERSPACETOP)
qed

text \<open>Replacing one slot.\<close>

lemma mset_set_slot:
  assumes "p < length ts" and "d < length (ts ! p)"
  shows "add_mset (ts ! p ! d) (mset (concat (ts[p := (ts ! p)[d := x]]))) = add_mset x (mset (concat ts))"
proof -
  let ?t = "ts ! p"
  have ts: "ts = take p ts @ ?t # drop (Suc p) ts" by (rule id_take_nth_drop [OF assms(1)])
  have old: "mset (concat ts) = mset (concat (take p ts)) + mset ?t + mset (concat (drop (Suc p) ts))"
    by (subst ts) simp
  have new: "mset (concat (ts[p := ?t[d := x]])) = mset (concat (take p ts)) + mset (?t[d := x]) + mset (concat (drop (Suc p) ts))"
    by (simp add: upd_conv_take_nth_drop [OF assms(1)])
  have slot: "add_mset (?t ! d) (mset (?t[d := x])) = add_mset x (mset ?t)"
    using assms(2) by (simp add: mset_update nth_mem)
  have "add_mset (?t ! d) (mset (concat (ts[p := ?t[d := x]]))) =
      mset (concat (take p ts)) + add_mset (?t ! d) (mset (?t[d := x])) + mset (concat (drop (Suc p) ts))" unfolding new by simp
  then show ?thesis unfolding slot old by simp
qed

lemma set_slot_Some:
  assumes "files_inv base s" and "p < length (tables s)" and "d < MAX_PROCESS_OPEN_FILES"
  obtains s' where "set_slot p d x s = Some s'" "s' = s\<lparr>tables := (tables s)[p := (tables s ! p)[d := x]]\<rparr>"
    "\<And>f. count_list (slots s') f + of_bool (tables s ! p ! d = f) = count_list (slots s) f + of_bool (x = f)"
    "\<forall>t \<in> set (tables s'). length t = MAX_PROCESS_OPEN_FILES" "length (tables s') = length (tables s)"
proof -
  have len: "length (tables s ! p) = MAX_PROCESS_OPEN_FILES" using assms(1,2) by (auto simp: files_inv_def)
  let ?s = "s\<lparr>tables := (tables s)[p := (tables s ! p)[d := x]]\<rparr>"
  have "set_slot p d x s = Some ?s" using assms(2,3) len by (simp add: set_slot_def)
  moreover have "count_list (slots ?s) f + of_bool (tables s ! p ! d = f) = count_list (slots s) f + of_bool (x = f)" for f
    using arg_cong [OF mset_set_slot [of p "tables s" d x], of "\<lambda>M. count M f"] assms(2,3) len by (auto simp: count_mset split: if_splits)
  moreover have "\<forall>t \<in> set (tables ?s). length t = MAX_PROCESS_OPEN_FILES"
    using assms(1) len set_update_subset [of "tables s" p "(tables s ! p)[d := x]"] by (auto simp: files_inv_def)
  ultimately show ?thesis using that by simp
qed

lemma files_count: "f \<in> files s \<longleftrightarrow> f \<noteq> 0 \<and> 0 < count_list (slots s) f"
  using count_list_0_iff [of "slots s" f] by (auto simp: files_def simp del: set_concat)

lemma handle_Some:
  assumes "files_inv base s" and "p < length (tables s)"
  shows "handle p fd s = Some (if sint fd < 0 \<or> sint fd \<ge> int MAX_PROCESS_OPEN_FILES then 0 else tables s ! p ! nat (sint fd))"
proof -
  have "length (tables s ! p) = MAX_PROCESS_OPEN_FILES" using assms by (auto simp: files_inv_def)
  then show ?thesis using assms(2) by (auto simp: handle_def)
qed

lemma handle_file:
  assumes "files_inv base s" and "handle p fd s = Some f" and "f \<noteq> 0"
  shows "f \<in> files s" "p < length (tables s)" "nat (sint fd) < MAX_PROCESS_OPEN_FILES" "tables s ! p ! nat (sint fd) = f"
    "0 \<le> sint fd"
proof -
  show p: "p < length (tables s)" using assms(2) by (auto simp: handle_def get_at_def split: Option.bind_splits if_splits)
  show fd: "nat (sint fd) < MAX_PROCESS_OPEN_FILES" "tables s ! p ! nat (sint fd) = f" "0 \<le> sint fd"
    using assms(2,3) handle_Some [OF assms(1) p, of fd] by (auto split: if_splits)
  have "length (tables s ! p) = MAX_PROCESS_OPEN_FILES" using assms(1) p by (auto simp: files_inv_def)
  then have "f \<in> set (tables s ! p)" using fd nth_mem by metis
  then show "f \<in> files s" using assms(3) nth_mem [OF p] by (auto simp: files_def)
qed

text \<open>Changes of memory and of the VFS that the invariant does not see.\<close>

lemma files_inv_cong:
  assumes "files_inv base s" and "tables s' = tables s" and "quiet (vfs s) (vfs s')"
    and "\<And>f. f \<in> files s \<Longrightarrow> v_ptr (kmem s') f = v_ptr (kmem s) f \<and> references (kmem s') f = references (kmem s) f \<and> flock (kmem s') f = flock (kmem s) f"
  shows "files_inv base s'"
proof -
  have fs: "files s' = files s" using assms(2) by (simp add: files_def)
  then have "held s' = held s" using assms(4) by (auto simp: held_def fun_eq_iff)
  moreover have "file_ok s' f = file_ok s f" if "f \<in> files s" for f
    using assms(2,3) assms(4) [OF that] by (simp add: file_ok_def quiet_def)
  moreover note assms(1) [unfolded files_inv_def] quiet_devs_ok [OF assms(3)]
  ultimately show ?thesis using fs assms(2,3) unfolding files_inv_def by (simp add: quiet_def)
qed

lemma files_inv_mem:
  assumes "files_inv base s" and "\<And>f. f \<in> files s \<Longrightarrow> file_at m f = file_at (kmem s) f"
  shows "files_inv base (s\<lparr>kmem := m\<rparr>)"
  using assms(1) by (rule files_inv_cong) (simp_all add: fields_eq assms(2))

lemma files_inv_num [simp]: "files_inv base (s\<lparr>num_open_files := k\<rparr>) = files_inv base s"
  by (simp add: files_inv_def files_def held_def file_ok_def)

lemma file_at_clear:
  assumes "clear s p n" and "f \<in> files s" and "\<And>a. outside p n a \<Longrightarrow> USERSPACETOP \<le> a \<Longrightarrow> m' a = m a" and "files_inv base s"
  shows "file_at m' f = file_at m f"
proof (rule file_at_cong)
  fix a assume w: "within f a"
  have "file_ok s f" using assms(2,4) by (auto simp: files_inv_def)
  then have "USERSPACETOP \<le> a" using within_kernel w by (auto simp: file_ok_def)
  then show "m' a = m a" using assms(1,2,3) w by (auto simp: clear_def)
qed

text \<open>More or fewer references to a vnode.\<close>

definition adjust :: "ptr \<Rightarrow> int \<Rightarrow> 'f world \<Rightarrow> 'f world" where
  "adjust v k w = w\<lparr>vnodes := (vnodes w)(v := map_option (\<lambda>n. n\<lparr>vn_refcount := vn_refcount n + k\<rparr>) (vnodes w v))\<rparr>"

lemma referenced_adjust: "referenced v w = adjust v 1 w"
  by (simp add: referenced_def adjust_def)

lemma adjust_knowndevs [simp]: "knowndevs (adjust v k w) = knowndevs w"
  by (simp add: adjust_def)

lemma adjust_devs_ok:
  assumes "devs_ok w" and "\<And>n. vnodes w v = Some n \<Longrightarrow> 1 \<le> vn_refcount n + k"
  shows "devs_ok (adjust v k w)"
proof -
  have "dev_vnode w u \<Longrightarrow> dev_vnode (adjust v k w) u" for u
    using assms(2) by (auto simp: dev_vnode_def adjust_def split: option.splits)
  then show ?thesis using assms(1) by (auto simp: devs_ok_def adjust_def)
qed

lemma decref_adjust:
  assumes "vnodes w v = Some n" and "v \<noteq> 0" and "2 \<le> vn_refcount n"
  shows "vfs_close F v w = Some (adjust v (- 1) w)"
  using assms by (simp add: vfs_close_def vnode_decref_def adjust_def)

lemma file_vnode:
  assumes "files_inv base s" and "f \<in> files s"
  obtains n where "vnodes (vfs s) (v_ptr (kmem s) f) = Some n" "v_ptr (kmem s) f \<noteq> 0" "2 \<le> vn_refcount n"
    "dev_vnode (vfs s) (v_ptr (kmem s) f)" "1 \<le> base (v_ptr (kmem s) f)"
proof -
  let ?v = "v_ptr (kmem s) f"
  obtain kd where kd: "kd \<in> set (knowndevs (vfs s))" "?v = kd_vnode kd"
    using assms by (auto simp: files_inv_def file_ok_def)
  then have v: "dev_vnode (vfs s) ?v" "1 \<le> base ?v" using assms(1) by (auto simp: files_inv_def devs_ok_def)
  then obtain n where n: "vnodes (vfs s) ?v = Some n" "?v \<noteq> 0" by (auto simp: dev_vnode_def split: option.splits)
  have "f \<in> held s ?v" using assms(2) by (simp add: held_def)
  then have "1 \<le> card (held s ?v)" using files_finite(2) [of s ?v] by (metis One_nat_def Suc_leI card_gt_0_iff empty_iff)
  moreover have "vn_refcount n = base ?v + int (card (held s ?v))" using assms(1) n(1) by (simp add: files_inv_def)
  ultimately have "2 \<le> vn_refcount n" using v(2) by linarith
  then show ?thesis using that n v by blast
qed

lemma set_other:
  assumes "\<And>a. within g a \<Longrightarrow> \<not> within f a"
  shows "file_at (set_v_ptr f x m) g = file_at m g" "file_at (set_open_flags f x m) g = file_at m g"
    "file_at (set_references f x m) g = file_at m g" "file_at (set_flock f x m) g = file_at m g" "file_at (set_offset f y m) g = file_at m g"
  using assms by (auto intro!: file_at_cong set_field_frame)

lemma files_apart: "files_inv base s \<Longrightarrow> f \<in> files s \<Longrightarrow> g \<in> files s \<Longrightarrow> g \<noteq> f \<Longrightarrow> within g a \<Longrightarrow> \<not> within f a"
  unfolding files_inv_def by blast

section \<open>Operations and the invariant\<close>

text \<open>The offset of a file may change, and kernel memory that no file uses.\<close>

lemma set_offset_inv:
  assumes "files_inv base s" and "f \<in> files s" and "quiet (vfs s) w" and "\<And>g. g \<in> files s \<Longrightarrow> file_at m g = file_at (kmem s) g"
  shows "files_inv base (s\<lparr>kmem := set_offset f x m, vfs := w\<rparr>)"
  using assms(1)
proof (rule files_inv_cong)
  fix g assume g: "g \<in> files s"
  show "v_ptr (kmem (s\<lparr>kmem := set_offset f x m, vfs := w\<rparr>)) g = v_ptr (kmem s) g \<and>
    references (kmem (s\<lparr>kmem := set_offset f x m, vfs := w\<rparr>)) g = references (kmem s) g \<and>
    flock (kmem (s\<lparr>kmem := set_offset f x m, vfs := w\<rparr>)) g = flock (kmem s) g"
  proof (cases "g = f")
    case True
    then show ?thesis using assms(4) [OF g] by (simp add: fields_eq)
  next
    case False
    then show ?thesis using assms(4) [OF g] set_other(5) [OF files_apart [OF assms(1,2) g False]] by (simp add: fields_eq)
  qed
qed (use assms(3) in simp_all)

text \<open>A slot that held \<open>f\<close> is cleared.\<close>

definition dropped :: "nat \<Rightarrow> nat \<Rightarrow> ptr \<Rightarrow> 'f sys \<Rightarrow> 'f sys" where
  "dropped p d f s = s\<lparr>tables := (tables s)[p := (tables s ! p)[d := 0]],
     kmem := set_references f (references (kmem s) f - 1) (kmem s),
     vfs := (if count_list (slots s) f = 1 then adjust (v_ptr (kmem s) f) (- 1) (vfs s) else vfs s)\<rparr>"

lemma dropped_inv:
  assumes inv: "files_inv base s" and f: "f \<in> files s" "p < length (tables s)" "d < MAX_PROCESS_OPEN_FILES" "tables s ! p ! d = f"
  shows "files_inv base (dropped p d f s)"
proof -
  obtain s1 where s1: "s1 = s\<lparr>tables := (tables s)[p := (tables s ! p)[d := 0]]\<rparr>"
    "\<And>g. count_list (slots s1) g + of_bool (f = g) = count_list (slots s) g + of_bool (0 = g)"
    "\<forall>t \<in> set (tables s1). length t = MAX_PROCESS_OPEN_FILES" "length (tables s1) = length (tables s)"
    using set_slot_Some [OF inv f(2,3), of 0] f(4) by metis
  define s2 where "s2 = dropped p d f s"
  have tab: "tables s2 = tables s1" by (simp add: s2_def dropped_def s1(1))
  let ?last = "count_list (slots s) f = 1" and ?v = "v_ptr (kmem s) f"
  have fs: "files s2 = (if ?last then files s - {f} else files s)"
  proof -
    have "g \<in> files s2 \<longleftrightarrow> g \<in> files s \<and> \<not> (?last \<and> g = f)" for g
      using s1(2) [of g] f(1) by (cases "g = f") (auto simp: files_count tab)
    then show ?thesis by auto
  qed
  have other: "file_at (kmem s2) g = file_at (kmem s) g" if "g \<in> files s" "g \<noteq> f" for g
    using set_other(3) [OF files_apart [OF inv f(1) that]] by (simp add: s2_def dropped_def)
  have same: "v_ptr (kmem s2) g = v_ptr (kmem s) g" "flock (kmem s2) g = flock (kmem s) g" if "g \<in> files s" for g
    using that other [of g] by (cases "g = f"; simp add: fields_eq s2_def dropped_def)+
  obtain n where n: "vnodes (vfs s) ?v = Some n" "?v \<noteq> 0" "2 \<le> vn_refcount n" using file_vnode [OF inv f(1)] by metis
  have "file_ok s2 g" if "g \<in> files s2" for g
  proof -
    have g: "g \<in> files s" using that fs by (simp split: if_splits)
    have ok: "file_ok s g" using inv g by (auto simp: files_inv_def)
    have "references (kmem s2) g = of_nat (count_list (slots s2) g)"
    proof (cases "g = f")
      case True
      then have "count_list (slots s) f = Suc (count_list (slots s2) f)" using s1(2) [of f] f(1) by (simp add: tab files_def)
      then show ?thesis using True ok by (simp add: s2_def dropped_def file_ok_def)
    next
      case False
      then show ?thesis using other [OF g False] ok s1(2) [of g] g by (simp add: fields_eq file_ok_def tab files_def)
    qed
    then show ?thesis using ok same [OF g] by (simp add: file_ok_def) (simp add: s2_def dropped_def adjust_def)
  qed
  moreover have "held s2 u = (if ?last then held s u - {f} else held s u)" for u
    using fs same by (auto simp: held_def)
  then have "int (card (held s2 u)) = int (card (held s u)) - of_bool (?last \<and> u = ?v)" for u
    using files_finite(2) [of s u] f(1) card_Suc_Diff1 [of "held s u" f] by (cases "u = ?v") (auto simp: held_def)
  then have "\<forall>u n. vnodes (vfs s2) u = Some n \<longrightarrow> vn_refcount n = base u + int (card (held s2 u))"
    using inv n(1) by (auto simp: files_inv_def s2_def dropped_def adjust_def)
  moreover have "devs_ok (vfs s2)" "knowndevs (vfs s2) = knowndevs (vfs s)"
    using inv adjust_devs_ok [of "vfs s" ?v "- 1"] n by (auto simp: files_inv_def s2_def dropped_def adjust_def)
  ultimately show ?thesis
    using inv s1(3,4) fs unfolding files_inv_def s2_def [symmetric] tab by auto
qed

text \<open>The test of \<open>close\<close>: the last reference.\<close>

lemma sint_of_nat_u32: "k < 2 ^ 31 \<Longrightarrow> sint (of_nat k :: u32) = int k"
  by (simp add: signed_of_nat signed_take_bit_int_eq_self)

lemma length_slots: "files_inv base s \<Longrightarrow> length (slots s) = 16 * length (tables s)"
proof -
  have "\<forall>t \<in> set ts. length t = (16 :: nat) \<Longrightarrow> length (concat ts) = 16 * length ts" for ts :: "ptr list list"
    by (induction ts) auto
  then show "files_inv base s \<Longrightarrow> ?thesis" by (simp add: files_inv_def MAX_PROCESS_OPEN_FILES_def)
qed

lemma last_reference:
  assumes "files_inv base s" and "f \<in> files s"
  shows "sint (references (kmem s) f - 1) \<le> 0 \<longleftrightarrow> count_list (slots s) f = 1"
proof -
  define k where "k = count_list (slots s) f"
  have "k \<le> length (slots s)" unfolding k_def by (rule count_le_length)
  then have k: "0 < k" "k < 2 ^ 31"
    using assms length_slots [OF assms(1)] by (auto simp: files_inv_def files_count k_def)
  have "references (kmem s) f = of_nat k" using assms by (auto simp: files_inv_def file_ok_def k_def)
  then have "references (kmem s) f - 1 = of_nat (k - 1)" using k(1) by (simp add: of_nat_diff)
  then have "sint (references (kmem s) f - 1) = int (k - 1)" using k(2) sint_of_nat_u32 [of "k - 1"] by simp
  then show ?thesis using k(1) unfolding k_def [symmetric] by linarith
qed

lemma close_file_eq:
  assumes inv: "files_inv base s" and h: "handle p fd s = Some f" "f \<noteq> 0"
  shows "close_file F p fd s = Some (Inr (), (dropped p (nat (sint fd)) f s)\<lparr>num_open_files := num_open_files s - 1\<rparr>)"
proof -
  note f = handle_file [OF inv h]
  obtain n where n: "vnodes (vfs s) (v_ptr (kmem s) f) = Some n" "v_ptr (kmem s) f \<noteq> 0" "2 \<le> vn_refcount n" using file_vnode [OF inv f(1)] by metis
  have lk: "flock (kmem s) f \<noteq> 0" using inv f(1) by (auto simp: files_inv_def file_ok_def)
  have "set_slot p (nat (sint fd)) 0 s = Some (s\<lparr>tables := (tables s)[p := (tables s ! p)[nat (sint fd) := 0]]\<rparr>)"
    using set_slot_Some [OF inv f(2,3), of 0] by metis
  then show ?thesis
    using h lk last_reference [OF inv f(1)] decref_adjust [OF n, of F] by (simp add: close_file_def Let_def dropped_def)
qed

lemma close_inv:
  assumes "files_inv base s" and "p < length (tables s)"
  shows "\<exists>r s'. close_file F p fd s = Some (r, s') \<and> files_inv base s'"
proof -
  obtain f where f: "handle p fd s = Some f" using handle_Some [OF assms] by blast
  show ?thesis
  proof (cases "f = 0")
    case True
    then show ?thesis using f assms(1) by (simp add: close_file_def)
  next
    case False
    note h = handle_file [OF assms(1) f False]
    show ?thesis using close_file_eq [OF assms(1) f False, of F] dropped_inv [OF assms(1) h(1-4)] by simp
  qed
qed

text \<open>An empty slot receives a file that is open.\<close>

definition shared :: "nat \<Rightarrow> nat \<Rightarrow> ptr \<Rightarrow> 'f sys \<Rightarrow> 'f sys" where
  "shared p d f s = s\<lparr>tables := (tables s)[p := (tables s ! p)[d := f]],
     kmem := set_references f (references (kmem s) f + 1) (kmem s)\<rparr>"

lemma shared_inv:
  assumes inv: "files_inv base s" and f: "f \<in> files s" "p < length (tables s)" "d < MAX_PROCESS_OPEN_FILES" "tables s ! p ! d = 0"
  shows "files_inv base (shared p d f s)"
proof -
  obtain s1 where s1: "s1 = s\<lparr>tables := (tables s)[p := (tables s ! p)[d := f]]\<rparr>"
    "\<And>g. count_list (slots s1) g + of_bool (0 = g) = count_list (slots s) g + of_bool (f = g)"
    "\<forall>t \<in> set (tables s1). length t = MAX_PROCESS_OPEN_FILES" "length (tables s1) = length (tables s)"
    using set_slot_Some [OF inv f(2,3), of f] f(4) by metis
  define s2 where "s2 = shared p d f s"
  have tab: "tables s2 = tables s1" "vfs s2 = vfs s" by (simp_all add: s2_def shared_def s1(1))
  have "g \<in> files s2 \<longleftrightarrow> g \<in> files s" for g
    using s1(2) [of g] f(1) by (cases "g = f"; cases "g = 0") (simp_all add: files_count tab)
  then have fs: "files s2 = files s" by blast
  have other: "file_at (kmem s2) g = file_at (kmem s) g" if "g \<in> files s" "g \<noteq> f" for g
    using set_other(3) [OF files_apart [OF inv f(1) that]] by (simp add: s2_def shared_def)
  have same: "v_ptr (kmem s2) g = v_ptr (kmem s) g" "flock (kmem s2) g = flock (kmem s) g" if "g \<in> files s" for g
    using that other [of g] by (cases "g = f"; simp add: fields_eq s2_def shared_def)+
  have "file_ok s2 g" if g: "g \<in> files s" for g
  proof -
    have ok: "file_ok s g" using inv g by (auto simp: files_inv_def)
    have "references (kmem s2) g = of_nat (count_list (slots s2) g)"
    proof (cases "g = f")
      case True
      then have "count_list (slots s2) f = Suc (count_list (slots s) f)" using s1(2) [of f] f(1) by (simp add: tab files_def)
      then show ?thesis using True ok by (simp add: s2_def shared_def file_ok_def)
    next
      case False
      then show ?thesis using other [OF g False] ok s1(2) [of g] g by (simp add: fields_eq file_ok_def tab files_def)
    qed
    then show ?thesis using ok same [OF g] by (simp add: file_ok_def tab(2))
  qed
  moreover have "held s2 = held s" using fs same by (auto simp: held_def fun_eq_iff)
  ultimately show ?thesis
    using inv s1(3,4) fs unfolding files_inv_def s2_def [symmetric] tab by simp
qed

text \<open>An empty slot receives a new file.\<close>

definition new_file :: "ptr \<Rightarrow> ptr \<Rightarrow> u32 \<Rightarrow> ptr \<Rightarrow> mem \<Rightarrow> mem" where
  "new_file f vn flags lk m = set_v_ptr f vn (set_references f 1 (set_open_flags f flags (set_offset f 0 (set_flock f lk m))))"

text \<open>\<open>open2\<close> stores the fields in another order.\<close>

definition new_file2 :: "ptr \<Rightarrow> ptr \<Rightarrow> u32 \<Rightarrow> ptr \<Rightarrow> mem \<Rightarrow> mem" where
  "new_file2 f vn flags lk m = set_references f 1 (set_open_flags f flags (set_offset f 0 (set_flock f lk (set_v_ptr f vn m))))"

definition opened :: "nat \<Rightarrow> nat \<Rightarrow> ptr \<Rightarrow> ptr \<Rightarrow> mem \<Rightarrow> 'f sys \<Rightarrow> 'f sys" where
  "opened p d f vn m s = s\<lparr>tables := (tables s)[p := (tables s ! p)[d := f]], kmem := m, vfs := referenced vn (vfs s)\<rparr>"

lemma file_at_new:
  "file_at (new_file f vn flags lk m) f = (vn, flags, 1, lk, 0)" "file_at (new_file2 f vn flags lk m) f = (vn, flags, 1, lk, 0)"
  by (simp_all add: new_file_def new_file2_def fields_eq)

lemma within_outside: "within f a \<Longrightarrow> fits f 24 \<Longrightarrow> \<not> outside f 24 a"
proof -
  assume f: "within f a" "fits f 24"
  have "a = f + of_nat (unat (a - f))" by simp
  moreover have "unat (f + of_nat (unat (a - f))) = unat f + unat (a - f)" using f unat_ptr [of f "unat (a - f)"] by (simp add: within_def)
  ultimately show ?thesis using f(1) by (simp add: outside_def within_def)
qed

lemma clear_apart: "clear s f 24 \<Longrightarrow> g \<in> files s \<Longrightarrow> within g a \<Longrightarrow> \<not> within f a"
  using within_outside by (auto simp: clear_def)

lemma opened_inv:
  assumes inv: "files_inv base s" and f: "clear s f 24" "p < length (tables s)" "d < MAX_PROCESS_OPEN_FILES" "tables s ! p ! d = 0"
    and vn: "vn \<in> kd_vnode ` set (knowndevs (vfs s))" and lk: "lk \<noteq> 0"
    and m: "m = new_file f vn flags lk (kmem s) \<or> m = new_file2 f vn flags lk (kmem s)"
  shows "files_inv base (opened p d f vn m s)"
proof -
  obtain s1 where s1: "s1 = s\<lparr>tables := (tables s)[p := (tables s ! p)[d := f]]\<rparr>"
    "\<And>g. count_list (slots s1) g + of_bool (0 = g) = count_list (slots s) g + of_bool (f = g)"
    "\<forall>t \<in> set (tables s1). length t = MAX_PROCESS_OPEN_FILES" "length (tables s1) = length (tables s)"
    using set_slot_Some [OF inv f(2,3), of f] f(4) by metis
  define s2 where "s2 = opened p d f vn m s"
  have tab: "tables s2 = tables s1" "vfs s2 = adjust vn 1 (vfs s)"
    by (simp_all add: s2_def opened_def s1(1) referenced_adjust)
  have f0: "f \<noteq> 0" using f(1) by (auto simp: clear_def)
  have new: "f \<notin> files s" using clear_apart [OF f(1), of f f] within_fields(1) by auto
  have "g \<in> files s2 \<longleftrightarrow> g = f \<or> g \<in> files s" for g
    using s1(2) [of g] f0 by (cases "g = f"; cases "g = 0") (simp_all add: files_count tab)
  then have fs: "files s2 = insert f (files s)" by blast
  have at_f: "file_at (kmem s2) f = (vn, flags, 1, lk, 0)" using m file_at_new by (auto simp: s2_def opened_def)
  have other: "file_at (kmem s2) g = file_at (kmem s) g" if "g \<in> files s" for g
    using m set_other [OF clear_apart [OF f(1) that]] by (auto simp: s2_def opened_def new_file_def new_file2_def)
  have "file_ok s2 f"
    using f(1) s1(2) [of f] f0 new lk vn at_f
    by (auto simp: file_ok_def clear_def tab fields_eq files_count)
  moreover have "file_ok s2 g" if g: "g \<in> files s" for g
    using inv g new other [OF g] s1(2) [of g] by (cases "g = f") (auto simp: files_inv_def file_ok_def tab fields_eq files_def)
  moreover have "held s2 u = (if u = vn then insert f (held s u) else held s u)" for u
    using fs other at_f new by (auto simp: held_def fields_eq)
  then have "int (card (held s2 u)) = int (card (held s u)) + of_bool (u = vn)" for u
    using files_finite(2) [of s u] new by (simp add: held_def)
  then have "\<forall>u n. vnodes (vfs s2) u = Some n \<longrightarrow> vn_refcount n = base u + int (card (held s2 u))"
    using inv by (auto simp: files_inv_def tab adjust_def)
  moreover have "devs_ok (vfs s2)"
  proof -
    have ok: "devs_ok (vfs s)" using inv by (simp add: files_inv_def)
    then have "dev_vnode (vfs s) vn" using vn by (auto simp: devs_ok_def)
    then have "1 \<le> vn_refcount n + 1" if "vnodes (vfs s) vn = Some n" for n using that by (simp add: dev_vnode_def)
    then show ?thesis unfolding tab(2) using adjust_devs_ok [OF ok] by blast
  qed
  moreover have "\<forall>g \<in> files s2. \<forall>h \<in> files s2. \<forall>a. within g a \<and> within h a \<longrightarrow> g = h"
    using inv clear_apart [OF f(1)] unfolding fs files_inv_def by blast
  ultimately show ?thesis
    using inv s1(3,4) fs unfolding files_inv_def s2_def [symmetric] tab by auto
qed

lemma kd_vnode_names: "names w name v \<Longrightarrow> v \<in> kd_vnode ` set (knowndevs w)"
  by (auto simp: names_def)

lemma open_file_inv:
  assumes inv: "files_inv base s" and f: "clear s f 24" "p < length (tables s)" "d < MAX_PROCESS_OPEN_FILES" "tables s ! p ! d = 0"
    and lk: "lk \<noteq> 0" and F: "drivers_open F"
  shows "\<exists>r s'. open_file F f lk p name flags d s = Some (r, s') \<and> files_inv base s'" (is ?A)
    "\<exists>r s'. open2 F f lk p name flags d s = Some (r, s') \<and> files_inv base s'" (is ?B)
proof -
  have f0: "f \<noteq> 0" using f(1) by (auto simp: clear_def)
  have ok: "devs_ok (vfs s)" using inv by (simp add: files_inv_def)
  have len: "length (tables s ! p) = MAX_PROCESS_OPEN_FILES" using inv f(2) by (auto simp: files_inv_def)
  from vfs_open_dev [OF ok F, of name flags 0] have "?A \<and> ?B"
  proof (elim disjE exE conjE)
    fix e assume "vfs_open F name flags 0 (vfs s) = Some (Inl e, vfs s)"
    then show ?thesis using f0 inv by (simp add: open_file_def open2_def)
  next
    fix vn dn rest assume vn: "names (vfs s) dn vn" and o: "vfs_open F name flags 0 (vfs s) = Some (Inr vn, referenced vn (vfs s))"
    have "open_file F f lk p name flags d s = Some (Inr (), opened p d f vn (new_file f vn flags lk (kmem s)) s)"
      using f0 o lk f(2,3) len by (simp add: open_file_def opened_def new_file_def set_slot_def Let_def)
    moreover have "open2 F f lk p name flags d s = Some (Inr (), opened p d f vn (new_file2 f vn flags lk (kmem s)) s)"
      using f0 o lk f(2,3) len by (simp add: open2_def opened_def new_file2_def set_slot_def Let_def)
    ultimately show ?thesis using opened_inv [OF inv f kd_vnode_names [OF vn] lk] by blast
  qed
  then show ?A ?B by simp_all
qed

lemma sys_dup2_inv:
  assumes inv: "files_inv base s" and p: "p < length (tables s)"
  shows "\<exists>r s'. sys_dup2 F p old new s = Some (r, s') \<and> files_inv base s'"
proof -
  obtain f g where h: "handle p old s = Some f" "handle p new s = Some g" using handle_Some [OF inv p] by blast
  show ?thesis
  proof (cases "sint new < 0 \<or> sint new \<ge> int MAX_PROCESS_OPEN_FILES \<or> f = 0 \<or> old = new")
    case True
    then show ?thesis using h inv by (auto simp: sys_dup2_def)
  next
    case ok: False
    let ?d = "nat (sint new)"
    have d: "?d < MAX_PROCESS_OPEN_FILES" using ok by auto
    note f = handle_file [OF inv h(1)]
    have ne: "nat (sint old) \<noteq> ?d" using ok f(5) signed_word_eqI [of old new] by (auto simp: eq_nat_nat_iff)
    have len: "length (tables s ! p) = MAX_PROCESS_OPEN_FILES" using inv p by (auto simp: files_inv_def)
    define s1 where "s1 = (if g = 0 then s else (dropped p ?d g s)\<lparr>num_open_files := num_open_files s - 1\<rparr>)"
    have inv1: "files_inv base s1"
      using inv dropped_inv [OF inv handle_file(1-4) [OF inv h(2)]] by (simp add: s1_def)
    have g: "g = tables s ! p ! ?d" using h(2) handle_Some [OF inv p, of new] ok by simp
    have tab: "length (tables s1) = length (tables s)" "tables s1 ! p ! ?d = 0" "tables s1 ! p ! nat (sint old) = f"
      using p d len ne f ok g by (auto simp: s1_def dropped_def)
    have h1: "handle p old s1 = Some f"
      using handle_Some [OF inv1, of p old] handle_Some [OF inv p, of old] h(1) ok p tab by (simp split: if_splits)
    note f1 = handle_file [OF inv1 h1]
    have "set_slot p ?d f s1 = Some (s1\<lparr>tables := (tables s1)[p := (tables s1 ! p)[?d := f]]\<rparr>)"
      using set_slot_Some [OF inv1 _ d, of p f] p tab by metis
    moreover have "(if g \<noteq> 0 then sys_close F p new s else Some (Inr (), s)) = Some (Inr (), s1)"
      using close_file_eq [OF inv h(2), of F] by (simp add: sys_close_def s1_def)
    ultimately have "sys_dup2 F p old new s = Some (Inr (), shared p ?d f s1)"
      using h ok h1 by (simp add: sys_dup2_def shared_def)
    then show ?thesis using shared_inv [OF inv1 f1(1) _ d tab(2)] p tab ok by simp
  qed
qed

text \<open>Copying into kernel memory that no file uses.\<close>

lemma copyinstr_frame:
  assumes "2 ^ 31 \<le> unat k" and "fits k (unat len)" and "0 < unat len" and "outside k (unat len) a"
  shows "snd (copyinstr as u k len m) a = m a"
proof -
  have "\<exists>e j. copyinstr as u k len m = (e, copy_bytes m k u 0 j) \<and> j \<le> unat len"
  proof (cases "\<exists>n < unat len. ustring as m u n")
    case True
    then obtain n where n: "n < unat len" "ustring as m u n" by blast
    show ?thesis using copyinstr_found [OF assms(1,2) n] Suc_leI [OF n(1)] by blast
  next
    case False
    show ?thesis using copyinstr_fails [OF assms(1-3) False] by blast
  qed
  then obtain e j where j: "copyinstr as u k len m = (e, copy_bytes m k u 0 j)" "j \<le> unat len" by blast
  have "copy_bytes m k u 0 j a = m a"
    using j(2) outside_neq [OF assms(4) _ assms(2)] by (intro copy_bytes_frame) simp
  then show ?thesis using j(1) by simp
qed

lemma copyin_frame:
  assumes "paged as" and "2 ^ 31 \<le> unat k" and "fits k (unat len)" and "outside k (unat len) a"
  shows "snd (copyin as u k len m) a = m a"
  using copyin_total [OF assms(1-3), of u m] copied_outside [of m _ k u "unat len" "unat len" a] assms(3,4)
  by (auto split: if_splits)

lemma free_slot_Some:
  assumes "\<And>fd. i fd < length t"
  shows "\<exists>fd. free_slot i t fds = Some fd \<and> (fd = MAX_PROCESS_OPEN_FILES \<or> fd \<in> set fds \<and> t ! i fd = 0)"
  using assms by (induction fds) auto

lemma sys_open_inv:
  assumes inv: "files_inv base s" and p: "p < length (tables s)" and i: "\<forall>fd. i fd < MAX_PROCESS_OPEN_FILES"
    and k: "clear s k 1024" and f: "clear s f 24" and lk: "lk \<noteq> 0" and F: "drivers_open F"
  shows "\<exists>r s'. sys_open i F c k f lk p filename flags s = Some (r, s') \<and> files_inv base s'"
proof (cases "filename = 0")
  case False
  have k0: "k \<noteq> 0" "2 ^ 31 \<le> unat k" "fits k (unat PATH_MAX)" "0 < unat PATH_MAX" using k by (auto simp: clear_def PATH_MAX_def)
  obtain r m where cp: "copyinstr (cur_rights c) filename k PATH_MAX (kmem s) = (r, m)" by (metis surj_pair)
  have "file_at m g = file_at (kmem s) g" if "g \<in> files s" for g
    using file_at_clear [OF k that _ inv, of m "kmem s"] copyinstr_frame [OF k0(2-4), of _ "cur_rights c" filename "kmem s"] cp
    by (simp add: PATH_MAX_def)
  then have inv1: "files_inv base (s\<lparr>kmem := m\<rparr>)" (is "files_inv base ?s") by (intro files_inv_mem [OF inv])
  show ?thesis
  proof (cases r)
    case (Inl e)
    then show ?thesis using cp False k0(1) inv1 by (simp add: sys_open_def)
  next
    case (Inr got)
    have len: "length (tables s ! p) = MAX_PROCESS_OPEN_FILES" using inv p by (auto simp: files_inv_def)
    then obtain fd where fd: "free_slot i (tables s ! p) [3..<MAX_PROCESS_OPEN_FILES] = Some fd"
      "fd = MAX_PROCESS_OPEN_FILES \<or> fd \<in> set [3..<MAX_PROCESS_OPEN_FILES] \<and> tables s ! p ! i fd = 0"
      using free_slot_Some [of i "tables s ! p" "[3..<MAX_PROCESS_OPEN_FILES]"] i by metis
    have cl: "clear ?s f 24" using f by (simp add: clear_def files_def)
    have "\<exists>r s'. open_file F f lk p (map m (addrs k (unat got - 1))) flags (i fd) ?s = Some (r, s') \<and> files_inv base s'"
      if "fd \<noteq> MAX_PROCESS_OPEN_FILES"
      using open_file_inv(1) [OF inv1 cl _ spec [OF i], of p fd] p fd(2) that lk F by simp
    then show ?thesis
      using cp False k0(1) inv1 Inr fd(1) p by (fastforce simp: sys_open_def Let_def split: sum.split)
  qed
qed (use inv in \<open>simp add: sys_open_def\<close>)

context driver_ops
begin

lemma transfer_frame:
  assumes inv: "files_inv base s" and f: "f \<in> files s" and chp: "clear s chp 1" "paged (cur_rights c)" and u: "uio_segflg u \<noteq> UIO_SYSSPACE"
    and v: "VOP_READ F c chp (v_ptr (kmem s) f) u (kmem s) (vfs s) = Some (r, u', m, w) \<or>
      VOP_WRITE F c chp (v_ptr (kmem s) f) u (kmem s) (vfs s) = Some (r, u', m, w)"
  shows "quiet (vfs s) w" "\<And>g. g \<in> files s \<Longrightarrow> file_at m g = file_at (kmem s) g"
proof -
  have d: "dev_vnode (vfs s) (v_ptr (kmem s) f)" using file_vnode [OF inv f] by metis
  have "2 ^ 31 \<le> unat chp" using chp(1) by (simp add: clear_def)
  note w = VOP_rw_user [OF v d chp(2) u this]
  then show "quiet (vfs s) w" by simp
  have "m a = kmem s a" if "outside chp 1 a" "USERSPACETOP \<le> a" for a using w that by (auto simp: outside_def)
  then show "file_at m g = file_at (kmem s) g" if "g \<in> files s" for g by (rule file_at_clear [OF chp(1) that _ inv])
qed

lemma sys_read_inv:
  assumes "sys_read F c chp p fd buf len s = Some (r, s')" and inv: "files_inv base s" and chp: "clear s chp 1" "paged (cur_rights c)"
  shows "files_inv base s'"
proof -
  obtain f where f: "handle p fd s = Some f" using assms(1) by (auto simp: sys_read_def split: Option.bind_splits)
  show ?thesis
  proof (cases "f = 0 \<or> open_flags (kmem s) f AND O_ACCMODE = O_WRONLY")
    case True
    then show ?thesis using assms(1) f inv by (auto simp: sys_read_def split: if_splits)
  next
    case False
    define u where "u = uio_uinit c buf len (offset (kmem s) f) UIO_READ"
    obtain r' u' m w where v: "VOP_READ F c chp (v_ptr (kmem s) f) u (kmem s) (vfs s) = Some (r', u', m, w)"
      using assms(1) f False by (auto simp: sys_read_def u_def Let_def split: Option.bind_splits)
    have fs: "f \<in> files s" using handle_file [OF inv f] False by simp
    have "uio_segflg u \<noteq> UIO_SYSSPACE" by (simp add: u_def uio_uinit_def)
    note t = transfer_frame [OF inv fs chp this disjI1 [OF v]]
    have "files_inv base (s\<lparr>kmem := m, vfs := w\<rparr>)" using inv by (rule files_inv_cong) (simp_all add: t fields_eq)
    then show ?thesis
      using assms(1) f False v set_offset_inv [OF inv fs t] by (cases r') (auto simp: sys_read_def u_def Let_def)
  qed
qed

lemma sys_write_inv:
  assumes "sys_write F c chp p fd buf len s = Some (r, s')" and inv: "files_inv base s" and chp: "clear s chp 1" "paged (cur_rights c)"
  shows "files_inv base s'"
proof -
  obtain f where f: "handle p fd s = Some f" using assms(1) by (auto simp: sys_write_def split: Option.bind_splits)
  show ?thesis
  proof (cases "f = 0 \<or> open_flags (kmem s) f AND O_ACCMODE = O_RDONLY")
    case True
    then show ?thesis using assms(1) f inv by (auto simp: sys_write_def split: if_splits)
  next
    case False
    define u where "u = uio_uinit c buf len (offset (kmem s) f) UIO_WRITE"
    obtain r' u' m w where v: "VOP_WRITE F c chp (v_ptr (kmem s) f) u (kmem s) (vfs s) = Some (r', u', m, w)"
      using assms(1) f False by (auto simp: sys_write_def u_def Let_def split: Option.bind_splits)
    have fs: "f \<in> files s" using handle_file [OF inv f] False by simp
    have "uio_segflg u \<noteq> UIO_SYSSPACE" by (simp add: u_def uio_uinit_def)
    note t = transfer_frame [OF inv fs chp this disjI2 [OF v]]
    have "files_inv base (s\<lparr>kmem := m, vfs := w\<rparr>)" using inv by (rule files_inv_cong) (simp_all add: t fields_eq)
    then show ?thesis
      using assms(1) f False v set_offset_inv [OF inv fs t] by (cases r') (auto simp: sys_write_def u_def Let_def)
  qed
qed

end

lemma VOP_STAT_dev: "dev_vnode w v \<Longrightarrow> VOP_STAT F v w = Some (r, w') \<Longrightarrow> w' = w"
  by (auto simp: VOP_STAT_def vnode_check_def dev_vnode_def dev_stat_def split: option.splits Option.bind_splits)

lemma sys_lseek_inv:
  assumes l: "sys_lseek F c par loc p fd pos wp s = Some (r, s')" and inv: "files_inv base s" and fd: "sint fd \<noteq> int MAX_PROCESS_OPEN_FILES"
    and loc: "clear s loc 4" "paged (cur_rights c)"
  shows "files_inv base s'"
proof -
  obtain f where f: "handle p fd s = Some f" using l fd by (auto simp: sys_lseek_def split: Option.bind_splits)
  show ?thesis
  proof (cases "f = 0 \<or> VOP_ISSEEKABLE F (v_ptr (kmem s) f) (vfs s) = Some False")
    case True
    then show ?thesis using l f fd inv by (auto simp: sys_lseek_def split: if_splits)
  next
    case False
    have fs: "f \<in> files s" using handle_file [OF inv f] False by simp
    then have d: "dev_vnode (vfs s) (v_ptr (kmem s) f)" using file_vnode [OF inv] by metis
    obtain st w where st: "VOP_ISSEEKABLE F (v_ptr (kmem s) f) (vfs s) = Some True" "VOP_STAT F (v_ptr (kmem s) f) (vfs s) = Some (st, w)"
      using l f fd False by (auto simp: sys_lseek_def split: Option.bind_splits if_splits)
    have w: "w = vfs s" using VOP_STAT_dev [OF d st(2)] .
    obtain cr m where cp: "copyin (cur_rights c) wp loc 4 (kmem s) = (cr, m)" by (metis surj_pair)
    have "2 ^ 31 \<le> unat loc" "fits loc (unat (4 :: u32))" using loc(1) by (simp_all add: clear_def)
    note fr = copyin_frame [OF loc(2) this, of _ wp "kmem s"]
    have "m a = kmem s a" if "outside loc 4 a" for a using fr [of a] that cp by simp
    then have m: "file_at m g = file_at (kmem s) g" if "g \<in> files s" for g by (rule file_at_clear [OF loc(1) that _ inv])
    have "files_inv base (s\<lparr>kmem := m\<rparr>)" by (rule files_inv_mem [OF inv m])
    moreover have "files_inv base (s\<lparr>kmem := set_offset f x m\<rparr>)" for x using set_offset_inv [OF inv fs quiet_refl(1) m, of x] by simp
    ultimately show ?thesis
      using l f fd False st w cp inv by (auto simp: sys_lseek_def Let_def split: sum.splits if_splits)
  qed
qed

section \<open>Sequences of calls\<close>

text \<open>
  One call of any process. The memory that \<open>kmalloc\<close> returned and the local variables of the kernel are apart
  from the files that are open, and \<open>lock_create\<close> has memory.
\<close>

inductive file_step :: "(nat \<Rightarrow> nat) \<Rightarrow> 'f fsops \<Rightarrow> 'f sys \<Rightarrow> 'f sys \<Rightarrow> bool" for i F where
  step_open: "sys_open i F c k f lk p filename flags s = Some (r, s') \<Longrightarrow> p < length (tables s) \<Longrightarrow>
    clear s k 1024 \<Longrightarrow> clear s f 24 \<Longrightarrow> lk \<noteq> 0 \<Longrightarrow> file_step i F s s'"
| step_open2: "open2 F f lk p name flags d s = Some (r, s') \<Longrightarrow> p < length (tables s) \<Longrightarrow> d < 3 \<Longrightarrow> tables s ! p ! d = 0 \<Longrightarrow>
    clear s f 24 \<Longrightarrow> lk \<noteq> 0 \<Longrightarrow> file_step i F s s'"
| step_close: "sys_close F p fd s = Some (r, s') \<Longrightarrow> p < length (tables s) \<Longrightarrow> file_step i F s s'"
| step_dup2: "sys_dup2 F p old new s = Some (r, s') \<Longrightarrow> p < length (tables s) \<Longrightarrow> file_step i F s s'"
| step_read: "sys_read F c chp p fd buf len s = Some (r, s') \<Longrightarrow> clear s chp 1 \<Longrightarrow> paged (cur_rights c) \<Longrightarrow> file_step i F s s'"
| step_write: "sys_write F c chp p fd buf len s = Some (r, s') \<Longrightarrow> clear s chp 1 \<Longrightarrow> paged (cur_rights c) \<Longrightarrow> file_step i F s s'"
| step_lseek: "sys_lseek F c par loc p fd pos wp s = Some (r, s') \<Longrightarrow> sint fd \<noteq> int MAX_PROCESS_OPEN_FILES \<Longrightarrow>
    clear s loc 4 \<Longrightarrow> paged (cur_rights c) \<Longrightarrow> file_step i F s s'"

lemma file_step_inv:
  assumes "file_step i F s s'" and inv: "files_inv base s" and i: "\<forall>fd. i fd < MAX_PROCESS_OPEN_FILES" and F: "driver_ops F"
  shows "files_inv base s'"
proof -
  note o = driver_ops.opens [OF F]
  from assms(1) show ?thesis
  proof cases
    case (step_open c k f lk p filename flags r)
    then show ?thesis using sys_open_inv [OF inv step_open(2) i step_open(3-5) o, of c filename flags] by auto
  next
    case (step_open2 f lk p name flags d r)
    then show ?thesis using open_file_inv(2) [OF inv step_open2(5,2) _ step_open2(4,6) o, of name flags] by (auto simp: MAX_PROCESS_OPEN_FILES_def)
  next
    case (step_close p fd r)
    then show ?thesis using close_inv [OF inv step_close(2), of F fd] by (auto simp: sys_close_def)
  next
    case (step_dup2 p old new r)
    then show ?thesis using sys_dup2_inv [OF inv step_dup2(2), of F old new] by auto
  next
    case step_read
    then show ?thesis using driver_ops.sys_read_inv [OF F _ inv] by blast
  next
    case step_write
    then show ?thesis using driver_ops.sys_write_inv [OF F _ inv] by blast
  next
    case step_lseek
    then show ?thesis using sys_lseek_inv [OF _ inv] by blast
  qed
qed

section \<open>Overlapping files\<close>

lemma open_file_kmem: "open_file F f lk p name flags d s = Some (Inr (), s') \<Longrightarrow> \<exists>vn. kmem s' = new_file f vn flags lk (kmem s)"
  by (auto simp: open_file_def new_file_def set_slot_def Let_def split: if_splits Option.bind_splits sum.splits) blast

text \<open>The offset of a new file stands where the next block of 16 bytes begins.\<close>

lemma new_file_above:
  "load_long (new_file f vn flags lk m) (f + 16) = 0" "load_long (new_file f vn flags lk m) (f + 20) = 0"
  by (simp_all add: new_file_def set_field_defs load_store_same load_store_other)

section \<open>An index that does not move\<close>

lemma free_slot_const: "k < length t \<Longrightarrow> free_slot (\<lambda>_. k) t fds = Some (if t ! k = 0 \<and> fds \<noteq> [] then hd fds else MAX_PROCESS_OPEN_FILES)"
  by (induction fds) auto

lemma free_slot_None: "free_slot (\<lambda>_. k) t (fd # fds) = Some x \<Longrightarrow> k < length t"
  by (auto simp: get_at_def split: Option.bind_splits if_splits)

lemma open_file_slot:
  assumes "open_file F f lk p name flags d s = Some (Inr (), s')"
  shows "f \<noteq> 0 \<and> (\<exists>t. get_at (tables s) p = Some t \<and> d < length t \<and> tables s' = (tables s)[p := t[d := f]])"
  using assms by (auto simp: open_file_def set_slot_def put_at_def Let_def split: if_splits Option.bind_splits sum.splits)

lemma upt_slots: "[3..<MAX_PROCESS_OPEN_FILES] = 3 # [4..<MAX_PROCESS_OPEN_FILES]"
  by (simp add: MAX_PROCESS_OPEN_FILES_def upt_rec)

lemma sys_open_fixed:
  assumes "sys_open (\<lambda>_. k) F c kb f lk p name flags s = Some (Inr fd, s')"
  shows "fd = 3" "f \<noteq> 0" "\<exists>t. get_at (tables s) p = Some t \<and> k < length t \<and> t ! k = 0 \<and> tables s' = (tables s)[p := t[k := f]]"
proof -
  obtain m nm t x s1 where o: "get_at (tables s) p = Some t" "free_slot (\<lambda>_. k) t [3..<MAX_PROCESS_OPEN_FILES] = Some x" "x \<noteq> MAX_PROCESS_OPEN_FILES"
    "open_file F f lk p nm flags k (s\<lparr>kmem := m\<rparr>) = Some (Inr (), s1)"
    "fd = of_nat x" "tables s' = tables s1"
    using assms by (auto simp: sys_open_def Let_def split: if_splits prod.splits sum.splits Option.bind_splits)
  have k: "k < length t" using free_slot_None o(2) unfolding upt_slots by blast
  then have "x = 3" "t ! k = 0" using free_slot_const [OF k, of "[3..<MAX_PROCESS_OPEN_FILES]"] o(2,3) by (auto simp: upt_slots split: if_splits)
  then show "fd = 3" "f \<noteq> 0" "\<exists>t. get_at (tables s) p = Some t \<and> k < length t \<and> t ! k = 0 \<and> tables s' = (tables s)[p := t[k := f]]"
    using o open_file_slot [OF o(4)] k by auto
qed

section \<open>Writing to the console\<close>

definition console_vnode :: "'f world \<Rightarrow> ptr \<Rightarrow> bool" where
  "console_vnode w v \<longleftrightarrow> v \<noteq> 0 \<and> (case vnodes w v of None \<Rightarrow> False | Some n \<Rightarrow> 0 < vn_refcount n \<and> vn_ops n = Dev_vnode_ops \<and>
     (case devices w (vn_data n) of None \<Rightarrow> False | Some d \<Rightarrow> d_ops d = Console_devops \<and> d_blocks d = 0))"

lemma VOP_WRITE_console:
  assumes "console_vnode w v" and "ready (con w)" and "uio_rw u = UIO_WRITE"
  shows "VOP_WRITE F c chp v u m w = map_option (\<lambda>(r, k, u, m). (r, u, m, w\<lparr>con := k\<rparr>)) (con_io_loop c chp (con w) u m)"
proof -
  have "con_userlocks (con w)" using assms(2) by (simp add: ready_def)
  then show ?thesis
    using assms(1,3)
    by (auto simp: console_vnode_def VOP_WRITE_def vnode_check_def dev_write_def dev_rw_def dev_tryseek_def DEVOP_IO_def con_io_def
        map_option_case split: option.splits Option.bind_splits)
qed

lemma ucast_up_down [simp]: "ucast (ucast x :: u64) = (x :: u32)"
  by (rule bit_word_eqI) (simp add: bit_ucast_iff)

text \<open>The bytes of a user buffer up to the first that cannot be read.\<close>

definition user_bytes :: "curspace \<Rightarrow> mem \<Rightarrow> ptr \<Rightarrow> nat \<Rightarrow> u8 list" where
  "user_bytes c m buf n = map m (takeWhile (\<lambda>a. a < USERSPACETOP \<and> readable (cur_rights c) a) (addrs buf n))"

lemma uinit_ok:
  assumes "fits buf (unat len)"
  shows "uio_ok (uio_uinit c buf len pos rw)" "cells (uio_iov (uio_uinit c buf len pos rw)) = addrs buf (unat len)"
    "cell_ok c (uio_uinit c buf len pos UIO_WRITE) = (\<lambda>a. a < USERSPACETOP \<and> readable (cur_rights c) a)"
  using assms distinct_addrs [OF assms] by (auto simp: uio_ok_def uio_uinit_def cell_ok_def)

section \<open>A small state\<close>

text \<open>One process that has no file open; the string \<open>con:\<close> is at the user address \<open>0x1000\<close>, and kernel memory is 0.\<close>

definition name_mem :: mem where
  "name_mem = (\<lambda>_. 0)(0x1000 := 99, 0x1001 := 111, 0x1002 := 110, 0x1003 := 58)"

definition all_user :: curspace where
  "all_user = \<lparr>cur_as = 0x80005000, cur_rights = \<lparr>readable = (\<lambda>_. True), writable = (\<lambda>_. True)\<rparr>\<rparr>"

definition boot_sys :: "unit sys" where
  "boot_sys = \<lparr>kmem = name_mem, tables = [replicate 16 0], num_open_files = 0, vfs = boot_world\<rparr>"

lemma boot_sys_inv: "files_inv (\<lambda>_. 1) boot_sys"
proof -
  have "files boot_sys = {}" by (simp add: files_def boot_sys_def)
  then show ?thesis
    using boot_world_ok(1) by (auto simp: files_inv_def held_def) (auto simp: boot_sys_def boot_world_def MAX_PROCESS_OPEN_FILES_def split: if_splits)
qed

lemma boot_sys_clear: "2 ^ 31 \<le> unat p \<Longrightarrow> fits p n \<Longrightarrow> clear boot_sys p n"
  by (simp add: clear_def files_def boot_sys_def)

lemma open_con:
  "vfs_open no_fs [99, 111, 110, 58] 1 0 boot_world = Some (Inr 0x80000300, referenced 0x80000300 boot_world)"
  "vfs_open no_fs [99, 111, 110, 58] 1 0 (referenced 0x80000300 boot_world) =
     Some (Inr 0x80000300, referenced 0x80000300 (referenced 0x80000300 boot_world))"
  by (simp_all add: vfs_open_def vfs_lookup_def getdevice_def vfs_getroot_def boot_world_def mounted_def vnode_incref_def
      vfs_biglock_acquire_def unlock_return_def vfs_biglock_release_def skip_slashes_def VOP_EACHOPEN_def vnode_check_def
      dev_eachopen_def DEVOP_EACHOPEN_def O_ACCMODE_def O_RDONLY_def O_WRONLY_def O_RDWR_def O_CREAT_def O_TRUNC_def referenced_def)

text \<open>The state after standard output has been opened.\<close>

definition out_sys :: "unit sys" where
  "out_sys = opened 0 1 0x80001000 0x80000300 (new_file2 0x80001000 0x80000300 1 0x80001100 name_mem) boot_sys"

lemma open2_con: "open2 no_fs 0x80001000 0x80001100 0 [99, 111, 110, 58] 1 1 boot_sys = Some (Inr (), out_sys)"
  using open_con(1) by (simp add: open2_def out_sys_def opened_def boot_sys_def new_file2_def set_slot_def Let_def)

section \<open>Properties\<close>





text \<open>
  C32. \<open>sys_write\<close> to a file on the console, from any buffer that ends below the local variable \<open>ch\<close> of \<open>con_io\<close>: if each byte can be read by
  the process, the bytes appear in order, with a carriage return before each newline, the call returns their number and the
  offset advances by it. Otherwise the call returns \<open>EFAULT\<close>, the bytes before the first bad one
  have appeared, and the offset is what it was. Memory changes only in the file and in that variable.
\<close>

theorem sys_write_console:
  fixes s :: "'f sys"
  assumes "handle p fd s = Some f" and "f \<noteq> 0" and "open_flags (kmem s) f AND O_ACCMODE \<noteq> O_RDONLY"
    and "console_vnode (vfs s) (v_ptr (kmem s) f)" and "ready (con (vfs s))" and "paged (cur_rights c)"
    and "2 ^ 31 \<le> unat chp" and "\<not> within f chp" and "fits buf (unat len)" and "unat buf + unat len \<le> unat chp"
  defines "out \<equiv> user_bytes c (kmem s) buf (unat len)"
  shows "\<exists>s'. sys_write F c chp p fd buf len s = Some (if length out = unat len then Inr len else Inl EFAULT, s') \<and>
    con_output_of (con (vfs s')) = con_output_of (con (vfs s)) @ crlf out \<and>
    offset (kmem s') f = (if length out = unat len then offset (kmem s) f + ucast len else offset (kmem s) f) \<and>
    (\<forall>a. a \<noteq> chp \<and> \<not> within f a \<longrightarrow> kmem s' a = kmem s a)"
proof -
  let ?u = "uio_uinit c buf len (offset (kmem s) f) UIO_WRITE"
  note u = uinit_ok [OF assms(9)]
  have k: "kbuf ?u chp 1"
  proof -
    have lt: "unat chp < 2 ^ 32" by simp
    have "chp \<noteq> buf + of_nat j" if "j < unat len" for j
    proof
      assume "chp = buf + of_nat j"
      moreover have "unat buf + j < 2 ^ 32" using assms(10) that lt by linarith
      ultimately show False using unat_ptr [of buf j] assms(10) that by simp
    qed
    then have "chp \<notin> set (addrs buf (unat len))" unfolding set_addrs by blast
    moreover have "set (addrs chp 1) = {chp}" by (simp add: addrs_def)
    ultimately have "set (addrs buf (unat len)) \<inter> set (addrs chp 1) = {}" by simp
    then show ?thesis using assms(7) lt unfolding kbuf_def u(2) by linarith
  qed
  define ok where "ok = (\<lambda>a. a < USERSPACETOP \<and> readable (cur_rights c) a)"
  define seen where "seen = takeWhile ok (addrs buf (unat len))"
  have out: "out = map (kmem s) seen" by (simp add: out_def user_bytes_def seen_def ok_def)
  have all: "(\<forall>a \<in> set (addrs buf (unat len)). ok a) \<longleftrightarrow> length out = unat len"
    using takeWhile_eq_all_conv [of ok "addrs buf (unat len)"] takeWhile_eq_take [of ok "addrs buf (unat len)"]
    unfolding out seen_def by (metis length_addrs length_map order_refl take_all)
  have uu: "uio_rw ?u = UIO_WRITE" "uio_space ?u = (if uio_segflg ?u = UIO_SYSSPACE then 0 else cur_as c)" "uio_offset ?u = offset (kmem s) f"
    by (simp_all add: uio_uinit_def)
  obtain k' u' m' where r: "con_io_loop c chp (con (vfs s)) ?u (kmem s) = Some (if length out = unat len then Inr () else Inl EFAULT, k', u', m')"
    "con_output_of k' = con_output_of (con (vfs s)) @ crlf out" "advanced ?u (length seen) u'" "\<forall>a. a \<noteq> chp \<longrightarrow> m' a = kmem s a"
    using con_io_write [OF assms(6) u(1) uu(1) k assms(5) uu(2), of "kmem s"] unfolding u(2,3) ok_def [symmetric] seen_def [symmetric] all out [symmetric] by blast
  have off: "uio_offset u' = offset (kmem s) f + ucast len" if "length out = unat len"
    using r(3) that uu(3) out by (simp add: advanced_def unsigned_ucast_eq)
  have "file_at m' f = file_at (kmem s) f" using r(4) assms(8) by (intro file_at_cong) auto
  then have same: "offset m' f = offset (kmem s) f" by (simp add: fields_eq)
  note w = VOP_WRITE_console [OF assms(4,5) uu(1), of F c chp "kmem s"]
  show ?thesis
  proof (cases "length out = unat len")
    case True
    then show ?thesis
      using assms(1-3) w r(1,2,4) off set_field_frame(5) [of f _ "uio_offset u'" m'] by (simp add: sys_write_def Let_def)
  next
    case False
    then show ?thesis using assms(1-3) w r(1,2,4) same by (simp add: sys_write_def Let_def)
  qed
qed

text \<open>In the witness, standard output is open and the four bytes of \<open>con:\<close> are written.\<close>

theorem sys_write_console_witness:
  "\<exists>s'. sys_write no_fs all_user 0x80002000 0 1 0x1000 4 out_sys = Some (Inr 4, s') \<and>
    con_output_of (con (vfs s')) = [99, 111, 110, 58] \<and> offset (kmem s') 0x80001000 = 4"
proof -
  have at: "file_at (kmem out_sys) 0x80001000 = (0x80000300, 1, 1, 0x80001100, 0)" by (simp add: out_sys_def opened_def file_at_new)
  have mem: "kmem out_sys a = name_mem a" if "\<not> within 0x80001000 a" for a
    using set_field_frame [OF that] by (simp add: out_sys_def opened_def new_file2_def)
  have b: "addrs 0x1000 4 = [0x1000, 0x1001, 0x1002, 0x1003]" by (simp add: addrs_def upt_rec)
  have out: "user_bytes all_user (kmem out_sys) 0x1000 (unat (4 :: u32)) = [99, 111, 110, 58]"
    using mem by (simp add: user_bytes_def b all_user_def USERSPACETOP_def within_def name_mem_def)
  have "handle 0 1 out_sys = Some 0x80001000" by (simp add: handle_def out_sys_def opened_def boot_sys_def MAX_PROCESS_OPEN_FILES_def)
  moreover have "console_vnode (vfs out_sys) (v_ptr (kmem out_sys) 0x80001000)"
    using at by (simp add: fields_eq) (simp add: console_vnode_def out_sys_def opened_def boot_sys_def referenced_def boot_world_def)
  moreover have "con (vfs out_sys) = con boot_world" by (simp add: out_sys_def opened_def boot_sys_def referenced_def)
  moreover have "ready (con boot_world)" "con_output_of (con boot_world) = []"
    by (simp_all add: boot_world_def ready_def ring_ok_def fresh_console_def pending_def CONSOLE_INPUT_BUFFER_SIZE_def con_output_of_def)
  moreover have "paged (cur_rights all_user)" by (simp add: all_user_def paged_def)
  ultimately show ?thesis
    using sys_write_console [of 0 1 out_sys "0x80001000" all_user "0x80002000" "0x1000" 4 no_fs] at out
    by (simp add: fields_eq O_ACCMODE_def O_RDONLY_def within_def crlf_def) blast
qed

text \<open>
  C36. \<open>sys_open\<close> as its loop is written, with an index \<open>k\<close> that does not move with \<open>fd\<close>: the only descriptor it can
  return is 3, and the file stands in slot \<open>k\<close>, which was empty. If that is not slot 3, the descriptor that was returned
  gives \<open>EBADF\<close> when slot 3 is empty. And \<open>sys_open\<close> does not succeed again while the file is in its slot,
  although the table may have free slots.
\<close>

theorem sys_open_fixed_index:
  assumes "sys_open (\<lambda>_. k) F c kb f lk p name flags s = Some (Inr fd, s')"
  shows "fd = 3 \<and> f \<noteq> 0 \<and> (\<exists>t. get_at (tables s) p = Some t \<and> t ! k = 0 \<and> tables s' = (tables s)[p := t[k := f]]) \<and>
    (k \<noteq> 3 \<and> handle p 3 s = Some 0 \<longrightarrow> sys_read F c chp p fd buf len s' = Some (Inl EBADF, s')) \<and>
    (\<forall>fd' s''. sys_open (\<lambda>_. k) F c' kb' f' lk' p name' flags' s' \<noteq> Some (Inr fd', s''))"
proof -
  note o = sys_open_fixed [OF assms]
  obtain t where t: "get_at (tables s) p = Some t" "k < length t" "t ! k = 0" "tables s' = (tables s)[p := t[k := f]]" using o(3) by blast
  have p: "p < length (tables s)" using t(1) by (auto simp: get_at_def split: if_splits)
  have "handle p 3 s' = handle p 3 s" if "k \<noteq> 3"
    using t p that by (simp add: handle_def MAX_PROCESS_OPEN_FILES_def get_at_def)
  then have "sys_read F c chp p fd buf len s' = Some (Inl EBADF, s')" if "k \<noteq> 3" "handle p 3 s = Some 0"
    using that o(1) by (simp add: sys_read_def)
  moreover have "sys_open (\<lambda>_. k) F c' kb' f' lk' p name' flags' s' \<noteq> Some (Inr fd', s'')" for fd' s''
  proof
    assume "sys_open (\<lambda>_. k) F c' kb' f' lk' p name' flags' s' = Some (Inr fd', s'')"
    from sys_open_fixed(3) [OF this] show False using t p o(2) by auto
  qed
  ultimately show ?thesis using o t by blast
qed

text \<open>In the witness, \<open>i\<close> is 5 and the path is \<open>con:\<close>.\<close>

theorem sys_open_fixed_index_witness:
  "\<exists>s'. sys_open (\<lambda>_. 5) no_fs all_user 0x80003000 0x80001000 0x80001100 0 0x1000 1 boot_sys = Some (Inr 3, s') \<and>
    sys_read no_fs all_user 0x80002000 0 3 0x2000 1 s' = Some (Inl EBADF, s')"
proof -
  define m where "m = copy_bytes name_mem 0x80003000 0x1000 0 5"
  have "l < 4 \<Longrightarrow> l = 0 \<or> l = 1 \<or> l = 2 \<or> l = 3" for l :: nat by auto
  then have "name_mem (0x1000 + of_nat l) \<noteq> 0" if "l < 4" for l using that by (fastforce simp: name_mem_def)
  then have "ustring (cur_rights all_user) name_mem 0x1000 4" by (simp add: ustring_def all_user_def) (simp add: name_mem_def)
  then have cp: "copyinstr (cur_rights all_user) 0x1000 0x80003000 PATH_MAX name_mem = (Inr 5, m)"
    using copyinstr_found [of "0x80003000" PATH_MAX 4 "cur_rights all_user" name_mem "0x1000"] by (simp add: PATH_MAX_def m_def del: copy_bytes.simps)
  have five: "(5 :: nat) = Suc (Suc (Suc (Suc (Suc 0))))" by simp
  have "map m (addrs 0x80003000 4) = [99, 111, 110, 58]"
    unfolding m_def five by (simp add: addrs_def upt_rec name_mem_def)
  then have "\<exists>s'. sys_open (\<lambda>_. 5) no_fs all_user 0x80003000 0x80001000 0x80001100 0 0x1000 1 boot_sys = Some (Inr 3, s')"
    using cp open_con(1)
    by (simp add: sys_open_def boot_sys_def upt_slots MAX_PROCESS_OPEN_FILES_def MAX_SYSTEM_OPEN_FILES_def open_file_def set_slot_def Let_def)
  then obtain s' where s': "sys_open (\<lambda>_. 5) no_fs all_user 0x80003000 0x80001000 0x80001100 0 0x1000 1 boot_sys = Some (Inr 3, s')" by blast
  have "handle 0 3 boot_sys = Some 0" by (simp add: handle_def boot_sys_def MAX_PROCESS_OPEN_FILES_def)
  then show ?thesis using s' sys_open_fixed_index [OF s', of "0x80002000" "0x2000" 1] by auto
qed

end
