(* ===== verification/Syscall.thy ===== *)
theory Syscall
  imports Filetable
begin

text \<open>
  \<open>kern/arch/mips/syscall/syscall.c\<close>, with \<open>sys___time\<close> and \<open>sys_reboot\<close>: the dispatcher of the system
  calls. Of the trap frame the model has the registers that the dispatcher reads or writes. What the calls take
  from their surroundings is in the record \<open>sysenv\<close>: the current process and its address space, the results of \<open>kmalloc\<close> and
  \<open>lock_create\<close>, the addresses of local variables, the time, the fields of the current thread that are
  asserted, and the value of \<open>retval64\<close>, which nothing assigns.
\<close>

section \<open>Definitions\<close>

record trapframe =
  tf_v0 :: u32
  tf_v1 :: u32
  tf_a0 :: u32
  tf_a1 :: u32
  tf_a2 :: u32
  tf_a3 :: u32
  tf_sp :: u32
  tf_epc :: u32

record 'f sysenv =
  env_ops :: "'f fsops"
  env_i :: "nat \<Rightarrow> nat"
  env_space :: curspace
  env_proc :: nat
  env_par :: ptr
  env_ch :: ptr
  env_loc :: ptr
  env_ts :: ptr
  env_kfilename :: ptr
  env_file :: ptr
  env_lock :: ptr
  env_clock :: "(u64 \<times> u32) option"
  env_retval64 :: u64
  env_t_curspl :: nat
  env_t_iplhigh_count :: nat

text \<open>A call comes back to the trap handler, or the machine has been stopped.\<close>

datatype 'f outcome = Back trapframe "'f sys" | Stopped "'f sys"

definition SYS_open :: u32 where "SYS_open = 45"
definition SYS_dup2 :: u32 where "SYS_dup2 = 48"
definition SYS_close :: u32 where "SYS_close = 49"
definition SYS_read :: u32 where "SYS_read = 50"
definition SYS_write :: u32 where "SYS_write = 55"
definition SYS_lseek :: u32 where "SYS_lseek = 59"
definition SYS___time :: u32 where "SYS___time = 113"
definition SYS_reboot :: u32 where "SYS_reboot = 119"

lemmas SYS_defs = SYS_open_def SYS_dup2_def SYS_close_def SYS_read_def SYS_write_def SYS_lseek_def SYS___time_def SYS_reboot_def

text \<open>\<open>gettime\<close> fills the local variable \<open>ts\<close>: seconds in 8 bytes, nanoseconds in 4. It panics if there is no clock.\<close>

definition gettime :: "'f sysenv \<Rightarrow> mem \<Rightarrow> mem option" where
  "gettime E m = do {
     (sec, nsec) \<leftarrow> env_clock E;
     Some (store_long (store_long (store_long m (env_ts E) (ucast (drop_bit 32 sec))) (env_ts E + 4) (ucast sec)) (env_ts E + 8) nsec) }"

definition sys___time :: "'f sysenv \<Rightarrow> ptr \<Rightarrow> ptr \<Rightarrow> 'f sys \<Rightarrow> (unit, 'f) sys_result" where
  "sys___time E user_seconds_ptr user_nanoseconds_ptr s = do {
     m \<leftarrow> gettime E (kmem s);
     case copyout (cur_rights (env_space E)) (env_ts E) user_seconds_ptr 8 m of
       (Inl e, m) \<Rightarrow> Some (Inl e, s\<lparr>kmem := m\<rparr>)
     | (Inr _, m) \<Rightarrow>
         (case copyout (cur_rights (env_space E)) (env_ts E + 8) user_nanoseconds_ptr 4 m of (r, m) \<Rightarrow> Some (r, s\<lparr>kmem := m\<rparr>)) }"

text \<open>The file systems in \<open>shutdown\<close>.\<close>

definition shutdown :: "'f fsops \<Rightarrow> 'f world \<Rightarrow> 'f world option" where
  "shutdown F w = do {
     w \<leftarrow> vfs_clearbootfs F w;
     (r, w) \<leftarrow> vfs_clearcurdir F w;
     (r, w) \<leftarrow> vfs_unmountall F w;
     Some w }"

text \<open>\<open>sys_reboot\<close>: the operations 0, 1 and 2 are \<open>RB_REBOOT\<close>, \<open>RB_HALT\<close> and \<open>RB_POWEROFF\<close>, none of which returns.\<close>

definition sys_reboot :: "'f fsops \<Rightarrow> u32 \<Rightarrow> 'f sys \<Rightarrow> (unit, 'f) sys_result" where
  "sys_reboot F code s =
    (if code \<noteq> 0 \<and> code \<noteq> 1 \<and> code \<noteq> 2 then Some (Inl EINVAL, s)
     else do { w \<leftarrow> shutdown F (vfs s); Some (Inr (), s\<lparr>vfs := w\<rparr>) })"

definition offset_arg :: "trapframe \<Rightarrow> u64" where
  "offset_arg tf = ucast (tf_a3 tf) OR push_bit 32 (ucast (tf_a2 tf))"

text \<open>The \<open>switch\<close>: the error or the value of \<open>retval\<close>.\<close>

definition syscall_switch :: "'f sysenv \<Rightarrow> trapframe \<Rightarrow> 'f sys \<Rightarrow> (u32, 'f) sys_result" where
  "syscall_switch E tf s =
    (let F = env_ops E; c = env_space E; p = env_proc E; no_value = map_option (map_prod (map_sum id (\<lambda>_. 0)) id) in
     if tf_v0 tf = SYS_reboot then no_value (sys_reboot F (tf_a0 tf) s)
     else if tf_v0 tf = SYS___time then no_value (sys___time E (tf_a0 tf) (tf_a1 tf) s)
     else if tf_v0 tf = SYS_open then
       sys_open (env_i E) F c (env_kfilename E) (env_file E) (env_lock E) p (tf_a0 tf) (tf_a1 tf) s
     else if tf_v0 tf = SYS_close then no_value (sys_close F p (tf_a0 tf) s)
     else if tf_v0 tf = SYS_write then sys_write F c (env_ch E) p (tf_a0 tf) (tf_a1 tf) (tf_a2 tf) s
     else if tf_v0 tf = SYS_read then sys_read F c (env_ch E) p (tf_a0 tf) (tf_a1 tf) (tf_a2 tf) s
     else if tf_v0 tf = SYS_dup2 then
       map_option (map_prod (map_sum id (\<lambda>_. tf_a1 tf)) id) (sys_dup2 F p (tf_a0 tf) (tf_a1 tf) s)
     else if tf_v0 tf = SYS_lseek then
       map_option (map_prod (map_sum id (\<lambda>_. 0)) id)
         (sys_lseek F c (env_par E) (env_loc E) p (tf_a0 tf) (offset_arg tf) (tf_sp tf + 16) s)
     else Some (Inl ENOSYS, s))"

definition syscall :: "'f sysenv \<Rightarrow> trapframe \<Rightarrow> 'f sys \<Rightarrow> 'f outcome option" where
  "syscall E tf s = do {
     kassert (env_t_curspl E = 0);
     kassert (env_t_iplhigh_count E = 0);
     (r, s) \<leftarrow> syscall_switch E tf s;
     if tf_v0 tf = SYS_reboot \<and> r = Inr 0 then Some (Stopped s)
     else do {
       let out = (case r of
           Inl err \<Rightarrow> tf\<lparr>tf_v0 := of_nat (errno_code err), tf_a3 := 1\<rparr>
         | Inr retval \<Rightarrow>
             (if tf_v0 tf = SYS_lseek then tf\<lparr>tf_v0 := ucast (env_retval64 E), tf_v1 := ucast (drop_bit 32 (env_retval64 E))\<rparr>
              else tf\<lparr>tf_v0 := retval\<rparr>)\<lparr>tf_a3 := 0\<rparr>);
       Some (Back (out\<lparr>tf_epc := tf_epc out + 4\<rparr>) s) } }"

section \<open>Calls with any registers\<close>

text \<open>
  What the kernel provides for a call: its own variables and the blocks of \<open>kmalloc\<close> are apart from the files, there is
  memory, there is a clock, and interrupts are on.
\<close>

definition env_ok :: "'f sysenv \<Rightarrow> 'f sys \<Rightarrow> bool" where
  "env_ok E s \<longleftrightarrow> env_proc E < length (tables s) \<and> (\<forall>fd. env_i E fd < MAX_PROCESS_OPEN_FILES) \<and> paged (cur_rights (env_space E)) \<and>
     clear s (env_ch E) 1 \<and> clear s (env_loc E) 4 \<and> clear s (env_ts E) 12 \<and> clear s (env_kfilename E) 1024 \<and> clear s (env_file E) 24 \<and>
     env_lock E \<noteq> 0 \<and> env_clock E \<noteq> None \<and> env_t_curspl E = 0 \<and> env_t_iplhigh_count E = 0"

lemma copyout_frame:
  assumes "paged as" and "2 ^ 31 \<le> unat k" and "fits k (unat len)" and "USERSPACETOP \<le> a"
  shows "snd (copyout as k u len m) a = m a"
proof (cases "0 < unat len \<and> unat u + unat len \<le> 2 ^ 31 \<and> (\<forall>j < unat len. writable as (u + of_nat j))")
  case True
  then obtain m' where m': "copyout as k u len m = (Inr (), m')" "copied m m' u k 0 (unat len)"
    using copyout_total [OF assms(1-3), of u m] unfolding if_P [OF True] by blast
  have "a \<noteq> u + of_nat j" if "j < unat len" for j using unat_ptr [of u j] that True assms(4) by (auto simp: le_USERSPACETOP)
  then show ?thesis using m' by (auto simp: copied_def)
next
  case False
  then obtain m' where "copyout as k u len m = (Inl EFAULT, m')" "\<forall>a. m' a \<noteq> m a \<longrightarrow> a < USERSPACETOP \<and> writable as a \<and> \<not> outside u (unat len) a"
    using copyout_total [OF assms(1-3), of u m] unfolding if_not_P [OF False] by blast
  then show ?thesis using assms(4) by (auto simp: not_less)
qed

lemma store_long_outside:
  assumes "outside p n a" and "fits p n" and "k + 4 \<le> n"
  shows "store_long m (p + of_nat k) x a = m a"
  using outside_neq [OF assms(1), of k] outside_neq [OF assms(1), of "k + 1"] outside_neq [OF assms(1), of "k + 2"]
    outside_neq [OF assms(1), of "k + 3"] assms(2,3) by (simp add: store_long_def ac_simps)

lemma gettime_frame: "gettime E m = Some m' \<Longrightarrow> fits (env_ts E) 12 \<Longrightarrow> outside (env_ts E) 12 a \<Longrightarrow> m' a = m a"
  using store_long_outside [of "env_ts E" 12 a 0] store_long_outside [of "env_ts E" 12 a 4] store_long_outside [of "env_ts E" 12 a 8]
  by (auto simp: gettime_def split: Option.bind_splits)

lemma sys___time_inv:
  assumes inv: "files_inv base s" and E: "env_ok E s"
  shows "\<exists>r s'. sys___time E u v s = Some (r, s') \<and> files_inv base s'"
proof -
  let ?ts = "env_ts E" and ?as = "cur_rights (env_space E)"
  have cl: "clear s ?ts 12" and pg: "paged ?as" and ck: "env_clock E \<noteq> None" using E by (simp_all add: env_ok_def)
  have ts: "2 ^ 31 \<le> unat ?ts" "fits ?ts 12" using cl by (simp_all add: clear_def)
  have ts8: "unat (?ts + 8) = unat ?ts + 8" using ts(2) unat_ptr [of ?ts 8] by simp
  obtain m where m: "gettime E (kmem s) = Some m" using ck by (auto simp: gettime_def)
  have a: "2 ^ 31 \<le> unat ?ts" "fits ?ts (unat (8 :: u32))" and b: "2 ^ 31 \<le> unat (?ts + 8)" "fits (?ts + 8) (unat (4 :: u32))"
    using ts ts8 by simp_all
  obtain r1 m1 where m1: "copyout ?as ?ts u 8 m = (r1, m1)" by (metis surj_pair)
  obtain r2 m2 where m2: "copyout ?as (?ts + 8) v 4 m1 = (r2, m2)" by (metis surj_pair)
  have f1: "m1 a = kmem s a" if "outside ?ts 12 a" "USERSPACETOP \<le> a" for a
    using copyout_frame [OF pg a that(2), of u m] gettime_frame [OF m ts(2) that(1)] m1 by simp
  have f2: "m2 a = kmem s a" if "outside ?ts 12 a" "USERSPACETOP \<le> a" for a
    using copyout_frame [OF pg b that(2), of v m1] f1 [OF that] m2 by simp
  have "files_inv base (s\<lparr>kmem := m1\<rparr>)" by (rule files_inv_mem [OF inv file_at_clear [OF cl _ f1 inv]])
  moreover have "files_inv base (s\<lparr>kmem := m2\<rparr>)" by (rule files_inv_mem [OF inv file_at_clear [OF cl _ f2 inv]])
  ultimately show ?thesis using m m1 m2 by (cases r1) (auto simp: sys___time_def)
qed

lemma sys_lseek_total:
  assumes inv: "files_inv base s" and p: "p < length (tables s)" and fd: "sint fd \<noteq> int MAX_PROCESS_OPEN_FILES"
  shows "\<exists>r. sys_lseek F c par loc p fd pos wp s = Some r"
proof -
  obtain f where f: "handle p fd s = Some f" using handle_Some [OF inv p] by blast
  show ?thesis
  proof (cases "f = 0")
    case True
    then show ?thesis using f fd by (simp add: sys_lseek_def)
  next
    case False
    have "dev_vnode (vfs s) (v_ptr (kmem s) f)" using file_vnode [OF inv handle_file(1) [OF inv f False]] by metis
    then obtain b st where v: "VOP_ISSEEKABLE F (v_ptr (kmem s) f) (vfs s) = Some b" "VOP_STAT F (v_ptr (kmem s) f) (vfs s) = Some (st, vfs s)"
      by (fastforce simp: dev_vnode_def VOP_ISSEEKABLE_def VOP_STAT_def vnode_check_def dev_isseekable_def dev_stat_def split: option.splits)
    show ?thesis
      using f fd False v by (cases st) (auto simp: sys_lseek_def Let_def split: prod.split sum.split option.split)
  qed
qed

text \<open>The calls that wait for no device and stop nothing.\<close>

definition plain_call :: "trapframe \<Rightarrow> bool" where
  "plain_call tf \<longleftrightarrow> tf_v0 tf \<noteq> SYS_reboot \<and> tf_v0 tf \<noteq> SYS_read \<and> tf_v0 tf \<noteq> SYS_write"

definition seeks_16 :: "trapframe \<Rightarrow> bool" where
  "seeks_16 tf \<longleftrightarrow> tf_v0 tf = SYS_lseek \<and> tf_a0 tf = 16"

lemma map_result_Some [simp]: "map_option (map_prod (map_sum id g) id) x = Some (r, s') \<longleftrightarrow> (\<exists>y. x = Some (y, s') \<and> r = map_sum id g y)"
  by (cases x) auto

lemma syscall_switch_total:
  assumes inv: "files_inv base s" and E: "env_ok E s" and F: "driver_ops (env_ops E)" and tf: "plain_call tf" "\<not> seeks_16 tf"
  shows "\<exists>r s'. syscall_switch E tf s = Some (r, s') \<and> files_inv base s'"
proof -
  note e = E [unfolded env_ok_def] and defs = syscall_switch_def Let_def
  have p: "env_proc E < length (tables s)" using e by blast
  from tf(1) consider "tf_v0 tf = SYS___time" | "tf_v0 tf = SYS_open" | "tf_v0 tf = SYS_close" | "tf_v0 tf = SYS_dup2" | "tf_v0 tf = SYS_lseek"
    | "tf_v0 tf \<notin> {SYS_reboot, SYS___time, SYS_open, SYS_close, SYS_write, SYS_read, SYS_dup2, SYS_lseek}"
    unfolding plain_call_def by blast
  then show ?thesis
  proof cases
    case 1
    then show ?thesis using sys___time_inv [OF inv E] by (fastforce simp: defs SYS_defs)
  next
    case 2
    have "\<forall>fd. env_i E fd < MAX_PROCESS_OPEN_FILES" "clear s (env_kfilename E) 1024" "clear s (env_file E) 24" "env_lock E \<noteq> 0" using e by simp_all
    then show ?thesis using 2 sys_open_inv [OF inv p _ _ _ _ driver_ops.opens [OF F]] by (simp add: defs SYS_defs)
  next
    case 3
    then show ?thesis using close_inv [OF inv p, of "env_ops E" "tf_a0 tf"] by (fastforce simp: defs SYS_defs sys_close_def)
  next
    case 4
    then show ?thesis using sys_dup2_inv [OF inv p, of "env_ops E" "tf_a0 tf" "tf_a1 tf"] by (fastforce simp: defs SYS_defs)
  next
    case 5
    let ?l = "sys_lseek (env_ops E) (env_space E) (env_par E) (env_loc E) (env_proc E) (tf_a0 tf) (offset_arg tf) (tf_sp tf + 16) s"
    have fd: "sint (tf_a0 tf) \<noteq> int MAX_PROCESS_OPEN_FILES"
      using tf(2) 5 signed_word_eqI [of "tf_a0 tf" 16] by (auto simp: seeks_16_def MAX_PROCESS_OPEN_FILES_def)
    obtain r s' where l: "?l = Some (r, s')" using sys_lseek_total [OF inv p fd] by fastforce
    have "files_inv base s'" using sys_lseek_inv [OF l inv fd] e by blast
    then show ?thesis using l 5 by (simp add: defs SYS_defs)
  next
    case 6
    then show ?thesis using inv by (simp add: defs)
  qed
qed

lemma syscall_switch_inv:
  assumes inv: "files_inv base s" and E: "env_ok E s" and F: "driver_ops (env_ops E)" and tf: "tf_v0 tf \<noteq> SYS_reboot" "\<not> seeks_16 tf"
    and r: "syscall_switch E tf s = Some (r, s')"
  shows "files_inv base s'"
proof (cases "plain_call tf")
  case True
  then show ?thesis using syscall_switch_total [OF inv E F True tf(2)] r by auto
next
  case False
  have e: "clear s (env_ch E) 1" "paged (cur_rights (env_space E))" using E by (simp_all add: env_ok_def)
  from False tf(1) consider "tf_v0 tf = SYS_read" | "tf_v0 tf = SYS_write" unfolding plain_call_def by blast
  then show ?thesis
  proof cases
    case 1
    then show ?thesis using r driver_ops.sys_read_inv [OF F _ inv e] by (simp add: syscall_switch_def Let_def SYS_defs)
  next
    case 2
    then show ?thesis using r driver_ops.sys_write_inv [OF F _ inv e] by (simp add: syscall_switch_def Let_def SYS_defs)
  qed
qed

section \<open>Properties\<close>


definition boot_env :: "unit sysenv" where
  "boot_env = \<lparr>env_ops = no_fs, env_i = (\<lambda>_. 3), env_space = all_user, env_proc = 0, env_par = 0, env_ch = 0x80002000, env_loc = 0x80002004,
     env_ts = 0x80002008, env_kfilename = 0x80003000, env_file = 0x80001000, env_lock = 0x80001100, env_clock = Some (7, 9),
     env_retval64 = 0x100000002, env_t_curspl = 0, env_t_iplhigh_count = 0\<rparr>"

definition boot_frame :: trapframe where
  "boot_frame = \<lparr>tf_v0 = 113, tf_v1 = 0, tf_a0 = 0x2000, tf_a1 = 0x3000, tf_a2 = 0, tf_a3 = 0, tf_sp = 0x7ffff000, tf_epc = 0x400000\<rparr>"

lemma boot_env_ok: "env_ok boot_env boot_sys" "driver_ops (env_ops boot_env)"
proof -
  have "paged (cur_rights all_user)" by (simp add: all_user_def paged_def)
  then show "env_ok boot_env boot_sys"
    by (auto simp: env_ok_def boot_env_def MAX_PROCESS_OPEN_FILES_def intro!: boot_sys_clear) (simp add: boot_sys_def)
  show "driver_ops (env_ops boot_env)" using no_drivers.driver_ops_axioms by (simp add: boot_env_def)
qed


text \<open>
  C35. The convention of \<open>syscall\<close> for the registers, whatever the call: the program counter advances by one
  instruction, \<open>a0\<close> to \<open>a2\<close> and the stack pointer stay, and \<open>a3\<close> is 0 or 1. If it is 1, \<open>v0\<close> is the code of an error, which is
  not 0, and \<open>v1\<close> is unchanged; a number that is not that of a call gives \<open>ENOSYS\<close> and changes nothing. If
  it is 0, \<open>v1\<close> is unchanged except for \<open>lseek\<close>; what \<open>lseek\<close> returns are the two halves of the variable \<open>retval64\<close>, the low
  one first, to which the new offset is never assigned.
\<close>

theorem syscall_convention:
  assumes "syscall E tf s = Some (Back tf' s')"
  shows "tf_epc tf' = tf_epc tf + 4 \<and> tf_a0 tf' = tf_a0 tf \<and> tf_a1 tf' = tf_a1 tf \<and> tf_a2 tf' = tf_a2 tf \<and> tf_sp tf' = tf_sp tf \<and>
    (tf_a3 tf' = 1 \<and> (\<exists>e. tf_v0 tf' = of_nat (errno_code e)) \<and> tf_v0 tf' \<noteq> 0 \<and> tf_v1 tf' = tf_v1 tf \<or>
     tf_a3 tf' = 0 \<and> (if tf_v0 tf = SYS_lseek then tf_v0 tf' = ucast (env_retval64 E) \<and> tf_v1 tf' = ucast (drop_bit 32 (env_retval64 E))
                     else tf_v1 tf' = tf_v1 tf)) \<and>
    (tf_v0 tf \<notin> {SYS_reboot, SYS___time, SYS_open, SYS_close, SYS_write, SYS_read, SYS_dup2, SYS_lseek} \<longrightarrow>
      tf_a3 tf' = 1 \<and> tf_v0 tf' = of_nat (errno_code ENOSYS) \<and> s' = s)"
proof -
  have nz: "of_nat (errno_code e) \<noteq> (0 :: u32)" for e
    using errno_code_bounds [of e] unat_of_nat_u32 [of "errno_code e"] by auto
  obtain r where r: "syscall_switch E tf s = Some (r, s')" using assms by (auto simp: syscall_def Let_def split: Option.bind_splits if_splits)
  have "tf_v0 tf \<notin> {SYS_reboot, SYS___time, SYS_open, SYS_close, SYS_write, SYS_read, SYS_dup2, SYS_lseek} \<Longrightarrow> r = Inl ENOSYS \<and> s' = s"
    using r by (simp add: syscall_switch_def Let_def)
  then show ?thesis
    using assms r nz by (cases r) (auto simp: syscall_def Let_def split: if_splits)
qed

theorem syscall_convention_witness:
  "\<exists>tf' s'. syscall boot_env (boot_frame\<lparr>tf_v0 := 7\<rparr>) boot_sys = Some (Back tf' s') \<and> tf_v0 tf' = 1 \<and> tf_a3 tf' = 1 \<and> s' = boot_sys"
proof -
  have "\<exists>tf'. syscall boot_env (boot_frame\<lparr>tf_v0 := 7\<rparr>) boot_sys = Some (Back tf' boot_sys)"
    by (simp add: syscall_def syscall_switch_def boot_frame_def SYS_defs Let_def boot_env_def)
  then obtain tf' where tf': "syscall boot_env (boot_frame\<lparr>tf_v0 := 7\<rparr>) boot_sys = Some (Back tf' boot_sys)" by blast
  show ?thesis using tf' syscall_convention [OF tf'] by (simp add: boot_frame_def SYS_defs)
qed

end
