(* ===== verification/Dumbvm.thy ===== *)
theory Dumbvm
  imports Copyinout
begin

text \<open>
  \<open>kern/arch/mips/vm/dumbvm.c\<close> and \<open>kern/arch/mips/vm/ram.c\<close>: physical memory, address spaces and the handling of
  page faults. Physical memory is reached through the kernel addresses from \<open>MIPS_KSEG0\<close> on. An address space is named by
  its address; what \<open>kmalloc\<close> returned is an argument, 0 if it failed. The TLB is a list of 64 entries. The
  spinlock around \<open>ram_stealmem\<close> makes it one step.
\<close>

unbundle bit_operations_syntax

section \<open>Definitions\<close>

record addrspace =
  as_vbase1 :: u32
  as_pbase1 :: u32
  as_npages1 :: u32
  as_vbase2 :: u32
  as_pbase2 :: u32
  as_npages2 :: u32
  as_stackpbase :: u32

record vm =
  firstpaddr :: u32
  lastpaddr :: u32
  tlb :: "(u32 \<times> u32) list"
  vmem :: mem
  spaces :: "ptr \<Rightarrow> addrspace option"
  proc_as :: ptr
  c_spinlocks :: nat
  t_in_interrupt :: bool

definition PAGE_SIZE :: u32 where "PAGE_SIZE = 4096"
definition PAGE_FRAME :: u32 where "PAGE_FRAME = 0xfffff000"
definition MIPS_KSEG0 :: u32 where "MIPS_KSEG0 = 0x80000000"
definition USERSTACK :: u32 where "USERSTACK = USERSPACETOP"
definition DUMBVM_STACKPAGES :: u32 where "DUMBVM_STACKPAGES = 18"
definition NUM_TLB :: nat where "NUM_TLB = 64"
definition TLBLO_DIRTY :: u32 where "TLBLO_DIRTY = 0x400"
definition TLBLO_VALID :: u32 where "TLBLO_VALID = 0x200"

definition TLBHI_INVALID :: "nat \<Rightarrow> u32" where "TLBHI_INVALID entryno = push_bit 12 (0x80000 + of_nat entryno)"
definition TLBLO_INVALID :: u32 where "TLBLO_INVALID = 0"

definition PADDR_TO_KVADDR :: "u32 \<Rightarrow> ptr" where "PADDR_TO_KVADDR paddr = paddr + MIPS_KSEG0"

text \<open>\<open>ram.c\<close>: \<open>ramsize\<close> is what \<open>mainbus_ramsize\<close> returns, \<open>firstfree\<close> what \<open>start.S\<close> saved.\<close>

definition ram_bootstrap :: "u32 \<Rightarrow> ptr \<Rightarrow> vm \<Rightarrow> vm" where
  "ram_bootstrap ramsize firstfree v =
     v\<lparr>lastpaddr := (if ramsize > 512 * 1024 * 1024 then 512 * 1024 * 1024 else ramsize), firstpaddr := firstfree - MIPS_KSEG0\<rparr>"

definition ram_stealmem :: "u32 \<Rightarrow> vm \<Rightarrow> u32 \<times> vm" where
  "ram_stealmem npages v =
    (let sz = npages * PAGE_SIZE in
     if firstpaddr v + sz > lastpaddr v then (0, v)
     else (firstpaddr v, v\<lparr>firstpaddr := firstpaddr v + sz\<rparr>))"

definition ram_getsize :: "vm \<Rightarrow> u32" where "ram_getsize v = lastpaddr v"

definition ram_getfirstfree :: "vm \<Rightarrow> u32 \<times> vm" where
  "ram_getfirstfree v = (firstpaddr v, v\<lparr>firstpaddr := 0, lastpaddr := 0\<rparr>)"

definition dumbvm_can_sleep :: "vm \<Rightarrow> unit option" where
  "dumbvm_can_sleep v = do { kassert (c_spinlocks v = 0); kassert (\<not> t_in_interrupt v) }"

definition getppages :: "u32 \<Rightarrow> vm \<Rightarrow> u32 \<times> vm" where
  "getppages npages v = ram_stealmem npages v"

definition alloc_kpages :: "u32 \<Rightarrow> vm \<Rightarrow> (ptr \<times> vm) option" where
  "alloc_kpages npages v = do {
     dumbvm_can_sleep v;
     let (pa, v) = getppages npages v;
     Some (if pa = 0 then 0 else PADDR_TO_KVADDR pa, v) }"

definition free_kpages :: "ptr \<Rightarrow> vm \<Rightarrow> vm" where "free_kpages addr v = v"

definition VM_FAULT_READ :: nat where "VM_FAULT_READ = 0"
definition VM_FAULT_WRITE :: nat where "VM_FAULT_WRITE = 1"
definition VM_FAULT_READONLY :: nat where "VM_FAULT_READONLY = 2"

text \<open>The assertions of \<open>vm_fault\<close> on the address space.\<close>

definition as_set_up :: "addrspace \<Rightarrow> bool" where
  "as_set_up as \<longleftrightarrow> as_vbase1 as \<noteq> 0 \<and> as_pbase1 as \<noteq> 0 \<and> as_npages1 as \<noteq> 0 \<and> as_vbase2 as \<noteq> 0 \<and> as_pbase2 as \<noteq> 0 \<and>
     as_npages2 as \<noteq> 0 \<and> as_stackpbase as \<noteq> 0 \<and> as_vbase1 as AND PAGE_FRAME = as_vbase1 as \<and>
     as_pbase1 as AND PAGE_FRAME = as_pbase1 as \<and> as_vbase2 as AND PAGE_FRAME = as_vbase2 as \<and>
     as_pbase2 as AND PAGE_FRAME = as_pbase2 as \<and> as_stackpbase as AND PAGE_FRAME = as_stackpbase as"

text \<open>The physical address of a page.\<close>

definition paddr_of :: "addrspace \<Rightarrow> u32 \<Rightarrow> u32 option" where
  "paddr_of as faultaddress =
    (let vbase1 = as_vbase1 as; vtop1 = vbase1 + as_npages1 as * PAGE_SIZE;
         vbase2 = as_vbase2 as; vtop2 = vbase2 + as_npages2 as * PAGE_SIZE;
         stackbase = USERSTACK - DUMBVM_STACKPAGES * PAGE_SIZE; stacktop = USERSTACK in
     if faultaddress \<ge> vbase1 \<and> faultaddress < vtop1 then Some ((faultaddress - vbase1) + as_pbase1 as)
     else if faultaddress \<ge> vbase2 \<and> faultaddress < vtop2 then Some ((faultaddress - vbase2) + as_pbase2 as)
     else if faultaddress \<ge> stackbase \<and> faultaddress < stacktop then Some ((faultaddress - stackbase) + as_stackpbase as)
     else None)"

text \<open>The loop that looks for an entry that is not valid.\<close>

fun tlb_insert :: "u32 \<Rightarrow> u32 \<Rightarrow> (u32 \<times> u32) list \<Rightarrow> (u32 \<times> u32) list option" where
  "tlb_insert ehi elo [] = None"
| "tlb_insert ehi elo ((h, l) # es) =
    (if l AND TLBLO_VALID \<noteq> 0 then map_option ((#) (h, l)) (tlb_insert ehi elo es) else Some ((ehi, elo) # es))"

definition vm_fault :: "nat \<Rightarrow> u32 \<Rightarrow> vm \<Rightarrow> ((errno + unit) \<times> vm) option" where
  "vm_fault faulttype addr v =
    (let faultaddress = addr AND PAGE_FRAME in
     if faulttype = VM_FAULT_READONLY then None
     else if faulttype \<noteq> VM_FAULT_READ \<and> faulttype \<noteq> VM_FAULT_WRITE then Some (Inl EINVAL, v)
     else if proc_as v = 0 then Some (Inl EFAULT, v)
     else do {
       as \<leftarrow> spaces v (proc_as v);
       kassert (as_set_up as);
       case paddr_of as faultaddress of
         None \<Rightarrow> Some (Inl EFAULT, v)
       | Some paddr \<Rightarrow> do {
           kassert (paddr AND PAGE_FRAME = paddr);
           case tlb_insert faultaddress (paddr OR TLBLO_DIRTY OR TLBLO_VALID) (tlb v) of
             Some t \<Rightarrow> Some (Inr (), v\<lparr>tlb := t\<rparr>)
           | None \<Rightarrow> Some (Inl EFAULT, v) } })"

definition as_create :: "ptr \<Rightarrow> vm \<Rightarrow> vm" where
  "as_create as v = (if as = 0 then v
     else v\<lparr>spaces := (spaces v)(as \<mapsto> \<lparr>as_vbase1 = 0, as_pbase1 = 0, as_npages1 = 0, as_vbase2 = 0, as_pbase2 = 0, as_npages2 = 0, as_stackpbase = 0\<rparr>)\<rparr>)"

definition as_destroy :: "ptr \<Rightarrow> vm \<Rightarrow> vm option" where
  "as_destroy as v = do { dumbvm_can_sleep v; Some (v\<lparr>spaces := (spaces v)(as := None)\<rparr>) }"

definition as_activate :: "vm \<Rightarrow> vm" where
  "as_activate v = (if proc_as v = 0 then v else v\<lparr>tlb := map (\<lambda>i. (TLBHI_INVALID i, TLBLO_INVALID)) [0..<NUM_TLB]\<rparr>)"

definition as_define_region :: "ptr \<Rightarrow> u32 \<Rightarrow> u32 \<Rightarrow> vm \<Rightarrow> ((errno + unit) \<times> vm) option" where
  "as_define_region as vaddr sz v = do {
     dumbvm_can_sleep v;
     let sz = sz + (vaddr AND NOT PAGE_FRAME);
     let vaddr = vaddr AND PAGE_FRAME;
     let sz = (sz + PAGE_SIZE - 1) AND PAGE_FRAME;
     let npages = sz div PAGE_SIZE;
     A \<leftarrow> spaces v as;
     if as_vbase1 A = 0 then Some (Inr (), v\<lparr>spaces := (spaces v)(as \<mapsto> A\<lparr>as_vbase1 := vaddr, as_npages1 := npages\<rparr>)\<rparr>)
     else if as_vbase2 A = 0 then Some (Inr (), v\<lparr>spaces := (spaces v)(as \<mapsto> A\<lparr>as_vbase2 := vaddr, as_npages2 := npages\<rparr>)\<rparr>)
     else Some (Inl ENOSYS, v) }"

definition as_zero_region :: "u32 \<Rightarrow> u32 \<Rightarrow> mem \<Rightarrow> mem" where
  "as_zero_region paddr npages m = bzero (PADDR_TO_KVADDR paddr) (npages * PAGE_SIZE) m"

definition set_space :: "ptr \<Rightarrow> addrspace \<Rightarrow> vm \<Rightarrow> vm" where
  "set_space as A v = v\<lparr>spaces := (spaces v)(as \<mapsto> A)\<rparr>"

definition as_prepare_load :: "ptr \<Rightarrow> vm \<Rightarrow> ((errno + unit) \<times> vm) option" where
  "as_prepare_load as v = do {
     A \<leftarrow> spaces v as;
     kassert (as_pbase1 A = 0);
     kassert (as_pbase2 A = 0);
     kassert (as_stackpbase A = 0);
     dumbvm_can_sleep v;
     let (pa, v) = getppages (as_npages1 A) v;
     let A = A\<lparr>as_pbase1 := pa\<rparr>;
     if pa = 0 then Some (Inl ENOMEM, set_space as A v)
     else do {
       let (pa, v) = getppages (as_npages2 A) v;
       let A = A\<lparr>as_pbase2 := pa\<rparr>;
       if pa = 0 then Some (Inl ENOMEM, set_space as A v)
       else do {
         let (pa, v) = getppages DUMBVM_STACKPAGES v;
         let A = A\<lparr>as_stackpbase := pa\<rparr>;
         if pa = 0 then Some (Inl ENOMEM, set_space as A v)
         else do {
           let m = as_zero_region (as_pbase1 A) (as_npages1 A) (vmem v);
           let m = as_zero_region (as_pbase2 A) (as_npages2 A) m;
           let m = as_zero_region (as_stackpbase A) DUMBVM_STACKPAGES m;
           Some (Inr (), (set_space as A v)\<lparr>vmem := m\<rparr>) } } } }"

definition as_complete_load :: "ptr \<Rightarrow> vm \<Rightarrow> (errno + unit) option" where
  "as_complete_load as v = do { dumbvm_can_sleep v; Some (Inr ()) }"

definition as_define_stack :: "ptr \<Rightarrow> vm \<Rightarrow> u32 option" where
  "as_define_stack as v = do { A \<leftarrow> spaces v as; kassert (as_stackpbase A \<noteq> 0); Some USERSTACK }"

definition as_copy :: "ptr \<Rightarrow> ptr \<Rightarrow> vm \<Rightarrow> ((errno + ptr) \<times> vm) option" where
  "as_copy old new v = do {
     dumbvm_can_sleep v;
     if new = 0 then Some (Inl ENOMEM, v)
     else do {
       A \<leftarrow> spaces v old;
       let v = as_create new v;
       B \<leftarrow> spaces v new;
       let v = set_space new (B\<lparr>as_vbase1 := as_vbase1 A, as_npages1 := as_npages1 A, as_vbase2 := as_vbase2 A, as_npages2 := as_npages2 A\<rparr>) v;
       (r, v) \<leftarrow> as_prepare_load new v;
       case r of Inl _ \<Rightarrow> do { v \<leftarrow> as_destroy new v; Some (Inl ENOMEM, v) }
       | Inr _ \<Rightarrow> do {
           B \<leftarrow> spaces v new;
           kassert (as_pbase1 B \<noteq> 0);
           kassert (as_pbase2 B \<noteq> 0);
           kassert (as_stackpbase B \<noteq> 0);
           let m = memmove (PADDR_TO_KVADDR (as_pbase1 B)) (PADDR_TO_KVADDR (as_pbase1 A)) (as_npages1 A * PAGE_SIZE) (vmem v);
           let m = memmove (PADDR_TO_KVADDR (as_pbase2 B)) (PADDR_TO_KVADDR (as_pbase2 A)) (as_npages2 A * PAGE_SIZE) m;
           let m = memmove (PADDR_TO_KVADDR (as_stackpbase B)) (PADDR_TO_KVADDR (as_stackpbase A)) (DUMBVM_STACKPAGES * PAGE_SIZE) m;
           Some (Inr new, v\<lparr>vmem := m\<rparr>) } } }"

section \<open>Pages\<close>

lemma page_frame: "x AND PAGE_FRAME = push_bit 12 (drop_bit 12 x)"
proof -
  have m: "PAGE_FRAME = NOT (mask 12)" by (simp add: PAGE_FRAME_def mask_eq_exp_minus_1)
  show ?thesis unfolding m by (intro bit_word_eqI) (auto simp: bit_and_iff bit_not_iff bit_mask_iff bit_push_bit_iff bit_drop_bit_eq)
qed

lemma unat_page: "unat (x AND PAGE_FRAME) = unat x div 4096 * 4096" for x :: u32
proof -
  have lt: "unat x div 4096 * 4096 < 2 ^ 32" by (rule le_less_trans [OF div_times_less_eq_dividend]) simp
  have "x AND PAGE_FRAME = x div 4096 * 4096" by (simp add: page_frame push_bit_eq_mult drop_bit_eq_div)
  moreover have "unat (x div 4096 * 4096) = unat (x div 4096) * unat (4096 :: u32)"
    using lt by (intro unat_mult_lem [THEN iffD1]) (simp add: unat_div)
  ultimately show ?thesis by (simp add: unat_div)
qed

definition page :: "u32 \<Rightarrow> bool" where "page x \<longleftrightarrow> x AND PAGE_FRAME = x"

lemma page_iff: "page x \<longleftrightarrow> unat x mod 4096 = 0"
proof -
  have "page x \<longleftrightarrow> unat x div 4096 * 4096 = unat x" unfolding page_def word_unat_eq_iff unat_page ..
  moreover have "unat x div 4096 * 4096 + unat x mod 4096 = unat x" by (rule div_mult_mod_eq)
  ultimately show ?thesis by (metis add.right_neutral add_left_cancel)
qed

lemma unat_pages: "unat n * 4096 \<le> 2 ^ 31 \<Longrightarrow> unat (n * PAGE_SIZE) = unat n * 4096"
  by (simp add: PAGE_SIZE_def unat_mult_lem [THEN iffD1])

text \<open>The pages handed out by \<open>ram_stealmem\<close>, if the sum does not wrap around.\<close>

lemma stealmem:
  assumes "unat n * 4096 \<le> 2 ^ 31" and "unat (firstpaddr v) \<le> unat (lastpaddr v)" and "unat (lastpaddr v) \<le> 2 ^ 29" and "ram_stealmem n v = (pa, v')"
  shows "pa = 0 \<and> v' = v \<or> pa = firstpaddr v \<and> v' = v\<lparr>firstpaddr := firstpaddr v + n * PAGE_SIZE\<rparr> \<and>
    unat (firstpaddr v') = unat (firstpaddr v) + unat n * 4096 \<and> unat (firstpaddr v') \<le> unat (lastpaddr v)"
proof -
  have "unat (firstpaddr v + n * PAGE_SIZE) = unat (firstpaddr v) + unat n * 4096"
    using assms(1-3) unat_pages [OF assms(1)] by (subst unat_plus_u32) auto
  then show ?thesis using assms(4) by (auto simp: ram_stealmem_def Let_def word_less_nat_alt split: if_splits)
qed

section \<open>Invariant\<close>

definition extent :: "u32 \<Rightarrow> u32 \<Rightarrow> nat set" where
  "extent pbase npages = (if pbase = 0 then {} else {unat pbase ..< unat pbase + unat npages * 4096})"

definition extents :: "addrspace \<Rightarrow> nat set list" where
  "extents A = [extent (as_pbase1 A) (as_npages1 A), extent (as_pbase2 A) (as_npages2 A), extent (as_stackpbase A) DUMBVM_STACKPAGES]"

definition phys :: "addrspace \<Rightarrow> nat set" where "phys A = \<Union> (set (extents A))"

definition region_ok :: "u32 \<Rightarrow> u32 \<Rightarrow> bool" where
  "region_ok vbase npages \<longleftrightarrow> page vbase \<and> unat vbase + unat npages * 4096 \<le> 2 ^ 31"

definition space_ok :: "nat \<Rightarrow> nat \<Rightarrow> addrspace \<Rightarrow> bool" where
  "space_ok lo hi A \<longleftrightarrow> phys A \<subseteq> {lo ..< hi} \<and> page (as_pbase1 A) \<and> page (as_pbase2 A) \<and> page (as_stackpbase A) \<and>
     region_ok (as_vbase1 A) (as_npages1 A) \<and> region_ok (as_vbase2 A) (as_npages2 A)"

text \<open>The entries of the TLB that are valid belong to the address space \<open>A\<close>.\<close>

definition valid :: "u32 \<times> u32 \<Rightarrow> bool" where "valid e \<longleftrightarrow> snd e AND TLBLO_VALID \<noteq> 0"

definition tlb_of :: "addrspace \<Rightarrow> (u32 \<times> u32) list \<Rightarrow> bool" where
  "tlb_of A es \<longleftrightarrow> (\<forall>e \<in> set es. valid e \<longrightarrow> as_set_up A \<and> page (fst e) \<and> paddr_of A (fst e) = Some (snd e AND PAGE_FRAME))"

definition vm_ok :: "nat \<Rightarrow> vm \<Rightarrow> bool" where
  "vm_ok lo v \<longleftrightarrow> 0 < lo \<and> lo \<le> unat (firstpaddr v) \<and> unat (firstpaddr v) \<le> unat (lastpaddr v) \<and> unat (lastpaddr v) \<le> 2 ^ 29 \<and> page (firstpaddr v) \<and>
     (\<forall>a A. spaces v a = Some A \<longrightarrow> space_ok lo (unat (firstpaddr v)) A) \<and>
     (\<forall>a b A B. spaces v a = Some A \<longrightarrow> spaces v b = Some B \<longrightarrow> a \<noteq> b \<longrightarrow> phys A \<inter> phys B = {}) \<and>
     (\<exists>A. tlb_of A (tlb v) \<and> (proc_as v \<noteq> 0 \<longrightarrow> spaces v (proc_as v) = Some A))"

lemma space_ok_mono: "space_ok lo hi A \<Longrightarrow> hi \<le> hi' \<Longrightarrow> space_ok lo hi' A"
  by (fastforce simp: space_ok_def)

lemma vm_ok_space: "vm_ok lo v \<Longrightarrow> spaces v a = Some A \<Longrightarrow> space_ok lo (unat (firstpaddr v)) A"
  by (simp add: vm_ok_def)

text \<open>An address space that is not set up has nothing in the TLB.\<close>

lemma tlb_of_not_set_up: "tlb_of A es \<Longrightarrow> \<not> as_set_up A \<Longrightarrow> tlb_of B es"
  by (auto simp: tlb_of_def)

lemma vm_ok_update:
  assumes ok: "vm_ok lo v" and A: "spaces v a = Some A" "\<not> as_set_up A" and B: "space_ok lo (unat (firstpaddr v)) B"
    and new: "\<And>b C. spaces v b = Some C \<Longrightarrow> b \<noteq> a \<Longrightarrow> phys B \<inter> phys C = {}"
  shows "vm_ok lo (set_space a B v)"
proof -
  obtain T where T: "tlb_of T (tlb v)" "proc_as v \<noteq> 0 \<longrightarrow> spaces v (proc_as v) = Some T" using ok by (auto simp: vm_ok_def)
  have "\<exists>T. tlb_of T (tlb v) \<and> (proc_as v \<noteq> 0 \<longrightarrow> ((spaces v)(a \<mapsto> B)) (proc_as v) = Some T)"
  proof (cases "proc_as v = a \<and> proc_as v \<noteq> 0")
    case True
    then have "T = A" using T(2) A(1) by auto
    then show ?thesis using tlb_of_not_set_up [OF T(1)] A(2) True by auto
  qed (use T in auto)
  moreover have "phys C \<inter> phys D = {}" if "((spaces v)(a \<mapsto> B)) b = Some C" "((spaces v)(a \<mapsto> B)) d = Some D" "b \<noteq> d" for b d C D
    using that new ok by (cases "b = a"; cases "d = a") (auto simp: vm_ok_def)
  ultimately show ?thesis using ok B unfolding vm_ok_def set_space_def by (auto split: if_splits)
qed

lemma getppages_ok:
  assumes ok: "vm_ok lo v" and n: "unat n * 4096 \<le> 2 ^ 31" and g: "getppages n v = (pa, v')"
  shows "vm_ok lo v'" "spaces v' = spaces v" "page pa" "extent pa n \<subseteq> {lo ..< unat (firstpaddr v')}"
    "\<And>b C. spaces v b = Some C \<Longrightarrow> extent pa n \<inter> phys C = {}"
proof -
  have b: "unat (firstpaddr v) \<le> unat (lastpaddr v)" "unat (lastpaddr v) \<le> 2 ^ 29" using ok by (simp_all add: vm_ok_def)
  note r = stealmem [OF n b g [unfolded getppages_def]]
  show "vm_ok lo v'" using r
  proof
    assume "pa = firstpaddr v \<and> v' = v\<lparr>firstpaddr := firstpaddr v + n * PAGE_SIZE\<rparr> \<and>
      unat (firstpaddr v') = unat (firstpaddr v) + unat n * 4096 \<and> unat (firstpaddr v') \<le> unat (lastpaddr v)"
    then show ?thesis using ok space_ok_mono [of lo "unat (firstpaddr v)" _ "unat (firstpaddr v')"] by (auto simp: vm_ok_def page_iff)
  qed (use ok in simp)
  show "spaces v' = spaces v" using r by auto
  show "page pa" using r ok by (auto simp: vm_ok_def page_iff)
  show "extent pa n \<subseteq> {lo ..< unat (firstpaddr v')}" using r ok by (auto simp: extent_def vm_ok_def)
  show "extent pa n \<inter> phys C = {}" if "spaces v b = Some C" for b C
    using r vm_ok_space [OF ok that] by (auto simp: extent_def space_ok_def)
qed

text \<open>Pages for an address space that is not set up.\<close>

lemma give_pages:
  assumes ok: "vm_ok lo v" and A: "spaces v a = Some A" "\<not> as_set_up A" and n: "unat n * 4096 \<le> 2 ^ 31" and g: "getppages n v = (pa, v')"
    and B: "phys B \<subseteq> phys A \<union> extent pa n" "page (as_pbase1 B)" "page (as_pbase2 B)" "page (as_stackpbase B)"
      "as_vbase1 B = as_vbase1 A" "as_npages1 B = as_npages1 A" "as_vbase2 B = as_vbase2 A" "as_npages2 B = as_npages2 A"
  shows "vm_ok lo (set_space a B v')"
proof (rule vm_ok_update)
  note g' = getppages_ok [OF ok n g]
  show "vm_ok lo v'" by (rule g'(1))
  show A': "spaces v' a = Some A" using A(1) g'(2) by simp
  have "space_ok lo (unat (firstpaddr v')) A" by (rule vm_ok_space [OF g'(1) A'])
  then show "space_ok lo (unat (firstpaddr v')) B" using B g'(4) by (auto simp: space_ok_def)
  show "phys B \<inter> phys C = {}" if "spaces v' b = Some C" "b \<noteq> a" for b C
  proof -
    have c: "spaces v b = Some C" using that(1) g'(2) by simp
    have "phys A \<inter> phys C = {}" using ok A(1) c that(2) by (auto simp: vm_ok_def)
    then show ?thesis using B(1) g'(5) [OF c] by blast
  qed
qed (rule A(2))

lemma getppages_set_space: "getppages n (set_space a B v) = (let (pa, v') = getppages n v in (pa, set_space a B v'))"
  by (simp add: getppages_def ram_stealmem_def set_space_def Let_def)

lemma set_space_twice [simp]: "set_space a B (set_space a A v) = set_space a B v"
  by (simp add: set_space_def)

lemma set_space_at [simp]: "spaces (set_space a B v) a = Some B"
  by (simp add: set_space_def)

lemma vm_ok_mem [simp]: "vm_ok lo (v\<lparr>vmem := m\<rparr>) = vm_ok lo v"
  by (simp add: vm_ok_def)

lemma region_pages: "region_ok vb n \<Longrightarrow> unat n * 4096 \<le> 2 ^ 31"
  by (simp add: region_ok_def)

lemma prepare_load_ok:
  assumes ok: "vm_ok lo v" and p: "as_prepare_load a v = Some (r, v')"
  shows "vm_ok lo v'"
proof -
  obtain A where A: "spaces v a = Some A" "as_pbase1 A = 0" "as_pbase2 A = 0" "as_stackpbase A = 0"
    using p by (auto simp: as_prepare_load_def split: Option.bind_splits)
  obtain pa1 v1 where g1: "getppages (as_npages1 A) v = (pa1, v1)" by (metis surj_pair)
  obtain pa2 v2 where g2: "getppages (as_npages2 A) v1 = (pa2, v2)" by (metis surj_pair)
  obtain pa3 v3 where g3: "getppages DUMBVM_STACKPAGES v2 = (pa3, v3)" by (metis surj_pair)
  have sp: "space_ok lo (unat (firstpaddr v)) A" by (rule vm_ok_space [OF ok A(1)])
  have n: "unat (as_npages1 A) * 4096 \<le> 2 ^ 31" "unat (as_npages2 A) * 4096 \<le> 2 ^ 31" "unat DUMBVM_STACKPAGES * 4096 \<le> 2 ^ 31"
    using sp region_pages by (auto simp: space_ok_def DUMBVM_STACKPAGES_def)
  have z: "page 0" by (simp add: page_iff)
  let ?A1 = "A\<lparr>as_pbase1 := pa1\<rparr>" and ?A2 = "A\<lparr>as_pbase1 := pa1, as_pbase2 := pa2\<rparr>"
    and ?A3 = "A\<lparr>as_pbase1 := pa1, as_pbase2 := pa2, as_stackpbase := pa3\<rparr>"
  have s1: "vm_ok lo (set_space a ?A1 v1)"
    using A z getppages_ok(3) [OF ok n(1) g1] by (intro give_pages [OF ok A(1) _ n(1) g1]) (auto simp: as_set_up_def phys_def extents_def extent_def)
  have g2': "getppages (as_npages2 A) (set_space a ?A1 v1) = (pa2, set_space a ?A1 v2)" using g2 by (simp add: getppages_set_space)
  have s2: "vm_ok lo (set_space a ?A2 v2)"
    using give_pages [OF s1 set_space_at _ n(2) g2', of ?A2] A z getppages_ok(3) [OF ok n(1) g1] getppages_ok(3) [OF s1 n(2) g2']
    by (auto simp: as_set_up_def phys_def extents_def extent_def)
  have g3': "getppages DUMBVM_STACKPAGES (set_space a ?A2 v2) = (pa3, set_space a ?A2 v3)" using g3 by (simp add: getppages_set_space)
  have s3: "vm_ok lo (set_space a ?A3 v3)"
    using give_pages [OF s2 set_space_at _ n(3) g3', of ?A3] A z getppages_ok(3) [OF ok n(1) g1] getppages_ok(3) [OF s1 n(2) g2'] getppages_ok(3) [OF s2 n(3) g3']
    by (auto simp: as_set_up_def phys_def extents_def extent_def)
  show ?thesis
    using p A g1 g2 g3 s1 s2 s3 by (auto simp: as_prepare_load_def Let_def split: Option.bind_splits if_splits)
qed

section \<open>The other operations\<close>

definition no_space :: addrspace where
  "no_space = \<lparr>as_vbase1 = 0, as_pbase1 = 0, as_npages1 = 0, as_vbase2 = 0, as_pbase2 = 0, as_npages2 = 0, as_stackpbase = 0\<rparr>"

lemma no_space: "phys no_space = {}" "space_ok lo hi no_space" "\<not> as_set_up no_space"
  by (simp_all add: no_space_def phys_def extents_def extent_def space_ok_def page_iff region_ok_def as_set_up_def)

lemma create_ok:
  assumes "vm_ok lo v" and "spaces v a = None"
  shows "vm_ok lo (as_create a v)"
proof (cases "a = 0")
  case False
  have e: "as_create a v = set_space a no_space v" using False by (simp add: as_create_def set_space_def no_space_def)
  obtain T where T: "tlb_of T (tlb v)" "proc_as v \<noteq> 0 \<longrightarrow> spaces v (proc_as v) = Some T" using assms(1) by (auto simp: vm_ok_def)
  then have "proc_as v \<noteq> 0 \<longrightarrow> ((spaces v)(a \<mapsto> no_space)) (proc_as v) = Some T" using assms(2) by auto
  then show ?thesis unfolding e using assms(1) T(1) no_space by (auto simp: vm_ok_def set_space_def)
qed (use assms in \<open>simp add: as_create_def\<close>)

lemma destroy_ok:
  assumes "vm_ok lo v" and "as_destroy a v = Some v'" and "a \<noteq> proc_as v"
  shows "vm_ok lo v'"
proof -
  have v': "v' = v\<lparr>spaces := (spaces v)(a := None)\<rparr>" using assms(2) by (auto simp: as_destroy_def dumbvm_can_sleep_def split: Option.bind_splits)
  obtain T where T: "tlb_of T (tlb v)" "proc_as v \<noteq> 0 \<longrightarrow> spaces v (proc_as v) = Some T" using assms(1) by (auto simp: vm_ok_def)
  then have "proc_as v \<noteq> 0 \<longrightarrow> ((spaces v)(a := None)) (proc_as v) = Some T" using assms(3) by auto
  then show ?thesis unfolding v' using assms(1) T(1) by (auto simp: vm_ok_def split: if_splits)
qed

lemma region_rounding:
  assumes "unat va + unat sz \<le> 2 ^ 31"
  shows "region_ok (va AND PAGE_FRAME) (((sz + (va AND NOT PAGE_FRAME)) + PAGE_SIZE - 1 AND PAGE_FRAME) div PAGE_SIZE)"
proof -
  define k where "k = unat va div 4096"
  define o' where "o' = unat va mod 4096"
  have va: "unat va = k * 4096 + o'" by (simp add: k_def o'_def)
  have o: "o' < 4096" by (simp add: o'_def)
  have nf: "unat (va AND NOT PAGE_FRAME) = o'"
  proof -
    have m: "PAGE_FRAME = NOT (mask 12)" by (simp add: PAGE_FRAME_def mask_eq_exp_minus_1)
    have "va AND NOT PAGE_FRAME = take_bit 12 va" unfolding m by (simp add: take_bit_eq_mask)
    then show ?thesis by (simp add: take_bit_eq_mod unat_mod o'_def)
  qed
  define t where "t = unat sz + o' + 4095"
  have p1: "PAGE_SIZE - 1 = 4095" by (simp add: PAGE_SIZE_def)
  have "unat (sz + (va AND NOT PAGE_FRAME)) = unat sz + o'" using assms va o nf by (subst unat_plus_u32) auto
  then have t: "unat (sz + (va AND NOT PAGE_FRAME) + PAGE_SIZE - 1) = t"
    using assms va o unfolding add_diff_eq [symmetric] p1 t_def by (subst unat_plus_u32) auto
  have n: "unat ((sz + (va AND NOT PAGE_FRAME) + PAGE_SIZE - 1 AND PAGE_FRAME) div PAGE_SIZE) = t div 4096"
    unfolding unat_div unat_page t by (simp add: PAGE_SIZE_def)
  have "t < (2 ^ 19 - k + 1) * 4096" using assms va by (simp add: t_def algebra_simps)
  then have "t div 4096 < 2 ^ 19 - k + 1" by (simp add: less_mult_imp_div_less)
  then have "k + t div 4096 \<le> 2 ^ 19" using assms va by simp
  then have "k * 4096 + t div 4096 * 4096 \<le> 2 ^ 31" by simp
  then show ?thesis unfolding region_ok_def n by (simp add: unat_page page_iff k_def)
qed

lemma define_region_ok:
  assumes ok: "vm_ok lo v" and d: "as_define_region a va sz v = Some (r, v')" and u: "unat va + unat sz \<le> 2 ^ 31"
    and A: "spaces v a = Some A" "as_pbase1 A = 0" "as_pbase2 A = 0"
  shows "vm_ok lo v'"
proof -
  have sp: "space_ok lo (unat (firstpaddr v)) A" by (rule vm_ok_space [OF ok A(1)])
  have nu: "\<not> as_set_up A" using A by (simp add: as_set_up_def)
  let ?n = "(sz + (va AND NOT PAGE_FRAME) + PAGE_SIZE - 1 AND PAGE_FRAME) div PAGE_SIZE"
  let ?B = "A\<lparr>as_vbase1 := va AND PAGE_FRAME, as_npages1 := ?n\<rparr>" and ?C = "A\<lparr>as_vbase2 := va AND PAGE_FRAME, as_npages2 := ?n\<rparr>"
  have ph: "phys ?B = phys A" "phys ?C = phys A" using A by (simp_all add: phys_def extents_def extent_def)
  have dis: "phys A \<inter> phys C = {}" if "spaces v b = Some C" "b \<noteq> a" for b C using ok A(1) that by (auto simp: vm_ok_def)
  have "vm_ok lo (set_space a ?B v)"
    using sp ph dis region_rounding [OF u] by (intro vm_ok_update [OF ok A(1) nu]) (auto simp: space_ok_def)
  moreover have "vm_ok lo (set_space a ?C v)"
    using sp ph dis region_rounding [OF u] by (intro vm_ok_update [OF ok A(1) nu]) (auto simp: space_ok_def)
  ultimately show ?thesis
    using d A ok by (auto simp: as_define_region_def dumbvm_can_sleep_def set_space_def Let_def split: Option.bind_splits if_splits)
qed

lemma copy_ok:
  assumes ok: "vm_ok lo v" and c: "as_copy old new v = Some (r, v')" and new: "spaces v new = None"
  shows "vm_ok lo v'"
proof (cases "new = 0")
  case False
  obtain A where A: "spaces v old = Some A" using c False by (auto simp: as_copy_def split: Option.bind_splits)
  define B where "B = no_space\<lparr>as_vbase1 := as_vbase1 A, as_npages1 := as_npages1 A, as_vbase2 := as_vbase2 A, as_npages2 := as_npages2 A\<rparr>"
  define v1 where "v1 = set_space new B (as_create new v)"
  have s: "spaces (as_create new v) new = Some no_space" using False by (simp add: as_create_def no_space_def)
  note ok1 = create_ok [OF ok new]
  have B: "phys B = {}" by (simp add: B_def no_space_def phys_def extents_def extent_def)
  have "space_ok lo (unat (firstpaddr (as_create new v))) B"
    using vm_ok_space [OF ok A] no_space(2) [of lo "unat (firstpaddr (as_create new v))"] B by (simp add: space_ok_def B_def)
  then have v1: "vm_ok lo v1" unfolding v1_def using B by (intro vm_ok_update [OF ok1 s no_space(3)]) auto
  obtain r2 v2 where p: "as_prepare_load new v1 = Some (r2, v2)"
    using c False A s by (auto simp: as_copy_def v1_def B_def Let_def split: Option.bind_splits)
  have v2: "vm_ok lo v2" by (rule prepare_load_ok [OF v1 p])
  have pr: "proc_as v2 \<noteq> new"
  proof -
    have "proc_as v \<noteq> new" using ok new False by (auto simp: vm_ok_def)
    moreover have "proc_as v2 = proc_as v1"
      using p by (auto simp: as_prepare_load_def set_space_def getppages_def ram_stealmem_def Let_def split: Option.bind_splits if_splits)
    ultimately show ?thesis using False by (simp add: v1_def set_space_def as_create_def)
  qed
  show ?thesis
  proof (cases r2)
    case (Inl e)
    then obtain v3 where "as_destroy new v2 = Some v3" "v' = v3"
      using c False A s p by (auto simp: as_copy_def v1_def B_def Let_def split: Option.bind_splits)
    then show ?thesis using destroy_ok [OF v2] pr by auto
  next
    case (Inr x)
    then obtain m where "v' = v2\<lparr>vmem := m\<rparr>"
      using c False A s p by (auto simp: as_copy_def v1_def B_def Let_def split: Option.bind_splits)
    then show ?thesis using v2 by simp
  qed
qed (use assms in \<open>auto simp: as_copy_def split: Option.bind_splits\<close>)

lemma tlb_insert_set: "tlb_insert h l es = Some es' \<Longrightarrow> set es' \<subseteq> insert (h, l) (set es)"
  by (induction es arbitrary: es') (fastforce split: if_splits)+

lemma frame_flags: "page pa \<Longrightarrow> (pa OR TLBLO_DIRTY OR TLBLO_VALID) AND PAGE_FRAME = pa"
proof -
  assume "page pa"
  then have "pa AND PAGE_FRAME = pa" by (simp add: page_def)
  moreover have "TLBLO_DIRTY AND PAGE_FRAME = 0" "TLBLO_VALID AND PAGE_FRAME = 0" by (simp_all add: TLBLO_DIRTY_def TLBLO_VALID_def PAGE_FRAME_def)
  ultimately show ?thesis by (simp add: bit.conj_disj_distrib2)
qed

lemma page_page: "page (x AND PAGE_FRAME)"
  by (simp add: page_def and.assoc)

lemma fault_ok:
  assumes ok: "vm_ok lo v" and f: "vm_fault ft addr v = Some (r, v')"
  shows "vm_ok lo v'"
proof (cases "v' = v")
  case False
  obtain T where T: "tlb_of T (tlb v)" "proc_as v \<noteq> 0 \<longrightarrow> spaces v (proc_as v) = Some T" using ok by (auto simp: vm_ok_def)
  obtain pa t where t: "as_set_up T" "paddr_of T (addr AND PAGE_FRAME) = Some pa" "page pa" "v' = v\<lparr>tlb := t\<rparr>"
    "tlb_insert (addr AND PAGE_FRAME) (pa OR TLBLO_DIRTY OR TLBLO_VALID) (tlb v) = Some t"
    using f False T(2) by (auto simp: vm_fault_def page_def Let_def split: if_splits Option.bind_splits option.splits)
  have "tlb_of T t"
    using T(1) tlb_insert_set [OF t(5)] t(1,2) frame_flags [OF t(3)] page_page by (fastforce simp: tlb_of_def)
  then show ?thesis using ok T(2) t(4) by (auto simp: vm_ok_def)
qed (use ok in simp)

lemma activate_ok:
  assumes "vm_ok lo v" and "a = 0 \<or> spaces v a \<noteq> None"
  shows "vm_ok lo (as_activate (v\<lparr>proc_as := a\<rparr>))"
proof (cases "a = 0")
  case True
  then show ?thesis using assms(1) by (auto simp: as_activate_def vm_ok_def)
next
  case False
  then obtain A where A: "spaces v a = Some A" using assms(2) by auto
  have "tlb_of A (map (\<lambda>i. (TLBHI_INVALID i, TLBLO_INVALID)) [0..<NUM_TLB])" by (simp add: tlb_of_def valid_def TLBLO_INVALID_def)
  then show ?thesis using assms(1) A False by (auto simp: as_activate_def vm_ok_def)
qed

section \<open>Translation\<close>

lemma in_extent:
  assumes "page vb" and "unat vb + unat n * 4096 \<le> 2 ^ 31" and "vb \<le> x" and "x < vb + n * PAGE_SIZE" and "pb \<noteq> 0"
    and "unat pb + unat n * 4096 \<le> 2 ^ 29"
  shows "unat (x - vb + pb) \<in> extent pb n"
proof -
  have "unat (vb + n * PAGE_SIZE) = unat vb + unat n * 4096" using assms(2) unat_pages [of n] by (subst unat_plus_u32) auto
  then have x: "unat vb \<le> unat x" "unat x < unat vb + unat n * 4096" using assms(3,4) by (simp_all add: word_le_nat_alt word_less_nat_alt)
  have d: "unat (x - vb) = unat x - unat vb" using assms(3) by (simp add: unat_sub)
  then have "unat (x - vb + pb) = unat x - unat vb + unat pb" using x assms(6) by (subst unat_plus_u32) auto
  then show ?thesis using x assms(5) by (auto simp: extent_def)
qed

lemma extent_bound: "extent pb n \<subseteq> {lo ..< hi} \<Longrightarrow> hi \<le> 2 ^ 29 \<Longrightarrow> pb \<noteq> 0 \<Longrightarrow> n \<noteq> 0 \<Longrightarrow> unat pb + unat n * 4096 \<le> 2 ^ 29"
proof -
  assume a: "extent pb n \<subseteq> {lo ..< hi}" "hi \<le> 2 ^ 29" "pb \<noteq> 0" "n \<noteq> 0"
  have "unat n \<noteq> 0" using a(4) by (simp add: unat_eq_0)
  then have "unat pb + unat n * 4096 - 1 \<in> extent pb n" using a(3) by (auto simp: extent_def)
  then have "unat pb + unat n * 4096 - 1 < hi" using a(1) by auto
  then show ?thesis using a(2) by linarith
qed

lemma paddr_phys:
  assumes sp: "space_ok lo hi A" "hi \<le> 2 ^ 29" and up: "as_set_up A" and t: "paddr_of A x = Some pa"
  shows "unat pa \<in> phys A"
proof -
  have e: "extent (as_pbase1 A) (as_npages1 A) \<subseteq> {lo ..< hi}" "extent (as_pbase2 A) (as_npages2 A) \<subseteq> {lo ..< hi}"
    "extent (as_stackpbase A) DUMBVM_STACKPAGES \<subseteq> {lo ..< hi}" using sp(1) by (auto simp: space_ok_def phys_def extents_def)
  have nz: "as_pbase1 A \<noteq> 0" "as_npages1 A \<noteq> 0" "as_pbase2 A \<noteq> 0" "as_npages2 A \<noteq> 0" "as_stackpbase A \<noteq> 0" using up by (auto simp: as_set_up_def)
  have b: "unat (as_pbase1 A) + unat (as_npages1 A) * 4096 \<le> 2 ^ 29" "unat (as_pbase2 A) + unat (as_npages2 A) * 4096 \<le> 2 ^ 29"
    "unat (as_stackpbase A) + unat DUMBVM_STACKPAGES * 4096 \<le> 2 ^ 29"
    using extent_bound [OF e(1) sp(2)] extent_bound [OF e(2) sp(2)] extent_bound [OF e(3) sp(2)] nz by (simp_all add: DUMBVM_STACKPAGES_def)
  have r: "page (as_vbase1 A)" "unat (as_vbase1 A) + unat (as_npages1 A) * 4096 \<le> 2 ^ 31"
    "page (as_vbase2 A)" "unat (as_vbase2 A) + unat (as_npages2 A) * 4096 \<le> 2 ^ 31" using sp(1) by (auto simp: space_ok_def region_ok_def)
  have sb: "page (USERSTACK - DUMBVM_STACKPAGES * PAGE_SIZE)" "unat (USERSTACK - DUMBVM_STACKPAGES * PAGE_SIZE) + unat DUMBVM_STACKPAGES * 4096 \<le> 2 ^ 31"
    "USERSTACK - DUMBVM_STACKPAGES * PAGE_SIZE + DUMBVM_STACKPAGES * PAGE_SIZE = USERSTACK"
    by (simp_all add: USERSTACK_def USERSPACETOP_def DUMBVM_STACKPAGES_def PAGE_SIZE_def page_iff)
  note i = in_extent [OF r(1,2) _ _ nz(1) b(1), of x] in_extent [OF r(3,4) _ _ nz(3) b(2), of x] in_extent [OF sb(1,2) _ _ nz(5) b(3), of x]
  show ?thesis
    using t i sb(3) by (auto simp: paddr_of_def Let_def phys_def extents_def split: if_splits)
qed

section \<open>Wrapping around\<close>

text \<open>
  The test of \<open>ram_stealmem\<close> is on a sum of 32 bits: a request for so many pages that it wraps around is granted,
  and the next request gets memory below the first free page, that of the kernel.
\<close>

lemma ram_stealmem_wraps:
  "\<exists>v'. ram_stealmem 0xfffd0 (v\<lparr>firstpaddr := 0x40000, lastpaddr := 0x100000\<rparr>) = (0x40000, v') \<and> firstpaddr v' = 0x10000"
  by (simp add: ram_stealmem_def PAGE_SIZE_def)

section \<open>Sequences of operations\<close>

text \<open>
  Any process may run at any time. Regions are defined before their memory is allocated and lie in the user half of the
  address space, requests for kernel pages do not wrap around, \<open>kmalloc\<close> returns blocks that are not in
  use, and the address space that is active is not destroyed.
\<close>

inductive vm_step :: "vm \<Rightarrow> vm \<Rightarrow> bool" where
  vm_create: "spaces v a = None \<Longrightarrow> vm_step v (as_create a v)"
| vm_destroy: "as_destroy a v = Some v' \<Longrightarrow> a \<noteq> proc_as v \<Longrightarrow> vm_step v v'"
| vm_define: "as_define_region a va sz v = Some (r, v') \<Longrightarrow> unat va + unat sz \<le> 2 ^ 31 \<Longrightarrow>
    spaces v a = Some A \<Longrightarrow> as_pbase1 A = 0 \<Longrightarrow> as_pbase2 A = 0 \<Longrightarrow> vm_step v v'"
| vm_prepare: "as_prepare_load a v = Some (r, v') \<Longrightarrow> vm_step v v'"
| vm_copy: "as_copy old new v = Some (r, v') \<Longrightarrow> spaces v new = None \<Longrightarrow> vm_step v v'"
| vm_kpages: "alloc_kpages n v = Some (r, v') \<Longrightarrow> unat n * 4096 \<le> 2 ^ 31 \<Longrightarrow> vm_step v v'"
| vm_handle: "vm_fault ft addr v = Some (r, v') \<Longrightarrow> vm_step v v'"
| vm_switch: "a = 0 \<or> spaces v a \<noteq> None \<Longrightarrow> vm_step v (as_activate (v\<lparr>proc_as := a\<rparr>))"
| vm_store: "vm_step v (v\<lparr>vmem := m\<rparr>)"

lemma vm_step_ok: "vm_step v v' \<Longrightarrow> vm_ok lo v \<Longrightarrow> vm_ok lo v'"
proof (induction rule: vm_step.induct)
  case (vm_kpages n v r v')
  obtain pa v1 where g: "getppages n v = (pa, v1)" by (metis surj_pair)
  have "v' = v1" using vm_kpages(1) g by (auto simp: alloc_kpages_def Let_def split: Option.bind_splits)
  then show ?case using getppages_ok(1) [OF vm_kpages(3,2) g] by simp
qed (auto intro: create_ok destroy_ok define_region_ok prepare_load_ok copy_ok fault_ok activate_ok)

section \<open>Properties\<close>

text \<open>
  C37. Isolation: over any sequence of operations on address spaces, page faults and switches, no page of an
  address space is translated to memory of another one, to memory below that which was free at the start, or to memory
  that has not been handed out yet; and each valid entry of the TLB is a translation by the active address space.
\<close>

theorem vm_isolation:
  assumes "vm_step\<^sup>*\<^sup>* v0 v" and "vm_ok lo v0"
  shows "(\<forall>a A x pa. spaces v a = Some A \<and> as_set_up A \<and> paddr_of A x = Some pa \<longrightarrow> lo \<le> unat pa \<and> unat pa < unat (firstpaddr v)) \<and>
    (\<forall>a b A B x y pa pb. spaces v a = Some A \<and> spaces v b = Some B \<and> a \<noteq> b \<and> as_set_up A \<and> as_set_up B \<and>
       paddr_of A x = Some pa \<and> paddr_of B y = Some pb \<longrightarrow> pa \<noteq> pb) \<and>
    (proc_as v \<noteq> 0 \<longrightarrow> (\<exists>A. spaces v (proc_as v) = Some A \<and> (\<forall>e \<in> set (tlb v). valid e \<longrightarrow> paddr_of A (fst e) = Some (snd e AND PAGE_FRAME))))"
proof -
  have ok: "vm_ok lo v" using assms by (induction rule: rtranclp_induct) (auto intro: vm_step_ok)
  have hi: "unat (firstpaddr v) \<le> 2 ^ 29" using ok by (simp add: vm_ok_def)
  have ph: "unat pa \<in> phys A \<and> lo \<le> unat pa \<and> unat pa < unat (firstpaddr v)"
    if "spaces v a = Some A" "as_set_up A" "paddr_of A x = Some pa" for a A x pa
  proof -
    have sp: "space_ok lo (unat (firstpaddr v)) A" by (rule vm_ok_space [OF ok that(1)])
    have "unat pa \<in> phys A" by (rule paddr_phys [OF sp hi that(2,3)])
    then show ?thesis using sp by (auto simp: space_ok_def)
  qed
  have "pa \<noteq> pb" if "spaces v a = Some A" "spaces v b = Some B" "a \<noteq> b" "as_set_up A" "as_set_up B" "paddr_of A x = Some pa" "paddr_of B y = Some pb"
    for a b A B x y pa pb
  proof -
    have "phys A \<inter> phys B = {}" using ok that(1-3) by (auto simp: vm_ok_def)
    then show ?thesis using ph [OF that(1,4,6)] ph [OF that(2,5,7)] by auto
  qed
  moreover have "proc_as v \<noteq> 0 \<longrightarrow> (\<exists>A. spaces v (proc_as v) = Some A \<and> (\<forall>e \<in> set (tlb v). valid e \<longrightarrow> paddr_of A (fst e) = Some (snd e AND PAGE_FRAME)))"
    using ok by (auto simp: vm_ok_def tlb_of_def)
  ultimately show ?thesis using ph by blast
qed

text \<open>In the witness, one address space is set up.\<close>

definition boot_vm :: vm where
  "boot_vm = \<lparr>firstpaddr = 0x40000, lastpaddr = 0x100000, tlb = replicate 64 (0x80000000, 0), vmem = (\<lambda>_. 0), spaces = Map.empty, proc_as = 0,
     c_spinlocks = 0, t_in_interrupt = False\<rparr>"

lemma boot_vm_ok: "vm_ok 0x40000 boot_vm"
proof -
  have "tlb_of no_space (tlb boot_vm)" by (simp add: boot_vm_def tlb_of_def valid_def)
  then have "\<exists>A. tlb_of A (tlb boot_vm)" by blast
  then show ?thesis by (simp add: vm_ok_def boot_vm_def page_iff)
qed

lemma boot_vm_steps:
  "\<exists>v A. vm_step\<^sup>*\<^sup>* boot_vm v \<and> spaces v 0x80001000 = Some A \<and> as_set_up A \<and> paddr_of A 0x7ffff000 = Some 0x53000 \<and> firstpaddr v = 0x54000"
proof -
  let ?a = "0x80001000 :: ptr"
  let ?A = "no_space\<lparr>as_vbase1 := 0x400000, as_npages1 := 1\<rparr>"
  let ?B = "?A\<lparr>as_vbase2 := 0x500000, as_npages2 := 1\<rparr>"
  let ?C = "?B\<lparr>as_pbase1 := 0x40000, as_pbase2 := 0x41000, as_stackpbase := 0x42000\<rparr>"
  let ?v1 = "as_create ?a boot_vm"
  note e = as_define_region_def dumbvm_can_sleep_def set_space_def as_create_def boot_vm_def PAGE_SIZE_def PAGE_FRAME_def no_space_def Let_def
  have v1: "vm_step boot_vm ?v1" by (rule vm_create) (simp add: boot_vm_def)
  have v2: "vm_step ?v1 (set_space ?a ?A ?v1)"
    by (rule vm_define [of ?a "0x400000" 10 _ "Inr ()" _ no_space]) (simp_all add: e)
  have v3: "vm_step (set_space ?a ?A ?v1) (set_space ?a ?B ?v1)"
    by (rule vm_define [of ?a "0x500000" 10 _ "Inr ()" _ ?A]) (simp_all add: e)
  have "\<exists>v. as_prepare_load ?a (set_space ?a ?B ?v1) = Some (Inr (), v) \<and> spaces v ?a = Some ?C \<and> firstpaddr v = 0x54000"
    by (simp add: as_prepare_load_def getppages_def ram_stealmem_def DUMBVM_STACKPAGES_def e)
  then obtain v where v: "as_prepare_load ?a (set_space ?a ?B ?v1) = Some (Inr (), v)" "spaces v ?a = Some ?C" "firstpaddr v = 0x54000" by blast
  have "vm_step\<^sup>*\<^sup>* boot_vm v"
    using v1 v2 v3 vm_prepare [OF v(1)] by (meson converse_rtranclp_into_rtranclp rtranclp.rtrancl_refl)
  moreover have "as_set_up ?C" by (simp add: as_set_up_def no_space_def PAGE_FRAME_def)
  moreover have "paddr_of ?C 0x7ffff000 = Some 0x53000"
    by (simp add: paddr_of_def no_space_def PAGE_SIZE_def USERSTACK_def USERSPACETOP_def DUMBVM_STACKPAGES_def)
  ultimately show ?thesis using v by blast
qed

theorem vm_isolation_witness:
  "\<exists>(v :: vm) A. spaces v 0x80001000 = Some A \<and> as_set_up A \<and> (\<exists>pa. paddr_of A 0x7ffff000 = Some pa \<and> 0x40000 \<le> unat pa \<and> unat pa < unat (firstpaddr v))"
proof -
  obtain v A where v: "vm_step\<^sup>*\<^sup>* boot_vm v" "spaces v 0x80001000 = Some A" "as_set_up A" "paddr_of A 0x7ffff000 = Some 0x53000"
    using boot_vm_steps by blast
  show ?thesis using v(2-4) conjunct1 [OF vm_isolation [OF v(1) boot_vm_ok], rule_format, of "0x80001000" A "0x7ffff000" "0x53000"] by blast
qed

end
