(* ===== verification/Disk.thy ===== *)
theory Disk
  imports Synch Uio "HOL-Library.Signed_Division"
begin

text \<open>
  \<open>kern/dev/lamebus/lhd.c\<close>, the driver of the disk, and the block transfers of \<open>kern/fs/sfs/sfs_io.c\<close>, which repeat
  a transfer after an I/O error. The disk itself is hardware: \<open>sectors\<close> are the contents of its sectors, and
  \<open>statuses\<close> the codes that its status register will show after the next operations, \<open>LHD_OK\<close> if the list has ended. An operation
  that is started ends with its interrupt.
\<close>

unbundle bit_operations_syntax

section \<open>The driver\<close>

definition LHD_WORKING :: u32 where "LHD_WORKING = 1"
definition LHD_OK :: u32 where "LHD_OK = 4"
definition LHD_INVSECT :: u32 where "LHD_INVSECT = 12"
definition LHD_MEDIA :: u32 where "LHD_MEDIA = 20"
definition LHD_ISWRITE :: u32 where "LHD_ISWRITE = 2"
definition LHD_STATEMASK :: u32 where "LHD_STATEMASK = 0x1d"
definition LHD_SECTSIZE :: u32 where "LHD_SECTSIZE = 512"

record lhd_softc =
  lh_buf :: ptr
  lh_result :: "errno option"
  lh_clear :: u32
  lh_done :: u32
  d_blocks :: u32
  sectors :: "u32 \<Rightarrow> u8 list"
  statuses :: "u32 list"

definition lhd_code_to_errno :: "u32 \<Rightarrow> errno option" where
  "lhd_code_to_errno code =
    (let st = code AND LHD_STATEMASK in
     if st = LHD_OK then None else if st = LHD_INVSECT then Some EINVAL else if st = LHD_MEDIA then Some EIO else Some EAGAIN)"

definition lhd_iodone :: "errno option \<Rightarrow> lhd_softc \<Rightarrow> lhd_softc option" where
  "lhd_iodone err lh = do { n \<leftarrow> sem_up (lh_done lh); Some (lh\<lparr>lh_result := err, lh_done := n\<rparr>) }"

text \<open>\<open>lhd_irq\<close>, with the value \<open>val\<close> of the status register.\<close>

definition lhd_irq :: "u32 \<Rightarrow> lhd_softc \<Rightarrow> lhd_softc option" where
  "lhd_irq val lh =
    (let st = val AND LHD_STATEMASK in
     if st = LHD_OK \<or> st = LHD_INVSECT \<or> st = LHD_MEDIA then lhd_iodone (lhd_code_to_errno val) lh else Some lh)"

text \<open>The hardware: bytes at an address, and one operation on a sector.\<close>

definition poke :: "mem \<Rightarrow> ptr \<Rightarrow> u8 list \<Rightarrow> mem" where
  "poke m p bs = (\<lambda>a. if a \<in> set (addrs p (length bs)) then bs ! unat (a - p) else m a)"

definition disk_op :: "uio_rw \<Rightarrow> u32 \<Rightarrow> lhd_softc \<Rightarrow> mem \<Rightarrow> u32 \<times> lhd_softc \<times> mem" where
  "disk_op rw sector lh m =
    (let st = (case statuses lh of [] \<Rightarrow> LHD_OK | x # _ \<Rightarrow> x); lh = lh\<lparr>statuses := tl (statuses lh)\<rparr> in
     if st AND LHD_STATEMASK = LHD_OK then
       case rw of UIO_READ \<Rightarrow> (st, lh, poke m (lh_buf lh) (sectors lh sector))
       | UIO_WRITE \<Rightarrow> (st, lh\<lparr>sectors := (sectors lh)(sector := map m (addrs (lh_buf lh) 512))\<rparr>, m)
     else (st, lh, m))"

text \<open>One round of the loop of \<open>lhd_io\<close>.\<close>

definition lhd_sector :: "curspace \<Rightarrow> u32 \<Rightarrow> uio \<Rightarrow> lhd_softc \<Rightarrow> mem \<Rightarrow> ((errno + unit) \<times> uio \<times> lhd_softc \<times> mem) option" where
  "lhd_sector c sector u lh m = do {
     n \<leftarrow> sem_down (lh_clear lh);
     let lh = lh\<lparr>lh_clear := n\<rparr>;
     (r, u, m) \<leftarrow> (if uio_rw u = UIO_WRITE then uiomove c (lh_buf lh) LHD_SECTSIZE u m else Some (Inr (), u, m));
     case r of Inl e \<Rightarrow> do { n \<leftarrow> sem_up (lh_clear lh); Some (Inl e, u, lh\<lparr>lh_clear := n\<rparr>, m) }
     | Inr _ \<Rightarrow> do {
         let (st, lh, m) = disk_op (uio_rw u) sector lh m;
         lh \<leftarrow> lhd_irq st lh;
         n \<leftarrow> sem_down (lh_done lh);
         let lh = lh\<lparr>lh_done := n\<rparr>;
         (r, u, m) \<leftarrow> (case lh_result lh of
             Some e \<Rightarrow> Some (Inl e, u, m)
           | None \<Rightarrow> if uio_rw u = UIO_READ then uiomove c (lh_buf lh) LHD_SECTSIZE u m else Some (Inr (), u, m));
         n \<leftarrow> sem_up (lh_clear lh);
         Some (r, u, lh\<lparr>lh_clear := n\<rparr>, m) } }"

fun lhd_loop :: "curspace \<Rightarrow> u32 \<Rightarrow> nat \<Rightarrow> nat \<Rightarrow> uio \<Rightarrow> lhd_softc \<Rightarrow> mem \<Rightarrow> ((errno + unit) \<times> uio \<times> lhd_softc \<times> mem) option" where
  "lhd_loop c sector i 0 u lh m = Some (Inr (), u, lh, m)"
| "lhd_loop c sector i (Suc k) u lh m = do {
     (r, u, lh, m) \<leftarrow> lhd_sector c (sector + of_nat i) u lh m;
     case r of Inl e \<Rightarrow> Some (Inl e, u, lh, m) | Inr _ \<Rightarrow> lhd_loop c sector (Suc i) k u lh m }"

definition lhd_io :: "curspace \<Rightarrow> uio \<Rightarrow> lhd_softc \<Rightarrow> mem \<Rightarrow> ((errno + unit) \<times> uio \<times> lhd_softc \<times> mem) option" where
  "lhd_io c u lh m =
    (let sector = of_int (sint (uio_offset u) sdiv 512);
         sectoff = (of_int (sint (uio_offset u) smod 512) :: u32);
         len = uio_resid u div LHD_SECTSIZE;
         lenoff = uio_resid u mod LHD_SECTSIZE in
     if sectoff \<noteq> 0 \<or> lenoff \<noteq> 0 then Some (Inl EINVAL, u, lh, m)
     else if sector + len > d_blocks lh then Some (Inl EINVAL, u, lh, m)
     else lhd_loop c sector 0 (unat len) u lh m)"

section \<open>Blocks of the file system\<close>

definition SFS_BLOCKSIZE :: u32 where "SFS_BLOCKSIZE = 512"

text \<open>\<open>sfs_rwblock\<close> from the label \<open>retry\<close> on; \<open>left\<close> is 10 less the number of tries so far.\<close>

fun rwblock_retry :: "curspace \<Rightarrow> nat \<Rightarrow> uio \<Rightarrow> lhd_softc \<Rightarrow> mem \<Rightarrow> ((errno + unit) \<times> uio \<times> lhd_softc \<times> mem) option" where
  "rwblock_retry c left u lh m = do {
     (r, u, lh, m) \<leftarrow> lhd_io c u lh m;
     if r = Inl EINVAL then None
     else if r = Inl EIO then (case left of 0 \<Rightarrow> Some (r, u, lh, m) | Suc k \<Rightarrow> rwblock_retry c k u lh m)
     else Some (r, u, lh, m) }"

declare rwblock_retry.simps [simp del]

text \<open>\<open>held\<close>: the thread holds the big lock of the VFS.\<close>

definition sfs_rwblock :: "bool \<Rightarrow> curspace \<Rightarrow> uio \<Rightarrow> lhd_softc \<Rightarrow> mem \<Rightarrow> ((errno + unit) \<times> uio \<times> lhd_softc \<times> mem) option" where
  "sfs_rwblock held c u lh m = do { kassert held; rwblock_retry c 10 u lh m }"

definition SFSUIO :: "ptr \<Rightarrow> u32 \<Rightarrow> uio_rw \<Rightarrow> uio" where
  "SFSUIO p block rw = uio_kinit p SFS_BLOCKSIZE (ucast block * 512) rw"

definition sfs_readblock :: "bool \<Rightarrow> curspace \<Rightarrow> u32 \<Rightarrow> ptr \<Rightarrow> u32 \<Rightarrow> lhd_softc \<Rightarrow> mem \<Rightarrow> ((errno + unit) \<times> lhd_softc \<times> mem) option" where
  "sfs_readblock held c block data len lh m = do {
     kassert (len = SFS_BLOCKSIZE);
     (r, u, lh, m) \<leftarrow> sfs_rwblock held c (SFSUIO data block UIO_READ) lh m;
     Some (r, lh, m) }"

definition sfs_writeblock :: "bool \<Rightarrow> curspace \<Rightarrow> u32 \<Rightarrow> ptr \<Rightarrow> u32 \<Rightarrow> lhd_softc \<Rightarrow> mem \<Rightarrow> ((errno + unit) \<times> lhd_softc \<times> mem) option" where
  "sfs_writeblock held c block data len lh m = do {
     kassert (len = SFS_BLOCKSIZE);
     (r, u, lh, m) \<leftarrow> sfs_rwblock held c (SFSUIO data block UIO_WRITE) lh m;
     Some (r, lh, m) }"

section \<open>One attempt\<close>

text \<open>The disk at rest, and a kernel buffer that is apart from that of the card.\<close>

definition disk_ok :: "lhd_softc \<Rightarrow> bool" where
  "disk_ok lh \<longleftrightarrow> lh_clear lh = 1 \<and> lh_done lh = 0 \<and> fits (lh_buf lh) 512 \<and> (\<forall>n. length (sectors lh n) = 512) \<and>
     (\<forall>st \<in> set (statuses lh). st AND LHD_STATEMASK = LHD_OK \<or> st AND LHD_STATEMASK = LHD_MEDIA)"

definition buf_ok :: "lhd_softc \<Rightarrow> ptr \<Rightarrow> bool" where
  "buf_ok lh p \<longleftrightarrow> fits p 512 \<and> set (addrs p 512) \<inter> set (addrs (lh_buf lh) 512) = {}"

definition fails :: "lhd_softc \<Rightarrow> bool" where
  "fails lh \<longleftrightarrow> (case statuses lh of [] \<Rightarrow> False | st # _ \<Rightarrow> st AND LHD_STATEMASK = LHD_MEDIA)"

definition popped :: "lhd_softc \<Rightarrow> lhd_softc" where
  "popped lh = lh\<lparr>statuses := tl (statuses lh), lh_result := (if fails lh then Some EIO else None)\<rparr>"

lemma popped_ok: "disk_ok lh \<Longrightarrow> disk_ok (popped lh)"
  by (cases "statuses lh") (auto simp: disk_ok_def popped_def)

lemma sfsuio:
  "uio_iov (SFSUIO p block rw) = [\<lparr>iov_base = p, iov_len = 512\<rparr>]" "uio_resid (SFSUIO p block rw) = 512" "uio_rw (SFSUIO p block rw) = rw"
  "uio_segflg (SFSUIO p block rw) = UIO_SYSSPACE" "uio_space (SFSUIO p block rw) = 0" "uio_offset (SFSUIO p block rw) = ucast block * 512"
  by (simp_all add: SFSUIO_def uio_kinit_def SFS_BLOCKSIZE_def)

lemma sfsuio_cells: "cells (uio_iov (SFSUIO p block rw)) = addrs p 512"
  by (simp add: sfsuio)

lemma sfsuio_move:
  assumes "paged (cur_rights c)" and "buf_ok lh p" and "disk_ok lh"
  obtains u' where "uiomove c (lh_buf lh) LHD_SECTSIZE (SFSUIO p block rw) m = Some (Inr (), u', xfer rw m (addrs p 512) (addrs (lh_buf lh) 512))"
    "advanced (SFSUIO p block rw) 512 u'"
proof -
  let ?u = "SFSUIO p block rw"
  have n: "unat LHD_SECTSIZE = 512" by (simp add: LHD_SECTSIZE_def)
  have ok: "uio_ok ?u" using assms(2) distinct_addrs [of p 512] unfolding uio_ok_def sfsuio_cells by (simp add: sfsuio buf_ok_def)
  have k: "kbuf ?u (lh_buf lh) (unat LHD_SECTSIZE)"
    using assms(2,3) unfolding kbuf_def sfsuio_cells n by (simp add: sfsuio buf_ok_def disk_ok_def)
  have sp: "uio_space ?u = (if uio_segflg ?u = UIO_SYSSPACE then 0 else cur_as c)" by (simp add: sfsuio)
  note m = uiomove_moves [OF assms(1) ok k sp, of m]
  have "allowed c ?u 512" by (simp add: allowed_def cell_ok_def sfsuio)
  moreover have "512 = min (unat LHD_SECTSIZE) (length (cells (uio_iov ?u)))" unfolding sfsuio_cells n by simp
  ultimately obtain u' where "uiomove c (lh_buf lh) LHD_SECTSIZE ?u m =
      Some (Inr (), u', xfer (uio_rw ?u) m (take 512 (cells (uio_iov ?u))) (addrs (lh_buf lh) 512))" "advanced ?u 512 u'"
    using moves_allowed [OF m] by metis
  then show ?thesis using that unfolding sfsuio_cells by (simp add: sfsuio)
qed

lemma unat_offset: "unat (ucast block * 512 :: u64) = unat (block :: u32) * 512"
proof -
  have lt: "unat block < 2 ^ 32" by simp
  then have "take_bit 64 (unat block) = unat block" by (intro take_bit_nat_eq_self less_trans [OF lt]) simp
  then have "unat (ucast block :: u64) = unat block" by (simp add: unsigned_ucast_eq)
  moreover have "unat block * 512 < 2 ^ 64" using lt by (simp del: unat_u32_lt)
  ultimately show ?thesis by (subst unat_mult_lem [THEN iffD1]) simp_all
qed

lemma sint_of_nat_u64: "k < 2 ^ 63 \<Longrightarrow> sint (of_nat k :: u64) = int k"
  by (simp add: signed_of_nat signed_take_bit_int_eq_self)

lemma sector_of:
  assumes "unat off = k * 512" and "k < 2 ^ 33"
  shows "of_int (sint (off :: u64) sdiv 512) = (of_nat k :: u32)" "of_int (sint off smod 512) = (0 :: u32)"
proof -
  have "off = of_nat (k * 512)" using arg_cong [OF assms(1), of "of_nat :: nat \<Rightarrow> u64"] by simp
  then have "sint off = int (k * 512)" using assms(2) sint_of_nat_u64 [of "k * 512"] by simp
  then show "of_int (sint off sdiv 512) = (of_nat k :: u32)" "of_int (sint off smod 512) = (0 :: u32)"
    by (cases "k = 0"; simp add: signed_divide_int_def signed_modulo_int_def sgn_mult)+
qed

text \<open>A transfer of one block, and one of nothing after the block.\<close>

lemma lhd_io_block:
  assumes "block < d_blocks lh"
  shows "lhd_io c (SFSUIO p block rw) lh m = lhd_loop c block 0 1 (SFSUIO p block rw) lh m"
proof -
  have off: "unat (uio_offset (SFSUIO p block rw)) = unat block * 512" by (simp add: sfsuio unat_offset)
  have k: "unat block < 2 ^ 33" by (rule less_trans [of _ "2 ^ 32"]) simp_all
  have "\<not> block + 1 > d_blocks lh" using assms by (metis inc_le leD)
  then show ?thesis using sector_of [OF off k] by (simp add: lhd_io_def Let_def sfsuio LHD_SECTSIZE_def)
qed

lemma lhd_io_consumed:
  assumes "block < d_blocks lh" and "advanced (SFSUIO p block rw) 512 u"
  shows "lhd_io c u lh m = Some (Inr (), u, lh, m)"
proof -
  have lt: "unat block < 2 ^ 32" by simp
  have "uio_offset u = ucast block * 512 + 512" using assms(2) by (simp add: advanced_def sfsuio)
  moreover have "unat (ucast block * 512 + 512 :: u64) = unat (ucast block * 512 :: u64) + unat (512 :: u64)"
    using lt by (intro unat_plus_simple [THEN iffD1]) (simp add: unat_offset no_olen_add_nat del: unat_u32_lt)
  ultimately have off: "unat (uio_offset u) = (unat block + 1) * 512" by (simp add: unat_offset)
  have res: "uio_resid u = 0" using advanced_resid [OF assms(2)] unfolding sfsuio_cells by (simp add: unat_eq_0)
  have k: "unat block + 1 < 2 ^ 33" using lt by (simp del: unat_u32_lt)
  have "\<not> block + 1 > d_blocks lh" using assms(1) by (metis inc_le leD)
  then show ?thesis using sector_of [OF off k] res by (simp add: lhd_io_def Let_def LHD_SECTSIZE_def add.commute)
qed

lemma disk_op_popped:
  assumes "disk_ok lh"
  shows "disk_op rw sector lh m =
    (let st = (case statuses lh of [] \<Rightarrow> LHD_OK | x # _ \<Rightarrow> x); lh' = lh\<lparr>statuses := tl (statuses lh)\<rparr> in
     if fails lh then (st, lh', m)
     else case rw of UIO_READ \<Rightarrow> (st, lh', poke m (lh_buf lh) (sectors lh sector))
       | UIO_WRITE \<Rightarrow> (st, lh'\<lparr>sectors := (sectors lh)(sector := map m (addrs (lh_buf lh) 512))\<rparr>, m))"
    and "lhd_code_to_errno (case statuses lh of [] \<Rightarrow> LHD_OK | x # _ \<Rightarrow> x) = (if fails lh then Some EIO else None)"
    and "(case statuses lh of [] \<Rightarrow> LHD_OK | x # _ \<Rightarrow> x) AND LHD_STATEMASK \<in> {LHD_OK, LHD_MEDIA}"
  using assms
  by (auto simp: disk_op_def disk_ok_def fails_def Let_def lhd_code_to_errno_def LHD_OK_def LHD_MEDIA_def LHD_INVSECT_def LHD_STATEMASK_def
      split: list.splits uio_rw.splits)

text \<open>The interrupt and the wait for it.\<close>

lemma irq_done:
  assumes "st AND LHD_STATEMASK \<in> {LHD_OK, LHD_MEDIA}" and "lh_done lh = 0"
  shows "lhd_irq st lh = Some (lh\<lparr>lh_result := lhd_code_to_errno st, lh_done := 1\<rparr>)"
  using assms by (auto simp: lhd_irq_def lhd_iodone_def sem_up_def Let_def)

lemma read_sector:
  assumes d: "disk_ok lh" and b: "buf_ok lh p" and pg: "paged (cur_rights c)"
  shows "\<exists>u'. lhd_sector c sector (SFSUIO p block UIO_READ) lh m =
    (if fails lh then Some (Inl EIO, SFSUIO p block UIO_READ, popped lh, m)
     else Some (Inr (), u', popped lh, transfer (poke m (lh_buf lh) (sectors lh sector)) (addrs p 512) (addrs (lh_buf lh) 512)))"
proof -
  let ?u = "SFSUIO p block UIO_READ"
  obtain u' where mv: "uiomove c (lh_buf lh) LHD_SECTSIZE ?u (poke m (lh_buf lh) (sectors lh sector)) =
      Some (Inr (), u', xfer UIO_READ (poke m (lh_buf lh) (sectors lh sector)) (addrs p 512) (addrs (lh_buf lh) 512))"
    using sfsuio_move [OF pg b d] by metis
  have z: "lh_clear lh = 1" "lh_done lh = 0" using d by (simp_all add: disk_ok_def)
  note irq = irq_done [OF disk_op_popped(3) [OF d]]
  have op: "disk_op UIO_READ sector (lh\<lparr>lh_clear := 0\<rparr>) m = (let (st, l, m) = disk_op UIO_READ sector lh m in (st, l\<lparr>lh_clear := 0\<rparr>, m))"
    by (simp add: disk_op_def Let_def)
  show ?thesis
  proof (cases "fails lh")
    case True
    then show ?thesis
      using z irq disk_op_popped(1,2) [OF d] op
      by (simp add: lhd_sector_def sem_down_def sem_up_def sfsuio Let_def popped_def)
  next
    case False
    then show ?thesis
      using z irq disk_op_popped(1,2) [OF d] op mv
      by (simp add: lhd_sector_def sem_down_def sem_up_def sfsuio Let_def popped_def xfer_def)
  qed
qed

lemma write_sector:
  assumes d: "disk_ok lh" and b: "buf_ok lh p" and pg: "paged (cur_rights c)"
  shows "\<exists>u'. advanced (SFSUIO p block UIO_WRITE) 512 u' \<and> lhd_sector c sector (SFSUIO p block UIO_WRITE) lh m =
    Some (if fails lh then Inl EIO else Inr (), u',
      if fails lh then popped lh else (popped lh)\<lparr>sectors := (sectors lh)(sector := map m (addrs p 512))\<rparr>,
      transfer m (addrs (lh_buf lh) 512) (addrs p 512))"
proof -
  let ?u = "SFSUIO p block UIO_WRITE"
  let ?m = "transfer m (addrs (lh_buf lh) 512) (addrs p 512)"
  obtain u' where mv: "uiomove c (lh_buf lh) LHD_SECTSIZE ?u m = Some (Inr (), u', ?m)" and adv: "advanced ?u 512 u'"
    using sfsuio_move [OF pg b d] by (metis uio_rw.simps(4) xfer_def)
  have rw: "uio_rw u' = UIO_WRITE" using adv by (simp add: advanced_def sfsuio)
  have z: "lh_clear lh = 1" "lh_done lh = 0" "fits (lh_buf lh) 512" using d by (simp_all add: disk_ok_def)
  have cp: "map ?m (addrs (lh_buf lh) 512) = map m (addrs p 512)"
  proof (rule nth_equalityI)
    fix i assume "i < length (map ?m (addrs (lh_buf lh) 512))"
    then show "map ?m (addrs (lh_buf lh) 512) ! i = map m (addrs p 512) ! i"
      using transfer_nth [OF distinct_addrs [OF z(3)], of i "addrs p 512" m] by simp
  qed simp
  note irq = irq_done [OF disk_op_popped(3) [OF d]]
  have op: "disk_op UIO_WRITE sector (lh\<lparr>lh_clear := 0\<rparr>) ?m = (let (st, l, m) = disk_op UIO_WRITE sector lh ?m in (st, l\<lparr>lh_clear := 0\<rparr>, m))"
    by (simp add: disk_op_def Let_def)
  have "lhd_sector c sector ?u lh m = Some (if fails lh then Inl EIO else Inr (), u',
      if fails lh then popped lh else (popped lh)\<lparr>sectors := (sectors lh)(sector := map m (addrs p 512))\<rparr>, ?m)"
  proof (cases "fails lh")
    case True
    then show ?thesis
      using z irq disk_op_popped(1,2) [OF d] op mv rw
      by (simp add: lhd_sector_def sem_down_def sem_up_def sfsuio Let_def popped_def)
  next
    case False
    then show ?thesis
      using z irq disk_op_popped(1,2) [OF d] op mv rw cp
      by (simp add: lhd_sector_def sem_down_def sem_up_def sfsuio Let_def popped_def)
  qed
  then show ?thesis using adv by blast
qed

section \<open>Retrying\<close>

text \<open>The number of attempts that fail before the next one that does not.\<close>

definition media_errors :: "lhd_softc \<Rightarrow> nat" where
  "media_errors lh = length (takeWhile (\<lambda>st. st AND LHD_STATEMASK = LHD_MEDIA) (statuses lh))"

lemma media_errors_popped: "fails lh \<Longrightarrow> media_errors lh = Suc (media_errors (popped lh))"
  by (cases "statuses lh") (auto simp: media_errors_def fails_def popped_def)

lemma media_errors_0: "media_errors lh = 0 \<longleftrightarrow> \<not> fails lh"
  by (cases "statuses lh") (auto simp: media_errors_def fails_def)

lemma popped_simps [simp]: "sectors (popped lh) = sectors lh" "d_blocks (popped lh) = d_blocks lh" "lh_buf (popped lh) = lh_buf lh"
  by (simp_all add: popped_def)

lemma buf_ok_popped: "buf_ok (popped lh) p = buf_ok lh p"
  by (simp add: buf_ok_def)

lemma read_retry:
  assumes "paged (cur_rights c)"
  shows "disk_ok lh \<Longrightarrow> buf_ok lh p \<Longrightarrow> block < d_blocks lh \<Longrightarrow>
    \<exists>u' lh'. sectors lh' = sectors lh \<and> rwblock_retry c k (SFSUIO p block UIO_READ) lh m =
      (if media_errors lh \<le> k
       then Some (Inr (), u', lh', transfer (poke m (lh_buf lh) (sectors lh block)) (addrs p 512) (addrs (lh_buf lh) 512))
       else Some (Inl EIO, u', lh', m))"
proof (induction k arbitrary: lh)
  case 0
  then show ?case
    using read_sector [OF 0(1,2) assms, of block block m] lhd_io_block [OF 0(3), of c p UIO_READ m] media_errors_0 [of lh]
    by (auto simp: rwblock_retry.simps [of c 0] split: if_splits)
next
  case (Suc k)
  note step = rwblock_retry.simps [of c "Suc k" "SFSUIO p block UIO_READ" lh m]
  obtain u' where r: "lhd_sector c block (SFSUIO p block UIO_READ) lh m =
    (if fails lh then Some (Inl EIO, SFSUIO p block UIO_READ, popped lh, m)
     else Some (Inr (), u', popped lh, transfer (poke m (lh_buf lh) (sectors lh block)) (addrs p 512) (addrs (lh_buf lh) 512)))"
    using read_sector [OF Suc.prems(1,2) assms] by blast
  note io = lhd_io_block [OF Suc.prems(3), of c p UIO_READ m]
  show ?case
  proof (cases "fails lh")
    case True
    then have "rwblock_retry c (Suc k) (SFSUIO p block UIO_READ) lh m = rwblock_retry c k (SFSUIO p block UIO_READ) (popped lh) m"
      using step r io by simp
    then show ?thesis
      using Suc.IH [of "popped lh"] popped_ok [OF Suc.prems(1)] Suc.prems(2,3) media_errors_popped [OF True]
      by (cases "media_errors (popped lh) \<le> k") (auto simp: buf_ok_popped)
  next
    case False
    then have "media_errors lh = 0" by (simp add: media_errors_0)
    then show ?thesis using step r io False by (intro exI [of _ u'] exI [of _ "popped lh"]) simp
  qed
qed

text \<open>After a failed write, the second attempt finds the \<open>uio\<close> consumed and has nothing to do.\<close>

lemma write_retry:
  assumes pg: "paged (cur_rights c)" and d: "disk_ok lh" and b: "buf_ok lh p" and n: "block < d_blocks lh"
  shows "\<exists>u' lh' m'. rwblock_retry c (Suc k) (SFSUIO p block UIO_WRITE) lh m = Some (Inr (), u', lh', m') \<and>
    sectors lh' = (if fails lh then sectors lh else (sectors lh)(block := map m (addrs p 512)))"
proof -
  let ?u = "SFSUIO p block UIO_WRITE"
  obtain u' where adv: "advanced ?u 512 u'" and r: "lhd_sector c block ?u lh m =
    Some (if fails lh then Inl EIO else Inr (), u',
      if fails lh then popped lh else (popped lh)\<lparr>sectors := (sectors lh)(block := map m (addrs p 512))\<rparr>,
      transfer m (addrs (lh_buf lh) 512) (addrs p 512))"
    using write_sector [OF d b pg] by blast
  note io = lhd_io_block [OF n, of c p UIO_WRITE m] and step = rwblock_retry.simps [of c "Suc k" ?u lh m]
  show ?thesis
  proof (cases "fails lh")
    case True
    have n': "block < d_blocks (popped lh)" using n by simp
    have "rwblock_retry c (Suc k) ?u lh m = rwblock_retry c k u' (popped lh) (transfer m (addrs (lh_buf lh) 512) (addrs p 512))"
      using step r io True by simp
    then show ?thesis
      using True lhd_io_consumed [OF n' adv, of c] rwblock_retry.simps [of c k u' "popped lh"] by simp
  next
    case False
    then show ?thesis using step r io by simp
  qed
qed

text \<open>The buffer after a read.\<close>

lemma read_back:
  assumes "disk_ok lh" and "buf_ok lh p"
  shows "map (transfer (poke m (lh_buf lh) (sectors lh block)) (addrs p 512) (addrs (lh_buf lh) 512)) (addrs p 512) = sectors lh block"
proof -
  let ?t = "transfer (poke m (lh_buf lh) (sectors lh block)) (addrs p 512) (addrs (lh_buf lh) 512)"
  have f: "fits p 512" "fits (lh_buf lh) 512" "length (sectors lh block) = 512" using assms by (simp_all add: buf_ok_def disk_ok_def)
  show ?thesis
  proof (rule nth_equalityI)
    fix i assume "i < length (map ?t (addrs p 512))"
    then have i: "i < 512" by simp
    have "poke m (lh_buf lh) (sectors lh block) (lh_buf lh + of_nat i) = sectors lh block ! i"
      using i f(3) unat_of_nat_u32 [of i] by (auto simp: poke_def set_addrs)
    then show "map ?t (addrs p 512) ! i = sectors lh block ! i"
      using i transfer_nth [OF distinct_addrs [OF f(1)], of i "addrs (lh_buf lh) 512"] by simp
  qed (simp add: f)
qed

section \<open>Properties\<close>

text \<open>
  C38. A block of the file system on a disk that may report media errors. \<open>sfs_readblock\<close> repeats the transfer up to ten
  times: if one of the first eleven attempts succeeds, the block is in the buffer, and otherwise it returns \<open>EIO\<close> and the
  buffer is as it was. \<open>sfs_writeblock\<close> always returns success. It has written the block if the first attempt
  succeeds; if that fails, the disk is unchanged all the same, because the failed attempt has used up
  the \<open>uio\<close> and the next one transfers nothing.
\<close>

theorem sfs_block_io:
  assumes "disk_ok lh" and "buf_ok lh p" and "block < d_blocks lh" and "paged (cur_rights c)"
  shows "(\<exists>lh' m'. sfs_readblock True c block p 512 lh m = Some (if media_errors lh \<le> 10 then Inr () else Inl EIO, lh', m') \<and>
      sectors lh' = sectors lh \<and> map m' (addrs p 512) = (if media_errors lh \<le> 10 then sectors lh block else map m (addrs p 512))) \<and>
    (\<exists>lh' m'. sfs_writeblock True c block p 512 lh m = Some (Inr (), lh', m') \<and>
      sectors lh' = (if media_errors lh = 0 then (sectors lh)(block := map m (addrs p 512)) else sectors lh))"
proof -
  have "map (transfer (poke m (lh_buf lh) (sectors lh block)) (addrs p 512) (addrs (lh_buf lh) 512)) (addrs p 512) = sectors lh block"
    by (rule read_back [OF assms(1,2)])
  then have "\<exists>lh' m'. sfs_readblock True c block p 512 lh m = Some (if media_errors lh \<le> 10 then Inr () else Inl EIO, lh', m') \<and>
      sectors lh' = sectors lh \<and> map m' (addrs p 512) = (if media_errors lh \<le> 10 then sectors lh block else map m (addrs p 512))"
    using read_retry [OF assms(4,1-3), of 10 m] by (auto simp: sfs_readblock_def sfs_rwblock_def SFS_BLOCKSIZE_def)
  moreover have "\<exists>lh' m'. sfs_writeblock True c block p 512 lh m = Some (Inr (), lh', m') \<and>
      sectors lh' = (if media_errors lh = 0 then (sectors lh)(block := map m (addrs p 512)) else sectors lh)"
    using write_retry [OF assms(4,1-3), of 9 m] by (auto simp: sfs_writeblock_def sfs_rwblock_def SFS_BLOCKSIZE_def media_errors_0)
  ultimately show ?thesis by blast
qed

text \<open>In the witness, the first attempt fails: the read succeeds, and the write is lost.\<close>

definition bad_disk :: lhd_softc where
  "bad_disk = \<lparr>lh_buf = 0x81000000, lh_result = None, lh_clear = 1, lh_done = 0, d_blocks = 100, sectors = (\<lambda>_. replicate 512 7), statuses = [20]\<rparr>"

theorem sfs_block_io_witness:
  "(\<exists>lh' m'. sfs_readblock True \<lparr>cur_as = 0, cur_rights = \<lparr>readable = (\<lambda>_. True), writable = (\<lambda>_. True)\<rparr>\<rparr> 5 0x80010000 512 bad_disk (\<lambda>_. 0) = Some (Inr (), lh', m') \<and>
      map m' (addrs 0x80010000 512) = replicate 512 7) \<and>
   (\<exists>lh' m'. sfs_writeblock True \<lparr>cur_as = 0, cur_rights = \<lparr>readable = (\<lambda>_. True), writable = (\<lambda>_. True)\<rparr>\<rparr> 5 0x80010000 512 bad_disk (\<lambda>_. 0) = Some (Inr (), lh', m') \<and>
      sectors lh' 5 = replicate 512 7)"
proof -
  have lo: "unat a < 0x80010200" if "a \<in> set (addrs 0x80010000 512)" for a
    using that unat_ptr [of "0x80010000"] by (auto simp: set_addrs)
  have hi: "0x81000000 \<le> unat b" if "b \<in> set (addrs 0x81000000 512)" for b
    using that unat_ptr [of "0x81000000"] by (auto simp: set_addrs)
  have "a \<noteq> b" if "a \<in> set (addrs 0x80010000 512)" "b \<in> set (addrs 0x81000000 512)" for a b
    using lo [OF that(1)] hi [OF that(2)] by auto
  then have "buf_ok bad_disk 0x80010000" by (auto simp: buf_ok_def bad_disk_def)
  moreover have "disk_ok bad_disk" by (simp add: disk_ok_def bad_disk_def LHD_OK_def LHD_MEDIA_def LHD_STATEMASK_def)
  moreover have "media_errors bad_disk = 1" by (simp add: media_errors_def bad_disk_def LHD_MEDIA_def LHD_STATEMASK_def)
  ultimately show ?thesis
    using sfs_block_io [of bad_disk "0x80010000" 5 "\<lparr>cur_as = 0, cur_rights = \<lparr>readable = (\<lambda>_. True), writable = (\<lambda>_. True)\<rparr>\<rparr>" "\<lambda>_. 0"]
    by (fastforce simp: paged_def bad_disk_def)
qed

end
