(* ===== verification/Sfs.thy ===== *)
theory Sfs
  imports Disk Bitmap
begin

text \<open>
  \<open>kern/fs/sfs/sfs_balloc.c\<close> and \<open>kern/fs/sfs/sfs_bmap.c\<close>: which blocks of the disk belong to a file. The blocks in use are
  those of the bitmap; a file has 15 direct blocks and an indirect block of 128 numbers. The static buffers stand in
  kernel memory, the inode and the in-memory file system are records. The big lock of the VFS is held.
\<close>

section \<open>Definitions\<close>

definition SFS_NDIRECT :: u32 where "SFS_NDIRECT = 15"
definition SFS_NINDIRECT :: u32 where "SFS_NINDIRECT = 1"
definition SFS_DBPERIDB :: u32 where "SFS_DBPERIDB = 128"

record sfs_vnode =
  sv_ino :: u32
  sv_dirty :: bool
  sfi_size :: u32
  sfi_direct :: "u32 list"
  sfi_indirect :: u32

text \<open>\<open>zeros\<close>, \<open>idbuf\<close> and \<open>idbuf2\<close> are the addresses of the static arrays of \<open>sfs_clearblock\<close>, \<open>sfs_bmap\<close> and \<open>sfs_itrunc\<close>.\<close>

record sfs_fs =
  sb_nblocks :: u32
  sfs_freemap :: bitmap
  sfs_freemapdirty :: bool
  sfs_device :: lhd_softc
  smem :: mem
  space :: curspace
  zeros :: ptr
  idbuf :: ptr
  idbuf2 :: ptr

definition readblock :: "u32 \<Rightarrow> ptr \<Rightarrow> sfs_fs \<Rightarrow> ((errno + unit) \<times> sfs_fs) option" where
  "readblock block data fs = do {
     (r, lh, m) \<leftarrow> sfs_readblock True (space fs) block data SFS_BLOCKSIZE (sfs_device fs) (smem fs);
     Some (r, fs\<lparr>sfs_device := lh, smem := m\<rparr>) }"

definition writeblock :: "u32 \<Rightarrow> ptr \<Rightarrow> sfs_fs \<Rightarrow> ((errno + unit) \<times> sfs_fs) option" where
  "writeblock block data fs = do {
     (r, lh, m) \<leftarrow> sfs_writeblock True (space fs) block data SFS_BLOCKSIZE (sfs_device fs) (smem fs);
     Some (r, fs\<lparr>sfs_device := lh, smem := m\<rparr>) }"

definition sfs_clearblock :: "u32 \<Rightarrow> sfs_fs \<Rightarrow> ((errno + unit) \<times> sfs_fs) option" where
  "sfs_clearblock block fs = writeblock block (zeros fs) fs"

definition sfs_balloc :: "sfs_fs \<Rightarrow> ((errno + u32) \<times> sfs_fs) option" where
  "sfs_balloc fs = do {
     (r, b) \<leftarrow> bitmap_alloc (sfs_freemap fs);
     case r of Inl e \<Rightarrow> Some (Inl e, fs\<lparr>sfs_freemap := b\<rparr>)
     | Inr diskblock \<Rightarrow> do {
         let fs = fs\<lparr>sfs_freemap := b, sfs_freemapdirty := True\<rparr>;
         kassert (\<not> diskblock \<ge> sb_nblocks fs);
         (r, fs) \<leftarrow> sfs_clearblock diskblock fs;
         case r of Inl e \<Rightarrow> do { b \<leftarrow> bitmap_unmark diskblock (sfs_freemap fs); Some (Inl e, fs\<lparr>sfs_freemap := b\<rparr>) }
         | Inr _ \<Rightarrow> Some (Inr diskblock, fs) } }"

definition sfs_bfree :: "u32 \<Rightarrow> sfs_fs \<Rightarrow> sfs_fs option" where
  "sfs_bfree diskblock fs = do {
     b \<leftarrow> bitmap_unmark diskblock (sfs_freemap fs);
     Some (fs\<lparr>sfs_freemap := b, sfs_freemapdirty := True\<rparr>) }"

definition sfs_bused :: "u32 \<Rightarrow> sfs_fs \<Rightarrow> bool option" where
  "sfs_bused diskblock fs = do { kassert (\<not> diskblock \<ge> sb_nblocks fs); bitmap_isset (sfs_freemap fs) diskblock }"

text \<open>The end of both branches of \<open>sfs_bmap\<close>: a block that is not in use is a panic.\<close>

definition hand_back :: "u32 \<Rightarrow> sfs_vnode \<Rightarrow> sfs_fs \<Rightarrow> ((errno + u32) \<times> sfs_vnode \<times> sfs_fs) option" where
  "hand_back block sv fs = do {
     ok \<leftarrow> (if block \<noteq> 0 then sfs_bused block fs else Some True);
     kassert ok;
     Some (Inr block, sv, fs) }"

definition bmap_direct :: "u32 \<Rightarrow> bool \<Rightarrow> sfs_vnode \<Rightarrow> sfs_fs \<Rightarrow> ((errno + u32) \<times> sfs_vnode \<times> sfs_fs) option" where
  "bmap_direct fileblock doalloc sv fs = do {
     block \<leftarrow> get_at (sfi_direct sv) (unat fileblock);
     if block = 0 \<and> doalloc then do {
       (r, fs) \<leftarrow> sfs_balloc fs;
       case r of Inl e \<Rightarrow> Some (Inl e, sv, fs)
       | Inr block \<Rightarrow> do {
           d \<leftarrow> put_at (unat fileblock) block (sfi_direct sv);
           hand_back block (sv\<lparr>sfi_direct := d, sv_dirty := True\<rparr>) fs } }
     else hand_back block sv fs }"

text \<open>From the point on where the indirect block \<open>idblock\<close> is in the buffer.\<close>

definition bmap_slot :: "u32 \<Rightarrow> u32 \<Rightarrow> bool \<Rightarrow> sfs_vnode \<Rightarrow> sfs_fs \<Rightarrow> ((errno + u32) \<times> sfs_vnode \<times> sfs_fs) option" where
  "bmap_slot idblock idoff doalloc sv fs =
    (let block = load_long (smem fs) (idbuf fs + 4 * idoff) in
     if block = 0 \<and> doalloc then do {
       (r, fs) \<leftarrow> sfs_balloc fs;
       case r of Inl e \<Rightarrow> Some (Inl e, sv, fs)
       | Inr block \<Rightarrow> do {
           let fs = fs\<lparr>smem := store_long (smem fs) (idbuf fs + 4 * idoff) block\<rparr>;
           (r, fs) \<leftarrow> writeblock idblock (idbuf fs) fs;
           case r of Inl e \<Rightarrow> Some (Inl e, sv, fs) | Inr _ \<Rightarrow> hand_back block sv fs } }
     else hand_back block sv fs)"

definition sfs_bmap :: "u32 \<Rightarrow> bool \<Rightarrow> sfs_vnode \<Rightarrow> sfs_fs \<Rightarrow> ((errno + u32) \<times> sfs_vnode \<times> sfs_fs) option" where
  "sfs_bmap fileblock doalloc sv fs =
    (if fileblock < SFS_NDIRECT then bmap_direct fileblock doalloc sv fs
     else
       let fileblock = fileblock - SFS_NDIRECT; idnum = fileblock div SFS_DBPERIDB; idoff = fileblock mod SFS_DBPERIDB;
           idblock = sfi_indirect sv in
       if idnum \<ge> SFS_NINDIRECT then Some (Inl EFBIG, sv, fs)
       else if idblock = 0 \<and> \<not> doalloc then Some (Inr 0, sv, fs)
       else if idblock = 0 then do {
         (r, fs) \<leftarrow> sfs_balloc fs;
         case r of Inl e \<Rightarrow> Some (Inl e, sv, fs)
         | Inr idblock \<Rightarrow>
             bmap_slot idblock idoff doalloc (sv\<lparr>sfi_indirect := idblock, sv_dirty := True\<rparr>)
               (fs\<lparr>smem := bzero (idbuf fs) 512 (smem fs)\<rparr>) }
       else do {
         (r, fs) \<leftarrow> readblock idblock (idbuf fs) fs;
         case r of Inl e \<Rightarrow> Some (Inl e, sv, fs) | Inr _ \<Rightarrow> bmap_slot idblock idoff doalloc sv fs })"

text \<open>\<open>sfs_itrunc\<close>: the two loops, with \<open>blocklen\<close> the new length in blocks.\<close>

fun trunc_direct :: "u32 \<Rightarrow> nat list \<Rightarrow> sfs_vnode \<Rightarrow> sfs_fs \<Rightarrow> (sfs_vnode \<times> sfs_fs) option" where
  "trunc_direct blocklen [] sv fs = Some (sv, fs)"
| "trunc_direct blocklen (i # is) sv fs = do {
     block \<leftarrow> get_at (sfi_direct sv) i;
     (sv, fs) \<leftarrow> (if of_nat i \<ge> blocklen \<and> block \<noteq> 0 then do {
         fs \<leftarrow> sfs_bfree block fs;
         d \<leftarrow> put_at i 0 (sfi_direct sv);
         Some (sv\<lparr>sfi_direct := d, sv_dirty := True\<rparr>, fs) }
       else Some (sv, fs));
     trunc_direct blocklen is sv fs }"

text \<open>The results are \<open>hasnonzero\<close> and \<open>iddirty\<close>.\<close>

fun trunc_indirect :: "u32 \<Rightarrow> nat list \<Rightarrow> bool \<Rightarrow> bool \<Rightarrow> sfs_fs \<Rightarrow> (bool \<times> bool \<times> sfs_fs) option" where
  "trunc_indirect blocklen [] hasnonzero iddirty fs = Some (hasnonzero, iddirty, fs)"
| "trunc_indirect blocklen (j # js) hasnonzero iddirty fs = do {
     let block = load_long (smem fs) (idbuf2 fs + 4 * of_nat j);
     (iddirty, fs) \<leftarrow> (if blocklen < SFS_NDIRECT + of_nat j \<and> block \<noteq> 0 then do {
         fs \<leftarrow> sfs_bfree block fs;
         Some (True, fs\<lparr>smem := store_long (smem fs) (idbuf2 fs + 4 * of_nat j) 0\<rparr>) }
       else Some (iddirty, fs));
     trunc_indirect blocklen js (hasnonzero \<or> load_long (smem fs) (idbuf2 fs + 4 * of_nat j) \<noteq> 0) iddirty fs }"

definition trunc_length :: "u64 \<Rightarrow> u32" where
  "trunc_length len = of_int ((sint len + 512 - 1) sdiv 512)"

text \<open>The blocks of the indirect block, which is in the buffer; then the test before it.\<close>

definition trunc_rest :: "u32 \<Rightarrow> sfs_vnode \<Rightarrow> sfs_fs \<Rightarrow> ((errno + unit) \<times> sfs_vnode \<times> sfs_fs) option" where
  "trunc_rest blocklen sv fs = do {
     let idblock = sfi_indirect sv;
     (hasnonzero, iddirty, fs) \<leftarrow> trunc_indirect blocklen [0..<128] False False fs;
     if \<not> hasnonzero then do {
       fs \<leftarrow> sfs_bfree idblock fs;
       Some (Inr (), sv\<lparr>sfi_indirect := 0, sv_dirty := True\<rparr>, fs) }
     else if iddirty then do { (r, fs) \<leftarrow> writeblock idblock (idbuf2 fs) fs; Some (r, sv, fs) }
     else Some (Inr (), sv, fs) }"

definition trunc_tail :: "u32 \<Rightarrow> sfs_vnode \<Rightarrow> sfs_fs \<Rightarrow> ((errno + unit) \<times> sfs_vnode \<times> sfs_fs) option" where
  "trunc_tail blocklen sv fs =
    (let idblock = sfi_indirect sv; highblock = SFS_NDIRECT + SFS_DBPERIDB - 1 in
     if blocklen < highblock \<and> idblock \<noteq> 0 then do {
       (r, fs) \<leftarrow> readblock idblock (idbuf2 fs) fs;
       case r of Inl e \<Rightarrow> Some (Inl e, sv, fs) | Inr _ \<Rightarrow> trunc_rest blocklen sv fs }
     else Some (Inr (), sv, fs))"

definition sfs_itrunc :: "u64 \<Rightarrow> sfs_vnode \<Rightarrow> sfs_fs \<Rightarrow> ((errno + unit) \<times> sfs_vnode \<times> sfs_fs) option" where
  "sfs_itrunc len sv fs = do {
     let blocklen = trunc_length len;
     (sv, fs) \<leftarrow> trunc_direct blocklen [0..<15] sv fs;
     (r, sv, fs) \<leftarrow> trunc_tail blocklen sv fs;
     case r of Inl e \<Rightarrow> Some (Inl e, sv, fs)
     | Inr _ \<Rightarrow> Some (Inr (), sv\<lparr>sfi_size := ucast len, sv_dirty := True\<rparr>, fs) }"

section \<open>Transfers without errors\<close>

lemma quiet_popped: "statuses lh = [] \<Longrightarrow> popped lh = lh\<lparr>lh_result := None\<rparr>"
  by (simp add: popped_def fails_def)

lemma quiet_read:
  assumes "disk_ok lh" and "statuses lh = []" and "buf_ok lh p" and "block < d_blocks lh" and "paged (cur_rights c)"
  shows "\<exists>m'. sfs_readblock True c block p SFS_BLOCKSIZE lh m = Some (Inr (), lh\<lparr>lh_result := None\<rparr>, m') \<and>
    map m' (addrs p 512) = sectors lh block \<and>
    (\<forall>a. a \<notin> set (addrs p 512) \<and> a \<notin> set (addrs (lh_buf lh) 512) \<longrightarrow> m' a = m a)"
proof -
  let ?t = "transfer (poke m (lh_buf lh) (sectors lh block)) (addrs p 512) (addrs (lh_buf lh) 512)"
  have len: "length (sectors lh block) = 512" using assms(1) by (simp add: disk_ok_def)
  have nf: "\<not> fails lh" using assms(2) by (simp add: fails_def)
  obtain u' where "lhd_sector c block (SFSUIO p block UIO_READ) lh m = Some (Inr (), u', lh\<lparr>lh_result := None\<rparr>, ?t)"
    using read_sector [OF assms(1,3,5), of block block m] nf quiet_popped [OF assms(2)] by auto
  then have "sfs_readblock True c block p SFS_BLOCKSIZE lh m = Some (Inr (), lh\<lparr>lh_result := None\<rparr>, ?t)"
    using lhd_io_block [OF assms(4), of c p UIO_READ m]
    by (simp add: sfs_readblock_def sfs_rwblock_def rwblock_retry.simps [of c 10 "SFSUIO p block UIO_READ"])
  moreover have "?t a = m a" if "a \<notin> set (addrs p 512)" "a \<notin> set (addrs (lh_buf lh) 512)" for a
    using that len by (simp add: transfer_other poke_def)
  ultimately show ?thesis using read_back [OF assms(1,3), of m block] by blast
qed

lemma quiet_write:
  assumes "disk_ok lh" and "statuses lh = []" and "buf_ok lh p" and "block < d_blocks lh" and "paged (cur_rights c)"
  shows "\<exists>m'. sfs_writeblock True c block p SFS_BLOCKSIZE lh m =
      Some (Inr (), lh\<lparr>lh_result := None, sectors := (sectors lh)(block := map m (addrs p 512))\<rparr>, m') \<and>
    (\<forall>a. a \<notin> set (addrs (lh_buf lh) 512) \<longrightarrow> m' a = m a)"
proof -
  let ?t = "transfer m (addrs (lh_buf lh) 512) (addrs p 512)"
  have nf: "\<not> fails lh" using assms(2) by (simp add: fails_def)
  obtain u' where "lhd_sector c block (SFSUIO p block UIO_WRITE) lh m =
      Some (Inr (), u', lh\<lparr>lh_result := None, sectors := (sectors lh)(block := map m (addrs p 512))\<rparr>, ?t)"
    using write_sector [OF assms(1,3,5), of block block m] nf quiet_popped [OF assms(2)] by auto
  then have "sfs_writeblock True c block p SFS_BLOCKSIZE lh m =
      Some (Inr (), lh\<lparr>lh_result := None, sectors := (sectors lh)(block := map m (addrs p 512))\<rparr>, ?t)"
    using lhd_io_block [OF assms(4), of c p UIO_WRITE m]
    by (simp add: sfs_writeblock_def sfs_rwblock_def rwblock_retry.simps [of c 10 "SFSUIO p block UIO_WRITE"])
  then show ?thesis by (simp add: transfer_other)
qed

section \<open>The numbers in a block\<close>

definition sector_long :: "u8 list \<Rightarrow> nat \<Rightarrow> u32" where
  "sector_long bs j = join4 (bs ! (4 * j)) (bs ! (4 * j + 1)) (bs ! (4 * j + 2)) (bs ! (4 * j + 3))"

lemma sector_long_map: "j < 128 \<Longrightarrow> sector_long (map m (addrs p 512)) j = load_long m (p + 4 * of_nat j)"
  by (simp add: sector_long_def load_long_def ac_simps)

lemma sector_long_zero: "j < 128 \<Longrightarrow> sector_long (replicate 512 0) j = 0"
  by (simp add: sector_long_def join4_def)

lemma slot_distance: "j < 128 \<Longrightarrow> l < 128 \<Longrightarrow> j \<noteq> l \<Longrightarrow> 4 \<le> unat ((p + 4 * of_nat j) - (p + 4 * of_nat l) :: u32)"
proof -
  assume a: "j < 128" "l < 128" "j \<noteq> l"
  have e: "(p + 4 * of_nat j) - (p + 4 * of_nat l) = (of_nat (4 * j) - of_nat (4 * l) :: u32)" by simp
  have "unat (of_nat (4 * j) - of_nat (4 * l) :: u32) = (if l < j then 4 * (j - l) else 2 ^ 32 - 4 * (l - j))"
    using a unat_of_nat_u32 [of "4 * j"] unat_of_nat_u32 [of "4 * l"]
    by (auto simp: unat_sub_if' simp del: of_nat_mult)
  then show ?thesis unfolding e using a by (auto split: if_splits)
qed

lemma sector_long_store:
  assumes "j < 128" and "l < 128"
  shows "sector_long (map (store_long m (p + 4 * of_nat j) b) (addrs p 512)) l = (if l = j then b else sector_long (map m (addrs p 512)) l)"
  using assms slot_distance [of j l p] slot_distance [of l j p]
  by (auto simp: sector_long_map load_store_same load_store_other)

text \<open>A word of one buffer is outside the other.\<close>

lemma store_elsewhere:
  assumes "j < 128" and "a \<notin> set (addrs p 512)"
  shows "store_long m (p + 4 * of_nat j) b a = m a"
proof -
  have "a \<noteq> p + of_nat (4 * j + k)" if k: "k < 4" for k
  proof -
    have "4 * j + k < 512" using assms(1) k by simp
    then have "p + of_nat (4 * j + k) \<in> set (addrs p 512)" unfolding set_addrs by blast
    then show ?thesis using assms(2) by blast
  qed
  from this [of 0] this [of 1] this [of 2] this [of 3] show ?thesis by (simp add: store_long_def ac_simps)
qed

section \<open>Who owns which block\<close>

text \<open>
  The entries of a file: 0 to 142 are its blocks, 143 is its indirect block. \<open>S\<close> are the sectors of the disk. An entry of 0 is a hole.
\<close>

definition slot :: "(u32 \<Rightarrow> u8 list) \<Rightarrow> sfs_vnode \<Rightarrow> nat \<Rightarrow> u32" where
  "slot S sv i =
    (if i < 15 then sfi_direct sv ! i
     else if i = 143 then sfi_indirect sv
     else if i < 143 \<and> sfi_indirect sv \<noteq> 0 then sector_long (S (sfi_indirect sv)) (i - 15)
     else 0)"

definition slots :: "(u32 \<Rightarrow> u8 list) \<Rightarrow> sfs_vnode list \<Rightarrow> nat \<times> nat \<Rightarrow> u32" where
  "slots S svs x = (if fst x < length svs then slot S (svs ! fst x) (snd x) else 0)"

text \<open>Every entry is a block of the volume that the free map has in use, and no block has two entries.\<close>

definition claims_ok :: "u32 \<Rightarrow> (nat \<Rightarrow> bool) \<Rightarrow> (nat \<times> nat \<Rightarrow> u32) \<Rightarrow> bool" where
  "claims_ok n used f \<longleftrightarrow> (\<forall>x. f x \<noteq> 0 \<longrightarrow> f x < n \<and> used (unat (f x))) \<and> (\<forall>x y. f x \<noteq> 0 \<and> f x = f y \<longrightarrow> x = y)"

lemma claims_fresh:
  assumes "claims_ok n used f" and "b < n" and "\<not> used (unat b)"
  shows "claims_ok n (used(unat b := True)) (f(x := b))" "\<And>y. f y \<noteq> 0 \<Longrightarrow> f y \<noteq> b"
  using assms by (auto simp: claims_ok_def)

lemma claims_more: "claims_ok n used f \<Longrightarrow> claims_ok n (used(i := True)) f"
  by (auto simp: claims_ok_def)

lemma claims_less:
  assumes "claims_ok n used f" and "f x \<noteq> 0"
  shows "claims_ok n (used(unat (f x) := False)) (f(x := 0))"
proof -
  have "f y = 0" if "y \<noteq> x" "unat (f y) = unat (f x)" for y
    using assms that unfolding claims_ok_def by (metis word_unat_eq_iff)
  then show ?thesis using assms by (auto simp: claims_ok_def)
qed

text \<open>The volume and its buffers; the freed bits and the superblock are as \<open>mksfs\<close> leaves them.\<close>

definition volume_ok :: "sfs_fs \<Rightarrow> bool" where
  "volume_ok fs \<longleftrightarrow>
     bm_inv (sfs_freemap fs) \<and> sb_nblocks fs \<le> nbits (sfs_freemap fs) \<and> sb_nblocks fs \<le> d_blocks (sfs_device fs) \<and>
     bm_used (sfs_freemap fs) 0 \<and> (\<forall>i. unat (sb_nblocks fs) \<le> i \<and> i < unat (nbits (sfs_freemap fs)) \<longrightarrow> bm_used (sfs_freemap fs) i) \<and>
     disk_ok (sfs_device fs) \<and> statuses (sfs_device fs) = [] \<and> paged (cur_rights (space fs)) \<and>
     buf_ok (sfs_device fs) (zeros fs) \<and> buf_ok (sfs_device fs) (idbuf fs) \<and> buf_ok (sfs_device fs) (idbuf2 fs) \<and>
     set (addrs (zeros fs) 512) \<inter> (set (addrs (idbuf fs) 512) \<union> set (addrs (idbuf2 fs) 512)) = {} \<and>
     map (smem fs) (addrs (zeros fs) 512) = replicate 512 0"

abbreviation "used fs \<equiv> bm_used (sfs_freemap fs)"
abbreviation "disk fs \<equiv> sectors (sfs_device fs)"

definition sfs_ok :: "sfs_fs \<Rightarrow> sfs_vnode list \<Rightarrow> bool" where
  "sfs_ok fs svs \<longleftrightarrow> volume_ok fs \<and> (\<forall>sv \<in> set svs. length (sfi_direct sv) = 15) \<and>
     claims_ok (sb_nblocks fs) (used fs) (slots (disk fs) svs)"

text \<open>What no operation changes.\<close>

definition same_volume :: "sfs_fs \<Rightarrow> sfs_fs \<Rightarrow> bool" where
  "same_volume fs fs' \<longleftrightarrow> sb_nblocks fs' = sb_nblocks fs \<and> zeros fs' = zeros fs \<and> idbuf fs' = idbuf fs \<and> idbuf2 fs' = idbuf2 fs \<and>
     space fs' = space fs \<and> lh_buf (sfs_device fs') = lh_buf (sfs_device fs)"

lemma same_volume_trans: "same_volume a b \<Longrightarrow> same_volume b c \<Longrightarrow> same_volume a c"
  by (simp add: same_volume_def)

lemma buf_ok_update [simp]: "buf_ok (lh\<lparr>lh_result := x\<rparr>) p = buf_ok lh p" "buf_ok (lh\<lparr>lh_result := x, sectors := S\<rparr>) p = buf_ok lh p"
  by (simp_all add: buf_ok_def)

lemma buf_apart: "buf_ok lh p \<Longrightarrow> a \<in> set (addrs p 512) \<Longrightarrow> a \<notin> set (addrs (lh_buf lh) 512)"
  by (auto simp: buf_ok_def)

lemma readblock_ok:
  assumes v: "volume_ok fs" and "block < sb_nblocks fs" and p: "p = idbuf fs \<or> p = idbuf2 fs"
  shows "\<exists>fs'. readblock block p fs = Some (Inr (), fs') \<and> volume_ok fs' \<and> same_volume fs fs' \<and> sfs_freemap fs' = sfs_freemap fs \<and>
    disk fs' = disk fs \<and> map (smem fs') (addrs p 512) = disk fs block"
proof -
  have b: "block < d_blocks (sfs_device fs)" and o: "buf_ok (sfs_device fs) p"
    using assms by (auto simp: volume_ok_def)
  obtain m' where m: "sfs_readblock True (space fs) block p SFS_BLOCKSIZE (sfs_device fs) (smem fs) =
      Some (Inr (), (sfs_device fs)\<lparr>lh_result := None\<rparr>, m')" "map m' (addrs p 512) = disk fs block"
      "\<And>a. a \<notin> set (addrs p 512) \<Longrightarrow> a \<notin> set (addrs (lh_buf (sfs_device fs)) 512) \<Longrightarrow> m' a = smem fs a"
    using quiet_read [OF _ _ o b, of "space fs" "smem fs"] v by (auto simp: volume_ok_def)
  have "m' a = smem fs a" if a: "a \<in> set (addrs (zeros fs) 512)" for a
    using v p a buf_apart [of "sfs_device fs" "zeros fs" a] by (intro m(3)) (auto simp: volume_ok_def)
  then have "map m' (addrs (zeros fs) 512) = map (smem fs) (addrs (zeros fs) 512)" by simp
  also have "\<dots> = replicate 512 0" using v by (simp add: volume_ok_def)
  finally have "volume_ok (fs\<lparr>sfs_device := (sfs_device fs)\<lparr>lh_result := None\<rparr>, smem := m'\<rparr>)"
    using v by (simp add: volume_ok_def disk_ok_def)
  then show ?thesis using m by (simp add: readblock_def same_volume_def)
qed

lemma writeblock_ok:
  assumes v: "volume_ok fs" and "block < sb_nblocks fs" and p: "p = zeros fs \<or> p = idbuf fs \<or> p = idbuf2 fs"
  shows "\<exists>fs'. writeblock block p fs = Some (Inr (), fs') \<and> volume_ok fs' \<and> same_volume fs fs' \<and> sfs_freemap fs' = sfs_freemap fs \<and>
    disk fs' = (disk fs)(block := map (smem fs) (addrs p 512)) \<and>
    (\<forall>a. a \<notin> set (addrs (lh_buf (sfs_device fs)) 512) \<longrightarrow> smem fs' a = smem fs a)"
proof -
  have b: "block < d_blocks (sfs_device fs)" and o: "buf_ok (sfs_device fs) p"
    using assms by (auto simp: volume_ok_def)
  let ?lh = "(sfs_device fs)\<lparr>lh_result := None, sectors := (disk fs)(block := map (smem fs) (addrs p 512))\<rparr>"
  obtain m' where m: "sfs_writeblock True (space fs) block p SFS_BLOCKSIZE (sfs_device fs) (smem fs) = Some (Inr (), ?lh, m')"
      "\<And>a. a \<notin> set (addrs (lh_buf (sfs_device fs)) 512) \<Longrightarrow> m' a = smem fs a"
    using quiet_write [OF _ _ o b, of "space fs" "smem fs"] v by (auto simp: volume_ok_def)
  have "m' a = smem fs a" if a: "a \<in> set (addrs (zeros fs) 512)" for a
    using v a buf_apart [of "sfs_device fs" "zeros fs" a] by (intro m(2)) (auto simp: volume_ok_def)
  then have "map m' (addrs (zeros fs) 512) = map (smem fs) (addrs (zeros fs) 512)" by simp
  also have "\<dots> = replicate 512 0" using v by (simp add: volume_ok_def)
  finally have "volume_ok (fs\<lparr>sfs_device := ?lh, smem := m'\<rparr>)" using v by (simp add: volume_ok_def disk_ok_def)
  then show ?thesis using m by (simp add: writeblock_def same_volume_def)
qed

text \<open>A new block is zero and was nobody's.\<close>

lemma balloc_ok:
  assumes v: "volume_ok fs"
  shows "sfs_balloc fs = Some (Inl ENOSPC, fs) \<and> (\<forall>i < unat (sb_nblocks fs). used fs i) \<or>
    (\<exists>b fs'. sfs_balloc fs = Some (Inr b, fs') \<and> b < sb_nblocks fs \<and> b \<noteq> 0 \<and> \<not> used fs (unat b) \<and> volume_ok fs' \<and> same_volume fs fs' \<and>
      used fs' = (used fs)(unat b := True) \<and> disk fs' = (disk fs)(b := replicate 512 0) \<and>
      (\<forall>a. a \<notin> set (addrs (lh_buf (sfs_device fs)) 512) \<longrightarrow> smem fs' a = smem fs a))"
proof -
  have inv: "bm_inv (sfs_freemap fs)" and nb: "sb_nblocks fs \<le> nbits (sfs_freemap fs)" using v by (simp_all add: volume_ok_def)
  from bitmap_alloc_ok [OF inv] show ?thesis
  proof (elim disjE exE conjE)
    assume "bitmap_alloc (sfs_freemap fs) = Some (Inl ENOSPC, sfs_freemap fs)" "\<forall>i < unat (nbits (sfs_freemap fs)). used fs i"
    then show ?thesis using nb by (simp add: sfs_balloc_def word_le_nat_alt)
  next
    fix b m assume a: "bitmap_alloc (sfs_freemap fs) = Some (Inr b, m)" "b < nbits (sfs_freemap fs)" "\<not> used fs (unat b)"
      "nbits m = nbits (sfs_freemap fs)" "bm_inv m" "bm_used m = (used fs)(unat b := True)"
    have b: "b < sb_nblocks fs" "b \<noteq> 0" using v a(2,3) by (force simp: volume_ok_def word_less_nat_alt not_less)+
    let ?fs = "fs\<lparr>sfs_freemap := m, sfs_freemapdirty := True\<rparr>"
    have "volume_ok ?fs" using v a(4-6) by (auto simp: volume_ok_def)
    then obtain fs' where "writeblock b (zeros fs) ?fs = Some (Inr (), fs')" "volume_ok fs'" "same_volume ?fs fs'" "sfs_freemap fs' = m"
        "disk fs' = (disk fs)(b := map (smem fs) (addrs (zeros fs) 512))"
        "\<forall>a. a \<notin> set (addrs (lh_buf (sfs_device fs)) 512) \<longrightarrow> smem fs' a = smem fs a"
      using writeblock_ok [of ?fs b "zeros fs"] b by auto
    then show ?thesis using a b v
      by (intro disjI2 exI [of _ b] exI [of _ fs']) (simp add: sfs_balloc_def sfs_clearblock_def same_volume_def volume_ok_def not_le)
  qed
qed

text \<open>How the entries follow the disk and the inodes.\<close>

lemma slots_fresh: "(\<And>k. slots S svs (k, 143) \<noteq> 0 \<Longrightarrow> slots S svs (k, 143) \<noteq> b) \<Longrightarrow> slots (S(b := y)) svs = slots S svs"
proof
  fix x assume a: "\<And>k. slots S svs (k, 143) \<noteq> 0 \<Longrightarrow> slots S svs (k, 143) \<noteq> b"
  show "slots (S(b := y)) svs x = slots S svs x" using a [of "fst x"] by (cases "fst x < length svs") (auto simp: slots_def slot_def)
qed

lemma slots_direct:
  assumes "k < length svs" and "i < 15" and "length (sfi_direct (svs ! k)) = 15" and "sfi_direct sv = (sfi_direct (svs ! k))[i := b]"
    and "sfi_indirect sv = sfi_indirect (svs ! k)"
  shows "slots S (svs[k := sv]) = (slots S svs)((k, i) := b)"
proof
  fix x show "slots S (svs[k := sv]) x = ((slots S svs)((k, i) := b)) x"
    using assms by (cases x; cases "fst x = k") (auto simp: slots_def slot_def nth_list_update)
qed

lemma slots_indirect:
  assumes "k < length svs" and "sfi_indirect (svs ! k) = 0" and "b \<noteq> 0" and "\<And>j. j < 128 \<Longrightarrow> sector_long (S b) j = 0"
  shows "slots S (svs[k := (svs ! k)\<lparr>sfi_indirect := b, sv_dirty := d\<rparr>]) = (slots S svs)((k, 143) := b)"
proof
  fix x show "slots S (svs[k := (svs ! k)\<lparr>sfi_indirect := b, sv_dirty := d\<rparr>]) x = ((slots S svs)((k, 143) := b)) x"
    using assms by (cases x; cases "fst x = k") (auto simp: slots_def slot_def)
qed

lemma slots_entry:
  assumes "k < length svs" and "sfi_indirect (svs ! k) \<noteq> 0" and "j < 128"
    and "\<And>l. l \<noteq> k \<Longrightarrow> slots S svs (l, 143) \<noteq> sfi_indirect (svs ! k)"
    and "\<And>l. l < 128 \<Longrightarrow> sector_long bs l = (if l = j then b else sector_long (S (sfi_indirect (svs ! k))) l)"
  shows "slots (S(sfi_indirect (svs ! k) := bs)) svs = (slots S svs)((k, 15 + j) := b)"
proof
  fix x show "slots (S(sfi_indirect (svs ! k) := bs)) svs x = ((slots S svs)((k, 15 + j) := b)) x"
    using assms(1-3,5) assms(4) [of "fst x"] by (cases x; cases "fst x = k") (auto simp: slots_def slot_def)
qed

section \<open>Mapping a block\<close>

text \<open>Entry \<open>i\<close> of the file \<open>k\<close> and its indirect block may be filled in; every other entry and the contents of every block stay.\<close>

definition grows :: "nat \<Rightarrow> nat \<Rightarrow> sfs_fs \<Rightarrow> sfs_vnode list \<Rightarrow> sfs_fs \<Rightarrow> sfs_vnode list \<Rightarrow> bool" where
  "grows k i fs svs fs' svs' \<longleftrightarrow> (let f = slots (disk fs) svs; f' = slots (disk fs') svs' in
     (\<forall>x. f x \<noteq> 0 \<longrightarrow> f' x = f x \<and> (snd x \<noteq> 143 \<longrightarrow> disk fs' (f x) = disk fs (f x))) \<and>
     (\<forall>x. x \<noteq> (k, i) \<and> x \<noteq> (k, 143) \<longrightarrow> f' x = f x))"

lemma grows_refl: "disk fs' = disk fs \<Longrightarrow> grows k i fs svs fs' svs"
  by (simp add: grows_def)

lemma grows_trans: "grows k i a va b vb \<Longrightarrow> grows k i b vb c vc \<Longrightarrow> grows k i a va c vc"
  unfolding grows_def Let_def by (intro conjI allI impI) metis+

lemma alloc_step:
  assumes ok: "sfs_ok fs svs" and v: "volume_ok fs'" "sb_nblocks fs' = sb_nblocks fs" "used fs' = (used fs)(unat b := True)"
    and b: "b < sb_nblocks fs" "\<not> used fs (unat b)" and l: "\<forall>sv \<in> set svs'. length (sfi_direct sv) = 15"
    and x: "slots (disk fs) svs x = 0" "x = (k, i) \<or> x = (k, 143)" and s: "slots (disk fs') svs' = (slots (disk fs) svs)(x := b)"
    and d: "\<And>c. c \<noteq> b \<Longrightarrow> c \<noteq> slots (disk fs) svs (k, 143) \<Longrightarrow> disk fs' c = disk fs c"
  shows "sfs_ok fs' svs'" "grows k i fs svs fs' svs'"
proof -
  let ?f = "slots (disk fs) svs"
  have c: "claims_ok (sb_nblocks fs) (used fs) ?f" using ok by (simp add: sfs_ok_def)
  show "sfs_ok fs' svs'" using claims_fresh(1) [OF c b, of x] v l s by (simp add: sfs_ok_def)
  have "disk fs' (?f y) = disk fs (?f y)" if y: "?f y \<noteq> 0" "snd y \<noteq> 143" for y
  proof (rule d)
    show "?f y \<noteq> b" using claims_fresh(2) [OF c b y(1)] .
    show "?f y \<noteq> ?f (k, 143)" using c y unfolding claims_ok_def by (metis snd_conv)
  qed
  then show "grows k i fs svs fs' svs'" using x unfolding grows_def Let_def s by auto
qed

lemma hand_back_ok:
  assumes "sfs_ok fs svs" and "b = slots (disk fs) svs x"
  shows "hand_back b sv fs = Some (Inr b, sv, fs)"
proof (cases "b = 0")
  case False
  then have b: "b < sb_nblocks fs" "used fs (unat b)" using assms unfolding sfs_ok_def claims_ok_def by metis+
  moreover have "bm_inv (sfs_freemap fs)" "b < nbits (sfs_freemap fs)" using assms(1) b(1) by (auto simp: sfs_ok_def volume_ok_def)
  ultimately show ?thesis by (simp add: hand_back_def sfs_bused_def bitmap_isset_ok not_le)
qed (simp add: hand_back_def)

text \<open>The result of \<open>sfs_bmap\<close> for the block \<open>i\<close> of the file \<open>k\<close>.\<close>

definition mapped :: "nat \<Rightarrow> nat \<Rightarrow> bool \<Rightarrow> sfs_fs \<Rightarrow> sfs_vnode list \<Rightarrow> errno + u32 \<Rightarrow> sfs_fs \<Rightarrow> sfs_vnode list \<Rightarrow> bool" where
  "mapped k i doalloc fs svs r fs' svs' \<longleftrightarrow> (let f = slots (disk fs) svs; f' = slots (disk fs') svs' in
     case r of Inl e \<Rightarrow> e = ENOSPC \<and> doalloc \<and> f (k, i) = 0 \<and> f' (k, i) = 0
     | Inr b \<Rightarrow> b = f' (k, i) \<and> (doalloc \<longrightarrow> b \<noteq> 0) \<and> (\<not> doalloc \<longrightarrow> f' = f) \<and> (f (k, i) = 0 \<and> b \<noteq> 0 \<longrightarrow> disk fs' b = replicate 512 0))"

lemma bmap_direct_ok:
  assumes ok: "sfs_ok fs svs" and k: "k < length svs" and i: "unat i < 15"
  shows "\<exists>r sv fs'. bmap_direct i doalloc (svs ! k) fs = Some (r, sv, fs') \<and> sfs_ok fs' (svs[k := sv]) \<and>
    grows k (unat i) fs svs fs' (svs[k := sv]) \<and> mapped k (unat i) doalloc fs svs r fs' (svs[k := sv])"
proof -
  let ?sv = "svs ! k" and ?f = "slots (disk fs) svs"
  have l: "length (sfi_direct ?sv) = 15" and v: "volume_ok fs" and ls: "\<forall>sv \<in> set svs. length (sfi_direct sv) = 15"
    and c: "claims_ok (sb_nblocks fs) (used fs) ?f" using ok k by (simp_all add: sfs_ok_def)
  have g: "get_at (sfi_direct ?sv) (unat i) = Some (?f (k, unat i))" using l i k by (simp add: get_at_def slots_def slot_def)
  show ?thesis
  proof (cases "?f (k, unat i) = 0 \<and> doalloc")
    case False
    then have "bmap_direct i doalloc ?sv fs = Some (Inr (?f (k, unat i)), ?sv, fs)"
      using g hand_back_ok [OF ok refl] by (auto simp: bmap_direct_def)
    then show ?thesis using ok False k by (auto simp: grows_refl mapped_def)
  next
    case True
    from balloc_ok [OF v] show ?thesis
    proof (elim disjE exE conjE)
      assume "sfs_balloc fs = Some (Inl ENOSPC, fs)"
      then have "bmap_direct i doalloc ?sv fs = Some (Inl ENOSPC, ?sv, fs)" using g True by (simp add: bmap_direct_def)
      then show ?thesis using ok True k by (auto simp: grows_refl mapped_def)
    next
      fix b fs' assume a: "sfs_balloc fs = Some (Inr b, fs')" "b < sb_nblocks fs" "b \<noteq> 0" "\<not> used fs (unat b)" "volume_ok fs'"
        "same_volume fs fs'" "used fs' = (used fs)(unat b := True)" "disk fs' = (disk fs)(b := replicate 512 0)"
      let ?sv' = "?sv\<lparr>sfi_direct := (sfi_direct ?sv)[unat i := b], sv_dirty := True\<rparr>"
      have "slots (disk fs') svs = ?f" unfolding a(8) by (rule slots_fresh) (use claims_fresh(2) [OF c a(2,4)] in blast)
      then have s: "slots (disk fs') (svs[k := ?sv']) = ?f((k, unat i) := b)" using slots_direct [OF k i l, of ?sv' b] by simp
      have n: "sb_nblocks fs' = sb_nblocks fs" using a(6) by (simp add: same_volume_def)
      have "\<forall>sv \<in> set (svs[k := ?sv']). length (sfi_direct sv) = 15" using ls l k by (auto dest!: set_update_subset_insert [THEN subsetD])
      note st = alloc_step [OF ok a(5) n a(7,2,4) this _ disjI1 [OF refl] s]
      have st: "sfs_ok fs' (svs[k := ?sv'])" "grows k (unat i) fs svs fs' (svs[k := ?sv'])" using st True a(8) by simp_all
      moreover have "bmap_direct i doalloc ?sv fs = Some (Inr b, ?sv', fs')"
        using g True a(1) l i hand_back_ok [OF st(1), of b "(k, unat i)"] s by (simp add: bmap_direct_def put_at_def)
      ultimately show ?thesis using a(3,8) s True by (auto simp: mapped_def)
    qed
  qed
qed

text \<open>A new block is entered in the buffer, and the buffer is written to the indirect block.\<close>

lemma slot_written:
  assumes ok: "sfs_ok fs svs" and k: "k < length svs" and j: "j < 128" and id: "sfi_indirect (svs ! k) \<noteq> 0"
    and buf: "map (smem fs) (addrs (idbuf fs) 512) = disk fs (sfi_indirect (svs ! k))"
    and a: "b < sb_nblocks fs" "b \<noteq> 0" "\<not> used fs (unat b)" "volume_ok fs1" "same_volume fs fs1" "used fs1 = (used fs)(unat b := True)"
      "disk fs1 = (disk fs)(b := replicate 512 0)" "\<forall>a. a \<notin> set (addrs (lh_buf (sfs_device fs)) 512) \<longrightarrow> smem fs1 a = smem fs a"
  shows "\<exists>fs'. writeblock (sfi_indirect (svs ! k)) (idbuf fs) (fs1\<lparr>smem := store_long (smem fs1) (idbuf fs + 4 * of_nat j) b\<rparr>) = Some (Inr (), fs') \<and>
    volume_ok fs' \<and> sb_nblocks fs' = sb_nblocks fs \<and> used fs' = (used fs)(unat b := True) \<and>
    slots (disk fs') svs = (slots (disk fs) svs)((k, 15 + j) := b) \<and> (\<forall>c. c \<noteq> sfi_indirect (svs ! k) \<longrightarrow> disk fs' c = disk fs1 c)"
proof -
  let ?f = "slots (disk fs) svs" and ?id = "sfi_indirect (svs ! k)"
  let ?fs = "fs1\<lparr>smem := store_long (smem fs1) (idbuf fs + 4 * of_nat j) b\<rparr>"
  have v: "volume_ok fs" and c: "claims_ok (sb_nblocks fs) (used fs) ?f" using ok by (simp_all add: sfs_ok_def)
  have fid: "?f (k, 143) = ?id" using k by (simp add: slots_def slot_def)
  have same: "zeros fs1 = zeros fs" "idbuf fs1 = idbuf fs" "sb_nblocks fs1 = sb_nblocks fs" using a(5) by (simp_all add: same_volume_def)
  have "store_long (smem fs1) (idbuf fs + 4 * of_nat j) b x = smem fs1 x" if "x \<in> set (addrs (zeros fs1) 512)" for x
    using that a(4) same by (intro store_elsewhere [OF j]) (auto simp: volume_ok_def)
  then have "map (store_long (smem fs1) (idbuf fs + 4 * of_nat j) b) (addrs (zeros fs1) 512) = map (smem fs1) (addrs (zeros fs1) 512)" by simp
  also have "\<dots> = replicate 512 0" using a(4) by (simp add: volume_ok_def)
  finally have v1: "volume_ok ?fs" using a(4) by (simp add: volume_ok_def)
  have "?id < sb_nblocks fs" using c fid id unfolding claims_ok_def by metis
  then obtain fs' where w: "writeblock ?id (idbuf fs) ?fs = Some (Inr (), fs')" "volume_ok fs'" "same_volume ?fs fs'" "sfs_freemap fs' = sfs_freemap fs1"
      "disk fs' = (disk fs1)(?id := map (store_long (smem fs1) (idbuf fs + 4 * of_nat j) b) (addrs (idbuf fs) 512))"
    using writeblock_ok [OF v1, of ?id "idbuf fs"] same by auto
  have "smem fs1 x = smem fs x" if "x \<in> set (addrs (idbuf fs) 512)" for x
    using a(8) that v buf_apart [of "sfs_device fs" "idbuf fs" x] by (auto simp: volume_ok_def)
  then have "map (smem fs1) (addrs (idbuf fs) 512) = disk fs ?id" unfolding buf [symmetric] by simp
  moreover have "?id \<noteq> b" using claims_fresh(2) [OF c a(1,3), of "(k, 143)"] fid id by auto
  ultimately have e: "sector_long (map (store_long (smem fs1) (idbuf fs + 4 * of_nat j) b) (addrs (idbuf fs) 512)) l =
      (if l = j then b else sector_long (disk fs1 ?id) l)" if "l < 128" for l
    using sector_long_store [OF j that] a(7) by simp
  have s1: "slots (disk fs1) svs = ?f" unfolding a(7) by (rule slots_fresh) (use claims_fresh(2) [OF c a(1,3)] in blast)
  have "slots (disk fs') svs = (slots (disk fs1) svs)((k, 15 + j) := b)"
    unfolding w(5)
  proof (rule slots_entry [OF k id j])
    show "slots (disk fs1) svs (l, 143) \<noteq> ?id" if "l \<noteq> k" for l using that c fid id unfolding s1 claims_ok_def by (metis fst_conv)
  qed (use e in simp)
  then show ?thesis using w a(6) same s1 by (auto simp: same_volume_def)
qed

text \<open>With the indirect block in the buffer.\<close>

lemma bmap_slot_ok:
  assumes ok: "sfs_ok fs svs" and k: "k < length svs" and j: "j < 128" and id: "sfi_indirect (svs ! k) \<noteq> 0"
    and buf: "map (smem fs) (addrs (idbuf fs) 512) = disk fs (sfi_indirect (svs ! k))"
  shows "\<exists>r fs'. bmap_slot (sfi_indirect (svs ! k)) (of_nat j) doalloc (svs ! k) fs = Some (r, svs ! k, fs') \<and> sfs_ok fs' svs \<and>
    grows k (15 + j) fs svs fs' svs \<and> mapped k (15 + j) doalloc fs svs r fs' svs"
proof -
  let ?sv = "svs ! k" and ?f = "slots (disk fs) svs"
  let ?id = "sfi_indirect ?sv"
  have v: "volume_ok fs" and c: "claims_ok (sb_nblocks fs) (used fs) ?f" and ls: "\<forall>sv \<in> set svs. length (sfi_direct sv) = 15"
    using ok by (simp_all add: sfs_ok_def)
  have fid: "?f (k, 143) = ?id" using k by (simp add: slots_def slot_def)
  have ld: "load_long (smem fs) (idbuf fs + 4 * of_nat j) = ?f (k, 15 + j)"
    using sector_long_map [OF j, of "smem fs" "idbuf fs"] buf k j id by (simp add: slots_def slot_def)
  show ?thesis
  proof (cases "?f (k, 15 + j) = 0 \<and> doalloc")
    case False
    then have "bmap_slot ?id (of_nat j) doalloc ?sv fs = Some (Inr (?f (k, 15 + j)), ?sv, fs)"
      using ld hand_back_ok [OF ok refl] by (auto simp: bmap_slot_def Let_def)
    then show ?thesis using ok False by (auto simp: grows_refl mapped_def)
  next
    case True
    from balloc_ok [OF v] show ?thesis
    proof (elim disjE exE conjE)
      assume "sfs_balloc fs = Some (Inl ENOSPC, fs)"
      then have "bmap_slot ?id (of_nat j) doalloc ?sv fs = Some (Inl ENOSPC, ?sv, fs)" using ld True by (simp add: bmap_slot_def)
      then show ?thesis using ok True by (auto simp: grows_refl mapped_def)
    next
      fix b fs1 assume a: "sfs_balloc fs = Some (Inr b, fs1)" "b < sb_nblocks fs" "b \<noteq> 0" "\<not> used fs (unat b)" "volume_ok fs1"
        "same_volume fs fs1" "used fs1 = (used fs)(unat b := True)" "disk fs1 = (disk fs)(b := replicate 512 0)"
        "\<forall>a. a \<notin> set (addrs (lh_buf (sfs_device fs)) 512) \<longrightarrow> smem fs1 a = smem fs a"
      obtain fs' where w: "writeblock ?id (idbuf fs) (fs1\<lparr>smem := store_long (smem fs1) (idbuf fs + 4 * of_nat j) b\<rparr>) = Some (Inr (), fs')"
        "volume_ok fs'" "sb_nblocks fs' = sb_nblocks fs" "used fs' = (used fs)(unat b := True)"
        "slots (disk fs') svs = ?f((k, 15 + j) := b)" "\<And>c. c \<noteq> ?id \<Longrightarrow> disk fs' c = disk fs1 c"
        using slot_written [OF ok k j id buf a(2-9)] by blast
      have idb: "b \<noteq> ?id" using claims_fresh(2) [OF c a(2,4), of "(k, 143)"] fid id by auto
      note st = alloc_step [OF ok w(2-4) a(2,4) ls _ disjI1 [OF refl] w(5)]
      have st: "sfs_ok fs' svs" "grows k (15 + j) fs svs fs' svs" using st True a(8) w(6) fid by simp_all
      moreover have "idbuf fs1 = idbuf fs" using a(6) by (simp add: same_volume_def)
      then have "bmap_slot ?id (of_nat j) doalloc ?sv fs = Some (Inr b, ?sv, fs')"
        using ld True a(1) w(1,5) hand_back_ok [OF st(1), of b "(k, 15 + j)"] by (simp add: bmap_slot_def Let_def)
      ultimately show ?thesis using a(3,8) w(5,6) idb True by (auto simp: mapped_def)
    qed
  qed
qed

text \<open>A file gets its indirect block.\<close>

lemma indirect_new:
  assumes ok: "sfs_ok fs svs" and k: "k < length svs" and id: "sfi_indirect (svs ! k) = 0"
    and a: "b < sb_nblocks fs" "b \<noteq> 0" "\<not> used fs (unat b)" "volume_ok fs1" "same_volume fs fs1" "used fs1 = (used fs)(unat b := True)"
      "disk fs1 = (disk fs)(b := replicate 512 0)"
  defines "fs' \<equiv> fs1\<lparr>smem := bzero (idbuf fs1) 512 (smem fs1)\<rparr>" and "svs' \<equiv> svs[k := (svs ! k)\<lparr>sfi_indirect := b, sv_dirty := True\<rparr>]"
  shows "sfs_ok fs' svs'" "grows k i fs svs fs' svs'" "map (smem fs') (addrs (idbuf fs') 512) = disk fs' b"
    "slots (disk fs') svs' = (slots (disk fs) svs)((k, 143) := b)"
proof -
  let ?f = "slots (disk fs) svs"
  have c: "claims_ok (sb_nblocks fs) (used fs) ?f" and ls: "\<forall>sv \<in> set svs. length (sfi_direct sv) = 15" using ok by (simp_all add: sfs_ok_def)
  have z: "bzero (idbuf fs1) 512 (smem fs1) a = (if a \<in> set (addrs (idbuf fs1) 512) then 0 else smem fs1 a)" for a
    using bzero_filled [of "smem fs1" "idbuf fs1" 512] by (auto simp: filled_def set_addrs)
  then have "bzero (idbuf fs1) 512 (smem fs1) a = smem fs1 a" if "a \<in> set (addrs (zeros fs1) 512)" for a
    using that a(4) by (auto simp: volume_ok_def)
  then have "map (bzero (idbuf fs1) 512 (smem fs1)) (addrs (zeros fs1) 512) = map (smem fs1) (addrs (zeros fs1) 512)" by simp
  also have "\<dots> = replicate 512 0" using a(4) by (simp add: volume_ok_def)
  finally have v: "volume_ok fs'" using a(4) by (simp add: volume_ok_def fs'_def)
  have d: "disk fs' = (disk fs)(b := replicate 512 0)" using a(7) by (simp add: fs'_def)
  have "slots (disk fs') svs = ?f" unfolding d by (rule slots_fresh) (use claims_fresh(2) [OF c a(1,3)] in blast)
  then show s: "slots (disk fs') svs' = ?f((k, 143) := b)"
    using slots_indirect [OF k id a(2), of "disk fs'" True] sector_long_zero d by (simp add: svs'_def)
  have n: "sb_nblocks fs' = sb_nblocks fs" "used fs' = (used fs)(unat b := True)" using a(5,6) by (simp_all add: same_volume_def fs'_def)
  have f0: "?f (k, 143) = 0" using id by (simp add: slots_def slot_def)
  have l: "\<forall>sv \<in> set svs'. length (sfi_direct sv) = 15" using ls k by (auto simp: svs'_def dest!: set_update_subset_insert [THEN subsetD])
  have "\<And>c. c \<noteq> b \<Longrightarrow> disk fs' c = disk fs c" using d by simp
  then show "sfs_ok fs' svs'" "grows k i fs svs fs' svs'"
    using alloc_step [OF ok v n a(1,3) l f0 disjI2 [OF refl] s] by blast+
  show "map (smem fs') (addrs (idbuf fs') 512) = disk fs' b"
    unfolding d by (rule nth_equalityI) (auto simp: fs'_def z set_addrs)
qed

lemma bmap_indirect_new:
  assumes ok: "sfs_ok fs svs" and k: "k < length svs" and id: "sfi_indirect (svs ! k) = 0" and j: "j < 128"
    and a: "b < sb_nblocks fs" "b \<noteq> 0" "\<not> used fs (unat b)" "volume_ok fs1" "same_volume fs fs1" "used fs1 = (used fs)(unat b := True)"
      "disk fs1 = (disk fs)(b := replicate 512 0)"
  shows "\<exists>r sv fs'. bmap_slot b (of_nat j) True ((svs ! k)\<lparr>sfi_indirect := b, sv_dirty := True\<rparr>)
      (fs1\<lparr>smem := bzero (idbuf fs1) 512 (smem fs1)\<rparr>) = Some (r, sv, fs') \<and> sfs_ok fs' (svs[k := sv]) \<and>
    grows k (15 + j) fs svs fs' (svs[k := sv]) \<and> mapped k (15 + j) True fs svs r fs' (svs[k := sv])"
proof -
  let ?sv = "(svs ! k)\<lparr>sfi_indirect := b, sv_dirty := True\<rparr>" and ?fs = "fs1\<lparr>smem := bzero (idbuf fs1) 512 (smem fs1)\<rparr>"
  note new = indirect_new [OF ok k id a]
  have sv: "svs[k := ?sv] ! k = ?sv" using k by simp
  obtain r fs' where r: "bmap_slot b (of_nat j) True ?sv ?fs = Some (r, ?sv, fs')" "sfs_ok fs' (svs[k := ?sv])"
      "grows k (15 + j) ?fs (svs[k := ?sv]) fs' (svs[k := ?sv])" "mapped k (15 + j) True ?fs (svs[k := ?sv]) r fs' (svs[k := ?sv])"
    using bmap_slot_ok [OF new(1), of k j True] new(3) k j a(2) unfolding sv by auto
  have "slots (disk fs) svs (k, 15 + j) = 0" using k id j by (simp add: slots_def slot_def)
  moreover have "slots (disk ?fs) (svs[k := ?sv]) (k, 15 + j) = 0" unfolding new(4) using calculation j by simp
  ultimately have "mapped k (15 + j) True fs svs r fs' (svs[k := ?sv])" using r(4) by (cases r) (simp_all add: mapped_def Let_def)
  then show ?thesis using r grows_trans [OF new(2) r(3)] by blast
qed

lemma bmap_ok:
  assumes ok: "sfs_ok fs svs" and k: "k < length svs" and i: "unat i < 143"
  shows "\<exists>r sv fs'. sfs_bmap i doalloc (svs ! k) fs = Some (r, sv, fs') \<and> sfs_ok fs' (svs[k := sv]) \<and>
    grows k (unat i) fs svs fs' (svs[k := sv]) \<and> mapped k (unat i) doalloc fs svs r fs' (svs[k := sv])"
proof (cases "unat i < 15")
  case True
  then have "i < SFS_NDIRECT" by (simp add: SFS_NDIRECT_def word_less_nat_alt)
  then show ?thesis using bmap_direct_ok [OF ok k True] by (simp add: sfs_bmap_def)
next
  case False
  let ?sv = "svs ! k" and ?f = "slots (disk fs) svs"
  obtain j where j: "unat i = 15 + j" "j < 128" using False i that [of "unat i - 15"] by simp
  have u: "unat (i - SFS_NDIRECT) = j" using j False by (simp add: SFS_NDIRECT_def unat_sub word_le_nat_alt)
  have nd: "\<not> i < SFS_NDIRECT" "(i - SFS_NDIRECT) div SFS_DBPERIDB = 0" "(i - SFS_NDIRECT) mod SFS_DBPERIDB = of_nat j"
    using j(2) False u by (simp_all add: SFS_NDIRECT_def SFS_DBPERIDB_def word_less_nat_alt word_unat_eq_iff unat_div unat_mod unat_of_nat_u32)
  have v: "volume_ok fs" and c: "claims_ok (sb_nblocks fs) (used fs) ?f" using ok by (simp_all add: sfs_ok_def)
  note start = sfs_bmap_def [of i doalloc ?sv fs] nd SFS_NINDIRECT_def
  show ?thesis
  proof (cases "sfi_indirect ?sv = 0")
    case id: False
    have "?f (k, 143) = sfi_indirect ?sv" using k by (simp add: slots_def slot_def)
    then have "sfi_indirect ?sv < sb_nblocks fs" using c id unfolding claims_ok_def by metis
    then obtain fs1 where r: "readblock (sfi_indirect ?sv) (idbuf fs) fs = Some (Inr (), fs1)" "volume_ok fs1" "same_volume fs fs1"
        "sfs_freemap fs1 = sfs_freemap fs" "disk fs1 = disk fs" "map (smem fs1) (addrs (idbuf fs) 512) = disk fs (sfi_indirect ?sv)"
      using readblock_ok [OF v, of "sfi_indirect ?sv" "idbuf fs"] by auto
    have s: "sb_nblocks fs1 = sb_nblocks fs" "idbuf fs1 = idbuf fs" using r(3) by (simp_all add: same_volume_def)
    have "sfs_ok fs1 svs" using ok r(2,4,5) s by (simp add: sfs_ok_def)
    from bmap_slot_ok [OF this k j(2) id, of doalloc] r(5,6) s obtain r' fs' where
      q: "bmap_slot (sfi_indirect ?sv) (of_nat j) doalloc ?sv fs1 = Some (r', ?sv, fs')" "sfs_ok fs' svs"
        "grows k (15 + j) fs1 svs fs' svs" "mapped k (15 + j) doalloc fs1 svs r' fs' svs" by auto
    then have "grows k (15 + j) fs svs fs' svs" "mapped k (15 + j) doalloc fs svs r' fs' svs" using r(5) by (simp_all add: grows_def mapped_def)
    moreover have "sfs_bmap i doalloc ?sv fs = Some (r', ?sv, fs')" using start id r(1) q(1) by simp
    ultimately show ?thesis using q(2) j(1) by auto
  next
    case id: True
    have f0: "?f (k, 15 + j) = 0" using k id j(2) by (simp add: slots_def slot_def)
    show ?thesis
    proof (cases doalloc)
      case False
      then show ?thesis using start id ok f0 j(1) k by (simp add: grows_refl mapped_def)
    next
      case True
      from balloc_ok [OF v] show ?thesis
      proof (elim disjE exE conjE)
        assume "sfs_balloc fs = Some (Inl ENOSPC, fs)"
        then show ?thesis using start id ok f0 j(1) True by (simp add: grows_refl mapped_def)
      next
        fix b fs1 assume a: "sfs_balloc fs = Some (Inr b, fs1)" "b < sb_nblocks fs" "b \<noteq> 0" "\<not> used fs (unat b)" "volume_ok fs1"
          "same_volume fs fs1" "used fs1 = (used fs)(unat b := True)" "disk fs1 = (disk fs)(b := replicate 512 0)"
        then show ?thesis using bmap_indirect_new [OF ok k id j(2) a(2-8)] start id True j(1) by simp
      qed
    qed
  qed
qed

lemma bmap_too_big: "143 \<le> unat i \<Longrightarrow> sfs_bmap i doalloc sv fs = Some (Inl EFBIG, sv, fs)"
proof -
  assume i: "143 \<le> unat i"
  then have "unat (i - SFS_NDIRECT) = unat i - 15" by (simp add: SFS_NDIRECT_def unat_sub word_le_nat_alt)
  then have "1 \<le> unat ((i - SFS_NDIRECT) div SFS_DBPERIDB)" using i by (simp add: unat_div SFS_DBPERIDB_def Suc_le_eq div_greater_zero_iff)
  then show ?thesis using i by (simp add: sfs_bmap_def SFS_NDIRECT_def SFS_NINDIRECT_def word_less_nat_alt word_le_nat_alt Let_def)
qed

section \<open>Truncating\<close>

text \<open>Entries are cleared, and the blocks in use are those of before without the blocks of the cleared entries.\<close>

definition shrinks :: "sfs_fs \<Rightarrow> sfs_vnode list \<Rightarrow> sfs_fs \<Rightarrow> sfs_vnode list \<Rightarrow> bool" where
  "shrinks fs svs fs' svs' \<longleftrightarrow> (let f = slots (disk fs) svs; f' = slots (disk fs') svs' in
     (\<forall>x. f' x = f x \<or> f' x = 0) \<and> (\<forall>b. used fs' b \<longleftrightarrow> used fs b \<and> (\<forall>x. f x \<noteq> 0 \<and> unat (f x) = b \<longrightarrow> f' x = f x)))"

lemma shrinks_refl: "slots (disk fs') svs' = slots (disk fs) svs \<Longrightarrow> used fs' = used fs \<Longrightarrow> shrinks fs svs fs' svs'"
  by (simp add: shrinks_def)

lemma shrinks_trans:
  assumes "shrinks a va b vb" and "shrinks b vb c vc"
  shows "shrinks a va c vc"
  using assms unfolding shrinks_def Let_def by (intro conjI allI iffI) metis+

lemma bfree_ok:
  assumes ok: "sfs_ok fs svs" and b: "slots (disk fs) svs x = b" "b \<noteq> 0"
  shows "\<exists>m. sfs_bfree b fs = Some (fs\<lparr>sfs_freemap := m, sfs_freemapdirty := True\<rparr>) \<and> bm_used m = (used fs)(unat b := False) \<and>
    volume_ok (fs\<lparr>sfs_freemap := m, sfs_freemapdirty := True\<rparr>)"
proof -
  have c: "b < sb_nblocks fs" "used fs (unat b)" using ok b unfolding sfs_ok_def claims_ok_def by metis+
  have v: "volume_ok fs" using ok by (simp add: sfs_ok_def)
  then have i: "bm_inv (sfs_freemap fs)" "b < nbits (sfs_freemap fs)" using c(1) by (auto simp: volume_ok_def)
  obtain m where m: "bitmap_unmark b (sfs_freemap fs) = Some m" "nbits m = nbits (sfs_freemap fs)" "bm_inv m" "bm_used m = (used fs)(unat b := False)"
    using bitmap_unmark_ok [OF i c(2)] by blast
  have "0 < unat b" "unat b < unat (sb_nblocks fs)" using b(2) c(1) by (simp_all add: word_less_nat_alt unat_gt_0)
  then have "volume_ok (fs\<lparr>sfs_freemap := m, sfs_freemapdirty := True\<rparr>)" using v m(2-4) by (auto simp: volume_ok_def)
  then show ?thesis using m by (intro exI [of _ m]) (simp add: sfs_bfree_def)
qed

lemma free_step:
  assumes ok: "sfs_ok fs svs" and b: "slots (disk fs) svs x = b" "b \<noteq> 0" and v: "volume_ok fs'" "sb_nblocks fs' = sb_nblocks fs"
    and u: "used fs' = (used fs)(unat b := False)" and s: "slots (disk fs') svs' = (slots (disk fs) svs)(x := 0)"
    and l: "\<forall>sv \<in> set svs'. length (sfi_direct sv) = 15"
  shows "sfs_ok fs' svs'" "shrinks fs svs fs' svs'"
proof -
  have c: "claims_ok (sb_nblocks fs) (used fs) (slots (disk fs) svs)" using ok by (simp add: sfs_ok_def)
  show "sfs_ok fs' svs'" using claims_less [OF c, of x] b v u s l by (simp add: sfs_ok_def)
  have "y = x" if "unat (slots (disk fs) svs y) = unat b" for y using that c b unfolding claims_ok_def by (metis word_unat_eq_iff)
  then show "shrinks fs svs fs' svs'" using b unfolding shrinks_def Let_def s u by (auto simp del: split_paired_All split_paired_Ex intro: exI [of _ x])
qed

lemma lengths_update: "\<forall>sv \<in> set svs. length (sfi_direct sv) = 15 \<Longrightarrow> length (sfi_direct sv') = 15 \<Longrightarrow>
    \<forall>sv \<in> set (svs[k := sv']). length (sfi_direct sv) = 15"
  by (auto dest!: set_update_subset_insert [THEN subsetD])

lemma trunc_direct_ok:
  assumes "sfs_ok fs svs" and "k < length svs" and "set is \<subseteq> {..<15}"
  shows "\<exists>sv fs'. trunc_direct n is (svs ! k) fs = Some (sv, fs') \<and> sfs_ok fs' (svs[k := sv]) \<and> shrinks fs svs fs' (svs[k := sv]) \<and>
    slots (disk fs') (svs[k := sv]) = (\<lambda>x. if fst x = k \<and> snd x \<in> set is \<and> unat n \<le> snd x then 0 else slots (disk fs) svs x) \<and>
    disk fs' = disk fs \<and> sfi_indirect sv = sfi_indirect (svs ! k)"
  using assms
proof (induction "is" arbitrary: svs fs)
  case Nil
  then show ?case by (simp add: shrinks_refl)
next
  case (Cons i "is")
  let ?sv = "svs ! k" and ?f = "slots (disk fs) svs"
  have i: "i < 15" "set is \<subseteq> {..<15}" using Cons.prems(3) by simp_all
  have ls: "\<forall>sv \<in> set svs. length (sfi_direct sv) = 15" using Cons.prems(1) by (simp add: sfs_ok_def)
  then have l: "length (sfi_direct ?sv) = 15" using Cons.prems(2) by simp
  have g: "get_at (sfi_direct ?sv) i = Some (?f (k, i))" using l i Cons.prems(2) by (simp add: get_at_def slots_def slot_def)
  have le: "n \<le> of_nat i \<longleftrightarrow> unat n \<le> i" using i(1) by (simp add: word_le_nat_alt unat_of_nat_u32)
  show ?case
  proof (cases "unat n \<le> i \<and> ?f (k, i) \<noteq> 0")
    case False
    have "trunc_direct n (i # is) ?sv fs = trunc_direct n is ?sv fs" using g le False by auto
    moreover have "(\<lambda>x. if fst x = k \<and> snd x \<in> set (i # is) \<and> unat n \<le> snd x then 0 else ?f x) =
        (\<lambda>x. if fst x = k \<and> snd x \<in> set is \<and> unat n \<le> snd x then 0 else ?f x)" using False by (auto simp: fun_eq_iff)
    ultimately show ?thesis using Cons.IH [OF Cons.prems(1,2) i(2)] by simp
  next
    case True
    obtain m where m: "sfs_bfree (?f (k, i)) fs = Some (fs\<lparr>sfs_freemap := m, sfs_freemapdirty := True\<rparr>)"
        "bm_used m = (used fs)(unat (?f (k, i)) := False)" "volume_ok (fs\<lparr>sfs_freemap := m, sfs_freemapdirty := True\<rparr>)"
      using bfree_ok [OF Cons.prems(1) refl] True by blast
    let ?fs = "fs\<lparr>sfs_freemap := m, sfs_freemapdirty := True\<rparr>" and ?sv' = "?sv\<lparr>sfi_direct := (sfi_direct ?sv)[i := 0], sv_dirty := True\<rparr>"
    let ?svs = "svs[k := ?sv']"
    have s: "slots (disk ?fs) ?svs = ?f((k, i) := 0)" using slots_direct [OF Cons.prems(2) i(1) l, of ?sv' 0] by simp
    have st: "sfs_ok ?fs ?svs" "shrinks fs svs ?fs ?svs"
      using free_step [OF Cons.prems(1) refl _ m(3) _ _ s lengths_update [OF ls]] True m(2) l by simp_all
    have k: "k < length ?svs" "?svs ! k = ?sv'" "\<And>y. ?svs[k := y] = svs[k := y]" using Cons.prems(2) by simp_all
    have e: "trunc_direct n (i # is) ?sv fs = trunc_direct n is ?sv' ?fs" using g le True m(1) l i by (simp add: put_at_def)
    have z: "(\<lambda>x. if fst x = k \<and> snd x \<in> set is \<and> unat n \<le> snd x then 0 else (?f((k, i) := 0)) x) =
        (\<lambda>x. if fst x = k \<and> snd x \<in> set (i # is) \<and> unat n \<le> snd x then 0 else ?f x)" using True by (auto simp: fun_eq_iff)
    obtain sv fs' where r: "trunc_direct n is ?sv' ?fs = Some (sv, fs')" "sfs_ok fs' (svs[k := sv])" "shrinks ?fs ?svs fs' (svs[k := sv])"
        "slots (disk fs') (svs[k := sv]) = (\<lambda>x. if fst x = k \<and> snd x \<in> set is \<and> unat n \<le> snd x then 0 else (?f((k, i) := 0)) x)"
        "disk fs' = disk ?fs" "sfi_indirect sv = sfi_indirect ?sv'"
      using Cons.IH [OF st(1) k(1) i(2)] unfolding k(2,3) s by blast
    then show ?thesis unfolding e z using shrinks_trans [OF st(2) r(3)] by auto
  qed
qed

text \<open>While the loop over the indirect block runs, its buffer is what counts; \<open>flushed\<close> is the volume as if the buffer were written.\<close>

definition flushed :: "u32 \<Rightarrow> sfs_fs \<Rightarrow> sfs_fs" where
  "flushed ib fs = fs\<lparr>sfs_device := (sfs_device fs)\<lparr>sectors := (disk fs)(ib := map (smem fs) (addrs (idbuf2 fs) 512))\<rparr>\<rparr>"

lemma flushed_simps [simp]:
  "sfs_freemap (flushed ib fs) = sfs_freemap fs" "sb_nblocks (flushed ib fs) = sb_nblocks fs"
  "disk (flushed ib fs) = (disk fs)(ib := map (smem fs) (addrs (idbuf2 fs) 512))"
  by (simp_all add: flushed_def)

lemma volume_flushed: "volume_ok fs \<Longrightarrow> volume_ok (flushed ib fs)"
  by (auto simp: volume_ok_def flushed_def disk_ok_def buf_ok_def)

lemma bfree_flushed:
  assumes "sfs_bfree b (flushed ib fs) = Some ((flushed ib fs)\<lparr>sfs_freemap := m, sfs_freemapdirty := True\<rparr>)"
  shows "sfs_bfree b fs = Some (fs\<lparr>sfs_freemap := m, sfs_freemapdirty := True\<rparr>)"
proof -
  obtain x where x: "bitmap_unmark b (sfs_freemap fs) = Some x"
      "(flushed ib fs)\<lparr>sfs_freemap := x, sfs_freemapdirty := True\<rparr> = (flushed ib fs)\<lparr>sfs_freemap := m, sfs_freemapdirty := True\<rparr>"
    using assms by (auto simp: sfs_bfree_def split: Option.bind_splits)
  then have "x = m" using arg_cong [OF x(2), of sfs_freemap] by simp
  then show ?thesis using x(1) by (simp add: sfs_bfree_def)
qed

text \<open>An indirect block without entries is taken from its file.\<close>

lemma slots_unlink:
  assumes ok: "sfs_ok (flushed ib fs) svs" and k: "k < length svs" and ib: "sfi_indirect (svs ! k) = ib" "ib \<noteq> 0"
    and z: "\<And>j. j < 128 \<Longrightarrow> slots (disk (flushed ib fs)) svs (k, 15 + j) = 0" and d: "disk fs' = disk fs"
  shows "slots (disk fs') (svs[k := (svs ! k)\<lparr>sfi_indirect := 0, sv_dirty := e\<rparr>]) = (slots (disk (flushed ib fs)) svs)((k, 143) := 0)"
proof
  fix x
  let ?g = "slots (disk (flushed ib fs)) svs" and ?svs = "svs[k := (svs ! k)\<lparr>sfi_indirect := 0, sv_dirty := e\<rparr>]"
  have c: "claims_ok (sb_nblocks fs) (used fs) ?g" using ok by (simp add: sfs_ok_def)
  have gk: "?g (k, 143) = ib" using k ib by (simp add: slots_def slot_def)
  show "slots (disk fs') ?svs x = (?g((k, 143) := 0)) x"
  proof (cases "fst x = k")
    case True
    then show ?thesis using k z [of "snd x - 15"] d by (cases x) (auto simp: slots_def slot_def)
  next
    case False
    have "?g (fst x, 143) \<noteq> ib" using False c gk ib(2) unfolding claims_ok_def by (metis fst_conv)
    then have "fst x < length svs \<Longrightarrow> sfi_indirect (svs ! fst x) \<noteq> ib" by (simp add: slots_def slot_def)
    then show ?thesis using False d by (cases x) (auto simp: slots_def slot_def)
  qed
qed

lemma trunc_entry:
  assumes ok: "sfs_ok (flushed ib fs) svs" and v: "volume_ok fs" and k: "k < length svs" and ib: "sfi_indirect (svs ! k) = ib" "ib \<noteq> 0"
    and j: "j < 128" and b: "slots (disk (flushed ib fs)) svs (k, 15 + j) = b" "b \<noteq> 0"
  shows "\<exists>m. let fs' = fs\<lparr>sfs_freemap := m, sfs_freemapdirty := True, smem := store_long (smem fs) (idbuf2 fs + 4 * of_nat j) 0\<rparr> in
    sfs_bfree b fs = Some (fs\<lparr>sfs_freemap := m, sfs_freemapdirty := True\<rparr>) \<and> volume_ok fs' \<and> sfs_ok (flushed ib fs') svs \<and>
    slots (disk (flushed ib fs')) svs = (slots (disk (flushed ib fs)) svs)((k, 15 + j) := 0) \<and> shrinks (flushed ib fs) svs (flushed ib fs') svs"
proof -
  let ?g = "slots (disk (flushed ib fs)) svs" and ?st = "store_long (smem fs) (idbuf2 fs + 4 * of_nat j) 0"
  obtain m where m: "sfs_bfree b (flushed ib fs) = Some ((flushed ib fs)\<lparr>sfs_freemap := m, sfs_freemapdirty := True\<rparr>)"
      "bm_used m = (used fs)(unat b := False)" "volume_ok ((flushed ib fs)\<lparr>sfs_freemap := m, sfs_freemapdirty := True\<rparr>)"
    using bfree_ok [OF ok b] by auto
  let ?fs = "fs\<lparr>sfs_freemap := m, sfs_freemapdirty := True, smem := ?st\<rparr>"
  have fr: "sfs_bfree b fs = Some (fs\<lparr>sfs_freemap := m, sfs_freemapdirty := True\<rparr>)"
    using m(1) by (rule bfree_flushed)
  have "?st x = smem fs x" if "x \<in> set (addrs (zeros fs) 512)" for x using that v by (intro store_elsewhere [OF j]) (auto simp: volume_ok_def)
  then have "map ?st (addrs (zeros fs) 512) = map (smem fs) (addrs (zeros fs) 512)" by simp
  also have "\<dots> = replicate 512 0" using v by (simp add: volume_ok_def)
  finally have v': "volume_ok ?fs" using m(3) v by (simp add: volume_ok_def flushed_def)
  have gk: "?g (k, 143) = ib" using k ib by (simp add: slots_def slot_def)
  have c: "claims_ok (sb_nblocks fs) (used fs) ?g" and ls: "\<forall>sv \<in> set svs. length (sfi_direct sv) = 15" using ok by (simp_all add: sfs_ok_def)
  have "slots ((disk (flushed ib fs))(ib := map ?st (addrs (idbuf2 fs) 512))) svs = ?g((k, 15 + j) := 0)"
    unfolding ib(1) [symmetric]
  proof (rule slots_entry [OF k _ j])
    show "sfi_indirect (svs ! k) \<noteq> 0" using ib by simp
    show "slots (disk (flushed (sfi_indirect (svs ! k)) fs)) svs (l, 143) \<noteq> sfi_indirect (svs ! k)" if "l \<noteq> k" for l
      using that c gk ib unfolding ib(1) claims_ok_def by (metis fst_conv)
  qed (simp add: sector_long_store [OF j])
  then have s: "slots (disk (flushed ib ?fs)) svs = ?g((k, 15 + j) := 0)" by simp
  have n: "sb_nblocks (flushed ib ?fs) = sb_nblocks (flushed ib fs)" "used (flushed ib ?fs) = (used (flushed ib fs))(unat b := False)"
    using m(2) by simp_all
  show ?thesis using fr v' s free_step [OF ok b volume_flushed [OF v'] n s ls] unfolding Let_def by blast
qed

lemma trunc_indirect_ok:
  assumes "sfs_ok (flushed ib fs) svs" and "volume_ok fs" and "k < length svs" and "sfi_indirect (svs ! k) = ib" and "ib \<noteq> 0" and "set js \<subseteq> {..<128}"
  shows "\<exists>h d fs'. trunc_indirect n js h0 d0 fs = Some (h, d, fs') \<and> sfs_ok (flushed ib fs') svs \<and> volume_ok fs' \<and>
    shrinks (flushed ib fs) svs (flushed ib fs') svs \<and> disk fs' = disk fs \<and> same_volume fs fs' \<and> (d \<or> fs' = fs) \<and>
    slots (disk (flushed ib fs')) svs = (\<lambda>x. if fst x = k \<and> unat n < snd x \<and> snd x \<in> (+) 15 ` set js then 0 else slots (disk (flushed ib fs)) svs x) \<and>
    (h \<longleftrightarrow> h0 \<or> (\<exists>j \<in> set js. slots (disk (flushed ib fs')) svs (k, 15 + j) \<noteq> 0)) \<and> (d0 \<longrightarrow> d)"
  using assms
proof (induction js arbitrary: fs h0 d0)
  case Nil
  then show ?case by (simp add: shrinks_refl same_volume_def del: flushed_simps(3))
next
  case (Cons j js)
  let ?g = "slots (disk (flushed ib fs)) svs"
  have j: "j < 128" "set js \<subseteq> {..<128}" using Cons.prems(6) by simp_all
  have ld: "load_long (smem fs') (idbuf2 fs' + 4 * of_nat j) = slots (disk (flushed ib fs')) svs (k, 15 + j)" for fs'
    using sector_long_map [OF j(1), of "smem fs'" "idbuf2 fs'"] Cons.prems(3-5) j(1) by (simp add: slots_def slot_def)
  have lt: "n < SFS_NDIRECT + of_nat j \<longleftrightarrow> unat n < 15 + j"
  proof -
    have "SFS_NDIRECT + of_nat j = (of_nat (15 + j) :: u32)" by (simp add: SFS_NDIRECT_def)
    then have "unat (SFS_NDIRECT + of_nat j) = 15 + j" using j(1) unat_of_nat_u32 [of "15 + j"] by simp
    then show ?thesis by (simp add: word_less_nat_alt)
  qed
  show ?case
  proof (cases "unat n < 15 + j \<and> ?g (k, 15 + j) \<noteq> 0")
    case False
    then have e: "trunc_indirect n (j # js) h0 d0 fs = trunc_indirect n js (h0 \<or> ?g (k, 15 + j) \<noteq> 0) d0 fs" using ld lt by auto
    obtain h d fs' where r: "trunc_indirect n js (h0 \<or> ?g (k, 15 + j) \<noteq> 0) d0 fs = Some (h, d, fs')" "sfs_ok (flushed ib fs') svs" "volume_ok fs'"
        "shrinks (flushed ib fs) svs (flushed ib fs') svs" "disk fs' = disk fs" "same_volume fs fs'" "d \<or> fs' = fs"
        "slots (disk (flushed ib fs')) svs = (\<lambda>x. if fst x = k \<and> unat n < snd x \<and> snd x \<in> (+) 15 ` set js then 0 else ?g x)"
        "h \<longleftrightarrow> (h0 \<or> ?g (k, 15 + j) \<noteq> 0) \<or> (\<exists>j \<in> set js. slots (disk (flushed ib fs')) svs (k, 15 + j) \<noteq> 0)" "d0 \<longrightarrow> d"
      using Cons.IH [OF Cons.prems(1-5) j(2), of "h0 \<or> ?g (k, 15 + j) \<noteq> 0" d0] by blast
    have "slots (disk (flushed ib fs')) svs (k, 15 + j) = ?g (k, 15 + j)" unfolding r(8) using False by auto
    then have h: "h \<longleftrightarrow> h0 \<or> (\<exists>j \<in> set (j # js). slots (disk (flushed ib fs')) svs (k, 15 + j) \<noteq> 0)"
      unfolding r(9) by (simp add: disj_assoc del: flushed_simps(3))
    have s: "slots (disk (flushed ib fs')) svs = (\<lambda>x. if fst x = k \<and> unat n < snd x \<and> snd x \<in> (+) 15 ` set (j # js) then 0 else ?g x)"
      unfolding r(8) using False by (auto simp: fun_eq_iff)
    show ?thesis unfolding e by (rule exI, rule exI, rule exI, rule conjI [OF r(1)]) (intro conjI r(2-7,10) s h)
  next
    case True
    obtain m where m: "sfs_bfree (?g (k, 15 + j)) fs = Some (fs\<lparr>sfs_freemap := m, sfs_freemapdirty := True\<rparr>)"
      and t: "volume_ok (fs\<lparr>sfs_freemap := m, sfs_freemapdirty := True, smem := store_long (smem fs) (idbuf2 fs + 4 * of_nat j) 0\<rparr>)"
        "sfs_ok (flushed ib (fs\<lparr>sfs_freemap := m, sfs_freemapdirty := True, smem := store_long (smem fs) (idbuf2 fs + 4 * of_nat j) 0\<rparr>)) svs"
        "slots (disk (flushed ib (fs\<lparr>sfs_freemap := m, sfs_freemapdirty := True, smem := store_long (smem fs) (idbuf2 fs + 4 * of_nat j) 0\<rparr>))) svs = ?g((k, 15 + j) := 0)"
        "shrinks (flushed ib fs) svs (flushed ib (fs\<lparr>sfs_freemap := m, sfs_freemapdirty := True, smem := store_long (smem fs) (idbuf2 fs + 4 * of_nat j) 0\<rparr>)) svs"
      using trunc_entry [OF Cons.prems(1-5) j(1) refl] True unfolding Let_def by blast
    define fs1 where "fs1 = fs\<lparr>sfs_freemap := m, sfs_freemapdirty := True, smem := store_long (smem fs) (idbuf2 fs + 4 * of_nat j) 0\<rparr>"
    note t = t [folded fs1_def]
    have ld1: "load_long (smem fs1) (idbuf2 fs1 + 4 * of_nat j) = 0" unfolding ld [of fs1] t(3) by simp
    have e: "trunc_indirect n (j # js) h0 d0 fs = trunc_indirect n js h0 True fs1"
      using ld [of fs] lt True m ld1 by (simp add: fs1_def)
    obtain h d fs' where r: "trunc_indirect n js h0 True fs1 = Some (h, d, fs')" "sfs_ok (flushed ib fs') svs" "volume_ok fs'"
        "shrinks (flushed ib fs1) svs (flushed ib fs') svs" "disk fs' = disk fs1" "same_volume fs1 fs'" "True \<longrightarrow> d"
        "slots (disk (flushed ib fs')) svs = (\<lambda>x. if fst x = k \<and> unat n < snd x \<and> snd x \<in> (+) 15 ` set js then 0 else (?g((k, 15 + j) := 0)) x)"
        "h \<longleftrightarrow> h0 \<or> (\<exists>j \<in> set js. slots (disk (flushed ib fs')) svs (k, 15 + j) \<noteq> 0)"
      using Cons.IH [OF t(2,1) Cons.prems(3-5) j(2), of h0 True] unfolding t(3) by blast
    have d: "disk fs' = disk fs" "same_volume fs fs'" "d \<or> fs' = fs" "d0 \<longrightarrow> d" using r(5-7) by (simp_all add: fs1_def same_volume_def)
    have s: "slots (disk (flushed ib fs')) svs = (\<lambda>x. if fst x = k \<and> unat n < snd x \<and> snd x \<in> (+) 15 ` set (j # js) then 0 else ?g x)"
      unfolding r(8) using True by (auto simp: fun_eq_iff)
    have "slots (disk (flushed ib fs')) svs (k, 15 + j) = 0" unfolding r(8) by simp
    then have h: "h \<longleftrightarrow> h0 \<or> (\<exists>j \<in> set (j # js). slots (disk (flushed ib fs')) svs (k, 15 + j) \<noteq> 0)"
      unfolding r(9) by (simp del: flushed_simps(3))
    show ?thesis unfolding e
      by (rule exI, rule exI, rule exI, rule conjI [OF r(1)]) (intro conjI r(2,3) shrinks_trans [OF t(4) r(4)] d s h)
  qed
qed

lemma image_15: "x \<in> (+) 15 ` set [0..<128] \<longleftrightarrow> 15 \<le> x \<and> x < 143" for x :: nat
  by (simp add: image_add_atLeastLessThan del: upt.simps)

text \<open>What a truncation of the file \<open>k\<close> leaves.\<close>

definition truncated :: "nat \<Rightarrow> nat \<Rightarrow> sfs_fs \<Rightarrow> sfs_vnode list \<Rightarrow> sfs_fs \<Rightarrow> sfs_vnode list \<Rightarrow> bool" where
  "truncated k n fs svs fs' svs' \<longleftrightarrow> sfs_ok fs' svs' \<and> shrinks fs svs fs' svs' \<and> (let f = slots (disk fs) svs; f' = slots (disk fs') svs' in
     (\<forall>x. x \<noteq> (k, 143) \<longrightarrow> f' x = (if fst x = k \<and> 15 \<le> snd x \<and> n < snd x then 0 else f x)) \<and>
     (\<forall>x. f x \<noteq> 0 \<and> snd x \<noteq> 143 \<longrightarrow> disk fs' (f x) = disk fs (f x)))"

lemma truncatedI:
  assumes "sfs_ok fs' svs'" and "shrinks fs svs fs' svs'"
    and "\<And>x. x \<noteq> (k, 143) \<Longrightarrow> slots (disk fs') svs' x = (if fst x = k \<and> 15 \<le> snd x \<and> n < snd x then 0 else slots (disk fs) svs x)"
    and "\<And>x. slots (disk fs) svs x \<noteq> 0 \<Longrightarrow> snd x \<noteq> 143 \<Longrightarrow> disk fs' (slots (disk fs) svs x) = disk fs (slots (disk fs) svs x)"
  shows "truncated k n fs svs fs' svs'"
  unfolding truncated_def Let_def
proof (rule conjI [OF assms(1)], rule conjI [OF assms(2)], rule conjI)
  show "\<forall>x. x \<noteq> (k, 143) \<longrightarrow> slots (disk fs') svs' x = (if fst x = k \<and> 15 \<le> snd x \<and> n < snd x then 0 else slots (disk fs) svs x)"
    by (rule allI, rule impI, rule assms(3))
  show "\<forall>x. slots (disk fs) svs x \<noteq> 0 \<and> snd x \<noteq> 143 \<longrightarrow> disk fs' (slots (disk fs) svs x) = disk fs (slots (disk fs) svs x)"
    by (rule allI, rule impI, erule conjE, rule assms(4))
qed

lemma trunc_rest_ok:
  assumes ok: "sfs_ok fs svs" and k: "k < length svs" and ib: "sfi_indirect (svs ! k) = ib" "ib \<noteq> 0"
    and buf: "map (smem fs) (addrs (idbuf2 fs) 512) = disk fs ib"
  shows "\<exists>sv fs'. trunc_rest n (svs ! k) fs = Some (Inr (), sv, fs') \<and> truncated k (unat n) fs svs fs' (svs[k := sv])"
proof -
  let ?f = "slots (disk fs) svs" and ?sv = "svs ! k"
  have same: "disk (flushed ib fs) = disk fs" using buf by simp
  have v: "volume_ok fs" and ls: "\<forall>sv \<in> set svs. length (sfi_direct sv) = 15" using ok by (simp_all add: sfs_ok_def)
  have ok': "sfs_ok (flushed ib fs) svs" using ok volume_flushed [OF v] same unfolding sfs_ok_def by simp
  have js: "set [0..<128] \<subseteq> {..<128 :: nat}" by auto
  obtain h d fs1 where t: "trunc_indirect n [0..<128] False False fs = Some (h, d, fs1)" "sfs_ok (flushed ib fs1) svs" "volume_ok fs1"
      "shrinks (flushed ib fs) svs (flushed ib fs1) svs" "disk fs1 = disk fs" "same_volume fs fs1" "d \<or> fs1 = fs"
      "slots (disk (flushed ib fs1)) svs = (\<lambda>x. if fst x = k \<and> unat n < snd x \<and> snd x \<in> (+) 15 ` set [0..<128] then 0 else ?f x)"
      "h \<longleftrightarrow> False \<or> (\<exists>j \<in> set [0..<128]. slots (disk (flushed ib fs1)) svs (k, 15 + j) \<noteq> 0)"
    using trunc_indirect_ok [OF ok' v k ib js, of n False False] unfolding same by blast
  note g = t(8) [unfolded image_15]
  have sh: "shrinks fs svs (flushed ib fs1) svs" using t(4) unfolding shrinks_def same by simp
  let ?g = "slots (disk (flushed ib fs1)) svs"
  have c: "claims_ok (sb_nblocks fs) (used fs) ?f" using ok by (simp add: sfs_ok_def)
  have fk: "?f (k, 143) = ib" and gk: "?g (k, 143) = ib" using k ib by (simp_all add: slots_def slot_def)
  have keep: "?f x \<noteq> ib" if "?f x \<noteq> 0" "snd x \<noteq> 143" for x using c fk that unfolding claims_ok_def by (metis snd_conv)
  have nb: "sb_nblocks fs1 = sb_nblocks fs" "idbuf2 fs1 = idbuf2 fs" using t(6) by (simp_all add: same_volume_def)
  have big: "?f x = 0" if "fst x = k" "143 < snd x" for x using that by (simp add: slots_def slot_def)
  have g': "?g x = (if fst x = k \<and> 15 \<le> snd x \<and> unat n < snd x then 0 else ?f x)" if "x \<noteq> (k, 143)" for x
  proof -
    have "snd x = 143 \<Longrightarrow> fst x \<noteq> k" using that by (cases x) auto
    then show ?thesis unfolding g using big [of x] by (cases "fst x = k"; cases "snd x < 143"; cases "snd x = 143") auto
  qed
  consider "\<not> h" | "h" "d" | "h" "\<not> d" by blast
  then show ?thesis
  proof cases
    case 1
    obtain m where m: "sfs_bfree ib (flushed ib fs1) = Some ((flushed ib fs1)\<lparr>sfs_freemap := m, sfs_freemapdirty := True\<rparr>)"
        "bm_used m = (used fs1)(unat ib := False)" "volume_ok ((flushed ib fs1)\<lparr>sfs_freemap := m, sfs_freemapdirty := True\<rparr>)"
      using bfree_ok [OF t(2) gk ib(2)] by auto
    let ?sv' = "?sv\<lparr>sfi_indirect := 0, sv_dirty := True\<rparr>" and ?fs = "fs1\<lparr>sfs_freemap := m, sfs_freemapdirty := True\<rparr>"
    have fr: "sfs_bfree ib fs1 = Some ?fs" using m(1) by (rule bfree_flushed)
    have v': "volume_ok ?fs" using m(3) t(3) by (auto simp: volume_ok_def flushed_def)
    have z: "?g (k, 15 + j) = 0" if "j < 128" for j using 1 t(9) that by simp
    have s: "slots (disk ?fs) (svs[k := ?sv']) = ?g((k, 143) := 0)"
      by (rule slots_unlink [OF t(2) k ib z]) simp_all
    have st: "sfs_ok ?fs (svs[k := ?sv'])" "shrinks (flushed ib fs1) svs ?fs (svs[k := ?sv'])"
      using free_step [OF t(2) gk ib(2) v' _ _ s lengths_update [OF ls]] m(2) ls k by simp_all
    have "truncated k (unat n) fs svs ?fs (svs[k := ?sv'])"
    proof (rule truncatedI [OF st(1) shrinks_trans [OF sh st(2)]])
      show "slots (disk ?fs) (svs[k := ?sv']) x = (if fst x = k \<and> 15 \<le> snd x \<and> unat n < snd x then 0 else ?f x)" if "x \<noteq> (k, 143)" for x
        unfolding s fun_upd_other [OF that] by (rule g' [OF that])
    qed (simp add: t(5))
    moreover have "trunc_rest n ?sv fs = Some (Inr (), ?sv', ?fs)" using 1 t(1) fr ib by (simp add: trunc_rest_def)
    ultimately show ?thesis by blast
  next
    case 2
    have "ib < sb_nblocks fs1" using c fk ib(2) nb unfolding claims_ok_def by metis
    then obtain fs' where w: "writeblock ib (idbuf2 fs1) fs1 = Some (Inr (), fs')" "volume_ok fs'" "same_volume fs1 fs'" "sfs_freemap fs' = sfs_freemap fs1"
        "disk fs' = disk (flushed ib fs1)"
      using writeblock_ok [OF t(3), of ib "idbuf2 fs1"] by auto
    have n: "sb_nblocks fs' = sb_nblocks fs1" using w(3) by (simp add: same_volume_def)
    have "sfs_ok fs' svs" using t(2) w(2,4) n unfolding sfs_ok_def w(5) by simp
    moreover have "shrinks fs svs fs' svs" using sh w(4) unfolding shrinks_def w(5) by simp
    moreover have "disk fs' (?f x) = disk fs (?f x)" if "?f x \<noteq> 0" "snd x \<noteq> 143" for x using keep [OF that] t(5) unfolding w(5) by simp
    ultimately have "truncated k (unat n) fs svs fs' svs" using g' unfolding w(5) [symmetric] by (intro truncatedI)
    moreover have "trunc_rest n ?sv fs = Some (Inr (), ?sv, fs')" using 2 t(1) w(1) ib nb by (simp add: trunc_rest_def)
    ultimately show ?thesis using k by auto
  next
    case 3
    then have e: "fs1 = fs" using t(7) by simp
    have "truncated k (unat n) fs svs fs svs" using g' unfolding e same by (intro truncatedI ok shrinks_refl refl)
    moreover have "trunc_rest n ?sv fs = Some (Inr (), ?sv, fs)" using 3 t(1) e by (simp add: trunc_rest_def)
    ultimately show ?thesis using k by auto
  qed
qed

lemma slots_meta: "sfi_direct sv' = sfi_direct sv \<Longrightarrow> sfi_indirect sv' = sfi_indirect sv \<Longrightarrow> slots S (svs[k := sv']) = slots S (svs[k := sv])"
proof
  fix x assume "sfi_direct sv' = sfi_direct sv" "sfi_indirect sv' = sfi_indirect sv"
  then show "slots S (svs[k := sv']) x = slots S (svs[k := sv]) x"
    by (cases "fst x = k") (auto simp: slots_def slot_def)
qed

lemma trunc_tail_ok:
  assumes ok: "sfs_ok fs svs" and k: "k < length svs"
  shows "\<exists>sv fs'. trunc_tail n (svs ! k) fs = Some (Inr (), sv, fs') \<and> truncated k (unat n) fs svs fs' (svs[k := sv])"
proof (cases "n < SFS_NDIRECT + SFS_DBPERIDB - 1 \<and> sfi_indirect (svs ! k) \<noteq> 0")
  case True
  let ?ib = "sfi_indirect (svs ! k)"
  have "slots (disk fs) svs (k, 143) = ?ib" using k by (simp add: slots_def slot_def)
  then have "?ib < sb_nblocks fs" using ok True unfolding sfs_ok_def claims_ok_def by metis
  moreover have v: "volume_ok fs" using ok by (simp add: sfs_ok_def)
  ultimately obtain fs1 where r: "readblock ?ib (idbuf2 fs) fs = Some (Inr (), fs1)" "volume_ok fs1" "same_volume fs fs1"
      "sfs_freemap fs1 = sfs_freemap fs" "disk fs1 = disk fs" "map (smem fs1) (addrs (idbuf2 fs) 512) = disk fs ?ib"
    using readblock_ok [of fs ?ib "idbuf2 fs"] by auto
  have s: "sb_nblocks fs1 = sb_nblocks fs" "idbuf2 fs1 = idbuf2 fs" using r(3) by (simp_all add: same_volume_def)
  have ok1: "sfs_ok fs1 svs" using ok r(2,4,5) s by (simp add: sfs_ok_def)
  obtain sv fs' where t: "trunc_rest n (svs ! k) fs1 = Some (Inr (), sv, fs')" "truncated k (unat n) fs1 svs fs' (svs[k := sv])"
    using trunc_rest_ok [OF ok1 k refl, of n] True r(5,6) s by auto
  then have "truncated k (unat n) fs svs fs' (svs[k := sv])" using r(4,5) unfolding truncated_def shrinks_def by simp
  then show ?thesis using True r(1) t(1) by (simp add: trunc_tail_def)
next
  case False
  have "SFS_NDIRECT + SFS_DBPERIDB - 1 = (142 :: u32)" by (simp add: SFS_NDIRECT_def SFS_DBPERIDB_def)
  then have n: "unat n < 142 \<Longrightarrow> sfi_indirect (svs ! k) = 0" using False by (simp add: word_less_nat_alt)
  have "truncated k (unat n) fs svs fs svs"
  proof (rule truncatedI [OF ok shrinks_refl [OF refl refl]])
    show "slots (disk fs) svs x = (if fst x = k \<and> 15 \<le> snd x \<and> unat n < snd x then 0 else slots (disk fs) svs x)" if x: "x \<noteq> (k, 143)" for x
    proof (cases "fst x = k \<and> 15 \<le> snd x \<and> unat n < snd x")
      case True
      then have "snd x \<noteq> 143" using x by (cases x) auto
      then have "slots (disk fs) svs x = 0" using True n by (cases "snd x < 143") (auto simp: slots_def slot_def)
      then show ?thesis by simp
    qed (rule if_not_P [symmetric])
  qed simp
  then show ?thesis using False k by (auto simp: trunc_tail_def)
qed

section \<open>A small volume\<close>

text \<open>
  For the witnesses, a volume of 8 blocks with one file: the block 2 is its first one, 3 its indirect block and 4 its block 15.
\<close>

definition demo_fs :: sfs_fs where
  "demo_fs = \<lparr>sb_nblocks = 8, sfs_freemap = \<lparr>nbits = 8, v = [31]\<rparr>, sfs_freemapdirty = False,
     sfs_device = \<lparr>lh_buf = 0x81000000, lh_result = None, lh_clear = 1, lh_done = 0, d_blocks = 8,
       sectors = (\<lambda>n. if n = 3 then [0, 0, 0, 4] @ replicate 508 0 else replicate 512 0), statuses = []\<rparr>,
     smem = (\<lambda>_. 0), space = \<lparr>cur_as = 0, cur_rights = \<lparr>readable = (\<lambda>_. True), writable = (\<lambda>_. True)\<rparr>\<rparr>,
     zeros = 0x80010000, idbuf = 0x80020000, idbuf2 = 0x80030000\<rparr>"

definition demo_file :: sfs_vnode where
  "demo_file = \<lparr>sv_ino = 5, sv_dirty = False, sfi_size = 8192, sfi_direct = 2 # replicate 14 0, sfi_indirect = 3\<rparr>"

lemma demo_slots: "slots (disk demo_fs) [demo_file] x = (if x = (0, 0) then 2 else if x = (0, 15) then 4 else if x = (0, 143) then 3 else 0)"
proof -
  have "slot (disk demo_fs) demo_file i = (if i = 0 then 2 else if i = 15 then 4 else if i = 143 then 3 else 0)" for i
  proof (cases "15 < i \<and> i < 143")
    case True
    then obtain j where "i = 16 + j" "j < 127" using that [of "i - 16"] by linarith
    then show ?thesis by (simp add: slot_def demo_fs_def demo_file_def sector_long_def nth_append join4_def)
  next
    case False
    then show ?thesis by (auto simp: slot_def demo_fs_def demo_file_def sector_long_def join4_def nth_Cons')
  qed
  then show ?thesis by (cases x) (simp add: slots_def)
qed

lemma addrs_apart: "unat p + 512 \<le> unat q \<Longrightarrow> fits q 512 \<Longrightarrow> set (addrs p 512) \<inter> set (addrs q 512) = {}"
proof -
  assume a: "unat p + 512 \<le> unat q" "fits q 512"
  have "p + of_nat i \<noteq> q + of_nat j" if "i < 512" "j < 512" for i j using a that by (intro ptr_neq) simp_all
  then show ?thesis by (fastforce simp: set_addrs)
qed

lemma demo_ok: "sfs_ok demo_fs [demo_file]"
proof -
  have "volume_ok demo_fs"
    by (auto simp: volume_ok_def demo_fs_def bm_inv_def bm_used_def disk_ok_def buf_ok_def paged_def Int_Un_distrib addrs_apart map_replicate_const)
  moreover have "claims_ok 8 (used demo_fs) (slots (disk demo_fs) [demo_file])"
    unfolding claims_ok_def demo_slots by (auto simp: demo_fs_def bm_used_def split: if_splits)
  ultimately show ?thesis by (simp add: sfs_ok_def demo_file_def demo_fs_def)
qed

section \<open>Properties\<close>

text \<open>
  C39. \<open>sfs_bmap\<close> on a consistent volume, for the file \<open>k\<close> of the open files. It never panics and keeps the volume
  consistent: every block of a file is in use, and no block is in two places. It returns the entry of the block, and with
  \<open>doalloc\<close> a nonzero one or \<open>ENOSPC\<close>; a block that is new is zero. No other entry of any file changes except that the
  file may get its indirect block, and every data block keeps its contents. A block number of 143 or more is \<open>EFBIG\<close>.
\<close>

theorem sfs_bmap_maps:
  assumes "sfs_ok fs svs" and "k < length svs"
  shows "if unat i < 143
    then \<exists>r sv fs'. sfs_bmap i doalloc (svs ! k) fs = Some (r, sv, fs') \<and> sfs_ok fs' (svs[k := sv]) \<and>
      grows k (unat i) fs svs fs' (svs[k := sv]) \<and> mapped k (unat i) doalloc fs svs r fs' (svs[k := sv])
    else sfs_bmap i doalloc (svs ! k) fs = Some (Inl EFBIG, svs ! k, fs)"
  using bmap_ok [OF assms] bmap_too_big by simp

text \<open>The file gets a block 16.\<close>

theorem sfs_bmap_maps_witness:
  "\<exists>r sv fs'. sfs_bmap 16 True demo_file demo_fs = Some (r, sv, fs') \<and> sfs_ok fs' [sv] \<and>
    (case r of Inl e \<Rightarrow> e = ENOSPC | Inr b \<Rightarrow> b \<noteq> 0 \<and> slots (disk fs') [sv] (0, 16) = b \<and> disk fs' b = replicate 512 0) \<and>
    slots (disk fs') [sv] (0, 15) = 4"
proof -
  obtain r sv fs' where "sfs_bmap 16 True demo_file demo_fs = Some (r, sv, fs')" "sfs_ok fs' [sv]"
      "grows 0 16 demo_fs [demo_file] fs' [sv]" "mapped 0 16 True demo_fs [demo_file] r fs' [sv]"
    using sfs_bmap_maps [OF demo_ok, of 0 16 True] by auto
  moreover from this have "slots (disk fs') [sv] (0, 15) = 4" by (simp add: grows_def Let_def demo_slots)
  ultimately show ?thesis by (cases r) (auto simp: mapped_def Let_def demo_slots)
qed

text \<open>
  C40. \<open>sfs_itrunc\<close> on a consistent volume, with \<open>n\<close> the new length in blocks. The file gets its new size, the volume stays consistent, and
  the blocks that leave the file are exactly those that the free map no longer has in use; no data block changes. Among the
  direct blocks those from \<open>n\<close> on leave, but among the indirect ones only those after \<open>n\<close>: the block \<open>n\<close>, the first one
  past the new end, stays in the file if it is an indirect one.
\<close>

theorem sfs_itrunc_frees:
  assumes "sfs_ok fs svs" and "k < length svs"
  shows "\<exists>sv fs'. sfs_itrunc len (svs ! k) fs = Some (Inr (), sv, fs') \<and> sfi_size sv = ucast len \<and> sfs_ok fs' (svs[k := sv]) \<and>
    shrinks fs svs fs' (svs[k := sv]) \<and>
    (let n = unat (trunc_length len); f = slots (disk fs) svs; f' = slots (disk fs') (svs[k := sv]) in
       (\<forall>x. x \<noteq> (k, 143) \<longrightarrow> f' x = (if fst x = k \<and> (if snd x < 15 then n \<le> snd x else n < snd x) then 0 else f x)) \<and>
       (\<forall>x. f' x \<noteq> 0 \<and> snd x \<noteq> 143 \<longrightarrow> disk fs' (f' x) = disk fs (f' x)))"
proof -
  let ?n = "trunc_length len" and ?f = "slots (disk fs) svs"
  have i: "set [0..<15] \<subseteq> {..<15 :: nat}" by auto
  obtain sv1 fs1 where d: "trunc_direct ?n [0..<15] (svs ! k) fs = Some (sv1, fs1)" "sfs_ok fs1 (svs[k := sv1])" "shrinks fs svs fs1 (svs[k := sv1])"
      "slots (disk fs1) (svs[k := sv1]) = (\<lambda>x. if fst x = k \<and> snd x \<in> set [0..<15] \<and> unat ?n \<le> snd x then 0 else ?f x)" "disk fs1 = disk fs"
    using trunc_direct_ok [OF assms i, of ?n] by blast
  have k: "k < length (svs[k := sv1])" "svs[k := sv1] ! k = sv1" "\<And>y. svs[k := sv1, k := y] = svs[k := y]" using assms(2) by simp_all
  obtain sv fs' where t: "trunc_tail ?n sv1 fs1 = Some (Inr (), sv, fs')" "truncated k (unat ?n) fs1 (svs[k := sv1]) fs' (svs[k := sv])"
    using trunc_tail_ok [OF d(2) k(1), of ?n] unfolding k(2,3) by blast
  let ?sv = "sv\<lparr>sfi_size := ucast len, sv_dirty := True\<rparr>"
  have s: "slots S (svs[k := ?sv]) = slots S (svs[k := sv])" for S by (rule slots_meta) simp_all
  have t': "sfs_ok fs' (svs[k := sv])" "shrinks fs1 (svs[k := sv1]) fs' (svs[k := sv])" using t(2) by (simp_all add: truncated_def)
  have "length (sfi_direct sv) = 15" using t'(1) assms(2) by (auto simp: sfs_ok_def dest: bspec [OF _ set_update_memI])
  then have ok: "sfs_ok fs' (svs[k := ?sv])" using t'(1) lengths_update [of "svs[k := sv]" ?sv k] unfolding sfs_ok_def s by simp
  have sh: "shrinks fs svs fs' (svs[k := ?sv])" using shrinks_trans [OF d(3) t'(2)] unfolding shrinks_def s .
  have e: "slots (disk fs') (svs[k := sv]) x = (if fst x = k \<and> (if snd x < 15 then unat ?n \<le> snd x else unat ?n < snd x) then 0 else ?f x)"
    if "x \<noteq> (k, 143)" for x using t(2) that unfolding truncated_def Let_def d(4) by (auto simp del: split_paired_All)
  have c: "disk fs' (slots (disk fs') (svs[k := sv]) x) = disk fs (slots (disk fs') (svs[k := sv]) x)"
    if x: "slots (disk fs') (svs[k := sv]) x \<noteq> 0" "snd x \<noteq> 143" for x
    using t(2) t'(2) x d(5) unfolding truncated_def shrinks_def Let_def by metis
  have "sfs_itrunc len (svs ! k) fs = Some (Inr (), ?sv, fs')" using d(1) t(1) by (simp add: sfs_itrunc_def del: upt.simps)
  then show ?thesis using ok sh e c unfolding Let_def s by (intro exI [of _ ?sv] exI [of _ fs']) (simp add: s del: split_paired_All)
qed

text \<open>The file is cut to 15 blocks, and keeps the block 15.\<close>

theorem sfs_itrunc_frees_witness:
  "\<exists>sv fs'. sfs_itrunc 7680 demo_file demo_fs = Some (Inr (), sv, fs') \<and> sfi_size sv = 7680 \<and> sfs_ok fs' [sv] \<and>
    trunc_length 7680 = 15 \<and> slots (disk fs') [sv] (0, 0) = 2 \<and> slots (disk fs') [sv] (0, 15) = 4"
proof -
  have n: "trunc_length 7680 = 15" by (simp add: trunc_length_def signed_divide_int_def)
  show ?thesis
    using sfs_itrunc_frees [OF demo_ok, of 0 7680] unfolding n Let_def by (fastforce simp: demo_slots)
qed

end
