(* ===== verification/Spec2Isabelle.thy ===== *)
theory Spec2Isabelle
  imports Maths Paintshop Division Bitmap Syscall Dumbvm Sfs
begin

text \<open>
  A verification library for the OS/161 kernel of \<open>src/asst2\<close> and the thread exercises of
  \<open>src/asst1\<close>.

  The program. OS/161 is a small multiprocessor kernel in C for a 32-bit MIPS machine. Its
  thread system (\<open>kern/thread\<close>) keeps threads on doubly linked lists, protects them with
  spinlocks that disable interrupts, and builds wait channels, semaphores, locks and condition
  variables on top; processes (\<open>kern/proc\<close>) own threads and a table of open files
  (\<open>kern/syscall/file.c\<close>); system calls are dispatched in \<open>kern/arch/mips/syscall\<close>; the
  virtual file system (\<open>kern/vfs\<close>) and the simple file system (\<open>kern/fs/sfs\<close>) stand below
  the files; \<open>kern/lib\<close> and \<open>common/libc\<close> hold arrays, bitmaps, uio blocks and strings.
  \<open>asst1\<close> holds two user programs of the semaphores: a pool of adders and a paint shop.

  Conventions. A C function that can panic, fail an assertion, follow a null pointer or loop
  forever returns an option, \<open>None\<close> being any of these; one that returns an error code returns
  a sum, \<open>Inl\<close> the code. State is passed explicitly. Machine integers that can wrap are words.
  The outcome of an allocation is an argument of the function that allocates. \<open>DEBUGASSERT\<close> is
  configured away in \<open>kern/include/lib.h\<close> and \<open>OPT_HANGMAN\<close> is off in the configuration that
  is built, so neither leaves a trace in the model.

  How the parts interact. The threads stand on the lists and the spinlocks; semaphores stand on the
  spinlocks and wait channels; the console and the disk driver wait on semaphores. A system call
  goes through the dispatcher to the file table, from there through the pathname functions of the VFS to a
  vnode, and through its operations to a device, moving its data with \<open>uiomove\<close> and, at the border to
  user memory, \<open>copyin\<close> and \<open>copyout\<close>. The simple file system reads and writes blocks of the disk
  driver and keeps its free blocks in a bitmap.

  Theories, each with the definitions first and the lemmas after them.
  \<^item> \<open>Prelude\<close>: error codes, assertions, rounding, lemmas on words and lists.
  \<^item> \<open>Threadlist\<close> (\<open>threadlist.c\<close>): the lists as a heap of prev, next and self fields; the
    operations refine operations on sequences, over any sequence of calls, and the iteration
    macros visit every element once.
  \<^item> \<open>Spinlock\<close> (\<open>spl.c\<close>, \<open>spinlock.c\<close>): the machine state; the functions as run by one cpu,
    with the interrupt bookkeeping they maintain; a step relation for any number of cpus, with
    mutual exclusion and progress.
  \<^item> \<open>Thread\<close>, \<open>Scheduler\<close>, \<open>Thread_Lifecycle\<close> (\<open>thread.c\<close>, \<open>clock.c\<close>, part of \<open>proc.c\<close>): the
    functions; the invariant that every thread is where its state says; round-robin
    yielding, first-in first-out wake-ups, forking, exiting and reaping.
  \<^item> \<open>Synch\<close> (\<open>synch.c\<close>): semaphores refine a counter with a queue, and no wake-up is lost under any
    interleaving; locks and condition variables do nothing, as in the source.
  \<^item> \<open>Maths\<close>, \<open>Paintshop\<close> (\<open>asst1\<close>): step relations of all interleavings; the adders count to 10000
    exactly and end; no can is lost, copied or handed over unmixed.
  \<^item> \<open>Millicode\<close>, \<open>Division\<close> (\<open>common/gcc-millicode\<close>): 64-bit arithmetic on 32-bit words
    agrees with arithmetic on 64-bit words; Knuth's division is exact and stays within its arrays.
  \<^item> \<open>Bitmap\<close> (\<open>bitmap.c\<close>): a locale of allocators of numbered resources, implemented by the bitmap.
  \<^item> \<open>Cstring\<close> (\<open>common/libc\<close>): memory and string functions on a byte memory with overlapping buffers.
  \<^item> \<open>Copyinout\<close> (\<open>copyinout.c\<close>), \<open>Uio\<close> (\<open>uio.c\<close>): which user addresses are touched, what is copied
    up to a fault, and what the \<open>uio\<close> says afterwards.
  \<^item> \<open>Console\<close> (\<open>console.c\<close>): the ring buffer is a queue; what is written appears in order.
  \<^item> \<open>Vnode\<close>, \<open>Vfs\<close> (\<open>kern/vfs\<close>): reference and open counts, the table of devices, pathname translation; opening and closing
    are balanced.
  \<^item> \<open>Filetable\<close> (\<open>file.c\<close>, part of \<open>proc.c\<close>), \<open>Syscall\<close> (\<open>syscall.c\<close>): the invariant between
    file tables, files and vnodes over any calls with any registers; the register convention;
    what the undeclared index and the short allocation of a file lead to.
  \<^item> \<open>Dumbvm\<close> (\<open>dumbvm.c\<close>, \<open>ram.c\<close>): address spaces never share a page, and the TLB maps pages of
    the current one only.
  \<^item> \<open>Disk\<close> (\<open>lhd.c\<close>, block transfers of \<open>sfs_io.c\<close>): reads are repeated after media errors; a write that fails
    once is lost.
  \<^item> \<open>Sfs\<close> (\<open>sfs_balloc.c\<close>, \<open>sfs_bmap.c\<close>): no block has two owners and every block of a file is in use;
    mapping a block changes no other, truncating frees exactly the blocks that leave the file.

  Bounds. No function has a fuel argument that can run out early. A loop of the source with a
  bound is recursion on that bound; one that scans memory or waits is a partial function in the option
  type, and the theorems that state a result of it state that it returns. \<open>rwblock_retry\<close>
  counts the ten retries of the source. Sizes are those of the source: words of 8, 32 and 64 bits, 16 files in a
  process, 64 TLB entries, 15 direct blocks and 128 entries of an indirect block.

  Granularity. Functions that hold a spinlock or the big lock of the VFS are one step; the interleavings are modelled for the spinlocks
  themselves, the semaphores and the programs of \<open>asst1\<close>. In \<open>Sfs\<close> the disk reports no
  errors; \<open>Disk\<close> shows what errors do to a single block.

  Not modelled.
  \<^item> The rest of the simple file system (\<open>sfs_dir.c\<close>, \<open>sfs_inode.c\<close>, \<open>sfs_fsops.c\<close>, \<open>sfs_vnops.c\<close>, transfers of
    parts of files in \<open>sfs_io.c\<close>) and \<open>semfs\<close>: file systems are a parameter of \<open>Vnode\<close> and \<open>Vfs\<close>.
  \<^item> \<open>kmalloc.c\<close>: the outcome of an allocation is an argument.
  \<^item> Assembly, the trap decoder, \<open>loadelf.c\<close>, \<open>runprogram.c\<close>, \<open>menu.c\<close> and the start of \<open>main.c\<close>: entering and
    leaving user mode and the boot sequence.
  \<^item> Drivers other than disk and console, printing, line input, \<open>array.c\<close>, \<open>bswap.c\<close>, \<open>time.c\<close>, \<open>hangman.c\<close>
    (not configured), \<open>addrspace.c\<close> (not compiled), kernel tests, user programs and libraries.
\<close>

end
